(* ===== verification/Klyro_Prelude.thy ===== *)
theory Klyro_Prelude
  imports Main "HOL-Library.Word" "HOL-Library.Multiset"
begin

text \<open>
  Shared ground of the development: names for the machine integers of the C++ sources, byte
  buffers with the two operations the code performs on them (reading a span, \<open>memcpy\<close> into a
  span), little-endian encoding of machine words, and the collections of rewrite rules that the
  component theories extend.

  A byte buffer is a list of 8-bit words. \<open>bslice off n xs\<close> is the span of \<open>n\<close> bytes at \<open>off\<close>;
  \<open>patch off bs xs\<close> is the buffer after \<open>memcpy(xs + off, bs, |bs|)\<close>. A write that left its
  buffer would change the length of the list, so a lemma that an operation keeps the length of
  a buffer also says that its writes stay inside.
\<close>

unbundle bit_operations_syntax

named_theorems buffer_simps \<open>reading and writing spans of byte buffers\<close>
named_theorems word_nat_simps \<open>unsigned readings of word arithmetic that does not wrap\<close>

type_synonym byte = "8 word"
type_synonym u16 = "16 word"
type_synonym u32 = "32 word"
type_synonym u64 = "64 word"
type_synonym bytes = "byte list"

section \<open>Spans of byte buffers\<close>

definition bslice :: "nat \<Rightarrow> nat \<Rightarrow> 'a list \<Rightarrow> 'a list" where
  "bslice off n xs = take n (drop off xs)"

definition patch :: "nat \<Rightarrow> 'a list \<Rightarrow> 'a list \<Rightarrow> 'a list" where
  "patch off bs xs = take off xs @ bs @ drop (off + length bs) xs"

lemma length_slice [simp]: "length (bslice off n xs) = min n (length xs - off)"
  by (simp add: bslice_def)

lemma length_slice_in: "off + n \<le> length xs \<Longrightarrow> length (bslice off n xs) = n"
  by simp

lemma slice_0 [simp]: "bslice off 0 xs = []"
  by (simp add: bslice_def)

lemma nth_slice: "i < n \<Longrightarrow> off + n \<le> length xs \<Longrightarrow> bslice off n xs ! i = xs ! (off + i)"
  by (simp add: bslice_def)

lemma slice_eqI:
  assumes "off + n \<le> length xs" "off' + n \<le> length ys"
    and "\<And>i. i < n \<Longrightarrow> xs ! (off + i) = ys ! (off' + i)"
  shows "bslice off n xs = bslice off' n ys"
  by (rule nth_equalityI) (use assms in \<open>auto simp: nth_slice\<close>)

lemma slice_append_left: "off + n \<le> length xs \<Longrightarrow> bslice off n (xs @ ys) = bslice off n xs"
  by (simp add: bslice_def)

lemma slice_append_right: "bslice (length xs) n (xs @ ys) = take n ys"
  by (simp add: bslice_def)

lemma slice_append_shift: "length xs \<le> off \<Longrightarrow> bslice off n (xs @ ys) = bslice (off - length xs) n ys"
  by (simp add: bslice_def)

lemma slice_Cons_pos: "0 < off \<Longrightarrow> bslice off n (x # xs) = bslice (off - 1) n xs"
  by (cases off) (simp_all add: bslice_def)

lemma slice_Cons_0 [simp]: "bslice 0 (Suc n) (x # xs) = x # bslice 0 n xs"
  by (simp add: bslice_def)

lemma slice_slice: "i + m \<le> n \<Longrightarrow> bslice i m (bslice off n xs) = bslice (off + i) m xs"
  by (simp add: bslice_def take_drop min_def add.commute)

lemma slice_full [simp]: "n = length xs \<Longrightarrow> bslice 0 n xs = xs"
  by (simp add: bslice_def)

lemma length_patch [simp, buffer_simps]:
  "off + length bs \<le> length xs \<Longrightarrow> length (patch off bs xs) = length xs"
  by (simp add: patch_def)

lemma patch_Nil [simp]: "patch off [] xs = xs"
  by (simp add: patch_def)

lemma nth_patch:
  assumes "off + length bs \<le> length xs" "i < length xs"
  shows "patch off bs xs ! i = (if off \<le> i \<and> i < off + length bs then bs ! (i - off) else xs ! i)"
  using assms by (auto simp: patch_def nth_append min_def)

lemma slice_patch_same [simp, buffer_simps]:
  "off + length bs \<le> length xs \<Longrightarrow> bslice off (length bs) (patch off bs xs) = bs"
  by (simp add: bslice_def patch_def)

lemma slice_patch_same' [buffer_simps]:
  "off + length bs \<le> length xs \<Longrightarrow> n = length bs \<Longrightarrow> bslice off n (patch off bs xs) = bs"
  by simp

lemma slice_patch_disjoint [buffer_simps]:
  assumes "o2 + length bs \<le> length xs" "o1 + n \<le> length xs" "o1 + n \<le> o2 \<or> o2 + length bs \<le> o1"
  shows "bslice o1 n (patch o2 bs xs) = bslice o1 n xs"
  by (rule slice_eqI) (use assms in \<open>auto simp: nth_patch\<close>)

lemma slice_patch_inside:
  assumes "off + length bs \<le> length xs" "off \<le> o1" "o1 + n \<le> off + length bs"
  shows "bslice o1 n (patch off bs xs) = bslice (o1 - off) n bs"
  by (rule slice_eqI) (use assms in \<open>auto simp: nth_patch\<close>)

lemma drop_patch: "off + length bs \<le> length xs \<Longrightarrow> off + length bs \<le> k \<Longrightarrow> drop k (patch off bs xs) = drop k xs"
  by (simp add: patch_def)

lemma nth_patch_disjoint [buffer_simps]:
  assumes "off + length bs \<le> length xs" "i < length xs" "i < off \<or> off + length bs \<le> i"
  shows "patch off bs xs ! i = xs ! i"
  using assms by (auto simp: nth_patch)

lemma list_update_patch: "i < length xs \<Longrightarrow> xs[i := b] = patch i [b] xs"
  by (simp add: patch_def upd_conv_take_nth_drop)

lemma patch_patch_adjacent:
  assumes "k = off + length bs" "k + length cs \<le> length xs"
  shows "patch k cs (patch off bs xs) = patch off (bs @ cs) xs"
  using assms by (simp add: patch_def ac_simps)

lemma patch_same: "length bs = length cs \<Longrightarrow> off + length cs \<le> length xs \<Longrightarrow>
    patch off bs (patch off cs xs) = patch off bs xs"
  by (simp add: patch_def)

lemma slice_add: "bslice off (m + n) xs = bslice off m xs @ bslice (off + m) n xs"
  by (simp add: bslice_def take_add add.commute)

lemma patch_slice_id: "off + n \<le> length xs \<Longrightarrow> patch off (bslice off n xs) xs = xs"
  by (rule nth_equalityI) (auto simp: nth_patch nth_slice)

section \<open>Little-endian words\<close>

primrec le_bytes :: "nat \<Rightarrow> 'a::len word \<Rightarrow> bytes" where
  "le_bytes 0 w = []"
| "le_bytes (Suc n) w = ucast w # le_bytes n (drop_bit 8 w)"

primrec le_word :: "bytes \<Rightarrow> 'a::len word" where
  "le_word [] = 0"
| "le_word (b # bs) = ucast b OR push_bit 8 (le_word bs)"

lemma length_le_bytes [simp]: "length (le_bytes n w) = n"
  by (induction n arbitrary: w) simp_all

lemma bit_le_word:
  "bit (le_word bs :: 'a::len word) i \<longleftrightarrow>
     i < LENGTH('a) \<and> i div 8 < length bs \<and> bit (bs ! (i div 8)) (i mod 8)"
proof (induction bs arbitrary: i)
  case Nil
  then show ?case by simp
next
  case (Cons b bs)
  show ?case
  proof (cases "i < 8")
    case True
    then show ?thesis by (auto simp: bit_simps)
  next
    case False
    then have "i div 8 = Suc ((i - 8) div 8)" "i mod 8 = (i - 8) mod 8"
      by (simp_all add: le_div_geq le_mod_geq)
    moreover have "\<not> bit b i"
      using False bit_imp_le_length [of b i] by auto
    ultimately show ?thesis
      using False Cons.IH [of "i - 8"] by (auto simp: bit_simps)
  qed
qed

lemma nth_le_bytes: "k < n \<Longrightarrow> le_bytes n w ! k = ucast (drop_bit (8 * k) w)"
proof (induction n arbitrary: w k)
  case 0
  then show ?case by simp
next
  case (Suc n)
  then show ?case by (cases k) (simp_all add: ac_simps)
qed

lemma le_word_le_bytes_take: "le_word (le_bytes n w) = (take_bit (8 * n) w :: 'a::len word)"
proof (rule bit_word_eqI)
  fix i assume "i < LENGTH('a)"
  then show "bit (le_word (le_bytes n w) :: 'a word) i \<longleftrightarrow> bit (take_bit (8 * n) w) i"
    by (auto simp: bit_le_word nth_le_bytes bit_simps)
qed

lemma le_word_le_bytes [simp]: "LENGTH('a) \<le> 8 * n \<Longrightarrow> le_word (le_bytes n (w :: 'a::len word)) = w"
  by (simp add: le_word_le_bytes_take take_bit_word_eq_self)

lemma le_bytes_le_word:
  "n = length bs \<Longrightarrow> 8 * length bs \<le> LENGTH('a::len) \<Longrightarrow> le_bytes n (le_word bs :: 'a word) = bs"
proof (rule nth_equalityI)
  fix k assume "n = length bs" "8 * length bs \<le> LENGTH('a)" "k < length (le_bytes n (le_word bs :: 'a word))"
  then have k: "k < length bs" and len: "8 * k + 8 \<le> LENGTH('a)" and n: "n = length bs"
    by auto
  show "le_bytes n (le_word bs :: 'a word) ! k = bs ! k"
  proof (rule bit_word_eqI)
    fix i assume "i < LENGTH(8)"
    then show "bit (le_bytes n (le_word bs :: 'a word) ! k) i \<longleftrightarrow> bit (bs ! k) i"
      using k len n by (auto simp: nth_le_bytes bit_simps bit_le_word div_mult_self4)
  qed
qed simp

section \<open>Unsigned arithmetic that does not wrap\<close>

lemma unat_less_full: "unat (w :: 'a::len word) < 2 ^ LENGTH('a)"
  by (rule unsigned_less)

lemma unat_plus_if_fits [word_nat_simps]:
  "unat (a :: 'a::len word) + unat b < 2 ^ LENGTH('a) \<Longrightarrow> unat (a + b) = unat a + unat b"
  by (simp add: unat_word_ariths)

lemma unat_minus_if_le [word_nat_simps]:
  "unat (b :: 'a::len word) \<le> unat a \<Longrightarrow> unat (a - b) = unat a - unat b"
  by (simp add: unat_sub word_le_nat_alt)

lemma unat_of_nat_fits [word_nat_simps]:
  "n < 2 ^ LENGTH('a::len) \<Longrightarrow> unat (of_nat n :: 'a word) = n"
  by (simp add: unat_of_nat)

section \<open>Association lists\<close>

lemma map_of_filter_val:
  assumes "distinct (map fst h)"
  shows "map_of (filter (\<lambda>(k, v). P v) h) n = (case map_of h n of None \<Rightarrow> None | Some v \<Rightarrow> if P v then Some v else None)"
  using assms
proof (induction h)
  case (Cons e h)
  obtain k v where e: "e = (k, v)" by fastforce
  have "map_of h k = None" using Cons.prems e by (simp add: map_of_eq_None_iff)
  then show ?case using Cons e by auto
qed simp

end
