(* ===== verification/Core_Base.thy ===== *)
theory Core_Base
  imports Klyro_Prelude
begin

text \<open>
  The vocabulary of \<open>include/klyro/core\<close>: the status codes of expected failures, \<open>Result<T>\<close> as
  a sum, the strong identifiers with their invalid value, and the configuration defaults.
  C++ exceptions that a routine can raise are values of \<open>exn\<close>.
\<close>

section \<open>Status and Result\<close>

datatype status =
    OK | InvalidArgument | NotFound | AlreadyExists | InvalidState | IOError | Corruption
  | Busy | Timeout | TransactionAborted | Unsupported | InternalError

text \<open>\<open>Result<T>\<close>: \<open>Inl\<close> carries the failure status, \<open>Inr\<close> the value.\<close>

type_synonym 'a result = "status + 'a"

fun status_to_string :: "status \<Rightarrow> string" where
  "status_to_string OK = ''OK''"
| "status_to_string InvalidArgument = ''InvalidArgument''"
| "status_to_string NotFound = ''NotFound''"
| "status_to_string AlreadyExists = ''AlreadyExists''"
| "status_to_string InvalidState = ''InvalidState''"
| "status_to_string IOError = ''IOError''"
| "status_to_string Corruption = ''Corruption''"
| "status_to_string Busy = ''Busy''"
| "status_to_string Timeout = ''Timeout''"
| "status_to_string TransactionAborted = ''TransactionAborted''"
| "status_to_string Unsupported = ''Unsupported''"
| "status_to_string InternalError = ''InternalError''"

lemma status_to_string_inj: "status_to_string a = status_to_string b \<Longrightarrow> a = b"
  by (cases a; cases b) simp_all

text \<open>Exceptions of the standard library that the modelled routines throw.\<close>

datatype exn =
    runtime_error string | invalid_argument string | overflow_error string | out_of_range string
  | bad_variant_access

section \<open>Strong identifiers\<close>

text \<open>
  \<open>StrongID<Tag>\<close> wraps a 64-bit value; the largest value means invalid and is what the default
  constructor gives. \<open>FrameID\<close> is the 32-bit instance.
\<close>

type_synonym page_id = u64
type_synonym frame_id = u32

definition invalid_value :: "'a::len word" where
  "invalid_value = - 1"

definition is_valid_id :: "'a::len word \<Rightarrow> bool" where
  "is_valid_id i \<longleftrightarrow> i \<noteq> invalid_value"

lemma unat_minus_one_full: "unat (- 1 :: 'a::len word) = 2 ^ LENGTH('a) - 1"
  by (metis mask_eq_exp_minus_1 unsigned_minus_1_eq_mask)

lemma unat_invalid_value: "unat (invalid_value :: 'a::len word) = 2 ^ LENGTH('a) - 1"
  by (simp add: invalid_value_def unat_minus_one_full)

lemma is_valid_id_less: "unat (i :: 'a::len word) < 2 ^ LENGTH('a) - 1 \<Longrightarrow> is_valid_id i"
  using unat_invalid_value [where 'a = 'a] by (auto simp: is_valid_id_def)

section \<open>Configuration\<close>

definition DEFAULT_PAGE_SIZE :: nat where
  "DEFAULT_PAGE_SIZE = 8192"

definition DEFAULT_BUFFER_POOL_SIZE :: nat where
  "DEFAULT_BUFFER_POOL_SIZE = 64 * 1024 * 1024"

record config =
  page_size :: nat
  buffer_pool_size :: nat
  max_connections :: nat

definition default_config :: config where
  "default_config = \<lparr>page_size = DEFAULT_PAGE_SIZE, buffer_pool_size = DEFAULT_BUFFER_POOL_SIZE,
     max_connections = 100\<rparr>"

end
