(* ===== verification/Byte_Codec.thy ===== *)
theory Byte_Codec
  imports Core_Base
begin

text \<open>
  \<open>include/klyro/storage/serialization.hpp\<close> and \<open>src/storage/checksum.cpp\<close>: the explicit
  little-endian accessors that write one byte at a time, and the table-driven CRC32C.
  The accessors are shown to be \<open>memcpy\<close> of the little-endian image of the word, which is the
  form the page and record formats use; the checksum is shown equal to the bit-serial CRC, and
  injective in each single byte of its input.
\<close>

section \<open>Little-endian accessors\<close>

definition write_u16_le :: "bytes \<Rightarrow> nat \<Rightarrow> u16 \<Rightarrow> bytes" where
  "write_u16_le buffer offset value =
     buffer[offset := ucast (value AND 0xFF),
            offset + 1 := ucast (drop_bit 8 value AND 0xFF)]"

definition write_u32_le :: "bytes \<Rightarrow> nat \<Rightarrow> u32 \<Rightarrow> bytes" where
  "write_u32_le buffer offset value =
     buffer[offset := ucast (value AND 0xFF),
            offset + 1 := ucast (drop_bit 8 value AND 0xFF),
            offset + 2 := ucast (drop_bit 16 value AND 0xFF),
            offset + 3 := ucast (drop_bit 24 value AND 0xFF)]"

definition write_u64_le :: "bytes \<Rightarrow> nat \<Rightarrow> u64 \<Rightarrow> bytes" where
  "write_u64_le buffer offset value =
     buffer[offset := ucast (value AND 0xFF),
            offset + 1 := ucast (drop_bit 8 value AND 0xFF),
            offset + 2 := ucast (drop_bit 16 value AND 0xFF),
            offset + 3 := ucast (drop_bit 24 value AND 0xFF),
            offset + 4 := ucast (drop_bit 32 value AND 0xFF),
            offset + 5 := ucast (drop_bit 40 value AND 0xFF),
            offset + 6 := ucast (drop_bit 48 value AND 0xFF),
            offset + 7 := ucast (drop_bit 56 value AND 0xFF)]"

definition read_u16_le :: "bytes \<Rightarrow> nat \<Rightarrow> u16" where
  "read_u16_le buffer offset = ucast (buffer ! offset) OR push_bit 8 (ucast (buffer ! (offset + 1)))"

definition read_u32_le :: "bytes \<Rightarrow> nat \<Rightarrow> u32" where
  "read_u32_le buffer offset =
     ucast (buffer ! offset) OR push_bit 8 (ucast (buffer ! (offset + 1)))
     OR push_bit 16 (ucast (buffer ! (offset + 2))) OR push_bit 24 (ucast (buffer ! (offset + 3)))"

definition read_u64_le :: "bytes \<Rightarrow> nat \<Rightarrow> u64" where
  "read_u64_le buffer offset =
     ucast (buffer ! offset) OR push_bit 8 (ucast (buffer ! (offset + 1)))
     OR push_bit 16 (ucast (buffer ! (offset + 2))) OR push_bit 24 (ucast (buffer ! (offset + 3)))
     OR push_bit 32 (ucast (buffer ! (offset + 4))) OR push_bit 40 (ucast (buffer ! (offset + 5)))
     OR push_bit 48 (ucast (buffer ! (offset + 6))) OR push_bit 56 (ucast (buffer ! (offset + 7)))"

lemma bit_FF_iff: "bit (0xFF :: 'a::len word) i \<longleftrightarrow> i < LENGTH('a) \<and> i < 8"
proof -
  have "(0xFF :: 'a word) = mask 8"
    by (simp add: mask_eq_exp_minus_1)
  then show ?thesis
    by (simp only: bit_mask_iff) auto
qed

lemma ucast_and_FF: "(ucast (w AND 0xFF) :: byte) = ucast (w :: 'a::len word)"
proof (rule bit_word_eqI)
  fix i assume "i < LENGTH(8)"
  then show "bit (ucast (w AND 0xFF) :: byte) i \<longleftrightarrow> bit (ucast w :: byte) i"
    by (simp only: bit_unsigned_iff bit_and_iff bit_FF_iff) (auto dest: bit_imp_le_length)
qed

lemma patch_one_more:
  "off + length bs < length xs \<Longrightarrow> k = off + length bs \<Longrightarrow> (patch off bs xs)[k := b] = patch off (bs @ [b]) xs"
  by (simp add: list_update_patch patch_patch_adjacent)

lemma write_u16_le_patch: "off + 2 \<le> length b \<Longrightarrow> write_u16_le b off v = patch off (le_bytes 2 v) b"
  by (simp add: write_u16_le_def ucast_and_FF numeral_eq_Suc list_update_patch [of off] patch_one_more)

lemma write_u32_le_patch: "off + 4 \<le> length b \<Longrightarrow> write_u32_le b off v = patch off (le_bytes 4 v) b"
  by (simp add: write_u32_le_def ucast_and_FF list_update_patch [of off] patch_one_more)
     (simp add: numeral_eq_Suc)

lemma write_u64_le_patch: "off + 8 \<le> length b \<Longrightarrow> write_u64_le b off v = patch off (le_bytes 8 v) b"
  by (simp add: write_u64_le_def ucast_and_FF list_update_patch [of off] patch_one_more)
     (simp add: numeral_eq_Suc)


lemma slice_nths2: "off + 2 \<le> length b \<Longrightarrow> bslice off 2 b = [b ! off, b ! (off + 1)]"
  by (rule nth_equalityI) (auto simp: nth_slice less_Suc_eq numeral_eq_Suc)

lemma slice_nths4:
  "off + 4 \<le> length b \<Longrightarrow> bslice off 4 b = [b ! off, b ! (off + 1), b ! (off + 2), b ! (off + 3)]"
  by (rule nth_equalityI) (auto simp: nth_slice less_Suc_eq numeral_eq_Suc)

lemma slice_nths8:
  "off + 8 \<le> length b \<Longrightarrow> bslice off 8 b = [b ! off, b ! (off + 1), b ! (off + 2), b ! (off + 3),
     b ! (off + 4), b ! (off + 5), b ! (off + 6), b ! (off + 7)]"
  by (rule nth_equalityI) (auto simp: nth_slice less_Suc_eq numeral_eq_Suc)

lemma read_u16_le_slice: "off + 2 \<le> length b \<Longrightarrow> read_u16_le b off = le_word (bslice off 2 b)"
  by (simp add: slice_nths2 read_u16_le_def)

lemma read_u32_le_slice: "off + 4 \<le> length b \<Longrightarrow> read_u32_le b off = le_word (bslice off 4 b)"
  by (simp add: slice_nths4 read_u32_le_def push_bit_or or.assoc)

lemma read_u64_le_slice: "off + 8 \<le> length b \<Longrightarrow> read_u64_le b off = le_word (bslice off 8 b)"
  by (simp add: slice_nths8 read_u64_le_def push_bit_or or.assoc)

lemmas le_patch = write_u16_le_patch write_u32_le_patch write_u64_le_patch
lemmas le_slice = read_u16_le_slice read_u32_le_slice read_u64_le_slice

section \<open>CRC32C\<close>

definition CRC32C_POLYNOMIAL :: u32 where
  "CRC32C_POLYNOMIAL = 0x82f63b78"

text \<open>One round of the inner loop of the \<open>Crc32cTable\<close> constructor.\<close>

definition crc_step :: "u32 \<Rightarrow> u32" where
  "crc_step c = (if c AND 1 \<noteq> 0 then CRC32C_POLYNOMIAL XOR drop_bit 1 c else drop_bit 1 c)"

definition Crc32cTable :: "u32 list" where
  "Crc32cTable = map (\<lambda>i. (crc_step ^^ 8) (of_nat i)) [0..<256]"

text \<open>One round of the loop of \<open>calculate_checksum\<close>: look up by the low byte, shift the rest.\<close>

definition crc_byte :: "u32 \<Rightarrow> byte \<Rightarrow> u32" where
  "crc_byte crc b =
     (let index = (ucast (crc XOR ucast b) :: byte)
      in Crc32cTable ! unat index XOR drop_bit 8 crc)"

definition calculate_checksum :: "bytes \<Rightarrow> u32" where
  "calculate_checksum data = foldl crc_byte 0xFFFFFFFF data XOR 0xFFFFFFFF"

text \<open>The reference: eight rounds of the bit-serial register per byte, no table.\<close>

definition crc_serial :: "bytes \<Rightarrow> u32" where
  "crc_serial data = foldl (\<lambda>crc b. (crc_step ^^ 8) (crc XOR ucast b)) 0xFFFFFFFF data XOR 0xFFFFFFFF"

lemma and_1_neq_0: "(c :: u32) AND 1 \<noteq> 0 \<longleftrightarrow> bit c 0"
  by (simp add: and_one_eq bit_0 odd_iff_mod_2_eq_one)

lemma crc_step_xor: "crc_step (a XOR b) = crc_step a XOR crc_step b"
proof -
  have cancel: "CRC32C_POLYNOMIAL XOR (x XOR y) = (CRC32C_POLYNOMIAL XOR x) XOR y"
    "x XOR (CRC32C_POLYNOMIAL XOR y) = (CRC32C_POLYNOMIAL XOR x) XOR y"
    "(CRC32C_POLYNOMIAL XOR x) XOR (CRC32C_POLYNOMIAL XOR y) = x XOR y" for x y
    by (auto simp: bit_eq_iff bit_xor_iff)
  show ?thesis
    by (auto simp: crc_step_def and_1_neq_0 bit_xor_iff cancel)
qed

lemma crc_steps_xor: "(crc_step ^^ n) (a XOR b) = (crc_step ^^ n) a XOR (crc_step ^^ n) b"
  by (induction n) (simp_all add: crc_step_xor)

lemma crc_step_even: "\<not> bit c 0 \<Longrightarrow> crc_step c = drop_bit 1 c"
  by (simp add: crc_step_def and_1_neq_0)

lemma crc_steps_shift: "(\<And>i. i < n \<Longrightarrow> \<not> bit c i) \<Longrightarrow> (crc_step ^^ n) c = drop_bit n c"
proof (induction n)
  case (Suc n)
  then have "(crc_step ^^ n) c = drop_bit n c" by simp
  moreover have "\<not> bit (drop_bit n c) 0"
    using Suc.prems [of n] by (simp add: bit_drop_bit_eq)
  ultimately show ?case
    by (simp add: crc_step_even)
qed simp

lemma Crc32cTable_nth: "Crc32cTable ! unat (i :: byte) = (crc_step ^^ 8) (ucast i)"
proof -
  have "unat i < 256" using unsigned_less [of i] by simp
  then show ?thesis by (simp add: Crc32cTable_def unsigned_of_nat del: funpow.simps)
qed

lemma crc_byte_serial: "crc_byte crc b = (crc_step ^^ 8) (crc XOR ucast b)"
proof -
  let ?c = "crc XOR ucast b :: u32"
  let ?lo = "ucast (ucast ?c :: byte) :: u32"
  have split: "?c = ?lo XOR (?c XOR ?lo)"
    by (auto simp: bit_eq_iff bit_xor_iff)
  have "\<not> bit (?c XOR ?lo) i" if "i < 8" for i
    using that by (auto simp: bit_simps)
  then have "(crc_step ^^ 8) (?c XOR ?lo) = drop_bit 8 (?c XOR ?lo)"
    by (rule crc_steps_shift)
  also have "\<dots> = drop_bit 8 crc"
    by (rule bit_word_eqI) (auto simp: bit_simps dest: bit_imp_le_length)
  finally have hi: "(crc_step ^^ 8) (?c XOR ?lo) = drop_bit 8 crc" .
  have "(crc_step ^^ 8) ?c = (crc_step ^^ 8) ?lo XOR (crc_step ^^ 8) (?c XOR ?lo)"
    by (subst split) (rule crc_steps_xor)
  then show ?thesis
    by (simp only: hi crc_byte_def Let_def Crc32cTable_nth)
qed

text \<open>C30. The table-driven checksum computes the bit-serial CRC32C of every input.\<close>

theorem calculate_checksum_serial: "calculate_checksum data = crc_serial data"
  unfolding calculate_checksum_def crc_serial_def crc_byte_serial ..

subsection \<open>Error detection\<close>

lemma crc_step_odd: "bit c 0 \<Longrightarrow> crc_step c = CRC32C_POLYNOMIAL XOR drop_bit 1 c"
  by (simp add: crc_step_def and_1_neq_0)

lemma word_eq_by_shift:
  assumes "bit (a :: 'a::len word) 0 \<longleftrightarrow> bit b 0" "drop_bit 1 a = drop_bit 1 b"
  shows "a = b"
proof (rule bit_word_eqI)
  fix i
  show "bit a i \<longleftrightarrow> bit b i"
  proof (cases i)
    case (Suc k)
    with arg_cong [OF assms(2), of "\<lambda>w. bit w k"] show ?thesis
      by (simp add: bit_drop_bit_eq)
  qed (use assms in simp)
qed

lemma xor_left_cancel: "(p :: 'a::len word) XOR x = p XOR y \<longleftrightarrow> x = y"
  by (auto simp: bit_eq_iff bit_xor_iff)

lemma crc_step_inj: "crc_step a = crc_step b \<Longrightarrow> a = b"
proof -
  assume eq: "crc_step a = crc_step b"
  have poly31: "bit CRC32C_POLYNOMIAL 31"
    by (simp add: CRC32C_POLYNOMIAL_def)
  have top: "bit (crc_step c) 31 \<longleftrightarrow> bit c 0" for c
    using poly31 bit_imp_le_length [of c 32] by (auto simp: crc_step_def and_1_neq_0 bit_simps)
  from eq top have b0: "bit a 0 \<longleftrightarrow> bit b 0" by metis
  with eq have "drop_bit 1 a = drop_bit 1 b"
    by (cases "bit a 0") (simp_all add: crc_step_even crc_step_odd xor_left_cancel)
  with b0 show "a = b"
    by (rule word_eq_by_shift)
qed

lemma crc_steps_inj: "(crc_step ^^ n) a = (crc_step ^^ n) b \<Longrightarrow> a = b"
  by (induction n) (auto dest: crc_step_inj)

lemma crc_byte_inj_crc: assumes "crc_byte c b = crc_byte c' b" shows "c = c'"
proof -
  from assms have "c XOR ucast b = c' XOR ucast b"
    unfolding crc_byte_serial by (rule crc_steps_inj)
  then show ?thesis
    by (metis xor.commute xor_left_cancel)
qed

lemma crc_byte_inj_byte: assumes "crc_byte c b = crc_byte c b'" shows "b = b'"
proof -
  from assms have "c XOR ucast b = c XOR ucast b'"
    unfolding crc_byte_serial by (rule crc_steps_inj)
  then have "(ucast b :: u32) = ucast b'"
    by (simp only: xor_left_cancel)
  then show ?thesis
    by (auto simp: bit_eq_iff bit_unsigned_iff)
qed

lemma foldl_crc_inj: "foldl crc_byte c bs = foldl crc_byte c' bs \<Longrightarrow> c = c'"
  by (induction bs arbitrary: c c') (auto dest: crc_byte_inj_crc)

lemma checksum_update_neq:
  assumes "i < length data" "b \<noteq> data ! i"
  shows "calculate_checksum (data[i := b]) \<noteq> calculate_checksum data"
proof
  assume "calculate_checksum (data[i := b]) = calculate_checksum data"
  moreover have "data = take i data @ data ! i # drop (Suc i) data"
    using assms(1) by (rule id_take_nth_drop)
  moreover have "data[i := b] = take i data @ b # drop (Suc i) data"
    using assms(1) by (rule upd_conv_take_nth_drop)
  ultimately have "foldl crc_byte 0xFFFFFFFF (take i data @ b # drop (Suc i) data) =
      foldl crc_byte 0xFFFFFFFF (take i data @ data ! i # drop (Suc i) data)"
    by (metis calculate_checksum_def xor.commute xor_left_cancel)
  then have "crc_byte (foldl crc_byte 0xFFFFFFFF (take i data)) b =
      crc_byte (foldl crc_byte 0xFFFFFFFF (take i data)) (data ! i)"
    by (simp add: foldl_crc_inj)
  with assms(2) show False
    by (auto dest: crc_byte_inj_byte)
qed

text \<open>Changing any single byte of a buffer changes its checksum.\<close>

lemma calculate_checksum_detects_byte:
  assumes "i < length data" "b \<noteq> data ! i"
  shows "calculate_checksum (data[i := b]) \<noteq> calculate_checksum data"
  by (rule checksum_update_neq [OF assms])

end
