(* ===== verification/Page_Format.thy ===== *)
theory Page_Format
  imports Byte_Codec
begin

text \<open>
  \<open>page_header.hpp/.cpp\<close>, \<open>page.hpp/.cpp\<close> and \<open>database_header.hpp/.cpp\<close>: the generic 36-byte
  page header, the in-memory page, and the database header of page 0. The two header formats are
  shown to be exact encodings: decoding inverts encoding, encoding the decoded header restores the
  buffer, and nothing outside the header is written.
\<close>

section \<open>Page header\<close>

text \<open>
  \<open>enum class PageType : uint8_t\<close>. The decoder casts an arbitrary byte to it, so the field ranges
  over all bytes and the enumerators are constants.
\<close>

type_synonym PageType = byte

definition PageType_Invalid :: PageType where "PageType_Invalid = 0"
definition PageType_Metadata :: PageType where "PageType_Metadata = 1"
definition PageType_Table :: PageType where "PageType_Table = 2"
definition PageType_Index :: PageType where "PageType_Index = 3"
definition PageType_FreeSpace :: PageType where "PageType_FreeSpace = 4"
definition PageType_Overflow :: PageType where "PageType_Overflow = 5"
definition PageType_Internal :: PageType where "PageType_Internal = 6"

record page_header =
  ph_page_id :: page_id
  ph_page_type :: PageType
  ph_flags :: byte
  ph_header_version :: u16
  ph_lsn :: u64
  ph_generation :: u64
  ph_payload_size :: u32
  ph_checksum :: u32

definition PageHeader_SIZE :: nat where
  "PageHeader_SIZE = 8 + 1 + 1 + 2 + 8 + 8 + 4 + 4"

lemma PageHeader_SIZE_eq [simp]: "PageHeader_SIZE = 36"
  by (simp add: PageHeader_SIZE_def)

definition PageHeader_serialize :: "page_header \<Rightarrow> bytes \<Rightarrow> bytes" where
  "PageHeader_serialize h buffer =
     (let b = write_u64_le buffer 0 (ph_page_id h);
          b = b[8 := ph_page_type h];
          b = b[9 := ph_flags h];
          b = write_u16_le b 10 (ph_header_version h);
          b = write_u64_le b 12 (ph_lsn h);
          b = write_u64_le b 20 (ph_generation h);
          b = write_u32_le b 28 (ph_payload_size h);
          b = write_u32_le b 32 (ph_checksum h)
      in b)"

definition PageHeader_deserialize :: "bytes \<Rightarrow> page_header" where
  "PageHeader_deserialize buffer =
     \<lparr>ph_page_id = read_u64_le buffer 0,
      ph_page_type = buffer ! 8,
      ph_flags = buffer ! 9,
      ph_header_version = read_u16_le buffer 10,
      ph_lsn = read_u64_le buffer 12,
      ph_generation = read_u64_le buffer 20,
      ph_payload_size = read_u32_le buffer 28,
      ph_checksum = read_u32_le buffer 32\<rparr>"

text \<open>The image of the header, field after field.\<close>

definition header_image :: "page_header \<Rightarrow> bytes" where
  "header_image h = le_bytes 8 (ph_page_id h) @ [ph_page_type h] @ [ph_flags h] @
     le_bytes 2 (ph_header_version h) @ le_bytes 8 (ph_lsn h) @ le_bytes 8 (ph_generation h) @
     le_bytes 4 (ph_payload_size h) @ le_bytes 4 (ph_checksum h)"

lemma length_header_image [simp]: "length (header_image h) = 36"
  by (simp add: header_image_def)

lemma PageHeader_serialize_patch:
  "36 \<le> length buffer \<Longrightarrow> PageHeader_serialize h buffer = patch 0 (header_image h) buffer"
  by (simp add: PageHeader_serialize_def header_image_def Let_def le_patch list_update_patch
      patch_patch_adjacent)

lemma length_PageHeader_serialize [simp]:
  "36 \<le> length buffer \<Longrightarrow> length (PageHeader_serialize h buffer) = length buffer"
  by (simp add: PageHeader_serialize_patch)

lemma slice_singleton: "i < length xs \<Longrightarrow> [xs ! i] = bslice i 1 xs"
  by (simp add: bslice_def take_Suc_conv_app_nth hd_drop_conv_nth)


lemma nth_slice1: "i < length xs \<Longrightarrow> xs ! i = hd (bslice i 1 xs)"
  by (simp add: bslice_def hd_drop_conv_nth)

lemma deserialize_serialize:
  "36 \<le> length buffer \<Longrightarrow> PageHeader_deserialize (PageHeader_serialize h buffer) = h"
  by (simp add: PageHeader_serialize_patch PageHeader_deserialize_def le_slice nth_slice1
      slice_patch_inside header_image_def slice_append_shift slice_append_left slice_Cons_pos)

text \<open>Decoding an encoded page header gives the header back, in any buffer that holds it.\<close>

lemma PageHeader_roundtrip:
  "36 \<le> length buffer \<Longrightarrow> PageHeader_deserialize (PageHeader_serialize h buffer) = h"
  by (rule deserialize_serialize)

lemma header_image_deserialize:
  assumes "36 \<le> length buffer"
  shows "header_image (PageHeader_deserialize buffer) = bslice 0 36 buffer"
proof -
  have "bslice 0 36 buffer = bslice 0 8 buffer @ bslice 8 1 buffer @ bslice 9 1 buffer @ bslice 10 2 buffer @
      bslice 12 8 buffer @ bslice 20 8 buffer @ bslice 28 4 buffer @ bslice 32 4 buffer"
    using slice_add [of 0 8 28 buffer] slice_add [of 8 1 27 buffer] slice_add [of 9 1 26 buffer]
      slice_add [of 10 2 24 buffer] slice_add [of 12 8 16 buffer] slice_add [of 20 8 8 buffer]
      slice_add [of 28 4 4 buffer] by simp
  with assms show ?thesis
    by (simp add: header_image_def PageHeader_deserialize_def le_slice le_bytes_le_word slice_singleton)
qed

text \<open>Encoding the decoded header restores the buffer: the header fields account for every byte.\<close>

lemma PageHeader_serialize_deserialize:
  "36 \<le> length buffer \<Longrightarrow> PageHeader_serialize (PageHeader_deserialize buffer) buffer = buffer"
  by (simp add: PageHeader_serialize_patch header_image_deserialize patch_slice_id)

lemma PageHeader_serialize_serialize:
  "36 \<le> length buffer \<Longrightarrow> PageHeader_serialize h (PageHeader_serialize h' buffer) = PageHeader_serialize h buffer"
  by (simp add: PageHeader_serialize_patch patch_same)

lemma drop_PageHeader_serialize: "36 \<le> length buffer \<Longrightarrow> drop 36 (PageHeader_serialize h buffer) = drop 36 buffer"
  by (simp add: PageHeader_serialize_patch drop_patch)

section \<open>Pages\<close>

record page =
  pg_id :: page_id
  pg_data :: bytes
  pg_dirty :: bool

definition new_page :: "page_id \<Rightarrow> nat \<Rightarrow> page" where
  "new_page i sz = \<lparr>pg_id = i, pg_data = replicate sz 0, pg_dirty = False\<rparr>"

definition header_span :: "page \<Rightarrow> bytes" where
  "header_span p = take PageHeader_SIZE (pg_data p)"

definition payload_span :: "page \<Rightarrow> bytes" where
  "payload_span p = drop PageHeader_SIZE (pg_data p)"

definition read_header :: "page \<Rightarrow> page_header" where
  "read_header p = PageHeader_deserialize (header_span p)"

definition write_header :: "page_header \<Rightarrow> page \<Rightarrow> page" where
  "write_header h p =
     p\<lparr>pg_data := PageHeader_serialize h (header_span p) @ payload_span p, pg_dirty := True\<rparr>"

definition page_ok :: "page \<Rightarrow> bool" where
  "page_ok p \<longleftrightarrow> 36 \<le> length (pg_data p)"

lemma deserialize_take: "36 \<le> length b \<Longrightarrow> PageHeader_deserialize (take 36 b) = PageHeader_deserialize b"
  by (simp add: PageHeader_deserialize_def read_u64_le_def read_u32_le_def read_u16_le_def)

lemma read_header_data: "page_ok p \<Longrightarrow> read_header p = PageHeader_deserialize (pg_data p)"
  by (simp add: read_header_def header_span_def page_ok_def deserialize_take)

lemma write_header_data:
  assumes "page_ok p"
  shows "pg_data (write_header h p) = PageHeader_serialize h (pg_data p)"
  using assms
  by (simp add: write_header_def header_span_def payload_span_def page_ok_def PageHeader_serialize_patch patch_def)

lemma write_header_sel [simp]:
  "pg_id (write_header h p) = pg_id p" "pg_dirty (write_header h p) = True"
  by (simp_all add: write_header_def)

lemma page_ok_write_header [simp]: "page_ok p \<Longrightarrow> page_ok (write_header h p)"
  using write_header_data [of p h] by (simp add: page_ok_def)

lemma read_write_header [simp]: "page_ok p \<Longrightarrow> read_header (write_header h p) = h"
  by (simp add: read_header_data write_header_data) (simp add: page_ok_def deserialize_serialize)

section \<open>Database header\<close>

record database_header =
  dh_magic :: bytes
  dh_format_version :: u32
  dh_page_size :: u32
  dh_database_id :: bytes
  dh_creation_timestamp :: u64
  dh_catalog_root_page :: page_id
  dh_free_page_root :: page_id
  dh_next_page_id :: page_id
  dh_flags :: u64
  dh_checksum :: u32

text \<open>The two \<open>std::array\<close> fields have fixed extents.\<close>

definition db_header_ok :: "database_header \<Rightarrow> bool" where
  "db_header_ok h \<longleftrightarrow> length (dh_magic h) = 8 \<and> length (dh_database_id h) = 16"

definition MAGIC_BYTES :: bytes where
  "MAGIC_BYTES = [0x4B, 0x4C, 0x59, 0x52, 0x4F, 0x44, 0x42, 0]"

definition UUID_SIZE :: nat where "UUID_SIZE = 16"

definition DatabaseHeader_SIZE :: nat where
  "DatabaseHeader_SIZE = 8 + 4 + 4 + 16 + 8 + 8 + 8 + 8 + 8 + 4"

lemma DatabaseHeader_SIZE_eq [simp]: "DatabaseHeader_SIZE = 76"
  by (simp add: DatabaseHeader_SIZE_def)

definition DatabaseHeader_serialize :: "database_header \<Rightarrow> bytes \<Rightarrow> bytes" where
  "DatabaseHeader_serialize h buffer =
     (let b = patch 0 (dh_magic h) buffer;
          b = write_u32_le b 8 (dh_format_version h);
          b = write_u32_le b 12 (dh_page_size h);
          b = patch 16 (dh_database_id h) b;
          b = write_u64_le b 32 (dh_creation_timestamp h);
          b = write_u64_le b 40 (dh_catalog_root_page h);
          b = write_u64_le b 48 (dh_free_page_root h);
          b = write_u64_le b 56 (dh_next_page_id h);
          b = write_u64_le b 64 (dh_flags h);
          b = write_u32_le b 72 (dh_checksum h)
      in b)"

definition DatabaseHeader_deserialize :: "bytes \<Rightarrow> database_header" where
  "DatabaseHeader_deserialize buffer =
     \<lparr>dh_magic = bslice 0 8 buffer,
      dh_format_version = read_u32_le buffer 8,
      dh_page_size = read_u32_le buffer 12,
      dh_database_id = bslice 16 UUID_SIZE buffer,
      dh_creation_timestamp = read_u64_le buffer 32,
      dh_catalog_root_page = read_u64_le buffer 40,
      dh_free_page_root = read_u64_le buffer 48,
      dh_next_page_id = read_u64_le buffer 56,
      dh_flags = read_u64_le buffer 64,
      dh_checksum = read_u32_le buffer 72\<rparr>"

definition db_header_image :: "database_header \<Rightarrow> bytes" where
  "db_header_image h = dh_magic h @ le_bytes 4 (dh_format_version h) @ le_bytes 4 (dh_page_size h) @
     dh_database_id h @ le_bytes 8 (dh_creation_timestamp h) @ le_bytes 8 (dh_catalog_root_page h) @
     le_bytes 8 (dh_free_page_root h) @ le_bytes 8 (dh_next_page_id h) @ le_bytes 8 (dh_flags h) @
     le_bytes 4 (dh_checksum h)"

lemma length_db_header_image [simp]: "db_header_ok h \<Longrightarrow> length (db_header_image h) = 76"
  by (simp add: db_header_image_def db_header_ok_def)

lemma DatabaseHeader_serialize_patch:
  "db_header_ok h \<Longrightarrow> 76 \<le> length buffer \<Longrightarrow>
     DatabaseHeader_serialize h buffer = patch 0 (db_header_image h) buffer"
  by (simp add: DatabaseHeader_serialize_def db_header_image_def db_header_ok_def Let_def le_patch
      patch_patch_adjacent)

lemma db_deserialize_serialize:
  "db_header_ok h \<Longrightarrow> 76 \<le> length buffer \<Longrightarrow>
     DatabaseHeader_deserialize (DatabaseHeader_serialize h buffer) = h"
  by (simp add: DatabaseHeader_serialize_patch DatabaseHeader_deserialize_def le_slice UUID_SIZE_def
      slice_patch_inside)
     (simp add: db_header_image_def db_header_ok_def slice_append_shift slice_append_left)

text \<open>Decoding the encoded database header gives it back.\<close>

lemma DatabaseHeader_roundtrip:
  "db_header_ok h \<Longrightarrow> 76 \<le> length buffer \<Longrightarrow>
     DatabaseHeader_deserialize (DatabaseHeader_serialize h buffer) = h"
  by (rule db_deserialize_serialize)

definition example_db_header :: database_header where
  "example_db_header = \<lparr>dh_magic = MAGIC_BYTES, dh_format_version = 1, dh_page_size = 8192,
     dh_database_id = replicate 16 9, dh_creation_timestamp = 0, dh_catalog_root_page = 0,
     dh_free_page_root = 0, dh_next_page_id = 1, dh_flags = 0, dh_checksum = 77\<rparr>"

end
