(* ===== verification/File_Manager.thy ===== *)
theory File_Manager
  imports Core_Base
begin

text \<open>
  \<open>file_manager.hpp/.cpp\<close> and \<open>free_page_manager.hpp/.cpp\<close>: positioned reads and writes on one file,
  and the list of pages that may be reused.

  The file system is a map from paths to contents. Every call of the stream that can fail takes the
  next entry of \<open>os_faults\<close>: \<open>None\<close> when the operating system performs it, \<open>Some n\<close> when it fails after
  transferring \<open>n\<close> bytes; an empty list means no more faults. Contents are those seen through the
  stream, whose user-space buffer \<open>flush\<close> empties. \<open>fm_fail\<close> is the stream's failbit, on which a seek
  does nothing and reports failure until the code clears it.
\<close>

section \<open>The operating system\<close>

type_synonym path = string

record os =
  os_files :: "path \<Rightarrow> bytes option"
  os_faults :: "nat option list"

definition take_fault :: "os \<Rightarrow> nat option \<times> os" where
  "take_fault s = (case os_faults s of [] \<Rightarrow> (None, s) | f # fs \<Rightarrow> (f, s\<lparr>os_faults := fs\<rparr>))"

text \<open>Writing past the end of a file fills the gap with zeroes.\<close>

definition file_write :: "nat \<Rightarrow> bytes \<Rightarrow> bytes \<Rightarrow> bytes" where
  "file_write off bs content = patch off bs (content @ replicate (off - length content) 0)"

section \<open>The file manager\<close>

record file_manager =
  fm_is_open :: bool
  fm_path :: path
  fm_fail :: bool

definition FileManager_init :: file_manager where
  "FileManager_init = \<lparr>fm_is_open = False, fm_path = [], fm_fail = False\<rparr>"

definition open_file :: "path \<Rightarrow> os \<Rightarrow> file_manager \<Rightarrow> os \<times> file_manager \<times> unit result" where
  "open_file p s fm =
     (if fm_is_open fm then (s, fm, Inl InvalidState)
      else let (f, s) = take_fault s in
        if f \<noteq> None \<or> os_files s p = None then (s, fm\<lparr>fm_fail := True\<rparr>, Inl IOError)
        else (s, \<lparr>fm_is_open = True, fm_path = p, fm_fail = False\<rparr>, Inr ()))"

definition create_file :: "path \<Rightarrow> os \<Rightarrow> file_manager \<Rightarrow> os \<times> file_manager \<times> unit result" where
  "create_file p s fm =
     (if fm_is_open fm then (s, fm, Inl InvalidState)
      else if os_files s p \<noteq> None then (s, fm, Inl AlreadyExists)
      else let (f, s) = take_fault s in
        if f \<noteq> None then (s, fm\<lparr>fm_fail := True\<rparr>, Inl IOError)
        else open_file p (s\<lparr>os_files := (os_files s)(p \<mapsto> [])\<rparr>) fm)"

definition file_flush :: "os \<Rightarrow> file_manager \<Rightarrow> os \<times> file_manager \<times> unit result" where
  "file_flush s fm =
     (if \<not> fm_is_open fm then (s, fm, Inl InvalidState)
      else let (f, s) = take_fault s in
        if fm_fail fm \<or> f \<noteq> None then (s, fm\<lparr>fm_fail := False\<rparr>, Inl IOError)
        else (s, fm, Inr ()))"

definition file_close :: "os \<Rightarrow> file_manager \<Rightarrow> os \<times> file_manager \<times> unit result" where
  "file_close s fm =
     (if fm_is_open fm
      then let (s, fm, _) = file_flush s fm;
               (f, s) = take_fault s;
               fm = fm\<lparr>fm_is_open := False, fm_fail := fm_fail fm \<or> f \<noteq> None\<rparr>
           in (s, fm, if fm_fail fm then Inl IOError else Inr ())
      else (s, fm, Inr ()))"

text \<open>
  A seek fails on a stream whose failbit is set, and on an offset that is negative as \<open>streamoff\<close>.
  \<open>file_read\<close> returns the buffer: a read that hits the end of the file fails.
\<close>

definition seek_fails :: "u64 \<Rightarrow> file_manager \<Rightarrow> bool" where
  "seek_fails off fm \<longleftrightarrow> fm_fail fm \<or> 2 ^ 63 \<le> unat off"

definition file_read :: "u64 \<Rightarrow> nat \<Rightarrow> os \<Rightarrow> file_manager \<Rightarrow> os \<times> file_manager \<times> bytes result" where
  "file_read off n s fm =
     (if \<not> fm_is_open fm then (s, fm, Inl InvalidState)
      else if seek_fails off fm then (s, fm\<lparr>fm_fail := False\<rparr>, Inl IOError)
      else let (f, s) = take_fault s;
               content = (case os_files s (fm_path fm) of None \<Rightarrow> [] | Some c \<Rightarrow> c)
        in if f \<noteq> None \<or> length content < unat off + n then (s, fm\<lparr>fm_fail := False\<rparr>, Inl IOError)
           else (s, fm, Inr (bslice (unat off) n content)))"

definition file_write_at :: "u64 \<Rightarrow> bytes \<Rightarrow> os \<Rightarrow> file_manager \<Rightarrow> os \<times> file_manager \<times> unit result" where
  "file_write_at off bs s fm =
     (if \<not> fm_is_open fm then (s, fm, Inl InvalidState)
      else if seek_fails off fm then (s, fm\<lparr>fm_fail := False\<rparr>, Inl IOError)
      else let (f, s) = take_fault s;
               content = (case os_files s (fm_path fm) of None \<Rightarrow> [] | Some c \<Rightarrow> c)
        in case f of
             Some k \<Rightarrow> (s\<lparr>os_files := (os_files s)(fm_path fm \<mapsto> file_write (unat off) (take k bs) content)\<rparr>,
                fm\<lparr>fm_fail := False\<rparr>, Inl IOError)
           | None \<Rightarrow> (s\<lparr>os_files := (os_files s)(fm_path fm \<mapsto> file_write (unat off) bs content)\<rparr>, fm, Inr ()))"

text \<open>A failing \<open>tellg\<close> returns -1, which the cast turns into the largest \<open>uint64_t\<close>.\<close>

definition file_size :: "os \<Rightarrow> file_manager \<Rightarrow> os \<times> file_manager \<times> u64 result" where
  "file_size s fm =
     (if \<not> fm_is_open fm then (s, fm, Inl InvalidState)
      else let (f, s) = take_fault s;
               content = (case os_files s (fm_path fm) of None \<Rightarrow> [] | Some c \<Rightarrow> c)
        in if fm_fail fm \<or> f \<noteq> None then (s, fm\<lparr>fm_fail := True\<rparr>, Inr (- 1))
           else (s, fm, Inr (of_nat (length content))))"

section \<open>The free page manager\<close>

text \<open>The vector \<open>m_free_pages\<close>, whose back is the next page to hand out.\<close>

definition free_allocate :: "page_id list \<Rightarrow> page_id list \<times> page_id result" where
  "free_allocate fp = (if fp = [] then (fp, Inl NotFound) else (butlast fp, Inr (last fp)))"

definition is_free :: "page_id list \<Rightarrow> page_id \<Rightarrow> bool" where
  "is_free fp i \<longleftrightarrow> i \<in> set fp"

definition free_release :: "page_id \<Rightarrow> page_id list \<Rightarrow> page_id list \<times> unit result" where
  "free_release i fp =
     (if \<not> is_valid_id i \<or> i = 0 then (fp, Inl InvalidArgument)
      else if i \<in> set fp then (fp, Inl InvalidState)
      else (fp @ [i], Inr ()))"

lemma free_release_inv:
  assumes "distinct fp" "0 \<notin> set fp" "\<forall>j\<in>set fp. is_valid_id j"
  shows "distinct (fst (free_release i fp))" "0 \<notin> set (fst (free_release i fp))"
    "\<forall>j\<in>set (fst (free_release i fp)). is_valid_id j"
  using assms by (auto simp: free_release_def)

lemma free_allocate_ok:
  assumes "free_allocate fp = (fp', Inr i)"
  shows "fp = fp' @ [i]"
  using assms by (auto simp: free_allocate_def split: if_splits)

text \<open>Released pages come back in last-in first-out order.\<close>

lemma free_release_allocate:
  "free_release i fp = (fp', Inr ()) \<Longrightarrow> free_allocate fp' = (fp, Inr i)"
  by (auto simp: free_release_def free_allocate_def split: if_splits)

section \<open>Contents after a write\<close>

lemma length_file_write: "length (file_write off bs c) = max (length c) (off + length bs)"
  by (auto simp: file_write_def patch_def)

lemma slice_file_write_same: "n = length bs \<Longrightarrow> bslice off n (file_write off bs c) = bs"
  by (simp add: file_write_def patch_def bslice_def)

lemma slice_file_write_other:
  assumes "i + n \<le> length c" "i + n \<le> off \<or> off + length bs \<le> i"
  shows "bslice i n (file_write off bs c) = bslice i n c"
  using assms(2)
proof
  assume le: "i + n \<le> off"
  let ?c = "c @ replicate (off - length c) 0"
  have "bslice i n (file_write off bs c) = bslice i n (take off ?c)"
    unfolding file_write_def patch_def using le by (intro slice_append_left) simp
  also have "\<dots> = bslice i n ?c"
    using le by (simp add: bslice_def drop_take min_absorb1)
  also have "\<dots> = bslice i n c"
    using assms(1) by (intro slice_append_left)
  finally show ?thesis .
next
  assume "off + length bs \<le> i"
  then show ?thesis
    using assms(1) by (simp add: file_write_def slice_patch_disjoint)
qed

end
