(* ===== verification/Disk_Manager.thy ===== *)
theory Disk_Manager
  imports Page_Format File_Manager
begin

text \<open>
  \<open>disk_manager.hpp/.cpp\<close>: pages of one database file. Writing stamps the page with the checksum of its
  bytes, reading verifies it, and page 0 holds the database header. The members of the class and
  the file system are one state record, threaded through the operations; \<open>write_page\<close> also returns the
  page, whose header it changes through a \<open>const_cast\<close>.
\<close>

section \<open>State\<close>

record disk =
  dk_config :: config
  dk_header :: database_header
  dk_fm :: file_manager
  dk_free :: "page_id list"
  dk_open :: bool
  dk_os :: os

text \<open>The value-initialised \<open>DatabaseHeader{}\<close> and \<open>PageHeader{}\<close>: a default \<open>PageID\<close> is invalid.\<close>

definition DatabaseHeader_zero :: database_header where
  "DatabaseHeader_zero = \<lparr>dh_magic = replicate 8 0, dh_format_version = 0, dh_page_size = 0,
     dh_database_id = replicate 16 0, dh_creation_timestamp = 0, dh_catalog_root_page = invalid_value,
     dh_free_page_root = invalid_value, dh_next_page_id = invalid_value, dh_flags = 0, dh_checksum = 0\<rparr>"

definition PageHeader_zero :: page_header where
  "PageHeader_zero = \<lparr>ph_page_id = invalid_value, ph_page_type = 0, ph_flags = 0, ph_header_version = 0,
     ph_lsn = 0, ph_generation = 0, ph_payload_size = 0, ph_checksum = 0\<rparr>"

definition DiskManager_init :: "config \<Rightarrow> os \<Rightarrow> disk" where
  "DiskManager_init cfg s = \<lparr>dk_config = cfg, dk_header = DatabaseHeader_zero, dk_fm = FileManager_init,
     dk_free = [], dk_open = False, dk_os = s\<rparr>"

text \<open>Running a file operation on the state.\<close>

definition on_file :: "(os \<Rightarrow> file_manager \<Rightarrow> os \<times> file_manager \<times> 'a) \<Rightarrow> disk \<Rightarrow> disk \<times> 'a" where
  "on_file f d = (case f (dk_os d) (dk_fm d) of (s, fm, r) \<Rightarrow> (d\<lparr>dk_os := s, dk_fm := fm\<rparr>, r))"

section \<open>Reading and writing pages\<close>

definition calculate_offset :: "disk \<Rightarrow> page_id \<Rightarrow> u64 result" where
  "calculate_offset d i =
     (if \<not> is_valid_id i then Inl InvalidArgument
      else let offset = i * of_nat (page_size (dk_config d)) in
        if offset div of_nat (page_size (dk_config d)) \<noteq> i then Inl InvalidArgument else Inr offset)"

text \<open>The checksum is taken over the whole page with the checksum field zeroed.\<close>

definition zero_checksum :: "page \<Rightarrow> page" where
  "zero_checksum p = write_header ((read_header p)\<lparr>ph_checksum := 0\<rparr>) p"

definition stamp_checksum :: "page \<Rightarrow> page" where
  "stamp_checksum p =
     (let p' = zero_checksum p
      in write_header ((read_header p)\<lparr>ph_checksum := calculate_checksum (pg_data p')\<rparr>) p')"

definition verify_checksum :: "page \<Rightarrow> page result" where
  "verify_checksum p =
     (let header = read_header p; p' = zero_checksum p in
      if ph_checksum header \<noteq> calculate_checksum (pg_data p') then Inl Corruption
      else Inr ((write_header header p')\<lparr>pg_dirty := False\<rparr>))"

definition read_page :: "disk \<Rightarrow> page_id \<Rightarrow> disk \<times> page result" where
  "read_page d i =
     (if \<not> dk_open d then (d, Inl InvalidState)
      else case calculate_offset d i of
        Inl e \<Rightarrow> (d, Inl e)
      | Inr offset \<Rightarrow>
          (case on_file (file_read offset (page_size (dk_config d))) d of
             (d, Inl e) \<Rightarrow> (d, Inl e)
           | (d, Inr buf) \<Rightarrow>
               let p = (new_page i (page_size (dk_config d)))\<lparr>pg_data := buf\<rparr> in
               if i \<noteq> 0 then (d, verify_checksum p) else (d, Inr p)))"

definition write_page :: "disk \<Rightarrow> page \<Rightarrow> disk \<times> page \<times> unit result" where
  "write_page d p =
     (if \<not> dk_open d then (d, p, Inl InvalidState)
      else case calculate_offset d (pg_id p) of
        Inl e \<Rightarrow> (d, p, Inl e)
      | Inr offset \<Rightarrow>
          (let p = (if pg_id p \<noteq> 0 then stamp_checksum p else p);
               (d, r) = on_file (file_write_at offset (pg_data p)) d
           in (d, p, r)))"

definition disk_flush :: "disk \<Rightarrow> disk \<times> unit result" where
  "disk_flush d = on_file file_flush d"

definition disk_file_size :: "disk \<Rightarrow> disk \<times> u64" where
  "disk_file_size d = (case on_file file_size d of (d, Inr n) \<Rightarrow> (d, n) | (d, Inl _) \<Rightarrow> (d, 0))"

section \<open>Allocation\<close>

definition allocate_page :: "disk \<Rightarrow> disk \<times> page_id result" where
  "allocate_page d =
     (if \<not> dk_open d then (d, Inl InvalidState)
      else case free_allocate (dk_free d) of
        (fp, Inr i) \<Rightarrow> (d\<lparr>dk_free := fp\<rparr>, Inr i)
      | (_, Inl _) \<Rightarrow>
          (let new_id = dh_next_page_id (dk_header d);
               d = d\<lparr>dk_header := (dk_header d)\<lparr>dh_next_page_id := new_id + 1\<rparr>\<rparr>;
               p = write_header (PageHeader_zero\<lparr>ph_page_id := new_id, ph_page_type := PageType_Invalid\<rparr>)
                     (new_page new_id (page_size (dk_config d)))
           in case write_page d p of
                (d, _, Inl e) \<Rightarrow> (d, Inl e)
              | (d, _, Inr _) \<Rightarrow> (d, Inr new_id)))"

definition deallocate_page :: "disk \<Rightarrow> page_id \<Rightarrow> disk \<times> unit result" where
  "deallocate_page d i =
     (if \<not> dk_open d then (d, Inl InvalidState)
      else if i = 0 then (d, Inl InvalidArgument)
      else case free_release i (dk_free d) of (fp, r) \<Rightarrow> (d\<lparr>dk_free := fp\<rparr>, r))"

section \<open>Creating, opening and closing a database\<close>

text \<open>
  \<open>stamp_db_header\<close>: the header with its checksum, computed over the first 76 bytes of a page-sized
  buffer that holds the header with a zero checksum, and that page.
\<close>

definition stamp_db_header :: "database_header \<Rightarrow> page \<Rightarrow> database_header \<times> page" where
  "stamp_db_header h page0 =
     (let h = h\<lparr>dh_checksum := 0\<rparr>;
          page0 = page0\<lparr>pg_data := DatabaseHeader_serialize h (pg_data page0)\<rparr>;
          h = h\<lparr>dh_checksum := calculate_checksum (take DatabaseHeader_SIZE (pg_data page0))\<rparr>;
          page0 = page0\<lparr>pg_data := DatabaseHeader_serialize h (pg_data page0)\<rparr>
      in (h, page0))"

text \<open>The two words of the random database id are arguments.\<close>

definition init_new_database :: "path \<Rightarrow> u64 \<Rightarrow> u64 \<Rightarrow> disk \<Rightarrow> disk \<times> unit result" where
  "init_new_database p uuid1 uuid2 d =
     (case on_file (create_file p) d of
        (d, Inl e) \<Rightarrow> (d, Inl e)
      | (d, Inr _) \<Rightarrow>
          (let h = \<lparr>dh_magic = MAGIC_BYTES, dh_format_version = 1,
                dh_page_size = of_nat (page_size (dk_config d)),
                dh_database_id = le_bytes 8 uuid1 @ le_bytes 8 uuid2, dh_creation_timestamp = 0,
                dh_catalog_root_page = 0, dh_free_page_root = 0, dh_next_page_id = 1, dh_flags = 0,
                dh_checksum = dh_checksum (dk_header d)\<rparr>;
               (h, page0) = stamp_db_header h (new_page 0 (page_size (dk_config d)));
               d = d\<lparr>dk_header := h\<rparr>
           in case write_page d page0 of
                (d, _, Inl e) \<Rightarrow> (d, Inl e)
              | (d, _, Inr _) \<Rightarrow> disk_flush (d\<lparr>dk_open := True\<rparr>)))"

definition DiskManager_create :: "path \<Rightarrow> config \<Rightarrow> u64 \<Rightarrow> u64 \<Rightarrow> os \<Rightarrow> disk \<times> unit result" where
  "DiskManager_create p cfg uuid1 uuid2 s = init_new_database p uuid1 uuid2 (DiskManager_init cfg s)"

definition load_existing_database :: "path \<Rightarrow> disk \<Rightarrow> disk \<times> unit result" where
  "load_existing_database p d =
     (case on_file (open_file p) d of
        (d, Inl e) \<Rightarrow> (d, Inl e)
      | (d, Inr _) \<Rightarrow>
     (case on_file file_size d of
        (d, Inl e) \<Rightarrow> (d, Inl e)
      | (d, Inr sz) \<Rightarrow>
          if unat sz mod page_size (dk_config d) \<noteq> 0 then (d, Inl Corruption)
          else if unat sz < page_size (dk_config d) then (d, Inl Corruption)
          else case read_page (d\<lparr>dk_open := True\<rparr>) 0 of
            (d, Inl e) \<Rightarrow> (d\<lparr>dk_open := False\<rparr>, Inl e)
          | (d, Inr page0) \<Rightarrow>
              let h = DatabaseHeader_deserialize (pg_data page0); d = d\<lparr>dk_header := h\<rparr> in
              if dh_magic h \<noteq> MAGIC_BYTES then (d\<lparr>dk_open := False\<rparr>, Inl Corruption)
              else if dh_format_version h \<noteq> 1 then (d\<lparr>dk_open := False\<rparr>, Inl Unsupported)
              else if unat (dh_page_size h) \<noteq> page_size (dk_config d) then (d\<lparr>dk_open := False\<rparr>, Inl Corruption)
              else
                let stored = dh_checksum h; h = h\<lparr>dh_checksum := 0\<rparr>;
                    page0 = page0\<lparr>pg_data := DatabaseHeader_serialize h (pg_data page0)\<rparr>;
                    calculated = calculate_checksum (take DatabaseHeader_SIZE (pg_data page0));
                    d = d\<lparr>dk_header := h\<rparr>
                in if stored \<noteq> calculated then (d\<lparr>dk_open := False\<rparr>, Inl Corruption)
                   else (d\<lparr>dk_header := DatabaseHeader_deserialize (pg_data page0)\<rparr>, Inr ())))"

definition DiskManager_open :: "path \<Rightarrow> config \<Rightarrow> os \<Rightarrow> disk \<times> unit result" where
  "DiskManager_open p cfg s = load_existing_database p (DiskManager_init cfg s)"

definition disk_close :: "disk \<Rightarrow> disk \<times> unit result" where
  "disk_close d =
     (if \<not> dk_open d then (d, Inr ())
      else
        let (h, page0) = stamp_db_header (dk_header d) (new_page 0 (page_size (dk_config d)));
            (d, _, _) = write_page (d\<lparr>dk_header := h\<rparr>) page0;
            (d, flush_res) = on_file file_flush d;
            (d, close_res) = on_file file_close d;
            d = d\<lparr>dk_open := False\<rparr>
        in (d, case flush_res of Inl e \<Rightarrow> Inl e | Inr _ \<Rightarrow> close_res))"

section \<open>Checksums\<close>

text \<open>Rewriting the checksum field of a decoded header touches bytes 32 to 35 only.\<close>

lemma serialize_checksum:
  assumes "36 \<le> length b"
  shows "PageHeader_serialize ((PageHeader_deserialize b)\<lparr>ph_checksum := c\<rparr>) b = patch 32 (le_bytes 4 c) b"
proof -
  have "header_image ((PageHeader_deserialize b)\<lparr>ph_checksum := c\<rparr>) =
      take 32 (header_image (PageHeader_deserialize b)) @ le_bytes 4 c"
    by (simp add: header_image_def)
  also have "\<dots> = bslice 0 32 b @ le_bytes 4 c"
    using assms by (simp add: header_image_deserialize) (simp add: bslice_def min_def)
  finally show ?thesis
    using assms patch_patch_adjacent [of 32 0 "bslice 0 32 b" "le_bytes 4 c" b]
    by (simp add: PageHeader_serialize_patch patch_slice_id)
qed

lemma checksum_field: "36 \<le> length b \<Longrightarrow> ph_checksum (PageHeader_deserialize b) = le_word (bslice 32 4 b)"
  by (simp add: PageHeader_deserialize_def le_slice)

lemma zero_checksum_data: "page_ok p \<Longrightarrow> pg_data (zero_checksum p) = patch 32 (le_bytes 4 (0 :: u32)) (pg_data p)"
  by (simp add: zero_checksum_def write_header_data read_header_data) (simp add: page_ok_def serialize_checksum)

definition stamped :: "bytes \<Rightarrow> bytes" where
  "stamped b = patch 32 (le_bytes 4 (calculate_checksum (patch 32 (le_bytes 4 (0 :: u32)) b))) b"

lemma zero_checksum_sel [simp]: "pg_id (zero_checksum p) = pg_id p" "page_ok p \<Longrightarrow> page_ok (zero_checksum p)"
  by (simp_all add: zero_checksum_def)

lemma stamp_checksum_data:
  assumes "page_ok p"
  shows "pg_data (stamp_checksum p) = stamped (pg_data p)" "pg_id (stamp_checksum p) = pg_id p" "pg_dirty (stamp_checksum p)"
proof -
  let ?b = "pg_data p"
  have b: "36 \<le> length ?b" using assms by (simp add: page_ok_def)
  let ?h = "(PageHeader_deserialize ?b)\<lparr>ph_checksum := calculate_checksum (patch 32 (le_bytes 4 (0 :: u32)) ?b)\<rparr>"
  have z: "patch 32 (le_bytes 4 (0 :: u32)) ?b = PageHeader_serialize ((PageHeader_deserialize ?b)\<lparr>ph_checksum := 0\<rparr>) ?b"
    using b by (simp add: serialize_checksum)
  have "pg_data (stamp_checksum p) = PageHeader_serialize ?h (patch 32 (le_bytes 4 (0 :: u32)) ?b)"
    using assms by (simp add: stamp_checksum_def Let_def write_header_data zero_checksum_data read_header_data)
  also have "\<dots> = PageHeader_serialize ?h ?b"
    unfolding z using b by (rule PageHeader_serialize_serialize)
  also have "\<dots> = stamped ?b"
    using b by (simp add: serialize_checksum stamped_def)
  finally show "pg_data (stamp_checksum p) = stamped ?b" .
qed (simp_all add: stamp_checksum_def Let_def)

definition checksum_ok :: "bytes \<Rightarrow> bool" where
  "checksum_ok b \<longleftrightarrow> le_word (bslice 32 4 b) = calculate_checksum (patch 32 (le_bytes 4 (0 :: u32)) b)"

lemma verify_checksum_eq:
  assumes "page_ok p"
  shows "verify_checksum p = (if checksum_ok (pg_data p) then Inr (p\<lparr>pg_dirty := False\<rparr>) else Inl Corruption)"
proof -
  let ?b = "pg_data p"
  have b: "36 \<le> length ?b" using assms by (simp add: page_ok_def)
  have "pg_data (write_header (read_header p) (zero_checksum p)) = ?b"
    using assms b PageHeader_serialize_serialize [OF b, of "PageHeader_deserialize ?b" "(PageHeader_deserialize ?b)\<lparr>ph_checksum := 0\<rparr>"]
    by (simp add: write_header_data read_header_data zero_checksum_data flip: serialize_checksum)
       (simp add: PageHeader_serialize_deserialize)
  then have "(write_header (read_header p) (zero_checksum p))\<lparr>pg_dirty := False\<rparr> = p\<lparr>pg_dirty := False\<rparr>"
    by (simp add: write_header_def zero_checksum_def)
  then show ?thesis
    using assms b by (simp add: verify_checksum_def Let_def read_header_data checksum_field zero_checksum_data checksum_ok_def)
qed

lemma length_stamped [simp]: "36 \<le> length b \<Longrightarrow> length (stamped b) = length b"
  by (simp add: stamped_def)

lemma checksum_ok_stamped: "36 \<le> length b \<Longrightarrow> checksum_ok (stamped b)"
  by (simp add: checksum_ok_def stamped_def slice_patch_same' patch_same)

lemma checksum_ok_corrupt:
  assumes "36 \<le> length b" "checksum_ok b" "k < length b" "v \<noteq> b ! k"
  shows "\<not> checksum_ok (b[k := v])"
proof (cases "32 \<le> k \<and> k < 36")
  case True
  have "patch 32 (le_bytes 4 (0 :: u32)) (b[k := v]) = patch 32 (le_bytes 4 (0 :: u32)) b"
    using assms(1) True by (intro nth_equalityI) (auto simp: nth_patch nth_list_update)
  moreover have "bslice 32 4 (b[k := v]) \<noteq> bslice 32 4 b"
  proof
    assume "bslice 32 4 (b[k := v]) = bslice 32 4 b"
    then have "bslice 32 4 (b[k := v]) ! (k - 32) = bslice 32 4 b ! (k - 32)" by simp
    then show False using assms True by (auto simp: nth_slice)
  qed
  then have "(le_word (bslice 32 4 (b[k := v])) :: u32) \<noteq> le_word (bslice 32 4 b)"
    using assms(1) le_bytes_le_word [of 4 "bslice 32 4 (b[k := v])", where 'a = 32]
      le_bytes_le_word [of 4 "bslice 32 4 b", where 'a = 32] by auto
  ultimately show ?thesis
    using assms(2) by (simp add: checksum_ok_def)
next
  case False
  let ?z = "patch 32 (le_bytes 4 (0 :: u32)) b"
  have "patch 32 (le_bytes 4 (0 :: u32)) (b[k := v]) = ?z[k := v]"
    using assms(1,3) False by (simp add: list_update_patch) (auto intro!: nth_equalityI simp: nth_patch)
  moreover have "bslice 32 4 (b[k := v]) = bslice 32 4 b"
    using assms(1) False by (intro slice_eqI) (auto simp: nth_list_update)
  moreover have "calculate_checksum (?z[k := v]) \<noteq> calculate_checksum ?z"
    using assms False by (intro checksum_update_neq) (auto simp: nth_patch)
  ultimately show ?thesis
    using assms(2) by (simp add: checksum_ok_def)
qed

section \<open>What the disk holds\<close>

definition dk_content :: "disk \<Rightarrow> bytes" where
  "dk_content d = (case os_files (dk_os d) (fm_path (dk_fm d)) of None \<Rightarrow> [] | Some c \<Rightarrow> c)"

abbreviation dk_page_size :: "disk \<Rightarrow> nat" where
  "dk_page_size d \<equiv> page_size (dk_config d)"

definition addressable :: "disk \<Rightarrow> page_id \<Rightarrow> bool" where
  "addressable d i \<longleftrightarrow> is_valid_id i \<and> unat i * dk_page_size d < 2 ^ 63"

text \<open>The bytes of page \<open>i\<close>, if the file reaches that far.\<close>

definition disk_page :: "disk \<Rightarrow> page_id \<Rightarrow> bytes option" where
  "disk_page d i =
     (if addressable d i \<and> (unat i + 1) * dk_page_size d \<le> length (dk_content d)
      then Some (bslice (unat i * dk_page_size d) (dk_page_size d) (dk_content d)) else None)"

definition disk_ok :: "disk \<Rightarrow> bool" where
  "disk_ok d \<longleftrightarrow> dk_open d \<and> fm_is_open (dk_fm d) \<and> 76 \<le> dk_page_size d \<and> dk_page_size d < 2 ^ 64"

lemma calculate_offset_eq:
  assumes "0 < dk_page_size d" "dk_page_size d < 2 ^ 64"
  shows "calculate_offset d i =
    (if is_valid_id i \<and> unat i * dk_page_size d < 2 ^ 64 then Inr (i * of_nat (dk_page_size d)) else Inl InvalidArgument)"
proof -
  let ?ps = "dk_page_size d"
  let ?off = "i * of_nat ?ps :: u64"
  have ps: "unat (of_nat ?ps :: u64) = ?ps" using assms(2) by (intro unat_of_nat_fits) simp
  have off: "unat ?off = (unat i * ?ps) mod 2 ^ 64" by (simp add: unat_word_ariths ps)
  have "?off div of_nat ?ps = i \<longleftrightarrow> unat ?off div ?ps = unat i"
    by (simp add: word_unat_eq_iff unat_div ps)
  also have "\<dots> \<longleftrightarrow> unat i * ?ps < 2 ^ 64"
  proof
    assume "unat ?off div ?ps = unat i"
    then have "unat i * ?ps \<le> unat ?off" using div_times_less_eq_dividend [of "unat ?off" ?ps] by simp
    also have "\<dots> < 2 ^ 64" using unsigned_less [of ?off] by simp
    finally show "unat i * ?ps < 2 ^ 64" .
  next
    assume "unat i * ?ps < 2 ^ 64"
    then show "unat ?off div ?ps = unat i" using assms(1) by (simp add: off)
  qed
  finally show ?thesis by (simp add: calculate_offset_def Let_def)
qed

lemma unat_offset:
  "dk_page_size d < 2 ^ 64 \<Longrightarrow> unat i * dk_page_size d < 2 ^ 64 \<Longrightarrow>
     unat (i * of_nat (dk_page_size d) :: u64) = unat i * dk_page_size d"
  by (simp add: unat_word_ariths unat_of_nat_fits)

lemma page_extents_disjoint:
  assumes "(i :: page_id) \<noteq> j"
  shows "unat i * ps + ps \<le> unat j * ps \<or> unat j * ps + ps \<le> unat i * ps"
proof -
  have "unat i < unat j \<or> unat j < unat i" using assms by (simp add: word_unat_eq_iff nat_neq_iff)
  then have "Suc (unat i) * ps \<le> unat j * ps \<or> Suc (unat j) * ps \<le> unat i * ps"
    by (metis Suc_leI mult_le_mono1)
  then show ?thesis by (simp add: add.commute)
qed

lemma take_fault_files [simp]: "os_files (snd (take_fault s)) = os_files s"
  by (simp add: take_fault_def split: list.splits)

lemma take_fault_eq: "take_fault s = (f, s') \<Longrightarrow> os_files s' = os_files s"
  using take_fault_files [of s] by simp

text \<open>Reading does not change what the disk holds.\<close>

lemma read_page_frame:
  assumes "read_page d i = (d', r)"
  shows "disk_page d' = disk_page d" "disk_ok d' = disk_ok d" "dk_config d' = dk_config d"
    "dk_header d' = dk_header d" "dk_free d' = dk_free d" "dk_content d' = dk_content d"
proof -
  have *: "dk_config d' = dk_config d \<and> dk_open d' = dk_open d \<and> fm_is_open (dk_fm d') = fm_is_open (dk_fm d) \<and>
      fm_path (dk_fm d') = fm_path (dk_fm d) \<and> os_files (dk_os d') = os_files (dk_os d) \<and>
      dk_header d' = dk_header d \<and> dk_free d' = dk_free d"
    using assms
    by (auto simp: read_page_def on_file_def file_read_def Let_def dest: take_fault_eq split: if_splits sum.splits prod.splits)
  then show "disk_ok d' = disk_ok d" "dk_config d' = dk_config d" "dk_header d' = dk_header d" "dk_free d' = dk_free d"
    by (simp_all add: disk_ok_def)
  from * show c: "dk_content d' = dk_content d" by (simp add: dk_content_def)
  show "disk_page d' = disk_page d"
    using * by (simp add: disk_page_def c addressable_def fun_eq_iff)
qed

lemma read_page_ok:
  assumes "disk_ok d" "read_page d i = (d', Inr p)"
  shows "disk_page d i = Some (pg_data p)" "pg_id p = i" "\<not> pg_dirty p" "i \<noteq> 0 \<Longrightarrow> checksum_ok (pg_data p)"
proof -
  let ?ps = "dk_page_size d" and ?off = "i * of_nat (dk_page_size d) :: u64"
  have ps: "0 < ?ps" "?ps < 2 ^ 64" "36 \<le> ?ps" using assms(1) by (simp_all add: disk_ok_def)
  obtain off where co: "calculate_offset d i = Inr off" and off: "off = ?off" and addr: "is_valid_id i" "unat i * ?ps < 2 ^ 64"
    using assms calculate_offset_eq [OF ps(1,2), of i] by (auto simp: read_page_def disk_ok_def split: if_splits sum.splits)
  have uo: "unat off = unat i * ?ps" using unat_offset ps(2) addr(2) off by simp
  obtain buf where rd: "snd (on_file (file_read off ?ps) d) = Inr buf"
    and p: "(if i \<noteq> 0 then verify_checksum ((new_page i ?ps)\<lparr>pg_data := buf\<rparr>) else Inr ((new_page i ?ps)\<lparr>pg_data := buf\<rparr>)) = Inr p"
    using assms co by (auto simp: read_page_def disk_ok_def on_file_def Let_def split: if_splits sum.splits prod.splits)
  have buf: "buf = bslice (unat i * ?ps) ?ps (dk_content d)" and fits: "unat i * ?ps + ?ps \<le> length (dk_content d)"
    and small: "unat i * ?ps < 2 ^ 63"
    using rd uo by (auto simp: on_file_def file_read_def seek_fails_def Let_def not_le not_less dk_content_def
        dest: take_fault_eq split: if_splits prod.splits)
  have lb: "length buf = ?ps" using buf fits by simp
  have q: "p = (new_page i ?ps)\<lparr>pg_data := buf\<rparr> \<and> (i \<noteq> 0 \<longrightarrow> checksum_ok buf)"
    using p verify_checksum_eq [of "(new_page i ?ps)\<lparr>pg_data := buf\<rparr>"] lb ps(3)
    by (auto simp: page_ok_def new_page_def split: if_splits)
  then show "disk_page d i = Some (pg_data p)" "pg_id p = i" "\<not> pg_dirty p" "i \<noteq> 0 \<Longrightarrow> checksum_ok (pg_data p)"
    using fits small addr buf by (simp_all add: disk_page_def addressable_def new_page_def add.commute)
qed

text \<open>Without faults, reading a page that the file holds succeeds exactly when its checksum is right.\<close>

lemma read_page_no_fault:
  assumes "disk_ok d" "\<not> fm_fail (dk_fm d)" "os_faults (dk_os d) = []" "disk_page d i = Some buf"
  shows "snd (read_page d i) = (if i = 0 \<or> checksum_ok buf then Inr \<lparr>pg_id = i, pg_data = buf, pg_dirty = False\<rparr> else Inl Corruption)"
proof -
  let ?ps = "dk_page_size d" and ?off = "i * of_nat (dk_page_size d) :: u64"
  have ps: "0 < ?ps" "?ps < 2 ^ 64" "36 \<le> ?ps" using assms(1) by (simp_all add: disk_ok_def)
  have addr: "is_valid_id i" "unat i * ?ps < 2 ^ 63" "unat i * ?ps + ?ps \<le> length (dk_content d)"
    and buf: "buf = bslice (unat i * ?ps) ?ps (dk_content d)"
    using assms(4) by (auto simp: disk_page_def addressable_def add.commute split: if_splits)
  have co: "calculate_offset d i = Inr ?off" using calculate_offset_eq [OF ps(1,2)] addr by simp
  have uo: "unat ?off = unat i * ?ps" using unat_offset ps(2) addr(2) by simp
  have lb: "length buf = ?ps" using buf addr(3) by simp
  have "snd (read_page d i) = (if i \<noteq> 0 then verify_checksum ((new_page i ?ps)\<lparr>pg_data := buf\<rparr>) else Inr ((new_page i ?ps)\<lparr>pg_data := buf\<rparr>))"
    using assms co uo addr buf
    by (simp add: read_page_def disk_ok_def on_file_def file_read_def seek_fails_def take_fault_def Let_def dk_content_def
        split: option.splits)
  then show ?thesis
    using verify_checksum_eq [of "(new_page i ?ps)\<lparr>pg_data := buf\<rparr>"] lb ps(3)
    by (auto simp: page_ok_def new_page_def)
qed

text \<open>
  Writing a page changes that page alone; a write that fails part way may have damaged it, but no
  other page.
\<close>

lemma write_page_frame:
  assumes "disk_ok d" "write_page d p = (d', p', r)"
  shows "disk_ok d'" "dk_config d' = dk_config d" "dk_header d' = dk_header d" "dk_free d' = dk_free d"
proof -
  have "dk_config d' = dk_config d \<and> dk_open d' = dk_open d \<and> fm_is_open (dk_fm d') = fm_is_open (dk_fm d) \<and>
      dk_header d' = dk_header d \<and> dk_free d' = dk_free d"
    using assms(2)
    by (auto simp: write_page_def on_file_def file_write_at_def Let_def split: if_splits sum.splits prod.splits option.splits)
  then show "disk_ok d'" "dk_config d' = dk_config d" "dk_header d' = dk_header d" "dk_free d' = dk_free d"
    using assms(1) by (simp_all add: disk_ok_def)
qed

lemma write_page_content:
  assumes ok: "disk_ok d" and w: "write_page d p = (d', p', r)" and len: "length (pg_data p) = dk_page_size d"
  shows "p' = p \<or> p' = (if pg_id p = 0 then p else stamp_checksum p)"
    and "dk_content d' = dk_content d \<and> r \<noteq> Inr () \<or>
      (\<exists>n\<le>dk_page_size d. addressable d (pg_id p) \<and> p' = (if pg_id p = 0 then p else stamp_checksum p) \<and>
         dk_content d' = file_write (unat (pg_id p) * dk_page_size d) (take n (pg_data p')) (dk_content d) \<and>
         (r = Inr () \<longrightarrow> n = dk_page_size d))"
proof -
  let ?i = "pg_id p" and ?ps = "dk_page_size d"
  let ?off = "?i * of_nat ?ps :: u64" and ?q = "if pg_id p = 0 then p else stamp_checksum p"
  have ps: "0 < ?ps" "?ps < 2 ^ 64" "36 \<le> ?ps" using ok by (simp_all add: disk_ok_def)
  have lq: "length (pg_data ?q) = ?ps" using len ps(3) by (simp add: stamp_checksum_data page_ok_def)
  show "p' = p \<or> p' = ?q"
    using w by (auto simp: write_page_def Let_def split: if_splits sum.splits prod.splits)
  show "dk_content d' = dk_content d \<and> r \<noteq> Inr () \<or> (\<exists>n\<le>?ps. addressable d ?i \<and> p' = ?q \<and>
      dk_content d' = file_write (unat ?i * ?ps) (take n (pg_data p')) (dk_content d) \<and> (r = Inr () \<longrightarrow> n = ?ps))"
  proof (cases "is_valid_id ?i \<and> unat ?i * ?ps < 2 ^ 64")
    case False
    then show ?thesis using w ok calculate_offset_eq [OF ps(1,2), of ?i] by (auto simp: write_page_def disk_ok_def)
  next
    case True
    then have co: "calculate_offset d ?i = Inr ?off" and uo: "unat ?off = unat ?i * ?ps"
      using calculate_offset_eq [OF ps(1,2), of ?i] unat_offset ps(2) by auto
    have p': "p' = ?q" and r: "on_file (file_write_at ?off (pg_data ?q)) d = (d', r)"
      using w ok co by (auto simp: write_page_def disk_ok_def Let_def split: prod.splits if_splits)
    show ?thesis
    proof (cases "seek_fails ?off (dk_fm d)")
      case True
      then show ?thesis using r ok by (auto simp: on_file_def file_write_at_def disk_ok_def dk_content_def)
    next
      case False
      then have a: "addressable d ?i" using True uo by (simp add: addressable_def seek_fails_def)
      obtain f s where tf: "take_fault (dk_os d) = (f, s)" by fastforce
      let ?n = "case f of None \<Rightarrow> ?ps | Some k \<Rightarrow> min k ?ps"
      have "take ?n (pg_data ?q) = (case f of None \<Rightarrow> pg_data ?q | Some k \<Rightarrow> take k (pg_data ?q))"
        using lq by (auto simp: min_def split: option.splits)
      then have "dk_content d' = file_write (unat ?i * ?ps) (take ?n (pg_data ?q)) (dk_content d) \<and> (r = Inr () \<longrightarrow> f = None)"
        using r ok False tf take_fault_eq [OF tf] uo
        by (auto simp: on_file_def file_write_at_def disk_ok_def dk_content_def Let_def split: option.splits)
      then show ?thesis
        using a p' by (intro disjI2 exI [of _ ?n]) (auto split: option.splits)
    qed
  qed
qed

lemma write_page_other:
  assumes ok: "disk_ok d" and w: "write_page d p = (d', p', r)" and len: "length (pg_data p) = dk_page_size d"
    and j: "j \<noteq> pg_id p" "disk_page d j = Some b"
  shows "disk_page d' j = Some b"
proof -
  let ?ps = "dk_page_size d"
  have cfg: "dk_config d' = dk_config d" by (rule write_page_frame(2) [OF ok w])
  have lp: "length (pg_data p') = ?ps"
    using write_page_content(1) [OF ok w len] len ok by (auto simp: stamp_checksum_data page_ok_def disk_ok_def)
  have b: "addressable d j" "unat j * ?ps + ?ps \<le> length (dk_content d)" "b = bslice (unat j * ?ps) ?ps (dk_content d)"
    using j(2) by (auto simp: disk_page_def add.commute split: if_splits)
  have "bslice (unat j * ?ps) ?ps (dk_content d') = b \<and> length (dk_content d) \<le> length (dk_content d')"
    using write_page_content(2) [OF ok w len]
  proof
    assume "\<exists>n\<le>?ps. addressable d (pg_id p) \<and> p' = (if pg_id p = 0 then p else stamp_checksum p) \<and>
         dk_content d' = file_write (unat (pg_id p) * ?ps) (take n (pg_data p')) (dk_content d) \<and>
         (r = Inr () \<longrightarrow> n = ?ps)"
    then obtain n where n: "n \<le> ?ps" "dk_content d' = file_write (unat (pg_id p) * ?ps) (take n (pg_data p')) (dk_content d)"
      by blast
    have "length (take n (pg_data p')) \<le> ?ps" using n lp by simp
    then show ?thesis
      using page_extents_disjoint [OF j(1), of ?ps] b n
      by (auto simp: n(2) length_file_write intro!: slice_file_write_other)
  qed (use b in simp)
  then show ?thesis
    using b by (auto simp: disk_page_def cfg addressable_def add.commute)
qed

lemma write_page_same:
  assumes ok: "disk_ok d" and w: "write_page d p = (d', p', Inr ())" and len: "length (pg_data p) = dk_page_size d"
  shows "disk_page d' (pg_id p) = Some (pg_data p')" "pg_id p' = pg_id p"
    "pg_data p' = (if pg_id p = 0 then pg_data p else stamped (pg_data p))"
proof -
  let ?ps = "dk_page_size d" and ?i = "pg_id p"
  have cfg: "dk_config d' = dk_config d" by (rule write_page_frame(2) [OF ok w])
  have pok: "page_ok p" using len ok by (simp add: page_ok_def disk_ok_def)
  have p': "p' = (if ?i = 0 then p else stamp_checksum p)" and a: "addressable d ?i"
    and c: "dk_content d' = file_write (unat ?i * ?ps) (take ?ps (pg_data p')) (dk_content d)"
    using write_page_content(2) [OF ok w len] by auto
  show data: "pg_data p' = (if ?i = 0 then pg_data p else stamped (pg_data p))" and "pg_id p' = ?i"
    using pok by (simp_all add: p' stamp_checksum_data)
  have lp: "length (pg_data p') = ?ps" using data len pok by (simp add: page_ok_def)
  show "disk_page d' ?i = Some (pg_data p')"
    using a lp by (simp add: disk_page_def cfg addressable_def c length_file_write slice_file_write_same add.commute)
qed

section \<open>The interface of a page store\<close>

text \<open>
  What the buffer pool relies on. \<open>held d i\<close> is what a correct read of page \<open>i\<close> returns. Pages agree
  modulo the checksum field, which writing recomputes.
\<close>

definition page_body :: "bytes \<Rightarrow> bytes" where
  "page_body b = patch 32 (le_bytes 4 (0 :: u32)) b"

lemma page_body_stamped [simp]: "36 \<le> length b \<Longrightarrow> page_body (stamped b) = page_body b"
  by (simp add: page_body_def stamped_def patch_same)

locale page_store =
  fixes ok :: "'d \<Rightarrow> bool" and psize :: "'d \<Rightarrow> nat" and held :: "'d \<Rightarrow> page_id \<Rightarrow> bytes option"
    and rd :: "'d \<Rightarrow> page_id \<Rightarrow> 'd \<times> page result"
    and wr :: "'d \<Rightarrow> page \<Rightarrow> 'd \<times> page \<times> unit result"
  assumes rd_ok: "ok d \<Longrightarrow> rd d i = (d', res) \<Longrightarrow> ok d' \<and> psize d' = psize d \<and> held d' = held d"
    and rd_held: "ok d \<Longrightarrow> rd d i = (d', Inr p) \<Longrightarrow> held d i = Some (pg_data p) \<and> pg_id p = i"
    and held_length: "ok d \<Longrightarrow> held d i = Some b \<Longrightarrow> length b = psize d \<and> 36 \<le> psize d"
    and wr_frame: "ok d \<Longrightarrow> wr d p = (d', p', r) \<Longrightarrow> length (pg_data p) = psize d \<Longrightarrow>
      ok d' \<and> psize d' = psize d \<and> pg_id p' = pg_id p \<and> length (pg_data p') = psize d \<and>
      page_body (pg_data p') = page_body (pg_data p)"
    and wr_other: "ok d \<Longrightarrow> wr d p = (d', p', r) \<Longrightarrow> length (pg_data p) = psize d \<Longrightarrow>
      j \<noteq> pg_id p \<Longrightarrow> held d j = Some b \<Longrightarrow> held d' j = Some b"
    and wr_same: "ok d \<Longrightarrow> wr d p = (d', p', Inr ()) \<Longrightarrow> length (pg_data p) = psize d \<Longrightarrow>
      held d' (pg_id p) = Some (pg_data p')"
begin

text \<open>A read after a successful write returns what was written, modulo the checksum.\<close>

lemma rd_after_wr:
  assumes "ok d" "wr d p = (d', p', Inr ())" "length (pg_data p) = psize d" "rd d' (pg_id p) = (d'', Inr q)"
  shows "page_body (pg_data q) = page_body (pg_data p)"
proof -
  have "ok d'" "page_body (pg_data p') = page_body (pg_data p)"
    using wr_frame [OF assms(1-3)] by auto
  then show ?thesis
    using rd_held [OF _ assms(4)] wr_same [OF assms(1-3)] by simp
qed

end

interpretation dm: page_store disk_ok dk_page_size disk_page read_page write_page
proof
  fix d d' i r assume "disk_ok d" "read_page d i = (d', r)"
  then show "disk_ok d' \<and> dk_page_size d' = dk_page_size d \<and> disk_page d' = disk_page d"
    using read_page_frame by auto
next
  fix d d' i p assume "disk_ok d" "read_page d i = (d', Inr p)"
  then show "disk_page d i = Some (pg_data p) \<and> pg_id p = i" using read_page_ok by simp
next
  fix d i b assume "disk_ok d" "disk_page d i = Some b"
  then show "length b = dk_page_size d \<and> 36 \<le> dk_page_size d"
    by (auto simp: disk_ok_def disk_page_def add.commute split: if_splits)
next
  fix d p d' p' r assume a: "disk_ok d" "write_page d p = (d', p', r)" "length (pg_data p) = dk_page_size d"
  then have "page_ok p" by (simp add: page_ok_def disk_ok_def)
  with a write_page_content(1) [OF a] write_page_frame [OF a(1,2)]
  show "disk_ok d' \<and> dk_page_size d' = dk_page_size d \<and> pg_id p' = pg_id p \<and> length (pg_data p') = dk_page_size d \<and>
      page_body (pg_data p') = page_body (pg_data p)"
    by (auto simp: stamp_checksum_data page_ok_def)
next
  fix d p d' p' r j b
  assume "disk_ok d" "write_page d p = (d', p', r)" "length (pg_data p) = dk_page_size d" "j \<noteq> pg_id p" "disk_page d j = Some b"
  then show "disk_page d' j = Some b" by (rule write_page_other)
next
  fix d p d' p' assume "disk_ok d" "write_page d p = (d', p', Inr ())" "length (pg_data p) = dk_page_size d"
  then show "disk_page d' (pg_id p) = Some (pg_data p')" by (rule write_page_same(1))
qed

section \<open>Properties\<close>

text \<open>A disk with an open file of \<open>n\<close> zeroed pages of 100 bytes.\<close>

definition example_disk :: "nat \<Rightarrow> disk" where
  "example_disk n = \<lparr>dk_config = default_config\<lparr>page_size := 100\<rparr>,
     dk_header = example_db_header\<lparr>dh_page_size := 100, dh_next_page_id := of_nat n\<rparr>,
     dk_fm = \<lparr>fm_is_open = True, fm_path = ''db'', fm_fail = False\<rparr>, dk_free = [], dk_open = True,
     dk_os = \<lparr>os_files = [''db'' \<mapsto> replicate (100 * n) 0], os_faults = []\<rparr>\<rparr>"

definition quiet :: "disk \<Rightarrow> bool" where
  "quiet d \<longleftrightarrow> os_faults (dk_os d) = [] \<and> \<not> fm_fail (dk_fm d)"

text \<open>C22. Reading a page back after a successful write returns the written bytes with the checksum field
  recomputed, and every other page of the file reads as before.\<close>
theorem write_page_read_page:
  assumes "disk_ok d" "length (pg_data p) = dk_page_size d" "write_page d p = (d', p', Inr ())" "quiet d'"
  shows "snd (read_page d' (pg_id p)) = Inr \<lparr>pg_id = pg_id p,
      pg_data = (if pg_id p = 0 then pg_data p else stamped (pg_data p)), pg_dirty = False\<rparr> \<and>
    (\<forall>j b. j \<noteq> pg_id p \<longrightarrow> disk_page d j = Some b \<longrightarrow>
      snd (read_page d' j) = (if j = 0 \<or> checksum_ok b then Inr \<lparr>pg_id = j, pg_data = b, pg_dirty = False\<rparr> else Inl Corruption))"
proof (intro conjI allI impI)
  have ok': "disk_ok d'" by (rule write_page_frame(1) [OF assms(1,3)])
  have q: "\<not> fm_fail (dk_fm d')" "os_faults (dk_os d') = []" using assms(4) by (simp_all add: quiet_def)
  note same = write_page_same [OF assms(1,3,2)]
  have "36 \<le> length (pg_data p)" using assms(1,2) by (simp add: disk_ok_def)
  then show "snd (read_page d' (pg_id p)) = Inr \<lparr>pg_id = pg_id p,
      pg_data = (if pg_id p = 0 then pg_data p else stamped (pg_data p)), pg_dirty = False\<rparr>"
    using read_page_no_fault [OF ok' q same(1)] same(3) checksum_ok_stamped by auto
  fix j b assume "j \<noteq> pg_id p" "disk_page d j = Some b"
  then show "snd (read_page d' j) = (if j = 0 \<or> checksum_ok b then Inr \<lparr>pg_id = j, pg_data = b, pg_dirty = False\<rparr> else Inl Corruption)"
    using read_page_no_fault [OF ok' q write_page_other [OF assms(1,3,2)]] by blast
qed

lemma example_write:
  "disk_ok (example_disk 3)"
  "\<exists>d' p'. write_page (example_disk 3) (new_page 1 100) = (d', p', Inr ()) \<and> quiet d'"
proof -
  show "disk_ok (example_disk 3)" by (simp add: disk_ok_def example_disk_def)
  have "is_valid_id (1 :: page_id)" by (rule is_valid_id_less) simp
  then have "calculate_offset (example_disk 3) 1 = Inr 100"
    using calculate_offset_eq [of "example_disk 3" 1] by (simp add: example_disk_def)
  moreover have "\<not> seek_fails 100 (dk_fm (example_disk 3))"
    by (simp add: seek_fails_def example_disk_def)
  ultimately show "\<exists>d' p'. write_page (example_disk 3) (new_page 1 100) = (d', p', Inr ()) \<and> quiet d'"
    by (simp add: write_page_def example_disk_def new_page_def on_file_def file_write_at_def take_fault_def quiet_def Let_def)
qed

theorem write_page_read_page_witness:
  "\<exists>d' p'. write_page (example_disk 3) (new_page 1 100) = (d', p', Inr ()) \<and>
     snd (read_page d' 1) = Inr \<lparr>pg_id = 1, pg_data = stamped (replicate 100 0), pg_dirty = False\<rparr>"
proof -
  obtain d' p' where w: "write_page (example_disk 3) (new_page 1 100) = (d', p', Inr ())" "quiet d'"
    using example_write(2) by blast
  have "length (pg_data (new_page 1 100)) = dk_page_size (example_disk 3)"
    by (simp add: new_page_def example_disk_def)
  then show ?thesis
    using write_page_read_page [OF example_write(1) _ w] w by (auto simp: new_page_def)
qed

text \<open>Damage to one byte of the file.\<close>

definition damage :: "nat \<Rightarrow> byte \<Rightarrow> disk \<Rightarrow> disk" where
  "damage k v d = d\<lparr>dk_os := (dk_os d)\<lparr>os_files := (os_files (dk_os d))(fm_path (dk_fm d) \<mapsto> (dk_content d)[k := v])\<rparr>\<rparr>"

lemma disk_page_damage:
  assumes "disk_page d i = Some b" "k < dk_page_size d"
  shows "disk_page (damage (unat i * dk_page_size d + k) v d) i = Some (b[k := v])"
proof -
  let ?ps = "dk_page_size d" and ?c = "dk_content d"
  have c: "dk_content (damage (unat i * ?ps + k) v d) = ?c[unat i * ?ps + k := v]"
    by (simp add: damage_def dk_content_def)
  have cfg: "dk_config (damage (unat i * ?ps + k) v d) = dk_config d" by (simp add: damage_def)
  have b: "addressable d i" "unat i * ?ps + ?ps \<le> length ?c" "b = bslice (unat i * ?ps) ?ps ?c"
    using assms(1) by (auto simp: disk_page_def add.commute split: if_splits)
  have "bslice (unat i * ?ps) ?ps (?c[unat i * ?ps + k := v]) = b[k := v]"
    using assms(2) b(2) unfolding b(3)
    by (intro nth_equalityI) (simp_all add: nth_slice nth_list_update)
  then show ?thesis
    using b unfolding disk_page_def c cfg addressable_def by (simp add: add.commute)
qed



text \<open>
  Allocation. \<open>U\<close> is the set of pages handed out and not yet released.
\<close>

definition alloc_inv :: "disk \<Rightarrow> page_id set \<Rightarrow> bool" where
  "alloc_inv d U \<longleftrightarrow> distinct (dk_free d) \<and> set (dk_free d) \<inter> U = {} \<and> 0 \<notin> U \<union> set (dk_free d) \<and>
     0 < unat (dh_next_page_id (dk_header d)) \<and>
     (\<forall>i\<in>U \<union> set (dk_free d). unat i < unat (dh_next_page_id (dk_header d)))"

text \<open>Allocation hands out a released page or the next id, and writes no other page.\<close>

lemma disk_page_bookkeeping: "disk_page (d\<lparr>dk_free := fp\<rparr>) = disk_page d" "disk_page (d\<lparr>dk_header := h\<rparr>) = disk_page d"
  by (simp_all add: fun_eq_iff disk_page_def addressable_def dk_content_def)

lemma allocate_page_effect:
  assumes ok: "disk_ok d" and al: "alloc_inv d U" and res: "allocate_page d = (d', r)"
  shows "disk_ok d'" "dk_config d' = dk_config d"
    "j \<noteq> dh_next_page_id (dk_header d) \<Longrightarrow> disk_page d j = Some b \<Longrightarrow> disk_page d' j = Some b"
    "r = Inr i \<Longrightarrow> i \<noteq> 0 \<and> i \<notin> U \<and> alloc_inv d' (insert i U)" "r = Inl e \<Longrightarrow> dk_free d' = []"
    "r = Inr i \<Longrightarrow> unat (dh_next_page_id (dk_header d)) \<le> unat (dh_next_page_id (dk_header d'))"
proof -
  let ?next = "dh_next_page_id (dk_header d)"
  have opn: "dk_open d" using ok by (simp add: disk_ok_def)
  have "disk_ok d' \<and> dk_config d' = dk_config d \<and> (\<forall>j b. j \<noteq> ?next \<longrightarrow> disk_page d j = Some b \<longrightarrow> disk_page d' j = Some b) \<and>
    (case r of Inr i \<Rightarrow> i \<noteq> 0 \<and> i \<notin> U \<and> alloc_inv d' (insert i U) \<and> unat ?next \<le> unat (dh_next_page_id (dk_header d')) | Inl _ \<Rightarrow> dk_free d' = [])"
  proof (cases "dk_free d" rule: rev_cases)
    case (snoc fp i)
    then have "d' = d\<lparr>dk_free := fp\<rparr>" "r = Inr i"
      using opn res by (simp_all add: allocate_page_def free_allocate_def)
    then show ?thesis
      using assms snoc by (auto simp: alloc_inv_def disk_ok_def disk_page_bookkeeping)
  next
    case Nil
    define d0 where "d0 = d\<lparr>dk_header := (dk_header d)\<lparr>dh_next_page_id := ?next + 1\<rparr>\<rparr>"
    define pg where "pg = write_header (PageHeader_zero\<lparr>ph_page_id := ?next, ph_page_type := PageType_Invalid\<rparr>)
      (new_page ?next (dk_page_size d))"
    obtain d1 p' r' where w: "write_page d0 pg = (d1, p', r')" by (cases "write_page d0 pg") auto
    have ok0: "disk_ok d0" using ok by (simp add: disk_ok_def d0_def)
    have "page_ok (new_page ?next (dk_page_size d))" using ok by (simp add: page_ok_def new_page_def disk_ok_def)
    then have len: "length (pg_data pg) = dk_page_size d0" and id: "pg_id pg = ?next"
      by (simp_all add: pg_def write_header_data page_ok_def d0_def) (simp_all add: new_page_def)
    have a: "d' = d1" "r = (case r' of Inl e \<Rightarrow> Inl e | Inr _ \<Rightarrow> Inr ?next)"
      using opn Nil w res by (auto simp: allocate_page_def free_allocate_def Let_def simp flip: d0_def pg_def split: sum.splits)
    note fr = write_page_frame [OF ok0 w]
    have keep: "\<forall>j b. j \<noteq> ?next \<longrightarrow> disk_page d j = Some b \<longrightarrow> disk_page d' j = Some b"
      using write_page_other [OF ok0 w len] id a(1) by (auto simp: d0_def disk_page_bookkeeping)
    show ?thesis
    proof (cases r')
      case (Inl e)
      then show ?thesis using a fr Nil keep by (simp add: d0_def)
    next
      case (Inr u)
      then have "addressable d0 ?next"
        using write_page_content(2) [OF ok0 w len] id by auto
      then have "unat (?next + 1) = unat ?next + 1"
        using unat_invalid_value [where 'a = 64] unat_less_full [of ?next]
        by (intro unat_plus_if_fits [THEN trans]) (auto simp: addressable_def is_valid_id_def word_unat_eq_iff)
      then show ?thesis
        using a fr al Nil Inr keep by (auto simp: d0_def alloc_inv_def less_Suc_eq word_unat_eq_iff)
    qed
  qed
  then show "disk_ok d'" "dk_config d' = dk_config d"
    "j \<noteq> dh_next_page_id (dk_header d) \<Longrightarrow> disk_page d j = Some b \<Longrightarrow> disk_page d' j = Some b"
    "r = Inr i \<Longrightarrow> i \<noteq> 0 \<and> i \<notin> U \<and> alloc_inv d' (insert i U)" "r = Inl e \<Longrightarrow> dk_free d' = []"
    "r = Inr i \<Longrightarrow> unat (dh_next_page_id (dk_header d)) \<le> unat (dh_next_page_id (dk_header d'))"
    by (auto split: sum.splits)
qed



text \<open>C31. \<open>DiskManager::create\<close> never returns a database. On a fresh path with a healthy file system it
  creates an empty file and then fails with \<open>InvalidState\<close>, because \<open>init_new_database\<close> writes page 0
  before it sets \<open>m_is_open\<close>.\<close>
theorem create_never_succeeds:
  "(\<exists>e. snd (DiskManager_create p cfg u1 u2 s) = Inl e) \<and>
   (os_files s p = None \<longrightarrow> os_faults s = [] \<longrightarrow>
      snd (DiskManager_create p cfg u1 u2 s) = Inl InvalidState \<and>
      os_files (dk_os (fst (DiskManager_create p cfg u1 u2 s))) p = Some [])"
proof
  show "\<exists>e. snd (DiskManager_create p cfg u1 u2 s) = Inl e"
    by (auto simp: DiskManager_create_def init_new_database_def DiskManager_init_def on_file_def write_page_def Let_def
        split: prod.splits sum.splits)
  show "os_files s p = None \<longrightarrow> os_faults s = [] \<longrightarrow>
      snd (DiskManager_create p cfg u1 u2 s) = Inl InvalidState \<and>
      os_files (dk_os (fst (DiskManager_create p cfg u1 u2 s))) p = Some []"
    by (simp add: DiskManager_create_def init_new_database_def DiskManager_init_def on_file_def write_page_def Let_def
        create_file_def open_file_def FileManager_init_def take_fault_def split: prod.splits)
qed

theorem create_never_succeeds_witness:
  "snd (DiskManager_create ''db'' default_config 1 2 \<lparr>os_files = Map.empty, os_faults = []\<rparr>) = Inl InvalidState"
  using create_never_succeeds [of "''db''" default_config 1 2 "\<lparr>os_files = Map.empty, os_faults = []\<rparr>"] by simp

section \<open>Closing and reopening\<close>

lemma db_serialize_serialize:
  "db_header_ok h \<Longrightarrow> db_header_ok h' \<Longrightarrow> 76 \<le> length b \<Longrightarrow>
     DatabaseHeader_serialize h (DatabaseHeader_serialize h' b) = DatabaseHeader_serialize h b"
  by (simp add: DatabaseHeader_serialize_patch patch_same)

lemma db_header_ok_checksum [simp]: "db_header_ok (h\<lparr>dh_checksum := c\<rparr>) = db_header_ok h"
  by (simp add: db_header_ok_def)

lemma length_db_serialize: "db_header_ok h \<Longrightarrow> 76 \<le> length b \<Longrightarrow> length (DatabaseHeader_serialize h b) = length b"
  by (simp add: DatabaseHeader_serialize_patch)

definition db_image :: "nat \<Rightarrow> database_header \<Rightarrow> bytes" where
  "db_image ps h = DatabaseHeader_serialize h (replicate ps 0)"

definition db_checksum :: "nat \<Rightarrow> database_header \<Rightarrow> u32" where
  "db_checksum ps h = calculate_checksum (take 76 (db_image ps (h\<lparr>dh_checksum := 0\<rparr>)))"

lemma db_checksum_upd [simp]: "db_checksum ps (h\<lparr>dh_checksum := c\<rparr>) = db_checksum ps h"
  by (simp add: db_checksum_def)

lemma stamp_db_header_eq:
  assumes "db_header_ok h" "76 \<le> ps"
  shows "stamp_db_header h (new_page 0 ps) =
    (h\<lparr>dh_checksum := db_checksum ps h\<rparr>, \<lparr>pg_id = 0, pg_data = db_image ps (h\<lparr>dh_checksum := db_checksum ps h\<rparr>), pg_dirty = False\<rparr>)"
  using assms by (simp add: stamp_db_header_def new_page_def Let_def db_image_def db_checksum_def db_serialize_serialize)

lemma file_ops_quiet:
  assumes "os_faults s = []" "fm_is_open fm" "\<not> fm_fail fm"
  shows "file_flush s fm = (s, fm, Inr ())" "file_close s fm = (s, fm\<lparr>fm_is_open := False\<rparr>, Inr ())"
    "file_write_at 0 bs s fm = (s\<lparr>os_files := (os_files s)(fm_path fm \<mapsto>
       file_write 0 bs (case os_files s (fm_path fm) of None \<Rightarrow> [] | Some c \<Rightarrow> c))\<rparr>, fm, Inr ())"
  using assms by (simp_all add: file_flush_def file_close_def file_write_at_def take_fault_def seek_fails_def)

lemma is_valid_id_0 [simp]: "is_valid_id (0 :: page_id)"
  by (rule is_valid_id_less) simp

lemma disk_close_quiet:
  assumes ok: "disk_ok d" and q: "quiet d" and h: "db_header_ok (dk_header d)"
  defines "bs \<equiv> db_image (dk_page_size d) ((dk_header d)\<lparr>dh_checksum := db_checksum (dk_page_size d) (dk_header d)\<rparr>)"
  shows "snd (disk_close d) = Inr ()"
    "dk_os (fst (disk_close d)) = (dk_os d)\<lparr>os_files := (os_files (dk_os d))(fm_path (dk_fm d) \<mapsto> file_write 0 bs (dk_content d))\<rparr>"
proof -
  have ps: "0 < dk_page_size d" "dk_page_size d < 2 ^ 64" "76 \<le> dk_page_size d" using ok by (simp_all add: disk_ok_def)
  have co: "calculate_offset (d\<lparr>dk_header := h'\<rparr>) 0 = Inr 0" for h'
    using calculate_offset_eq [of "d\<lparr>dk_header := h'\<rparr>" 0] ps by simp
  show "snd (disk_close d) = Inr ()"
    "dk_os (fst (disk_close d)) = (dk_os d)\<lparr>os_files := (os_files (dk_os d))(fm_path (dk_fm d) \<mapsto> file_write 0 bs (dk_content d))\<rparr>"
    using ok q ps(3) h co
    by (simp_all add: disk_close_def disk_ok_def quiet_def stamp_db_header_eq write_page_def on_file_def file_ops_quiet
        Let_def dk_content_def bs_def)
qed

text \<open>Closing a database and opening its file again restores the database header, apart from the
  checksum member, which \<open>load_existing_database\<close> leaves at zero; every page but page 0 is as before,
  and the list of free pages is empty.\<close>
lemma close_open_restores:
  assumes "disk_ok d" "quiet d" "db_header_ok (dk_header d)" "dh_magic (dk_header d) = MAGIC_BYTES"
    and "dh_format_version (dk_header d) = 1" "unat (dh_page_size (dk_header d)) = dk_page_size d"
    and "dk_page_size d dvd length (dk_content d)" "length (dk_content d) < 2 ^ 64"
  shows "snd (disk_close d) = Inr () \<and>
    (\<exists>d'. DiskManager_open (fm_path (dk_fm d)) (dk_config d) (dk_os (fst (disk_close d))) = (d', Inr ()) \<and>
       disk_ok d' \<and> dk_header d' = (dk_header d)\<lparr>dh_checksum := 0\<rparr> \<and> dk_free d' = [] \<and>
       (\<forall>j b. j \<noteq> 0 \<longrightarrow> disk_page d j = Some b \<longrightarrow> disk_page d' j = Some b))"
proof -
  let ?h = "dk_header d" and ?ps = "dk_page_size d" and ?path = "fm_path (dk_fm d)"
  let ?h0 = "?h\<lparr>dh_checksum := 0\<rparr>" and ?h1 = "?h\<lparr>dh_checksum := db_checksum ?ps ?h\<rparr>"
  have ps: "76 \<le> ?ps" "?ps < 2 ^ 64" using assms(1) by (simp_all add: disk_ok_def)
  let ?bs = "db_image ?ps ?h1" and ?s = "dk_os (fst (disk_close d))"
  let ?c = "file_write 0 ?bs (dk_content d)"
  note cl = disk_close_quiet [OF assms(1-3)]
  have lbs: "length ?bs = ?ps" using assms(3) ps by (simp add: db_image_def length_db_serialize)
  have s: "os_files ?s ?path = Some ?c" "os_faults ?s = []" using cl(2) assms(2) by (simp_all add: quiet_def)
  have lc: "length ?c = max (length (dk_content d)) ?ps" using lbs by (simp add: length_file_write)
  have dvd: "?ps dvd length ?c" "length ?c < 2 ^ 64" "?ps \<le> length ?c"
    using assms(7,8) ps lc by (auto simp: max_def)
  have sz: "unat (of_nat (length ?c) :: u64) = length ?c" using dvd by (intro unat_of_nat_fits) simp
  define d1 where "d1 = (DiskManager_init (dk_config d) ?s)\<lparr>dk_fm := \<lparr>fm_is_open = True, fm_path = ?path, fm_fail = False\<rparr>, dk_open := True\<rparr>"
  have d1: "disk_ok d1" "\<not> fm_fail (dk_fm d1)" "os_faults (dk_os d1) = []" "dk_content d1 = ?c" "dk_config d1 = dk_config d"
    using ps s by (simp_all add: d1_def disk_ok_def DiskManager_init_def dk_content_def)
  have p0: "disk_page d1 0 = Some ?bs"
    using d1(4,5) lc lbs slice_file_write_same [of ?ps ?bs 0] by (simp add: disk_page_def addressable_def)
  obtain d2 where rd: "read_page d1 0 = (d2, Inr \<lparr>pg_id = 0, pg_data = ?bs, pg_dirty = False\<rparr>)"
    using read_page_no_fault [OF d1(1-3) p0] by (cases "read_page d1 0") auto
  note fr = read_page_frame [OF rd]
  have ser0: "DatabaseHeader_serialize ?h0 ?bs = db_image ?ps ?h0"
    using assms(3) ps by (simp add: db_image_def db_serialize_serialize)
  have des: "DatabaseHeader_deserialize ?bs = ?h1" "DatabaseHeader_deserialize (db_image ?ps ?h0) = ?h0"
    using assms(3) ps by (simp_all add: db_image_def db_deserialize_serialize)
  let ?d' = "d2\<lparr>dk_header := ?h0\<rparr>"
  have "DiskManager_open ?path (dk_config d) ?s = (?d', Inr ())"
  proof -
    let ?i = "DiskManager_init (dk_config d) ?s"
    let ?o = "?i\<lparr>dk_fm := \<lparr>fm_is_open = True, fm_path = ?path, fm_fail = False\<rparr>\<rparr>"
    have o: "on_file (open_file ?path) ?i = (?o, Inr ())"
      using s by (simp add: on_file_def open_file_def DiskManager_init_def FileManager_init_def take_fault_def)
    have z: "on_file file_size ?o = (?o, Inr (of_nat (length ?c)))"
      using s by (simp add: on_file_def file_size_def DiskManager_init_def take_fault_def)
    have cfg: "dk_config ?o = dk_config d" "?o\<lparr>dk_open := True\<rparr> = d1"
      by (simp_all add: DiskManager_init_def d1_def)
    have cks: "calculate_checksum (take 76 (db_image ?ps ?h0)) = db_checksum ?ps ?h"
      by (simp add: db_checksum_def)
    show ?thesis
      unfolding DiskManager_open_def load_existing_database_def
      using dvd sz assms(4-6) rd fr(3) d1(5)
      by (simp add: o z cfg des ser0 cks Let_def mod_eq_0_iff_dvd)
  qed
  moreover have "disk_ok ?d'" "dk_free ?d' = []"
    using fr d1(1) by (simp_all add: disk_ok_def d1_def DiskManager_init_def)
  moreover have "disk_page ?d' j = Some b" if j: "j \<noteq> 0" "disk_page d j = Some b" for j b
  proof -
    have b: "addressable d j" "unat j * ?ps + ?ps \<le> length (dk_content d)" "b = bslice (unat j * ?ps) ?ps (dk_content d)"
      using j(2) by (auto simp: disk_page_def add.commute split: if_splits)
    have "dk_content ?d' = ?c" "dk_config ?d' = dk_config d" using fr(3,6) d1(4,5) by (simp_all add: dk_content_def)
    moreover have "bslice (unat j * ?ps) ?ps ?c = b"
      using page_extents_disjoint [OF j(1), of ?ps] b lbs by (simp add: slice_file_write_other)
    ultimately show ?thesis
      using b lc by (simp add: disk_page_def addressable_def add.commute)
  qed
  ultimately show ?thesis
    using cl(1) by (intro conjI exI [of _ ?d']) auto
qed

end
