(* ===== verification/Clock_Replacer.thy ===== *)
theory Clock_Replacer
  imports Core_Base
begin

text \<open>
  \<open>replacer.hpp\<close>, \<open>clock_replacer.hpp/.cpp\<close>: the clock policy that picks the frame to evict. The search
  is a loop of at most two turns of the clock; the lemmas show that two turns are enough, so a frame
  that may be evicted is always found. \<open>Replacer\<close> becomes the locale \<open>replacer\<close>, stated over the set of
  frames that may be evicted.
\<close>

section \<open>The clock\<close>

record frame_state =
  fs_pinned :: bool
  fs_reference :: bool
  fs_empty :: bool

record clock =
  ck_num_frames :: nat
  ck_hand :: nat
  ck_frames :: "frame_state list"

definition ClockReplacer_init :: "nat \<Rightarrow> clock" where
  "ClockReplacer_init n = \<lparr>ck_num_frames = n, ck_hand = 0,
     ck_frames = replicate n \<lparr>fs_pinned = False, fs_reference = False, fs_empty = True\<rparr>\<rparr>"

definition advance :: "clock \<Rightarrow> clock" where
  "advance c = c\<lparr>ck_hand := (ck_hand c + 1) mod ck_num_frames c\<rparr>"

text \<open>The body of the loop of \<open>victim\<close>, run as often as its argument says.\<close>

primrec victim_loop :: "nat \<Rightarrow> clock \<Rightarrow> clock \<times> frame_id option" where
  "victim_loop 0 c = (c, None)"
| "victim_loop (Suc i) c =
     (let state = ck_frames c ! ck_hand c in
      if fs_pinned state \<or> fs_empty state then victim_loop i (advance c)
      else if fs_reference state
      then victim_loop i (advance (c\<lparr>ck_frames := (ck_frames c)[ck_hand c := state\<lparr>fs_reference := False\<rparr>]\<rparr>))
      else (advance (c\<lparr>ck_frames := (ck_frames c)[ck_hand c := state\<lparr>fs_empty := True\<rparr>]\<rparr>),
            Some (of_nat (ck_hand c))))"

definition victim :: "clock \<Rightarrow> clock \<times> frame_id option" where
  "victim c = (if ck_num_frames c = 0 then (c, None) else victim_loop (ck_num_frames c * 2) c)"

definition clock_pin :: "frame_id \<Rightarrow> clock \<Rightarrow> clock" where
  "clock_pin f c =
     (if unat f \<ge> ck_num_frames c then c
      else c\<lparr>ck_frames := (ck_frames c)[unat f := (ck_frames c ! unat f)\<lparr>fs_pinned := True, fs_empty := False\<rparr>]\<rparr>)"

definition clock_unpin :: "frame_id \<Rightarrow> clock \<Rightarrow> clock" where
  "clock_unpin f c =
     (if unat f \<ge> ck_num_frames c then c
      else c\<lparr>ck_frames := (ck_frames c)[unat f := (ck_frames c ! unat f)\<lparr>fs_pinned := False, fs_empty := False\<rparr>]\<rparr>)"

definition record_access :: "frame_id \<Rightarrow> clock \<Rightarrow> clock" where
  "record_access f c =
     (if unat f \<ge> ck_num_frames c then c
      else c\<lparr>ck_frames := (ck_frames c)[unat f := (ck_frames c ! unat f)\<lparr>fs_reference := True\<rparr>]\<rparr>)"

section \<open>Invariant and candidates\<close>

definition clock_ok :: "clock \<Rightarrow> bool" where
  "clock_ok c \<longleftrightarrow> length (ck_frames c) = ck_num_frames c \<and> ck_num_frames c < 2 ^ 32 \<and>
     (0 < ck_num_frames c \<longrightarrow> ck_hand c < ck_num_frames c)"

definition evictable :: "frame_state \<Rightarrow> bool" where
  "evictable s \<longleftrightarrow> \<not> fs_pinned s \<and> \<not> fs_empty s"

definition candidates :: "clock \<Rightarrow> nat set" where
  "candidates c = {k. k < ck_num_frames c \<and> evictable (ck_frames c ! k)}"

lemma clock_ok_init: "n < 2 ^ 32 \<Longrightarrow> clock_ok (ClockReplacer_init n)"
  by (simp add: clock_ok_def ClockReplacer_init_def)

lemma candidates_init: "candidates (ClockReplacer_init n) = {}"
  by (auto simp: candidates_def ClockReplacer_init_def evictable_def)

lemma advance_sel [simp]: "ck_num_frames (advance c) = ck_num_frames c" "ck_frames (advance c) = ck_frames c"
  "ck_hand (advance c) = (ck_hand c + 1) mod ck_num_frames c"
  by (simp_all add: advance_def)

lemma clock_ok_advance [simp]: "clock_ok c \<Longrightarrow> clock_ok (advance c)"
  by (simp add: clock_ok_def)

lemma clock_ok_update [simp]: "clock_ok c \<Longrightarrow> clock_ok (c\<lparr>ck_frames := (ck_frames c)[k := s]\<rparr>)"
  by (simp add: clock_ok_def)

lemma candidates_advance [simp]: "candidates (advance c) = candidates c"
  by (simp add: candidates_def)

lemma candidates_update:
  "length (ck_frames c) = ck_num_frames c \<Longrightarrow> candidates (c\<lparr>ck_frames := (ck_frames c)[k := s]\<rparr>) =
     (if k < ck_num_frames c then if evictable s then insert k (candidates c) else candidates c - {k}
      else candidates c)"
  by (auto simp: candidates_def nth_list_update split: if_splits)

lemma candidates_clear_reference:
  assumes "clock_ok c" "k < ck_num_frames c"
  shows "candidates (c\<lparr>ck_frames := (ck_frames c)[k := (ck_frames c ! k)\<lparr>fs_reference := b\<rparr>]\<rparr>) = candidates c"
  using assms by (auto simp: candidates_def clock_ok_def nth_list_update evictable_def)

lemma victim_loop_ok:
  assumes "clock_ok c" "0 < ck_num_frames c" "victim_loop i c = (c', r)"
  shows "clock_ok c' \<and> ck_num_frames c' = ck_num_frames c \<and>
    (case r of None \<Rightarrow> candidates c' = candidates c
     | Some f \<Rightarrow> unat f \<in> candidates c \<and> candidates c' = candidates c - {unat f})"
  using assms
proof (induction i arbitrary: c)
  case (Suc i)
  let ?h = "ck_hand c"
  let ?s = "ck_frames c ! ?h"
  have h: "?h < ck_num_frames c" "length (ck_frames c) = ck_num_frames c" "ck_num_frames c < 2 ^ 32"
    using Suc.prems by (auto simp: clock_ok_def)
  then have uh: "unat (of_nat ?h :: frame_id) = ?h" by (intro unat_of_nat_fits) simp
  consider "fs_pinned ?s \<or> fs_empty ?s" | "evictable ?s" "fs_reference ?s" | "evictable ?s" "\<not> fs_reference ?s"
    by (auto simp: evictable_def)
  then show ?case
  proof cases
    case 1
    then have "victim_loop i (advance c) = (c', r)" using Suc.prems(3) by (auto simp: Let_def)
    then show ?thesis using Suc.IH [of "advance c"] Suc.prems(1,2) by (simp split: option.splits)
  next
    case 2
    let ?c = "c\<lparr>ck_frames := (ck_frames c)[?h := ?s\<lparr>fs_reference := False\<rparr>]\<rparr>"
    have "victim_loop i (advance ?c) = (c', r)" using Suc.prems(3) 2 by (simp add: Let_def evictable_def)
    then show ?thesis
      using Suc.IH [of "advance ?c"] Suc.prems(1,2) candidates_clear_reference [OF Suc.prems(1) h(1), of False]
      by (simp split: option.splits)
  next
    case 3
    then show ?thesis
      using Suc.prems h uh by (auto simp: Let_def evictable_def candidates_update) (auto simp: candidates_def evictable_def)
  qed
qed simp

text \<open>How many steps until the hand reaches frame \<open>k\<close>.\<close>

definition steps_to :: "clock \<Rightarrow> nat \<Rightarrow> nat" where
  "steps_to c k = (if ck_hand c \<le> k then k - ck_hand c else k + ck_num_frames c - ck_hand c)"

lemma steps_to_advance:
  assumes "ck_hand c < ck_num_frames c" "k < ck_num_frames c"
  shows "steps_to (advance c) k = (if k = ck_hand c then ck_num_frames c - 1 else steps_to c k - 1)"
    and "k \<noteq> ck_hand c \<Longrightarrow> 0 < steps_to c k"
proof -
  have "(ck_hand c + 1) mod ck_num_frames c = (if ck_hand c + 1 = ck_num_frames c then 0 else ck_hand c + 1)"
    using assms(1) by (simp add: mod_less)
  then show "steps_to (advance c) k = (if k = ck_hand c then ck_num_frames c - 1 else steps_to c k - 1)"
    using assms by (auto simp: steps_to_def)
  show "k \<noteq> ck_hand c \<Longrightarrow> 0 < steps_to c k"
    using assms by (auto simp: steps_to_def)
qed

lemma victim_loop_finds:
  assumes "clock_ok c" "k \<in> candidates c"
    and "steps_to c k + (if fs_reference (ck_frames c ! k) then ck_num_frames c else 0) < i"
  shows "snd (victim_loop i c) \<noteq> None"
  using assms
proof (induction i arbitrary: c)
  case (Suc i)
  let ?h = "ck_hand c" and ?n = "ck_num_frames c"
  let ?s = "ck_frames c ! ?h"
  have k: "k < ?n" "evictable (ck_frames c ! k)" using Suc.prems(2) by (auto simp: candidates_def)
  have h: "?h < ?n" "length (ck_frames c) = ?n" using Suc.prems(1) k by (auto simp: clock_ok_def)
  consider "fs_pinned ?s \<or> fs_empty ?s" | "evictable ?s" "fs_reference ?s" | "evictable ?s" "\<not> fs_reference ?s"
    by (auto simp: evictable_def)
  then show ?case
  proof cases
    case 1
    then have ne: "k \<noteq> ?h" using k by (auto simp: evictable_def)
    have "steps_to (advance c) k + (if fs_reference (ck_frames (advance c) ! k) then ck_num_frames (advance c) else 0) < i"
      using Suc.prems(3) steps_to_advance [OF h(1) k(1)] ne by (simp split: if_splits)
    then have "snd (victim_loop i (advance c)) \<noteq> None"
      using Suc.IH [of "advance c"] Suc.prems(1,2) by simp
    then show ?thesis using 1 by (auto simp: Let_def)
  next
    case 2
    let ?c = "c\<lparr>ck_frames := (ck_frames c)[?h := ?s\<lparr>fs_reference := False\<rparr>]\<rparr>"
    have st: "steps_to (advance ?c) k = steps_to (advance c) k" by (simp add: steps_to_def)
    have "steps_to (advance ?c) k + (if fs_reference (ck_frames (advance ?c) ! k) then ck_num_frames (advance ?c) else 0) < i"
      unfolding st using Suc.prems(3) steps_to_advance [OF h(1) k(1)] 2 h
      by (cases "k = ?h") (auto simp: steps_to_def nth_list_update)
    then have "snd (victim_loop i (advance ?c)) \<noteq> None"
      using Suc.IH [of "advance ?c"] Suc.prems(1,2) candidates_clear_reference [OF Suc.prems(1) h(1), of False] by simp
    then show ?thesis using 2 by (simp add: Let_def evictable_def)
  next
    case 3
    then show ?thesis by (simp add: Let_def evictable_def)
  qed
qed simp

section \<open>The interface of a replacer\<close>

locale replacer =
  fixes ok :: "'r \<Rightarrow> bool" and frames :: "'r \<Rightarrow> nat" and cands :: "'r \<Rightarrow> nat set"
    and pick :: "'r \<Rightarrow> 'r \<times> frame_id option"
    and pin unpin access :: "frame_id \<Rightarrow> 'r \<Rightarrow> 'r"
  assumes pick_ok: "ok r \<Longrightarrow> pick r = (r', v) \<Longrightarrow> ok r' \<and> frames r' = frames r"
    and pick_Some: "ok r \<Longrightarrow> pick r = (r', Some f) \<Longrightarrow> unat f \<in> cands r \<and> cands r' = cands r - {unat f}"
    and pick_None: "ok r \<Longrightarrow> pick r = (r', None) \<Longrightarrow> cands r = {} \<and> cands r' = {}"
    and pin_ok: "ok r \<Longrightarrow> ok (pin f r) \<and> frames (pin f r) = frames r \<and> cands (pin f r) = cands r - {unat f}"
    and unpin_ok: "ok r \<Longrightarrow> ok (unpin f r) \<and> frames (unpin f r) = frames r \<and>
      cands (unpin f r) = (if unat f < frames r then insert (unat f) (cands r) else cands r)"
    and access_ok: "ok r \<Longrightarrow> ok (access f r) \<and> frames (access f r) = frames r \<and> cands (access f r) = cands r"
    and cands_bound: "ok r \<Longrightarrow> cands r \<subseteq> {..<frames r}"
begin

lemma pinned_not_chosen:
  assumes "ok r" "pick (pin f r) = (r', Some g)"
  shows "g \<noteq> f"
  using pick_Some [of "pin f r" r' g] pin_ok [OF assms(1), of f] assms(2) by auto

lemma pick_iff:
  assumes "ok r"
  shows "snd (pick r) = None \<longleftrightarrow> cands r = {}"
  using pick_Some [OF assms] pick_None [OF assms] by (cases "pick r"; cases "snd (pick r)") auto

end

lemma victim_cases:
  assumes "clock_ok c" "victim c = (c', r)"
  shows "clock_ok c' \<and> ck_num_frames c' = ck_num_frames c \<and>
    (case r of None \<Rightarrow> candidates c = {} \<and> candidates c' = {}
     | Some f \<Rightarrow> unat f \<in> candidates c \<and> candidates c' = candidates c - {unat f})"
proof (cases "ck_num_frames c = 0")
  case True
  then show ?thesis using assms by (auto simp: victim_def candidates_def)
next
  case False
  then have v: "victim_loop (ck_num_frames c * 2) c = (c', r)" using assms(2) by (simp add: victim_def)
  have "candidates c = {}" if "r = None"
  proof (rule ccontr)
    assume "candidates c \<noteq> {}"
    then obtain k where k: "k \<in> candidates c" by blast
    then have "steps_to c k < ck_num_frames c"
      using assms(1) False by (auto simp: steps_to_def candidates_def clock_ok_def)
    then have "steps_to c k + (if fs_reference (ck_frames c ! k) then ck_num_frames c else 0) < ck_num_frames c * 2"
      by simp
    then show False using victim_loop_finds [OF assms(1) k, of "ck_num_frames c * 2"] v that by simp
  qed
  then show ?thesis
    using victim_loop_ok [OF assms(1) _ v] False by (auto split: option.splits)
qed

lemma candidates_pin:
  assumes "clock_ok c"
  shows "candidates (clock_pin f c) = candidates c - {unat f}"
    and "candidates (clock_unpin f c) = (if unat f < ck_num_frames c then insert (unat f) (candidates c) else candidates c)"
    and "candidates (record_access f c) = candidates c"
proof -
  have len: "length (ck_frames c) = ck_num_frames c" using assms by (simp add: clock_ok_def)
  show "candidates (clock_pin f c) = candidates c - {unat f}"
  proof (cases "unat f < ck_num_frames c")
    case True
    then show ?thesis by (simp add: clock_pin_def candidates_update [OF len] evictable_def)
  next
    case False
    then show ?thesis by (auto simp: clock_pin_def candidates_def)
  qed
  show "candidates (clock_unpin f c) = (if unat f < ck_num_frames c then insert (unat f) (candidates c) else candidates c)"
    by (simp add: clock_unpin_def candidates_update [OF len] evictable_def)
  show "candidates (record_access f c) = candidates c"
    using candidates_clear_reference [OF assms, of "unat f" True] by (simp add: record_access_def)
qed

lemma clock_ok_pin:
  "clock_ok c \<Longrightarrow> clock_ok (clock_pin f c)" "ck_num_frames (clock_pin f c) = ck_num_frames c"
  "clock_ok c \<Longrightarrow> clock_ok (clock_unpin f c)" "ck_num_frames (clock_unpin f c) = ck_num_frames c"
  "clock_ok c \<Longrightarrow> clock_ok (record_access f c)" "ck_num_frames (record_access f c) = ck_num_frames c"
  by (simp_all add: clock_pin_def clock_unpin_def record_access_def)

interpretation ck: replacer clock_ok ck_num_frames candidates victim clock_pin clock_unpin record_access
proof
  show "clock_ok r' \<and> ck_num_frames r' = ck_num_frames r" if "clock_ok r" "victim r = (r', v)" for r r' v
    using victim_cases [OF that] by simp
  show "unat f \<in> candidates r \<and> candidates r' = candidates r - {unat f}"
    if "clock_ok r" "victim r = (r', Some f)" for r r' f
    using victim_cases [OF that] by simp
  show "candidates r = {} \<and> candidates r' = {}" if "clock_ok r" "victim r = (r', None)" for r r'
    using victim_cases [OF that] by simp
  show "candidates r \<subseteq> {..<ck_num_frames r}" if "clock_ok r" for r by (auto simp: candidates_def)
qed (simp_all add: candidates_pin clock_ok_pin)

section \<open>Properties\<close>

text \<open>C27. \<open>ClockReplacer::victim\<close> finds a frame exactly when some frame is neither pinned nor empty: two
  turns of the clock are enough. The frame it returns was such a frame and stops being one; no
  other frame's eligibility changes.\<close>
theorem victim_complete:
  assumes "clock_ok c"
  shows "case victim c of
      (c', Some f) \<Rightarrow> unat f \<in> candidates c \<and> candidates c' = candidates c - {unat f} \<and> clock_ok c'
    | (c', None) \<Rightarrow> candidates c = {} \<and> candidates c' = {} \<and> clock_ok c'"
  using victim_cases [OF assms] by (auto split: prod.splits option.splits)

theorem victim_complete_witness:
  "clock_ok (ClockReplacer_init 3) \<and> (\<exists>c'. victim (record_access 1 (clock_unpin 1 (clock_pin 1 (ClockReplacer_init 3)))) = (c', Some 1))"
proof -
  let ?c = "record_access 1 (clock_unpin 1 (clock_pin 1 (ClockReplacer_init 3)))"
  have ok: "clock_ok (ClockReplacer_init 3)" by (rule clock_ok_init) simp
  then have ok2: "clock_ok ?c" "candidates ?c = {1}"
    using ck.pin_ok ck.unpin_ok ck.access_ok candidates_init [of 3] by (auto simp: ClockReplacer_init_def)
  then have "case victim ?c of (c', Some f) \<Rightarrow> unat f = 1 | (c', None) \<Rightarrow> False"
    using victim_complete [OF ok2(1)] by (auto split: prod.splits option.splits)
  then show ?thesis
    using ok by (cases "victim ?c"; cases "snd (victim ?c)") (auto simp: word_unat_eq_iff)
qed

end
