(* ===== verification/Wal_Record.thy ===== *)
theory Wal_Record
  imports Byte_Codec
begin

text \<open>
  \<open>log_record.hpp/.cpp\<close>, \<open>log_record_type.hpp\<close>, \<open>lsn.hpp\<close> and \<open>log_buffer.hpp\<close>: the record of the
  write-ahead log, its byte format with a CRC32, and the in-memory buffer of serialized records. The
  format is shown to be a self-delimiting encoding: a stream of serialized records decodes to exactly
  those records, and damage to any byte but those of the length field is detected.
\<close>

section \<open>CRC32\<close>

definition crc32_step :: "u32 \<Rightarrow> u32" where
  "crc32_step crc = drop_bit 1 crc XOR (0xEDB88320 AND (- (crc AND 1)))"

definition crc32_byte :: "u32 \<Rightarrow> byte \<Rightarrow> u32" where
  "crc32_byte crc b = (crc32_step ^^ 8) (crc XOR ucast b)"

definition crc32 :: "bytes \<Rightarrow> u32" where
  "crc32 buf = NOT (foldl crc32_byte 0xFFFFFFFF buf)"

lemma crc32_step_cases: "crc32_step c = (if bit c 0 then drop_bit 1 c XOR 0xEDB88320 else drop_bit 1 c)"
  by (simp add: crc32_step_def and_one_eq bit_0 odd_iff_mod_2_eq_one)

lemma crc32_step_inj: assumes "crc32_step a = crc32_step b" shows "a = b"
proof -
  have top: "bit (crc32_step c) 31 \<longleftrightarrow> bit c 0" for c
    using bit_imp_le_length [of c 32] by (auto simp: crc32_step_cases bit_simps)
  from assms top have b0: "bit a 0 \<longleftrightarrow> bit b 0" by metis
  with assms have "drop_bit 1 a = drop_bit 1 b"
    by (cases "bit a 0") (simp_all add: crc32_step_cases xor_left_cancel xor.commute [of _ "0xEDB88320"])
  with b0 show "a = b" by (rule word_eq_by_shift)
qed

lemma crc32_steps_inj: "(crc32_step ^^ n) a = (crc32_step ^^ n) b \<Longrightarrow> a = b"
  by (induction n) (auto dest: crc32_step_inj)

lemma crc32_byte_inj:
  "crc32_byte c x = crc32_byte c' x \<Longrightarrow> c = c'" "crc32_byte c x = crc32_byte c y \<Longrightarrow> x = y"
proof -
  assume "crc32_byte c x = crc32_byte c' x"
  then have "c XOR ucast x = c' XOR ucast x" unfolding crc32_byte_def by (rule crc32_steps_inj)
  then show "c = c'" by (metis xor.commute xor_left_cancel)
next
  assume "crc32_byte c x = crc32_byte c y"
  then have "c XOR ucast x = c XOR ucast y" unfolding crc32_byte_def by (rule crc32_steps_inj)
  then have "(ucast x :: u32) = ucast y" by (simp only: xor_left_cancel)
  then show "x = y" by (auto simp: bit_eq_iff bit_unsigned_iff)
qed

lemma foldl_crc32_inj: "foldl crc32_byte c bs = foldl crc32_byte c' bs \<Longrightarrow> c = c'"
  by (induction bs arbitrary: c c') (auto dest: crc32_byte_inj)

lemma crc32_change: assumes "x \<noteq> y" shows "crc32 (as @ x # bs) \<noteq> crc32 (as @ y # bs)"
proof
  assume "crc32 (as @ x # bs) = crc32 (as @ y # bs)"
  then have "foldl crc32_byte (crc32_byte (foldl crc32_byte 0xFFFFFFFF as) x) bs =
      foldl crc32_byte (crc32_byte (foldl crc32_byte 0xFFFFFFFF as) y) bs"
    by (simp add: crc32_def)
  then show False using assms by (auto dest: foldl_crc32_inj crc32_byte_inj)
qed

section \<open>Log records\<close>

type_synonym lsn = u64

definition LSN_invalid :: lsn where "LSN_invalid = 0"
definition LSN_max :: lsn where "LSN_max = - 1"
definition LSN_is_valid :: "lsn \<Rightarrow> bool" where "LSN_is_valid l \<longleftrightarrow> l \<noteq> 0"

text \<open>The decoder copies an arbitrary byte into the type field, so the enumerators are constants.\<close>

type_synonym log_record_type = byte

definition LogRecordType_Invalid :: log_record_type where "LogRecordType_Invalid = 0"
definition LogRecordType_TxnBegin :: log_record_type where "LogRecordType_TxnBegin = 1"
definition LogRecordType_TxnCommit :: log_record_type where "LogRecordType_TxnCommit = 2"
definition LogRecordType_TxnAbort :: log_record_type where "LogRecordType_TxnAbort = 3"
definition LogRecordType_TxnEnd :: log_record_type where "LogRecordType_TxnEnd = 4"
definition LogRecordType_Insert :: log_record_type where "LogRecordType_Insert = 10"
definition LogRecordType_Update :: log_record_type where "LogRecordType_Update = 11"
definition LogRecordType_Delete :: log_record_type where "LogRecordType_Delete = 12"
definition LogRecordType_CheckpointBegin :: log_record_type where "LogRecordType_CheckpointBegin = 20"
definition LogRecordType_CheckpointEnd :: log_record_type where "LogRecordType_CheckpointEnd = 21"
definition LogRecordType_CLR :: log_record_type where "LogRecordType_CLR = 30"
definition LogRecordType_PageAllocate :: log_record_type where "LogRecordType_PageAllocate = 40"
definition LogRecordType_PageFree :: log_record_type where "LogRecordType_PageFree = 41"

record log_record =
  lr_lsn :: lsn
  lr_txn_id :: u64
  lr_prev_lsn :: lsn
  lr_undo_next_lsn :: lsn
  lr_type :: log_record_type
  lr_payload :: bytes
  lr_checksum :: u32

definition LogRecord_HEADER_SIZE :: nat where "LogRecord_HEADER_SIZE = 41"

definition LogRecord_default :: log_record where
  "LogRecord_default = \<lparr>lr_lsn = 0, lr_txn_id = 0, lr_prev_lsn = 0, lr_undo_next_lsn = 0,
     lr_type = LogRecordType_Invalid, lr_payload = [], lr_checksum = 0\<rparr>"

text \<open>The three constructors: the state record, the physical record and the one with an undo LSN.\<close>

definition LogRecord_state :: "u64 \<Rightarrow> log_record_type \<Rightarrow> lsn \<Rightarrow> log_record" where
  "LogRecord_state txn ty prev = LogRecord_default\<lparr>lr_txn_id := txn, lr_prev_lsn := prev, lr_type := ty\<rparr>"

definition LogRecord_physical :: "u64 \<Rightarrow> log_record_type \<Rightarrow> lsn \<Rightarrow> bytes \<Rightarrow> log_record" where
  "LogRecord_physical txn ty prev payload = (LogRecord_state txn ty prev)\<lparr>lr_payload := payload\<rparr>"

definition LogRecord_clr :: "u64 \<Rightarrow> log_record_type \<Rightarrow> lsn \<Rightarrow> lsn \<Rightarrow> bytes \<Rightarrow> log_record" where
  "LogRecord_clr txn ty prev undo payload = (LogRecord_physical txn ty prev payload)\<lparr>lr_undo_next_lsn := undo\<rparr>"

definition get_payload_size :: "log_record \<Rightarrow> u32" where
  "get_payload_size r = of_nat (length (lr_payload r))"

definition get_size :: "log_record \<Rightarrow> u32" where
  "get_size r = of_nat (LogRecord_HEADER_SIZE + unat (get_payload_size r))"

text \<open>The bytes before and after the checksum field.\<close>

definition log_prefix :: "log_record \<Rightarrow> bytes" where
  "log_prefix r = le_bytes 8 (lr_lsn r) @ le_bytes 8 (lr_txn_id r) @ le_bytes 8 (lr_prev_lsn r) @
     le_bytes 8 (lr_undo_next_lsn r) @ [lr_type r] @ le_bytes 4 (get_payload_size r)"

definition log_payload :: "log_record \<Rightarrow> bytes" where
  "log_payload r = take (unat (get_payload_size r)) (lr_payload r)"

definition log_calculate_checksum :: "log_record \<Rightarrow> log_record" where
  "log_calculate_checksum r = r\<lparr>lr_checksum := crc32 (log_prefix r @ log_payload r)\<rparr>"

definition log_verify_checksum :: "log_record \<Rightarrow> bool" where
  "log_verify_checksum r \<longleftrightarrow> lr_checksum r = lr_checksum (log_calculate_checksum r)"

text \<open>\<open>serialize\<close> updates the checksum through a \<open>const_cast\<close>; it returns the record too.\<close>

definition log_serialize :: "log_record \<Rightarrow> bytes \<Rightarrow> log_record \<times> bytes" where
  "log_serialize r out =
     (let r = log_calculate_checksum r
      in (r, out @ log_prefix r @ le_bytes 4 (lr_checksum r) @ log_payload r))"

text \<open>\<open>deserialize\<close> fills the record and returns how many bytes it used, 0 for an incomplete record.\<close>

definition log_deserialize :: "bytes \<Rightarrow> log_record \<Rightarrow> log_record \<times> nat" where
  "log_deserialize data r =
     (if length data < LogRecord_HEADER_SIZE then (r, 0)
      else
        let payload_len = (le_word (bslice 33 4 data) :: u32);
            r = \<lparr>lr_lsn = le_word (bslice 0 8 data), lr_txn_id = le_word (bslice 8 8 data),
                 lr_prev_lsn = le_word (bslice 16 8 data), lr_undo_next_lsn = le_word (bslice 24 8 data),
                 lr_type = data ! 32, lr_payload = lr_payload r, lr_checksum = le_word (bslice 37 4 data)\<rparr>
        in if length data < LogRecord_HEADER_SIZE + unat payload_len then (r, 0)
           else (r\<lparr>lr_payload := bslice 41 (unat payload_len) data\<rparr>, LogRecord_HEADER_SIZE + unat payload_len))"

section \<open>The log buffer\<close>

record log_buffer =
  lb_capacity :: nat
  lb_buffer :: bytes

definition LogBuffer_init :: log_buffer where
  "LogBuffer_init = \<lparr>lb_capacity = 1024 * 1024 * 4, lb_buffer = []\<rparr>"

definition log_buffer_append :: "log_record \<Rightarrow> log_buffer \<Rightarrow> log_record \<times> log_buffer \<times> bool" where
  "log_buffer_append r lb =
     (if length (lb_buffer lb) + unat (get_size r) > lb_capacity lb then (r, lb, False)
      else case log_serialize r (lb_buffer lb) of (r, out) \<Rightarrow> (r, lb\<lparr>lb_buffer := out\<rparr>, True))"

definition log_buffer_swap :: "bytes \<Rightarrow> log_buffer \<Rightarrow> log_buffer \<times> bytes" where
  "log_buffer_swap empty_buffer lb = (lb\<lparr>lb_buffer := empty_buffer\<rparr>, lb_buffer lb)"

section \<open>The format\<close>

definition log_fits :: "log_record \<Rightarrow> bool" where
  "log_fits r \<longleftrightarrow> length (lr_payload r) + 41 < 2 ^ 32"

definition log_image :: "log_record \<Rightarrow> bytes" where
  "log_image r = log_prefix r @ le_bytes 4 (lr_checksum r) @ lr_payload r"

lemma length_log_prefix [simp]: "length (log_prefix r) = 37"
  by (simp add: log_prefix_def)

lemma log_fits_size:
  assumes "log_fits r"
  shows "unat (get_payload_size r) = length (lr_payload r)" "log_payload r = lr_payload r"
    "unat (get_size r) = 41 + length (lr_payload r)"
proof -
  show p: "unat (get_payload_size r) = length (lr_payload r)"
    unfolding get_payload_size_def using assms by (intro unat_of_nat_fits) (simp add: log_fits_def)
  then show "log_payload r = lr_payload r" by (simp add: log_payload_def)
  show "unat (get_size r) = 41 + length (lr_payload r)"
    unfolding get_size_def p LogRecord_HEADER_SIZE_def using assms by (intro unat_of_nat_fits) (simp add: log_fits_def)
qed

lemma log_prefix_checksum [simp]: "log_prefix (r\<lparr>lr_checksum := c\<rparr>) = log_prefix r"
  by (simp add: log_prefix_def get_payload_size_def)

lemma log_calculate_checksum_sel [simp]:
  "log_prefix (log_calculate_checksum r) = log_prefix r" "lr_payload (log_calculate_checksum r) = lr_payload r"
  "log_payload (log_calculate_checksum r) = log_payload r" "log_fits (log_calculate_checksum r) = log_fits r"
  "lr_lsn (log_calculate_checksum r) = lr_lsn r" "get_payload_size (log_calculate_checksum r) = get_payload_size r"
  "log_calculate_checksum (log_calculate_checksum r) = log_calculate_checksum r"
  by (simp_all add: log_calculate_checksum_def log_payload_def get_payload_size_def log_fits_def)

lemma log_serialize_eq:
  "log_fits r \<Longrightarrow> log_serialize r out = (log_calculate_checksum r, out @ log_image (log_calculate_checksum r))"
  by (simp add: log_serialize_def log_image_def log_fits_size Let_def)

lemma length_log_image: "length (log_image r) = 41 + length (lr_payload r)"
  by (simp add: log_image_def)

lemma log_deserialize_image:
  assumes "log_fits r"
  shows "log_deserialize (log_image r @ rest) r0 = (r, 41 + length (lr_payload r))"
proof -
  let ?d = "log_image r @ rest"
  have sl: "bslice 33 4 ?d = le_bytes 4 (get_payload_size r)" "bslice 0 8 ?d = le_bytes 8 (lr_lsn r)"
    "bslice 8 8 ?d = le_bytes 8 (lr_txn_id r)" "bslice 16 8 ?d = le_bytes 8 (lr_prev_lsn r)"
    "bslice 24 8 ?d = le_bytes 8 (lr_undo_next_lsn r)" "bslice 37 4 ?d = le_bytes 4 (lr_checksum r)"
    by (simp_all add: log_image_def log_prefix_def slice_append_shift slice_append_left slice_Cons_pos)
  have ty: "?d ! 32 = lr_type r"
    by (simp add: log_image_def log_prefix_def nth_append)
  have pl: "bslice 41 (length (lr_payload r)) ?d = lr_payload r"
    by (simp add: log_image_def slice_append_shift slice_append_left)
  show ?thesis
    using log_fits_size(1) [OF assms] length_log_image [of r]
    by (simp add: log_deserialize_def LogRecord_HEADER_SIZE_def sl ty pl Let_def)
qed

text \<open>The decoded record accounts for every byte that was used.\<close>

lemma log_image_deserialize:
  assumes "log_deserialize data r0 = (r, n)" "n \<noteq> 0"
  shows "log_image r = take n data" "n = 41 + length (lr_payload r)" "n \<le> length data"
    "unat (get_payload_size r) = length (lr_payload r)"
proof -
  let ?len = "le_word (bslice 33 4 data) :: u32"
  have n: "n = 41 + unat ?len" "n \<le> length data"
    and r: "r = \<lparr>lr_lsn = le_word (bslice 0 8 data), lr_txn_id = le_word (bslice 8 8 data),
                 lr_prev_lsn = le_word (bslice 16 8 data), lr_undo_next_lsn = le_word (bslice 24 8 data),
                 lr_type = data ! 32, lr_payload = bslice 41 (unat ?len) data, lr_checksum = le_word (bslice 37 4 data)\<rparr>"
    using assms by (auto simp: log_deserialize_def LogRecord_HEADER_SIZE_def Let_def split: if_splits)
  have lp: "length (lr_payload r) = unat ?len" using n by (simp add: r)
  then show "n = 41 + length (lr_payload r)" "n \<le> length data" using n by simp_all
  have ps: "get_payload_size r = ?len" by (simp add: get_payload_size_def lp)
  then show "unat (get_payload_size r) = length (lr_payload r)" using lp by simp
  have "take n data = bslice 0 (8 + (8 + (8 + (8 + (1 + (4 + (4 + unat ?len))))))) data"
    using n by (simp add: bslice_def)
  also have "\<dots> = bslice 0 8 data @ bslice 8 8 data @ bslice 16 8 data @ bslice 24 8 data @ bslice 32 1 data @
      bslice 33 4 data @ bslice 37 4 data @ bslice 41 (unat ?len) data"
    by (simp only: slice_add) simp
  also have "\<dots> = log_image r"
    using n by (simp add: log_image_def log_prefix_def ps) (simp add: r le_bytes_le_word bslice_def take_Suc_conv_app_nth hd_drop_conv_nth)
  finally show "log_image r = take n data" by simp
qed

lemma log_verify_eq:
  "unat (get_payload_size r) = length (lr_payload r) \<Longrightarrow>
     log_verify_checksum r \<longleftrightarrow> lr_checksum r = crc32 (log_prefix r @ lr_payload r)"
  by (simp add: log_verify_checksum_def log_calculate_checksum_def log_payload_def)

lemma crc32_update: "k < length bs \<Longrightarrow> v \<noteq> bs ! k \<Longrightarrow> crc32 (bs[k := v]) \<noteq> crc32 bs"
  using crc32_change [of v "bs ! k" "take k bs" "drop (Suc k) bs"] id_take_nth_drop [of k bs] upd_conv_take_nth_drop [of k bs v]
  by metis

lemma le_bytes_inj4: "le_bytes 4 (a :: u32) = le_bytes 4 b \<Longrightarrow> a = b"
  by (drule arg_cong [of _ _ "le_word :: bytes \<Rightarrow> u32"]) simp

lemma append3_update:
  assumes eq: "xs' @ ys' @ zs' = (xs @ ys @ zs)[k := v]" and lx: "length xs' = length xs" and ly: "length ys' = length ys"
  shows "k < length xs \<Longrightarrow> xs' = xs[k := v] \<and> ys' = ys \<and> zs' = zs"
    and "length xs \<le> k \<Longrightarrow> k < length xs + length ys \<Longrightarrow> xs' = xs \<and> ys' = ys[k - length xs := v] \<and> zs' = zs"
    and "length xs + length ys \<le> k \<Longrightarrow> xs' = xs \<and> ys' = ys \<and> zs' = zs[k - length xs - length ys := v]"
proof -
  have split: "xs' = a \<and> ys' = b \<and> zs' = c"
    if "xs' @ ys' @ zs' = a @ b @ c" "length a = length xs" "length b = length ys" for a b c
    using that lx ly by (metis append_eq_append_conv)
  show "k < length xs \<Longrightarrow> xs' = xs[k := v] \<and> ys' = ys \<and> zs' = zs"
    by (rule split) (simp_all add: eq list_update_append)
  show "length xs \<le> k \<Longrightarrow> k < length xs + length ys \<Longrightarrow> xs' = xs \<and> ys' = ys[k - length xs := v] \<and> zs' = zs"
    by (rule split) (auto simp: eq list_update_append)
  show "length xs + length ys \<le> k \<Longrightarrow> xs' = xs \<and> ys' = ys \<and> zs' = zs[k - length xs - length ys := v]"
    by (rule split) (auto simp: eq list_update_append)
qed

lemma log_damage:
  assumes fits: "log_fits r" and ok: "log_verify_checksum r"
    and k: "k < length (log_image r)" "\<not> (33 \<le> k \<and> k < 37)" and v: "v \<noteq> log_image r ! k"
    and d: "log_deserialize ((log_image r)[k := v]) r0 = (r', n)"
  shows "n = length (log_image r) \<and> \<not> log_verify_checksum r'"
proof -
  let ?img = "log_image r" and ?d = "(log_image r)[k := v]"
  have len: "bslice 33 4 ?d = bslice 33 4 ?img"
    using k(2) length_log_image [of r] by (intro slice_eqI) (auto simp: nth_list_update)
  have "bslice 33 4 ?img = le_bytes 4 (get_payload_size r)"
    by (simp add: log_image_def log_prefix_def slice_append_shift slice_append_left slice_Cons_pos)
  then have n: "n = length ?img"
    using d length_log_image [of r] log_fits_size(1) [OF fits]
    by (simp add: log_deserialize_def LogRecord_HEADER_SIZE_def Let_def len split: if_splits)
  have nz: "n \<noteq> 0" using n length_log_image [of r] by simp
  note im = log_image_deserialize [OF d nz]
  have eq: "log_prefix r' @ le_bytes 4 (lr_checksum r') @ lr_payload r' =
      (log_prefix r @ le_bytes 4 (lr_checksum r) @ lr_payload r)[k := v]"
    using im(1) n by (simp add: log_image_def)
  note parts = append3_update [OF eq, simplified]
  have good: "lr_checksum r = crc32 (log_prefix r @ lr_payload r)"
    using ok log_verify_eq log_fits_size(1) [OF fits] by blast
  have img: "?img = log_prefix r @ le_bytes 4 (lr_checksum r) @ lr_payload r" by (simp add: log_image_def)
  have "lr_checksum r' \<noteq> crc32 (log_prefix r' @ lr_payload r')"
  proof -
    consider "k < 37" | "37 \<le> k" "k < 41" | "41 \<le> k" by linarith
    then show ?thesis
    proof cases
      case 1
      then have p: "log_prefix r' = (log_prefix r)[k := v]" "lr_checksum r' = lr_checksum r" "lr_payload r' = lr_payload r"
        using parts(1) le_bytes_inj4 by auto
      have "(log_prefix r @ lr_payload r)[k := v] = log_prefix r' @ lr_payload r'" using 1 p by (simp add: list_update_append)
      moreover have "v \<noteq> (log_prefix r @ lr_payload r) ! k" using 1 v by (simp add: img nth_append)
      ultimately show ?thesis using crc32_update [of k "log_prefix r @ lr_payload r" v] 1 p(2) good by simp
    next
      case 2
      then have p: "log_prefix r' = log_prefix r" "lr_payload r' = lr_payload r"
        and c: "le_bytes 4 (lr_checksum r') = (le_bytes 4 (lr_checksum r))[k - 37 := v]" using parts(2) by auto
      obtain j where j: "k = 37 + j" "j < 4" using 2 by (auto simp: le_iff_add)
      then have "v \<noteq> le_bytes 4 (lr_checksum r) ! j" using v by (simp add: img nth_append)
      then have "le_bytes 4 (lr_checksum r') \<noteq> le_bytes 4 (lr_checksum r)"
        using j c by (auto dest: arg_cong [where f = "\<lambda>xs. xs ! j"])
      then show ?thesis using good p by auto
    next
      case 3
      then have p: "log_prefix r' = log_prefix r" "lr_checksum r' = lr_checksum r" "lr_payload r' = (lr_payload r)[k - 41 := v]"
        using parts(3) le_bytes_inj4 by auto
      obtain j where j: "k = 41 + j" using 3 by (auto simp: le_iff_add)
      have "(log_prefix r @ lr_payload r)[k - 4 := v] = log_prefix r' @ lr_payload r'" using j p by (simp add: list_update_append)
      moreover have "v \<noteq> (log_prefix r @ lr_payload r) ! (k - 4)" using j v by (simp add: img nth_append)
      moreover have "k - 4 < length (log_prefix r @ lr_payload r)" using 3 k(1) length_log_image [of r] by simp
      ultimately show ?thesis using crc32_update [of "k - 4" "log_prefix r @ lr_payload r" v] p(2) good by simp
    qed
  qed
  then show ?thesis using n log_verify_eq [OF im(4)] by simp
qed

section \<open>Properties\<close>

text \<open>C29. A serialized log record is self-delimiting: decoding it, whatever bytes follow, gives back the
  record with its checksum filled in, reports exactly its size, and the checksum verifies.\<close>
theorem log_record_roundtrip:
  assumes "log_fits r"
  shows "log_deserialize (snd (log_serialize r []) @ rest) r0 =
      (r\<lparr>lr_checksum := crc32 (log_prefix r @ lr_payload r)\<rparr>, unat (get_size r)) \<and>
    log_verify_checksum (fst (log_deserialize (snd (log_serialize r []) @ rest) r0))"
proof -
  have "log_calculate_checksum r = r\<lparr>lr_checksum := crc32 (log_prefix r @ lr_payload r)\<rparr>"
    using log_fits_size(2) [OF assms] by (simp add: log_calculate_checksum_def)
  moreover have "log_verify_checksum (log_calculate_checksum r)"
    by (simp add: log_verify_checksum_def)
  moreover have "log_deserialize (snd (log_serialize r []) @ rest) r0 = (log_calculate_checksum r, unat (get_size r))"
    using log_deserialize_image [of "log_calculate_checksum r" rest r0] log_fits_size(3) [OF assms] assms
    by (simp add: log_serialize_eq)
  ultimately show ?thesis by simp
qed

theorem log_record_roundtrip_witness:
  "log_deserialize (snd (log_serialize (LogRecord_physical 7 LogRecordType_Insert 3 [1, 2, 3]) []) @ [9, 9]) LogRecord_default =
     ((LogRecord_physical 7 LogRecordType_Insert 3 [1, 2, 3])\<lparr>lr_checksum :=
        crc32 (log_prefix (LogRecord_physical 7 LogRecordType_Insert 3 [1, 2, 3]) @ [1, 2, 3])\<rparr>, 44)"
  using log_record_roundtrip [of "LogRecord_physical 7 LogRecordType_Insert 3 [1, 2, 3]" "[9, 9]" LogRecord_default]
  by (simp add: log_fits_def LogRecord_physical_def LogRecord_state_def LogRecord_default_def get_size_def
      get_payload_size_def LogRecord_HEADER_SIZE_def)

text \<open>Damage to any single byte of a stored log record, the four bytes of the length field excepted, is
  detected: the damaged bytes still decode as one record of the same size, and its checksum does not
  verify.\<close>
lemma log_record_detects_damage:
  assumes "log_fits r" "k < length (snd (log_serialize r []))" "\<not> (33 \<le> k \<and> k < 37)"
    and "v \<noteq> snd (log_serialize r []) ! k"
  shows "case log_deserialize ((snd (log_serialize r []))[k := v]) r0 of
    (r', n) \<Rightarrow> n = unat (get_size r) \<and> \<not> log_verify_checksum r'"
proof -
  let ?r = "log_calculate_checksum r"
  have im: "snd (log_serialize r []) = log_image ?r" using assms(1) by (simp add: log_serialize_eq)
  obtain r' n where d: "log_deserialize ((log_image ?r)[k := v]) r0 = (r', n)" by fastforce
  have "log_verify_checksum ?r" by (simp add: log_verify_checksum_def)
  then show ?thesis
    using log_damage [OF _ _ _ assms(3) _ d] assms d log_fits_size(3) [OF assms(1)]
    by (simp add: im length_log_image)
qed

end
