(* ===== verification/Std_Text.thy ===== *)
theory Std_Text
  imports Core_Base
begin

text \<open>
  The conversions between numbers and text that the sources take from the standard library: decimal
  and hexadecimal digits, \<open>to_string\<close>, \<open>stoi\<close>, \<open>stoll\<close>, \<open>stoull\<close>, and \<open>to_string\<close> of floating
  point numbers, which are represented by their bit patterns.
\<close>

section \<open>Decimal digits\<close>

fun decimal :: "nat \<Rightarrow> string" where
  "decimal n = (if n < 10 then [char_of (48 + n)] else decimal (n div 10) @ [char_of (48 + n mod 10)])"

declare decimal.simps [simp del]

definition digits_value :: "string \<Rightarrow> nat" where
  "digits_value s = foldl (\<lambda>a c. a * 10 + (of_char c - 48)) 0 s"

lemma decimal_value: "digits_value (decimal n) = n"
proof (induction n rule: decimal.induct)
  case (1 n)
  show ?case
  proof (cases "n < 10")
    case True
    then show ?thesis by (simp add: decimal.simps [of n] digits_value_def of_char_of)
  next
    case False
    then have "foldl (\<lambda>a c. a * 10 + (of_char c - 48)) 0 (decimal (n div 10)) = n div 10"
      using 1 by (simp add: digits_value_def)
    then show ?thesis using False by (simp add: decimal.simps [of n] digits_value_def of_char_of)
  qed
qed

definition is_digit :: "char \<Rightarrow> bool" where
  "is_digit c \<longleftrightarrow> 48 \<le> (of_char c :: nat) \<and> (of_char c :: nat) \<le> 57"

definition is_space :: "char \<Rightarrow> bool" where
  "is_space c \<longleftrightarrow> (of_char c :: nat) = 32 \<or> (9 \<le> (of_char c :: nat) \<and> (of_char c :: nat) \<le> 13)"

text \<open>\<open>std::stoull\<close>; \<open>None\<close> when it throws.\<close>

definition stoull :: "string \<Rightarrow> u64 option" where
  "stoull str =
     (let str = dropWhile is_space str;
          neg = (str \<noteq> [] \<and> hd str = CHR ''-'');
          str = (if str \<noteq> [] \<and> (hd str = CHR ''-'' \<or> hd str = CHR ''+'') then tl str else str);
          digits = takeWhile is_digit str
      in if digits = [] \<or> digits_value digits \<ge> 2 ^ 64 then None
         else Some (if neg then - of_nat (digits_value digits) else of_nat (digits_value digits)))"

section \<open>Signed numbers\<close>

definition int_to_string :: "int \<Rightarrow> string" where
  "int_to_string i = (if i < 0 then ''-'' @ decimal (nat (- i)) else decimal (nat i))"

text \<open>The number at the front of a text, as \<open>strtol\<close> reads it; \<open>None\<close> if there is none.\<close>

definition scan_int :: "string \<Rightarrow> int option" where
  "scan_int str =
     (let str = dropWhile is_space str;
          neg = (str \<noteq> [] \<and> hd str = CHR ''-'');
          str = (if str \<noteq> [] \<and> (hd str = CHR ''-'' \<or> hd str = CHR ''+'') then tl str else str);
          digits = takeWhile is_digit str
      in if digits = [] then None else Some (if neg then - int (digits_value digits) else int (digits_value digits)))"

text \<open>\<open>std::stoi\<close> and \<open>std::stoll\<close>; \<open>None\<close> when they throw.\<close>

definition stoi :: "string \<Rightarrow> 32 word option" where
  "stoi str = (case scan_int str of None \<Rightarrow> None | Some i \<Rightarrow> if - (2 ^ 31) \<le> i \<and> i < 2 ^ 31 then Some (word_of_int i) else None)"

definition stoll :: "string \<Rightarrow> 64 word option" where
  "stoll str = (case scan_int str of None \<Rightarrow> None | Some i \<Rightarrow> if - (2 ^ 63) \<le> i \<and> i < 2 ^ 63 then Some (word_of_int i) else None)"

section \<open>Hexadecimal digits\<close>

definition hex_digit :: "nat \<Rightarrow> char" where
  "hex_digit n = char_of (if n < 10 then 48 + n else 87 + n)"

text \<open>\<open>setw(2) << setfill('0') << hex\<close> of a byte.\<close>

definition hex_byte :: "byte \<Rightarrow> string" where
  "hex_byte b = [hex_digit (unat b div 16), hex_digit (unat b mod 16)]"

definition hex_to_val :: "char \<Rightarrow> nat option" where
  "hex_to_val c =
     (let n = (of_char c :: nat) in
      if 48 \<le> n \<and> n \<le> 57 then Some (n - 48)
      else if 97 \<le> n \<and> n \<le> 102 then Some (n - 97 + 10)
      else if 65 \<le> n \<and> n \<le> 70 then Some (n - 65 + 10)
      else None)"

lemma hex_to_val_digit: "n < 16 \<Longrightarrow> hex_to_val (hex_digit n) = Some n"
  by (auto simp: hex_to_val_def hex_digit_def Let_def of_char_of)

section \<open>Floating point numbers\<close>

text \<open>Division rounded to nearest, ties to even.\<close>

definition round_div :: "nat \<Rightarrow> nat \<Rightarrow> nat" where
  "round_div a b =
     (let q = a div b; r = a mod b in
      if 2 * r < b then q else if 2 * r > b then q + 1 else if even q then q else q + 1)"

text \<open>\<open>%f\<close> of the number \<open>mant * 2^ex\<close>: six decimal places, correctly rounded.\<close>

definition format_fixed :: "bool \<Rightarrow> nat \<Rightarrow> int \<Rightarrow> string" where
  "format_fixed neg mant ex =
     (let n = (if ex \<ge> 0 then mant * 10 ^ 6 * 2 ^ nat ex else round_div (mant * 10 ^ 6) (2 ^ nat (- ex)));
          frac = decimal (n mod 10 ^ 6)
      in (if neg then ''-'' else []) @ decimal (n div 10 ^ 6) @ ''.'' @ replicate (6 - length frac) (CHR ''0'') @ frac)"

text \<open>A binary floating point format: \<open>mbits\<close> stored mantissa bits and an exponent of all ones at \<open>emax\<close>.\<close>

definition format_float :: "nat \<Rightarrow> nat \<Rightarrow> nat \<Rightarrow> string" where
  "format_float mbits emax w =
     (let frac = w mod 2 ^ mbits; e = (w div 2 ^ mbits) mod (emax + 1); neg = odd (w div (2 ^ mbits * (emax + 1))) in
      if e = emax then (if neg then ''-'' else []) @ (if frac = 0 then ''inf'' else ''nan'')
      else format_fixed neg (if e = 0 then frac else 2 ^ mbits + frac) (int (max e 1) - int (emax div 2 + mbits)))"

definition float_to_string :: "u32 \<Rightarrow> string" where
  "float_to_string w = format_float 23 255 (unat w)"

definition double_to_string :: "u64 \<Rightarrow> string" where
  "double_to_string w = format_float 52 2047 (unat w)"

text \<open>IEEE comparison: not-a-number is unordered and the two zeros are equal.\<close>

definition float_key :: "nat \<Rightarrow> nat \<Rightarrow> nat \<Rightarrow> int option" where
  "float_key mbits emax w =
     (let m = w mod (2 ^ mbits * (emax + 1)); neg = odd (w div (2 ^ mbits * (emax + 1))) in
      if m > 2 ^ mbits * emax then None else Some (if neg then - int m else int m))"

definition float_eq :: "u32 \<Rightarrow> u32 \<Rightarrow> bool" where
  "float_eq a b = (case (float_key 23 255 (unat a), float_key 23 255 (unat b)) of (Some x, Some y) \<Rightarrow> x = y | _ \<Rightarrow> False)"

definition float_less :: "u32 \<Rightarrow> u32 \<Rightarrow> bool" where
  "float_less a b = (case (float_key 23 255 (unat a), float_key 23 255 (unat b)) of (Some x, Some y) \<Rightarrow> x < y | _ \<Rightarrow> False)"

definition double_eq :: "u64 \<Rightarrow> u64 \<Rightarrow> bool" where
  "double_eq a b = (case (float_key 52 2047 (unat a), float_key 52 2047 (unat b)) of (Some x, Some y) \<Rightarrow> x = y | _ \<Rightarrow> False)"

definition double_less :: "u64 \<Rightarrow> u64 \<Rightarrow> bool" where
  "double_less a b = (case (float_key 52 2047 (unat a), float_key 52 2047 (unat b)) of (Some x, Some y) \<Rightarrow> x < y | _ \<Rightarrow> False)"

text \<open>Conversion of an integer to \<open>double\<close>, rounded to nearest.\<close>

fun bit_length :: "nat \<Rightarrow> nat" where
  "bit_length n = (if n = 0 then 0 else Suc (bit_length (n div 2)))"

declare bit_length.simps [simp del]

definition int_to_double :: "int \<Rightarrow> u64" where
  "int_to_double i =
     (let n = nat \<bar>i\<bar>; l = bit_length n; sign = (if i < 0 then 2 ^ 63 else 0);
          mant = (if l \<le> 53 then n * 2 ^ (53 - l) else round_div n (2 ^ (l - 53)))
      in if n = 0 then 0 else of_nat (sign + (l + 1021) * 2 ^ 52 + mant))"

text \<open>
  Conversion of a \<open>double\<close> to a 64-bit integer truncates. For numbers that do not fit the language
  leaves it undefined; the x86-64 instruction gives the smallest integer.
\<close>

definition double_to_int64 :: "u64 \<Rightarrow> 64 word" where
  "double_to_int64 w =
     (let frac = unat w mod 2 ^ 52; e = (unat w div 2 ^ 52) mod 2048; mant = (if e = 0 then frac else 2 ^ 52 + frac);
          n = (if e \<ge> 1075 then mant * 2 ^ (e - 1075) else mant div 2 ^ (1075 - max e 1));
          i = (if bit w 63 then - int n else int n)
      in if e = 2047 \<or> \<not> (- (2 ^ 63) \<le> i \<and> i < 2 ^ 63) then word_of_int (- (2 ^ 63)) else word_of_int i)"

end
