(* ===== verification/Wal_Manager.thy ===== *)
theory Wal_Manager
  imports Wal_Record File_Manager Std_Text
begin

text \<open>
  \<open>wal_segment.hpp/.cpp\<close> and \<open>wal_manager.hpp/.cpp\<close>: segment files and the manager that assigns log
  sequence numbers, buffers records and flushes them. \<open>execute_flush\<close> is split at the points where it
  holds no lock an appender needs, so that interleavings can be stated. Throwing functions return
  \<open>exn + 'a\<close>.
\<close>

section \<open>Segment files\<close>

text \<open>\<open>setw(16) << setfill('0')\<close>.\<close>

definition pad16 :: "string \<Rightarrow> string" where
  "pad16 s = replicate (16 - length s) (CHR ''0'') @ s"

definition build_path :: "path \<Rightarrow> u64 \<Rightarrow> path" where
  "build_path directory segment_id = directory @ ''/'' @ pad16 (decimal (unat segment_id)) @ ''.wal''"

definition WAL_MAGIC :: u32 where "WAL_MAGIC = 0x4B4C5741"
definition WAL_FORMAT_VERSION :: u32 where "WAL_FORMAT_VERSION = 1"
definition WAL_HEADER_SIZE :: nat where "WAL_HEADER_SIZE = 24"

record segment_header =
  sh_magic :: u32
  sh_format_version :: u32
  sh_segment_id :: u64
  sh_start_lsn :: u64

definition segment_header_image :: "segment_header \<Rightarrow> bytes" where
  "segment_header_image h = le_bytes 4 (sh_magic h) @ le_bytes 4 (sh_format_version h) @
     le_bytes 8 (sh_segment_id h) @ le_bytes 8 (sh_start_lsn h)"

text \<open>\<open>sg_bad\<close>: the stream has failed; no code clears it.\<close>

record wal_segment =
  sg_path :: path
  sg_id :: u64
  sg_start_lsn :: lsn
  sg_size :: nat
  sg_open :: bool
  sg_write_mode :: bool
  sg_bad :: bool

definition WALSegment_init :: "path \<Rightarrow> u64 \<Rightarrow> wal_segment" where
  "WALSegment_init directory segment_id = \<lparr>sg_path = build_path directory segment_id, sg_id = segment_id,
     sg_start_lsn = LSN_invalid, sg_size = 0, sg_open = False, sg_write_mode = False, sg_bad = False\<rparr>"

definition segment_flush :: "os \<Rightarrow> wal_segment \<Rightarrow> os \<times> wal_segment" where
  "segment_flush s sg =
     (if \<not> sg_open sg \<or> \<not> sg_write_mode sg then (s, sg)
      else case take_fault s of (f, s) \<Rightarrow> (s, sg\<lparr>sg_bad := sg_bad sg \<or> f \<noteq> None\<rparr>))"

definition segment_close :: "os \<Rightarrow> wal_segment \<Rightarrow> os \<times> wal_segment" where
  "segment_close s sg =
     (if sg_open sg
      then let (s, sg) = (if sg_write_mode sg then segment_flush s sg else (s, sg)) in (s, sg\<lparr>sg_open := False\<rparr>)
      else (s, sg))"

text \<open>
  \<open>open_read\<close> reads the header field by field and then compares the count of the last read, which is
  the eight bytes of \<open>start_lsn\<close>, with the size of the whole header.
\<close>

definition segment_open_read :: "os \<Rightarrow> wal_segment \<Rightarrow> os \<times> wal_segment \<times> bool" where
  "segment_open_read s sg =
     (let (s, sg) = segment_close s sg; (f, s) = take_fault s in
      if f \<noteq> None then (s, sg, False)
      else case os_files s (sg_path sg) of
        None \<Rightarrow> (s, sg, False)
      | Some c \<Rightarrow>
          let sg = sg\<lparr>sg_open := True, sg_bad := length c < 24\<rparr>;
              gcount = (if length c < 16 then 0 else min 8 (length c - 16))
          in if gcount \<noteq> WAL_HEADER_SIZE then (s, sg, False)
             else if le_word (bslice 0 4 c) \<noteq> WAL_MAGIC \<or> le_word (bslice 4 4 c) \<noteq> WAL_FORMAT_VERSION
               \<or> le_word (bslice 8 8 c) \<noteq> sg_id sg then (s, sg, False)
             else (s, sg\<lparr>sg_start_lsn := le_word (bslice 16 8 c), sg_size := length c, sg_write_mode := False\<rparr>, True))"

definition segment_open_append :: "lsn \<Rightarrow> os \<Rightarrow> wal_segment \<Rightarrow> os \<times> wal_segment \<times> bool" where
  "segment_open_append start_lsn s sg =
     (let (s, sg) = segment_close s sg;
          (f, s) = take_fault s;
          existing = (if f = None then os_files s (sg_path sg) else None)
      in if existing \<noteq> None \<and> 4 \<le> length (the existing) \<and> le_word (take 4 (the existing)) = WAL_MAGIC
         then (s, sg\<lparr>sg_open := True, sg_bad := False, sg_size := length (the existing), sg_start_lsn := start_lsn,
                sg_write_mode := True\<rparr>, True)
         else
           let (f, s) = take_fault s in
           if f \<noteq> None then (s, sg\<lparr>sg_bad := True\<rparr>, False)
           else
             let header = segment_header_image \<lparr>sh_magic = WAL_MAGIC, sh_format_version = WAL_FORMAT_VERSION,
                   sh_segment_id = sg_id sg, sh_start_lsn = start_lsn\<rparr>;
                 (f, s) = take_fault s;
                 written = (case f of None \<Rightarrow> header | Some k \<Rightarrow> take k header)
             in (s\<lparr>os_files := (os_files s)(sg_path sg \<mapsto> written)\<rparr>,
                 sg\<lparr>sg_open := True, sg_bad := f \<noteq> None, sg_size := WAL_HEADER_SIZE, sg_start_lsn := start_lsn,
                    sg_write_mode := True\<rparr>, True))"

definition segment_append :: "bytes \<Rightarrow> os \<Rightarrow> wal_segment \<Rightarrow> os \<times> wal_segment \<times> bool" where
  "segment_append data s sg =
     (if \<not> sg_write_mode sg \<or> \<not> sg_open sg then (s, sg, False)
      else if sg_bad sg then (s, sg, False)
      else
        let (f, s) = take_fault s;
            content = (case os_files s (sg_path sg) of None \<Rightarrow> [] | Some c \<Rightarrow> c)
        in case f of
             Some k \<Rightarrow> (s\<lparr>os_files := (os_files s)(sg_path sg \<mapsto> content @ take k data)\<rparr>, sg\<lparr>sg_bad := True\<rparr>, False)
           | None \<Rightarrow> (s\<lparr>os_files := (os_files s)(sg_path sg \<mapsto> content @ data)\<rparr>,
                       sg\<lparr>sg_size := sg_size sg + length data\<rparr>, True))"

definition segment_read :: "nat \<Rightarrow> nat \<Rightarrow> os \<Rightarrow> wal_segment \<Rightarrow> os \<times> wal_segment \<times> bytes option" where
  "segment_read offset n s sg =
     (if \<not> sg_open sg then (s, sg, None)
      else if sg_bad sg then (s, sg, None)
      else
        let (f, s) = take_fault s;
            content = (case os_files s (sg_path sg) of None \<Rightarrow> [] | Some c \<Rightarrow> c)
        in if f \<noteq> None \<or> length content < offset + n then (s, sg\<lparr>sg_bad := True\<rparr>, None)
           else (s, sg, Some (bslice offset n content)))"

section \<open>The manager\<close>

datatype durability_mode = Full | Normal | Off

record wal =
  wl_directory :: path
  wl_mode :: durability_mode
  wl_next_lsn :: u64
  wl_flushed_lsn :: u64
  wl_buffer :: log_buffer
  wl_flush_buffer :: bytes
  wl_segment :: wal_segment
  wl_segment_id :: u64
  wl_os :: os

definition MAX_SEGMENT_SIZE :: nat where "MAX_SEGMENT_SIZE = 16 * 1024 * 1024"

definition on_segment :: "(os \<Rightarrow> wal_segment \<Rightarrow> os \<times> wal_segment \<times> 'a) \<Rightarrow> wal \<Rightarrow> wal \<times> 'a" where
  "on_segment f w = (case f (wl_os w) (wl_segment w) of (s, sg, r) \<Rightarrow> (w\<lparr>wl_os := s, wl_segment := sg\<rparr>, r))"

text \<open>The constructor, after the directory has been made.\<close>

definition WALManager_init :: "path \<Rightarrow> durability_mode \<Rightarrow> os \<Rightarrow> wal \<times> (exn + unit)" where
  "WALManager_init directory mode s =
     (case on_segment (segment_open_append 1)
        \<lparr>wl_directory = directory, wl_mode = mode, wl_next_lsn = 1, wl_flushed_lsn = 0, wl_buffer = LogBuffer_init,
         wl_flush_buffer = [], wl_segment = WALSegment_init directory 1, wl_segment_id = 1, wl_os = s\<rparr> of
        (w, True) \<Rightarrow> (w, Inr ())
      | (w, False) \<Rightarrow> (w, Inl (runtime_error ''Failed to open WAL segment for writing.'')))"

definition roll_segment_if_needed :: "wal \<Rightarrow> wal \<times> (exn + unit)" where
  "roll_segment_if_needed w =
     (if sg_size (wl_segment w) \<ge> MAX_SEGMENT_SIZE
      then
        let (s, _) = segment_close (wl_os w) (wl_segment w);
            i = wl_segment_id w + 1;
            w = w\<lparr>wl_os := s, wl_segment_id := i, wl_segment := WALSegment_init (wl_directory w) i\<rparr>
        in case on_segment (segment_open_append (wl_next_lsn w)) w of
             (w, True) \<Rightarrow> (w, Inr ())
           | (w, False) \<Rightarrow> (w, Inl (runtime_error ''Failed to roll WAL segment.''))
      else (w, Inr ()))"

text \<open>
  \<open>execute_flush\<close> in three parts: swapping the buffers under the append lock, writing the swapped buffer
  without it, and publishing the flushed LSN, read from \<open>m_next_lsn\<close> at that moment.
\<close>

definition flush_swap :: "wal \<Rightarrow> wal" where
  "flush_swap w = (case log_buffer_swap (wl_flush_buffer w) (wl_buffer w) of
     (lb, fb) \<Rightarrow> w\<lparr>wl_buffer := lb, wl_flush_buffer := fb\<rparr>)"

definition flush_write :: "wal \<Rightarrow> wal \<times> (exn + unit)" where
  "flush_write w =
     (case roll_segment_if_needed w of
        (w, Inl e) \<Rightarrow> (w, Inl e)
      | (w, Inr _) \<Rightarrow>
          (case on_segment (segment_append (wl_flush_buffer w)) w of
             (w, False) \<Rightarrow> (w, Inl (runtime_error ''Failed to write to WAL segment.''))
           | (w, True) \<Rightarrow>
               if wl_mode w \<noteq> Off
               then case segment_flush (wl_os w) (wl_segment w) of (s, sg) \<Rightarrow> (w\<lparr>wl_os := s, wl_segment := sg\<rparr>, Inr ())
               else (w, Inr ())))"

definition flush_publish :: "wal \<Rightarrow> wal" where
  "flush_publish w =
     (let safely_flushed = wl_next_lsn w - 1
      in w\<lparr>wl_flushed_lsn := (if safely_flushed > wl_flushed_lsn w then safely_flushed else wl_flushed_lsn w),
           wl_flush_buffer := []\<rparr>)"

definition execute_flush :: "wal \<Rightarrow> wal \<times> (exn + unit)" where
  "execute_flush w =
     (if lb_buffer (wl_buffer w) = [] then (w, Inr ())
      else
        let w = flush_swap w in
        if wl_flush_buffer w = [] then (w, Inr ())
        else case flush_write w of
          (w, Inl e) \<Rightarrow> (w, Inl e)
        | (w, Inr _) \<Rightarrow> (flush_publish w, Inr ()))"

definition wal_flush :: "wal \<Rightarrow> wal \<times> (exn + unit)" where
  "wal_flush w = execute_flush w"

definition flush_up_to :: "lsn \<Rightarrow> wal \<Rightarrow> wal \<times> (exn + unit)" where
  "flush_up_to target_lsn w =
     (if target_lsn \<le> wl_flushed_lsn w then (w, Inr ()) else execute_flush w)"

text \<open>\<open>append\<close> sets the record's LSN and, by serializing it, its checksum; it returns the record too.\<close>

definition wal_append :: "log_record \<Rightarrow> wal \<Rightarrow> wal \<times> log_record \<times> (exn + lsn)" where
  "wal_append record w =
     (let assigned_lsn = wl_next_lsn w;
          w = w\<lparr>wl_next_lsn := assigned_lsn + 1\<rparr>;
          record = record\<lparr>lr_lsn := assigned_lsn\<rparr>
      in case log_buffer_append record (wl_buffer w) of
           (record, lb, True) \<Rightarrow> (w\<lparr>wl_buffer := lb\<rparr>, record, Inr assigned_lsn)
         | (_, _, False) \<Rightarrow>
             (case wal_flush w of
                (w, Inl e) \<Rightarrow> (w, record, Inl e)
              | (w, Inr _) \<Rightarrow>
                  (case log_buffer_append record (wl_buffer w) of
                     (record, lb, True) \<Rightarrow> (w\<lparr>wl_buffer := lb\<rparr>, record, Inr assigned_lsn)
                   | (record, _, False) \<Rightarrow>
                       (w, record, Inl (runtime_error ''Log record is larger than WAL buffer capacity.'')))))"

section \<open>Segment names\<close>

lemma pad16_value: "digits_value (pad16 s) = digits_value s"
proof -
  have "foldl (\<lambda>a c. a * 10 + (of_char c - 48 :: nat)) 0 (replicate n (CHR ''0'')) = 0" for n
    by (induction n) simp_all
  then show ?thesis by (simp add: digits_value_def pad16_def)
qed

lemma build_path_inj: assumes "build_path dir i = build_path dir j" shows "i = j"
proof -
  have "pad16 (decimal (unat i)) = pad16 (decimal (unat j))"
    using assms by (simp add: build_path_def)
  then have "digits_value (pad16 (decimal (unat i))) = digits_value (pad16 (decimal (unat j)))" by simp
  then show ?thesis by (simp add: pad16_value decimal_value word_unat_eq_iff)
qed

lemma build_path_nat_eq:
  assumes "i < 2 ^ 64"
  shows "build_path dir (of_nat i) = build_path dir j \<longleftrightarrow> i = unat j"
proof
  have u: "unat (of_nat i :: u64) = i" using assms by (intro unat_of_nat_fits) simp
  show "build_path dir (of_nat i) = build_path dir j \<Longrightarrow> i = unat j"
    using build_path_inj u by metis
  show "i = unat j \<Longrightarrow> build_path dir (of_nat i) = build_path dir j" by simp
qed

section \<open>What the log holds\<close>

definition segment_file :: "wal \<Rightarrow> nat \<Rightarrow> bytes option" where
  "segment_file w i = os_files (wl_os w) (build_path (wl_directory w) (of_nat i))"

text \<open>The bytes of all segment files in order, without their headers.\<close>

definition wal_bytes :: "wal \<Rightarrow> bytes" where
  "wal_bytes w = concat (map (\<lambda>i. drop 24 (the (segment_file w i))) [1..<Suc (unat (wl_segment_id w))])"

text \<open>
  \<open>wal_stream w rs m\<close>: the records \<open>rs\<close> have been appended, numbered from 1, the first \<open>m\<close> of them are in
  the segment files and the others in the buffer.
\<close>

definition records_ok :: "log_record list \<Rightarrow> bool" where
  "records_ok rs \<longleftrightarrow> (\<forall>i<length rs. unat (lr_lsn (rs ! i)) = i + 1 \<and> log_fits (rs ! i) \<and> log_verify_checksum (rs ! i))"

definition segments_ok :: "wal \<Rightarrow> bool" where
  "segments_ok w \<longleftrightarrow> os_faults (wl_os w) = [] \<and> sg_open (wl_segment w) \<and> sg_write_mode (wl_segment w) \<and>
     \<not> sg_bad (wl_segment w) \<and> sg_path (wl_segment w) = build_path (wl_directory w) (wl_segment_id w) \<and>
     0 < unat (wl_segment_id w) \<and>
     (\<forall>i. 0 < i \<and> i \<le> unat (wl_segment_id w) \<longrightarrow> (\<exists>c. segment_file w i = Some c \<and> 24 \<le> length c)) \<and>
     (\<forall>i. unat (wl_segment_id w) < i \<and> i < 2 ^ 64 \<longrightarrow> segment_file w i = None)"

definition wal_stream :: "wal \<Rightarrow> log_record list \<Rightarrow> nat \<Rightarrow> bool" where
  "wal_stream w rs m \<longleftrightarrow> m \<le> length rs \<and> length rs + 1 < 2 ^ 64 \<and> unat (wl_next_lsn w) = length rs + 1 \<and>
     records_ok rs \<and> segments_ok w \<and> unat (wl_segment_id w) \<le> m + 1 \<and> wl_flush_buffer w = [] \<and>
     wal_bytes w = concat (map log_image (take m rs)) \<and>
     lb_buffer (wl_buffer w) = concat (map log_image (drop m rs))"

lemma wal_bytes_snoc:
  assumes "0 < unat (wl_segment_id w)"
  shows "wal_bytes w = concat (map (\<lambda>i. drop 24 (the (segment_file w i))) [1..<unat (wl_segment_id w)]) @
    drop 24 (the (segment_file w (unat (wl_segment_id w))))"
  using assms by (simp add: wal_bytes_def upt_Suc_append)

lemma segment_header_image_length [simp]: "length (segment_header_image h) = 24"
  by (simp add: segment_header_image_def)

lemma segment_append_ok:
  assumes "segments_ok w" "on_segment (segment_append data) w = (w', r)"
  shows "r" "segments_ok w'" "wal_bytes w' = wal_bytes w @ data" "wl_segment_id w' = wl_segment_id w"
    "w' = w\<lparr>wl_os := wl_os w', wl_segment := wl_segment w'\<rparr>"
proof -
  let ?id = "wl_segment_id w" and ?dir = "wl_directory w"
  obtain c where c: "segment_file w (unat ?id) = Some c" "24 \<le> length c"
    using assms(1) by (auto simp: segments_ok_def)
  then have fc: "os_files (wl_os w) (sg_path (wl_segment w)) = Some c"
    using assms(1) by (simp add: segments_ok_def segment_file_def)
  have r: "r" and w': "w' = w\<lparr>wl_os := (wl_os w)\<lparr>os_files := (os_files (wl_os w))(build_path ?dir ?id \<mapsto> c @ data)\<rparr>,
      wl_segment := (wl_segment w)\<lparr>sg_size := sg_size (wl_segment w) + length data\<rparr>\<rparr>"
    using assms fc by (simp_all add: on_segment_def segment_append_def segments_ok_def take_fault_def)
  show "r" by (rule r)
  show id: "wl_segment_id w' = ?id" and "w' = w\<lparr>wl_os := wl_os w', wl_segment := wl_segment w'\<rparr>" by (simp_all add: w')
  have sf: "segment_file w' i = (if i = unat ?id then Some (c @ data) else segment_file w i)" if "i < 2 ^ 64" for i
    using build_path_nat_eq [OF that, of ?dir ?id] by (simp add: segment_file_def w')
  have lt: "unat ?id < 2 ^ 64" using unat_less_full [of ?id] by simp
  have "\<exists>c. segment_file w' i = Some c \<and> 24 \<le> length c" if i: "0 < i" "i \<le> unat ?id" for i
  proof -
    obtain c' where "segment_file w i = Some c'" "24 \<le> length c'" using assms(1) i by (auto simp: segments_ok_def)
    then show ?thesis using sf [of i] i lt c(2) by auto
  qed
  moreover have "segment_file w' i = None" if "unat ?id < i" "i < 2 ^ 64" for i
    using assms(1) sf [OF that(2)] that by (simp add: segments_ok_def)
  ultimately show "segments_ok w'"
    using assms(1) unfolding segments_ok_def id by (simp add: w')
  show "wal_bytes w' = wal_bytes w @ data"
  proof -
    have "concat (map (\<lambda>i. drop 24 (the (segment_file w' i))) [1..<unat ?id]) =
        concat (map (\<lambda>i. drop 24 (the (segment_file w i))) [1..<unat ?id])"
      using sf lt by (intro arg_cong [where f = concat]) simp
    moreover have pos: "0 < unat ?id" using assms(1) by (simp add: segments_ok_def)
    ultimately show ?thesis
      using wal_bytes_snoc [of w] wal_bytes_snoc [of w'] sf [of "unat ?id"] c lt by (simp add: id)
  qed
qed


lemma take_fault_none: "os_faults s = [] \<Longrightarrow> take_fault s = (None, s)"
  by (simp add: take_fault_def)

lemma open_append_fresh:
  assumes "os_faults s = []" "os_files s (build_path dir i) = None"
  shows "segment_open_append start s (WALSegment_init dir i) =
    (s\<lparr>os_files := (os_files s)(build_path dir i \<mapsto> segment_header_image \<lparr>sh_magic = WAL_MAGIC,
       sh_format_version = WAL_FORMAT_VERSION, sh_segment_id = i, sh_start_lsn = start\<rparr>)\<rparr>,
     \<lparr>sg_path = build_path dir i, sg_id = i, sg_start_lsn = start, sg_size = 24,
          sg_open = True, sg_write_mode = True, sg_bad = False\<rparr>, True)"
  using assms by (simp add: segment_open_append_def segment_close_def WALSegment_init_def take_fault_none WAL_HEADER_SIZE_def)

text \<open>Starting a new segment adds an empty file; the stream of log bytes does not change.\<close>

lemma roll_segment_ok:
  assumes ok: "segments_ok w" and lt: "unat (wl_segment_id w) + 1 < 2 ^ 64" and res: "roll_segment_if_needed w = (w', r)"
  shows "r = Inr ()" "segments_ok w'" "wal_bytes w' = wal_bytes w" "unat (wl_segment_id w') \<le> unat (wl_segment_id w) + 1"
    "w' = w\<lparr>wl_os := wl_os w', wl_segment := wl_segment w', wl_segment_id := wl_segment_id w'\<rparr>"
proof -
  let ?id = "wl_segment_id w" and ?dir = "wl_directory w"
  have "r = Inr () \<and> segments_ok w' \<and> wal_bytes w' = wal_bytes w \<and> unat (wl_segment_id w') \<le> unat ?id + 1 \<and>
    w' = w\<lparr>wl_os := wl_os w', wl_segment := wl_segment w', wl_segment_id := wl_segment_id w'\<rparr>"
  proof (cases "sg_size (wl_segment w) \<ge> MAX_SEGMENT_SIZE")
    case False
    then show ?thesis using res ok by (simp add: roll_segment_if_needed_def)
  next
    case True
    have u: "unat (?id + 1) = unat ?id + 1" using lt by (intro unat_plus_if_fits [THEN trans]) simp_all
    have new: "os_files (wl_os w) (build_path ?dir (?id + 1)) = None"
    proof -
      have "segment_file w (unat ?id + 1) = None" using ok lt unfolding segments_ok_def by auto
      moreover have "(of_nat (unat ?id + 1) :: u64) = ?id + 1" by simp
      ultimately show ?thesis unfolding segment_file_def by metis
    qed
    define h where "h = segment_header_image \<lparr>sh_magic = WAL_MAGIC, sh_format_version = WAL_FORMAT_VERSION,
      sh_segment_id = ?id + 1, sh_start_lsn = wl_next_lsn w\<rparr>"
    have faults: "os_faults (wl_os w) = []" using ok by (simp add: segments_ok_def)
    then have cl: "fst (segment_close (wl_os w) (wl_segment w)) = wl_os w"
      by (simp add: segment_close_def segment_flush_def take_fault_none)
    then obtain sg where cl: "segment_close (wl_os w) (wl_segment w) = (wl_os w, sg)" by (cases "segment_close (wl_os w) (wl_segment w)") simp
    have r: "r = Inr ()" and w': "w' = w\<lparr>wl_segment_id := ?id + 1,
        wl_os := (wl_os w)\<lparr>os_files := (os_files (wl_os w))(build_path ?dir (?id + 1) \<mapsto> h)\<rparr>,
        wl_segment := \<lparr>sg_path = build_path ?dir (?id + 1), sg_id = ?id + 1, sg_start_lsn = wl_next_lsn w, sg_size = 24,
          sg_open = True, sg_write_mode = True, sg_bad = False\<rparr>\<rparr>"
      using res True open_append_fresh [OF faults new]
      by (auto simp: roll_segment_if_needed_def cl on_segment_def h_def Let_def)
    have id: "wl_segment_id w' = ?id + 1" by (simp add: w')
    have sf: "segment_file w' i = (if i = unat ?id + 1 then Some h else segment_file w i)" if "i < 2 ^ 64" for i
      using build_path_nat_eq [OF that, of ?dir "?id + 1"] by (simp add: segment_file_def w' u)
    have lh: "length h = 24" by (simp add: h_def)
    have "\<exists>c. segment_file w' i = Some c \<and> 24 \<le> length c" if i: "0 < i" "i \<le> unat ?id + 1" for i
    proof (cases "i = unat ?id + 1")
      case True
      then show ?thesis using sf [of i] lt lh by simp
    next
      case False
      then show ?thesis using sf [of i] i lt ok unfolding segments_ok_def by simp
    qed
    moreover have "segment_file w' i = None" if "unat ?id + 1 < i" "i < 2 ^ 64" for i
      using ok sf [OF that(2)] that by (simp add: segments_ok_def)
    ultimately have "segments_ok w'"
      using ok unfolding segments_ok_def id u by (simp add: w')
    moreover have "wal_bytes w' = wal_bytes w"
    proof -
      have "concat (map (\<lambda>i. drop 24 (the (segment_file w' i))) [1..<Suc (unat ?id)]) = wal_bytes w"
        unfolding wal_bytes_def using sf lt by (intro arg_cong [where f = concat]) (auto simp: less_Suc_eq)
      then show ?thesis
        using wal_bytes_snoc [of w'] sf [of "unat ?id + 1"] lt lh by (simp add: id u)
    qed
    ultimately show ?thesis using r u by (simp add: w')
  qed
  then show "r = Inr ()" "segments_ok w'" "wal_bytes w' = wal_bytes w" "unat (wl_segment_id w') \<le> unat ?id + 1"
    "w' = w\<lparr>wl_os := wl_os w', wl_segment := wl_segment w', wl_segment_id := wl_segment_id w'\<rparr>" by auto
qed


lemma segments_cong [simp]:
  "segments_ok (w\<lparr>wl_next_lsn := a\<rparr>) = segments_ok w" "segments_ok (w\<lparr>wl_buffer := b\<rparr>) = segments_ok w"
  "segments_ok (w\<lparr>wl_flush_buffer := f\<rparr>) = segments_ok w" "segments_ok (w\<lparr>wl_flushed_lsn := l\<rparr>) = segments_ok w"
  "wal_bytes (w\<lparr>wl_next_lsn := a\<rparr>) = wal_bytes w" "wal_bytes (w\<lparr>wl_buffer := b\<rparr>) = wal_bytes w"
  "wal_bytes (w\<lparr>wl_flush_buffer := f\<rparr>) = wal_bytes w" "wal_bytes (w\<lparr>wl_flushed_lsn := l\<rparr>) = wal_bytes w"
  by (simp_all add: segments_ok_def wal_bytes_def segment_file_def)

lemma log_image_nonempty: "log_image r \<noteq> []"
  using length_log_image [of r] by auto

lemma concat_images_empty: "concat (map log_image rs) = [] \<longleftrightarrow> rs = []"
  by (cases rs) (simp_all add: log_image_nonempty)

lemma flush_write_ok:
  assumes ok: "segments_ok w" and lt: "unat (wl_segment_id w) + 1 < 2 ^ 64" and res: "flush_write w = (w', r)"
  shows "r = Inr ()" "segments_ok w'" "wal_bytes w' = wal_bytes w @ wl_flush_buffer w"
    "unat (wl_segment_id w') \<le> unat (wl_segment_id w) + 1"
    "w' = w\<lparr>wl_os := wl_os w', wl_segment := wl_segment w', wl_segment_id := wl_segment_id w'\<rparr>"
proof -
  obtain w1 r1 where r1: "roll_segment_if_needed w = (w1, r1)" by fastforce
  note roll = roll_segment_ok [OF ok lt r1]
  obtain w2 r2 where r2: "on_segment (segment_append (wl_flush_buffer w1)) w1 = (w2, r2)" by fastforce
  note app = segment_append_ok [OF roll(2) r2]
  have faults: "os_faults (wl_os w2) = []" using app(2) by (simp add: segments_ok_def)
  have "segment_flush (wl_os w2) (wl_segment w2) = (wl_os w2, wl_segment w2)"
    using app(2) by (simp add: segment_flush_def take_fault_none segments_ok_def)
  then have w': "w' = w2" and r: "r = Inr ()"
    using res r1 r2 roll(1) app(1) by (auto simp: flush_write_def split: if_splits)
  have fb: "wl_flush_buffer w1 = wl_flush_buffer w" using arg_cong [OF roll(5), of wl_flush_buffer] by simp
  show "r = Inr ()" "segments_ok w'" "wal_bytes w' = wal_bytes w @ wl_flush_buffer w"
    "unat (wl_segment_id w') \<le> unat (wl_segment_id w) + 1"
    using r w' app roll(3,4) fb by simp_all
  show "w' = w\<lparr>wl_os := wl_os w', wl_segment := wl_segment w', wl_segment_id := wl_segment_id w'\<rparr>"
    unfolding w' by (subst app(5), subst roll(5)) (simp add: app(4))
qed

lemma execute_flush_ok:
  assumes str: "wal_stream w rs m" and res: "execute_flush w = (w', r)"
  shows "r = Inr ()" "wal_stream w' rs (length rs)" "wl_next_lsn w' = wl_next_lsn w"
    "wl_flushed_lsn w' = (if m = length rs then wl_flushed_lsn w else max (wl_flushed_lsn w) (wl_next_lsn w - 1))"
    "lb_capacity (wl_buffer w') = lb_capacity (wl_buffer w)"
proof -
  have "r = Inr () \<and> wal_stream w' rs (length rs) \<and> wl_next_lsn w' = wl_next_lsn w \<and>
    wl_flushed_lsn w' = (if m = length rs then wl_flushed_lsn w else max (wl_flushed_lsn w) (wl_next_lsn w - 1)) \<and>
    lb_capacity (wl_buffer w') = lb_capacity (wl_buffer w)"
  proof (cases "m = length rs")
    case True
    then have "lb_buffer (wl_buffer w) = []" using str by (simp add: wal_stream_def)
    then show ?thesis using res str True by (simp add: execute_flush_def)
  next
    case False
    then have m: "m < length rs" using str by (simp add: wal_stream_def)
    define buf where "buf = concat (map log_image (drop m rs))"
    have buf: "lb_buffer (wl_buffer w) = buf" "buf \<noteq> []"
      using str m concat_images_empty [of "drop m rs"] by (auto simp: wal_stream_def buf_def simp del: concat_eq_Nil_conv)
    define w1 where "w1 = flush_swap w"
    have w1: "w1 = w\<lparr>wl_buffer := (wl_buffer w)\<lparr>lb_buffer := []\<rparr>, wl_flush_buffer := buf\<rparr>"
      using str buf by (simp add: w1_def flush_swap_def log_buffer_swap_def wal_stream_def)
    have ok1: "segments_ok w1" "wal_bytes w1 = wal_bytes w"
      using str by (simp_all add: w1 wal_stream_def)
    have lt: "unat (wl_segment_id w1) + 1 < 2 ^ 64" using str m by (simp add: w1 wal_stream_def)
    obtain w2 r2 where r2: "flush_write w1 = (w2, r2)" by fastforce
    note fw = flush_write_ok [OF ok1(1) lt r2]
    have w': "w' = flush_publish w2" and r: "r = Inr ()"
      using res buf fw(1) r2 w1 by (auto simp: execute_flush_def w1_def [symmetric] Let_def)
    have sel: "wl_next_lsn w2 = wl_next_lsn w" "wl_flushed_lsn w2 = wl_flushed_lsn w"
      "wl_buffer w2 = (wl_buffer w)\<lparr>lb_buffer := []\<rparr>" "wl_directory w2 = wl_directory w"
      using arg_cong [OF fw(5), of wl_next_lsn] arg_cong [OF fw(5), of wl_flushed_lsn]
        arg_cong [OF fw(5), of wl_buffer] arg_cong [OF fw(5), of wl_directory] by (simp_all add: w1)
    have "segments_ok w'" "wal_bytes w' = wal_bytes w2"
      using fw(2) by (simp_all add: w' flush_publish_def Let_def)
    moreover have "wal_bytes w2 = concat (map log_image rs)"
      using fw(3) ok1(2) str by (simp add: w1 wal_stream_def buf_def flip: concat_append map_append)
    moreover have "unat (wl_segment_id w') \<le> length rs + 1"
      using fw(4) str m by (simp add: w' flush_publish_def Let_def w1 wal_stream_def)
    ultimately have "wal_stream w' rs (length rs)"
      using str sel by (simp add: wal_stream_def w' flush_publish_def Let_def)
    moreover have "wl_flushed_lsn w' = max (wl_flushed_lsn w) (wl_next_lsn w - 1)"
      by (auto simp: w' flush_publish_def sel Let_def max_def)
    ultimately show ?thesis using r sel False by (simp add: w' flush_publish_def Let_def)
  qed
  then show "r = Inr ()" "wal_stream w' rs (length rs)" "wl_next_lsn w' = wl_next_lsn w"
    "wl_flushed_lsn w' = (if m = length rs then wl_flushed_lsn w else max (wl_flushed_lsn w) (wl_next_lsn w - 1))"
    "lb_capacity (wl_buffer w') = lb_capacity (wl_buffer w)" by blast+
qed

text \<open>Appending to the buffer.\<close>

definition buffer_room :: "log_record \<Rightarrow> wal \<Rightarrow> bool" where
  "buffer_room r w \<longleftrightarrow> length (lb_buffer (wl_buffer w)) + 41 + length (lr_payload r) \<le> lb_capacity (wl_buffer w)"

definition appended :: "log_record \<Rightarrow> wal \<Rightarrow> log_record" where
  "appended r w = log_calculate_checksum (r\<lparr>lr_lsn := wl_next_lsn w\<rparr>)"

lemma log_fits_lsn [simp]: "log_fits (r\<lparr>lr_lsn := l\<rparr>) = log_fits r"
  by (simp add: log_fits_def)

lemma log_buffer_append_ok:
  assumes "log_fits r"
  shows "log_buffer_append r lb =
    (if length (lb_buffer lb) + 41 + length (lr_payload r) \<le> lb_capacity lb
     then (log_calculate_checksum r, lb\<lparr>lb_buffer := lb_buffer lb @ log_image (log_calculate_checksum r)\<rparr>, True)
     else (r, lb, False))"
  using assms log_fits_size(3) [OF assms] by (simp add: log_buffer_append_def log_serialize_eq)

lemma records_ok_snoc:
  assumes "records_ok rs" "log_fits r" "unat l = length rs + 1"
  shows "records_ok (rs @ [log_calculate_checksum (r\<lparr>lr_lsn := l\<rparr>)])"
  using assms by (auto simp: records_ok_def nth_append less_Suc_eq log_verify_checksum_def)

lemma wal_append_fits:
  assumes str: "wal_stream w rs m" and fits: "log_fits r" "buffer_room r w" and len: "length rs + 2 < 2 ^ 64"
  shows "wal_append r w = (w\<lparr>wl_next_lsn := wl_next_lsn w + 1,
      wl_buffer := (wl_buffer w)\<lparr>lb_buffer := lb_buffer (wl_buffer w) @ log_image (appended r w)\<rparr>\<rparr>,
      appended r w, Inr (wl_next_lsn w))"
    and "wal_stream (fst (wal_append r w)) (rs @ [appended r w]) m"
proof -
  show eq: "wal_append r w = (w\<lparr>wl_next_lsn := wl_next_lsn w + 1,
      wl_buffer := (wl_buffer w)\<lparr>lb_buffer := lb_buffer (wl_buffer w) @ log_image (appended r w)\<rparr>\<rparr>,
      appended r w, Inr (wl_next_lsn w))"
    using fits by (simp add: wal_append_def log_buffer_append_ok buffer_room_def appended_def Let_def)
  have "unat (wl_next_lsn w + 1) = length rs + 2"
    using str len by (intro unat_plus_if_fits [THEN trans]) (simp_all add: wal_stream_def)
  then show "wal_stream (fst (wal_append r w)) (rs @ [appended r w]) m"
    using str records_ok_snoc [of rs r "wl_next_lsn w"] fits(1) len
    by (simp add: eq wal_stream_def appended_def)
qed


definition fresh_directory :: "path \<Rightarrow> os \<Rightarrow> bool" where
  "fresh_directory dir s \<longleftrightarrow> os_faults s = [] \<and> (\<forall>i. os_files s (build_path dir i) = None)"

lemma WALManager_init_ok:
  assumes "fresh_directory dir s"
  shows "snd (WALManager_init dir mode s) = Inr ()" "wal_stream (fst (WALManager_init dir mode s)) [] 0"
    "wl_flushed_lsn (fst (WALManager_init dir mode s)) = 0"
    "lb_capacity (wl_buffer (fst (WALManager_init dir mode s))) = 4194304"
proof -
  have fr: "os_faults s = []" "os_files s (build_path dir i) = None" for i
    using assms by (auto simp: fresh_directory_def)
  let ?h = "segment_header_image \<lparr>sh_magic = WAL_MAGIC, sh_format_version = WAL_FORMAT_VERSION, sh_segment_id = 1, sh_start_lsn = 1\<rparr>"
  define w where "w = \<lparr>wl_directory = dir, wl_mode = mode, wl_next_lsn = 1, wl_flushed_lsn = 0, wl_buffer = LogBuffer_init,
     wl_flush_buffer = [], wl_segment = \<lparr>sg_path = build_path dir 1, sg_id = 1, sg_start_lsn = 1, sg_size = 24,
        sg_open = True, sg_write_mode = True, sg_bad = False\<rparr>, wl_segment_id = 1,
     wl_os = s\<lparr>os_files := (os_files s)(build_path dir 1 \<mapsto> ?h)\<rparr>\<rparr>"
  have eq: "WALManager_init dir mode s = (w, Inr ())"
    using open_append_fresh [OF fr] by (simp add: WALManager_init_def on_segment_def w_def)
  have sf: "segment_file w i = (if i = 1 then Some ?h else None)" if "i < 2 ^ 64" for i
    using build_path_nat_eq [OF that, of dir 1] fr(2) by (simp add: segment_file_def w_def)
  have "segments_ok w"
    using sf fr(1) by (auto simp: segments_ok_def w_def le_Suc_eq)
  moreover have "wal_bytes w = []"
    using sf [of 1] by (simp add: wal_bytes_def) (simp add: w_def)
  ultimately have "wal_stream w [] 0"
    by (simp add: wal_stream_def records_ok_def) (simp add: w_def LogBuffer_init_def)
  then show "snd (WALManager_init dir mode s) = Inr ()" "wal_stream (fst (WALManager_init dir mode s)) [] 0"
    "wl_flushed_lsn (fst (WALManager_init dir mode s)) = 0"
    "lb_capacity (wl_buffer (fst (WALManager_init dir mode s))) = 4194304"
    by (simp_all add: eq w_def LogBuffer_init_def)
qed

text \<open>
  The reachable states of one thread that never overfills the buffer, with the records it appended.
\<close>

inductive wal_reach :: "path \<Rightarrow> wal \<Rightarrow> log_record list \<Rightarrow> bool" for dir where
  reach_init: "fresh_directory dir s \<Longrightarrow> WALManager_init dir mode s = (w, Inr ()) \<Longrightarrow> wal_reach dir w []"
| reach_append: "wal_reach dir w rs \<Longrightarrow> log_fits r \<Longrightarrow> buffer_room r w \<Longrightarrow> length rs + 2 < 2 ^ 64 \<Longrightarrow>
    wal_append r w = (w', r', Inr l) \<Longrightarrow> wal_reach dir w' (rs @ [r'])"
| reach_flush: "wal_reach dir w rs \<Longrightarrow> flush_up_to l w = (w', Inr ()) \<Longrightarrow> wal_reach dir w' rs"

lemma flush_up_to_ok:
  assumes str: "wal_stream w rs m" and bound: "unat (wl_flushed_lsn w) \<le> m" and res: "flush_up_to l w = (w', r)"
  shows "r = Inr ()" "\<exists>m'. wal_stream w' rs m' \<and> unat (wl_flushed_lsn w') \<le> m' \<and> (unat l \<le> length rs \<longrightarrow> unat l \<le> m')"
proof -
  have "r = Inr () \<and> (\<exists>m'. wal_stream w' rs m' \<and> unat (wl_flushed_lsn w') \<le> m' \<and> (unat l \<le> length rs \<longrightarrow> unat l \<le> m'))"
  proof (cases "l \<le> wl_flushed_lsn w")
    case True
    then have "unat l \<le> m" using bound by (simp add: word_le_nat_alt)
    then show ?thesis using True res str bound by (auto simp: flush_up_to_def)
  next
    case False
    then have ex: "execute_flush w = (w', r)" using res by (simp add: flush_up_to_def)
    note ef = execute_flush_ok [OF str ex]
    have "unat (wl_next_lsn w - 1) = length rs"
      using str by (simp add: wal_stream_def unat_minus_if_le)
    moreover have "m \<le> length rs" using str by (simp add: wal_stream_def)
    ultimately have "unat (wl_flushed_lsn w') \<le> length rs"
      using ef(4) bound by (auto simp: max_def)
    then show ?thesis using ef(1,2) by auto
  qed
  then show "r = Inr ()" "\<exists>m'. wal_stream w' rs m' \<and> unat (wl_flushed_lsn w') \<le> m' \<and> (unat l \<le> length rs \<longrightarrow> unat l \<le> m')"
    by auto
qed

lemma wal_reach_stream:
  assumes "wal_reach dir w rs"
  shows "\<exists>m. wal_stream w rs m \<and> unat (wl_flushed_lsn w) \<le> m"
  using assms
proof induction
  case (reach_init s mode w)
  then show ?case using WALManager_init_ok [OF reach_init(1), of mode] by (intro exI [of _ 0]) simp
next
  case (reach_append w rs r w' r' l)
  then obtain m where m: "wal_stream w rs m" "unat (wl_flushed_lsn w) \<le> m" by blast
  note ap = wal_append_fits [OF m(1) reach_append.hyps(2,3,4)]
  show ?case using ap m(2) reach_append.hyps(5) by (intro exI [of _ m]) auto
next
  case (reach_flush w rs l w')
  then obtain m where m: "wal_stream w rs m" "unat (wl_flushed_lsn w) \<le> m" by blast
  show ?case using flush_up_to_ok(2) [OF m reach_flush.hyps(2)] by blast
qed

section \<open>Properties\<close>


lemma empty_os_fresh: "fresh_directory dir \<lparr>os_files = Map.empty, os_faults = []\<rparr>"
  by (simp add: fresh_directory_def)

lemma example_wal:
  obtains w w' r' where "wal_reach ''wal'' w []" "wal_append LogRecord_default w = (w', r', Inr 1)" "wal_reach ''wal'' w' [r']"
proof -
  obtain w where w: "WALManager_init ''wal'' Normal \<lparr>os_files = Map.empty, os_faults = []\<rparr> = (w, Inr ())"
    using WALManager_init_ok(1) [OF empty_os_fresh, of "''wal''" Normal] by (metis prod.collapse)
  note i = WALManager_init_ok(2-4) [OF empty_os_fresh, of "''wal''" Normal, unfolded w, simplified]
  have reach: "wal_reach ''wal'' w []" by (rule reach_init [OF empty_os_fresh w])
  have fits: "log_fits LogRecord_default" "buffer_room LogRecord_default w"
    using i(1,3) by (simp_all add: log_fits_def LogRecord_default_def buffer_room_def wal_stream_def)
  have "wl_next_lsn w = 1" using i(1) by (simp add: wal_stream_def word_unat_eq_iff)
  then obtain w' r' where a: "wal_append LogRecord_default w = (w', r', Inr 1)"
    using wal_append_fits(1) [OF i(1) fits] by simp
  then have "wal_reach ''wal'' w' ([] @ [r'])"
    by (intro reach_append [OF reach fits _ a]) simp
  then show ?thesis using that reach a by simp
qed


text \<open>When the log buffer is full, \<open>append\<close> flushes before it stores the new record, but the flush
  publishes \<open>m_next_lsn - 1\<close>, which is already the new record's LSN. The record stays in memory, yet
  \<open>flush_up_to\<close> of its LSN returns without writing anything.\<close>
lemma append_full_loses_durability:
  assumes "wal_stream w rs m" "m < length rs" "log_fits r" "\<not> buffer_room r w"
    and "41 + length (lr_payload r) \<le> lb_capacity (wl_buffer w)" "length rs + 2 < 2 ^ 64"
  shows "\<exists>w' r' l. wal_append r w = (w', r', Inr l) \<and> unat l = length rs + 1 \<and>
    wal_bytes w' = concat (map log_image rs) \<and> lb_buffer (wl_buffer w') = log_image r' \<and>
    flush_up_to l w' = (w', Inr ())"
proof -
  let ?l = "wl_next_lsn w"
  let ?w1 = "w\<lparr>wl_next_lsn := ?l + 1\<rparr>" and ?r = "r\<lparr>lr_lsn := ?l\<rparr>"
  have l: "unat ?l = length rs + 1" using assms(1) by (simp add: wal_stream_def)
  have l1: "unat (?l + 1) = length rs + 2" using l assms(6) by (intro unat_plus_if_fits [THEN trans]) simp_all
  define buf where "buf = concat (map log_image (drop m rs))"
  have buf: "lb_buffer (wl_buffer w) = buf" "buf \<noteq> []"
    using assms(1,2) concat_images_empty [of "drop m rs"] by (auto simp: wal_stream_def buf_def simp del: concat_eq_Nil_conv)
  let ?w2 = "?w1\<lparr>wl_buffer := (wl_buffer w)\<lparr>lb_buffer := []\<rparr>, wl_flush_buffer := buf\<rparr>"
  have sw: "flush_swap ?w1 = ?w2" using assms(1) buf by (simp add: flush_swap_def log_buffer_swap_def wal_stream_def)
  obtain w3 r3 where w3: "flush_write ?w2 = (w3, r3)" by fastforce
  have "segments_ok ?w2" "unat (wl_segment_id ?w2) + 1 < 2 ^ 64"
    using assms(1,2) by (simp_all add: wal_stream_def)
  note fw = flush_write_ok [OF this w3]
  have sel: "wl_next_lsn w3 = ?l + 1" "wl_flushed_lsn w3 = wl_flushed_lsn w" "wl_buffer w3 = (wl_buffer w)\<lparr>lb_buffer := []\<rparr>"
    using arg_cong [OF fw(5), of wl_next_lsn] arg_cong [OF fw(5), of wl_flushed_lsn] arg_cong [OF fw(5), of wl_buffer] by simp_all
  let ?w4 = "flush_publish w3"
  have "wal_flush ?w1 = (?w4, Inr ())"
    using buf w3 fw(1) sw by (simp add: wal_flush_def execute_flush_def Let_def)
  moreover have "lb_buffer (wl_buffer ?w4) = []" "lb_capacity (wl_buffer ?w4) = lb_capacity (wl_buffer w)"
    using sel by (simp_all add: flush_publish_def Let_def)
  ultimately have ap: "wal_append r w = (?w4\<lparr>wl_buffer := (wl_buffer ?w4)\<lparr>lb_buffer := log_image (appended r w)\<rparr>\<rparr>, appended r w, Inr ?l)"
    using assms(3-5) by (simp add: wal_append_def Let_def log_buffer_append_ok buffer_room_def appended_def)
  have "?l \<le> wl_flushed_lsn ?w4" using sel by (auto simp: flush_publish_def Let_def)
  then show ?thesis
    using ap l fw(3) assms(1)
    by (simp add: flush_up_to_def flush_publish_def Let_def wal_stream_def buf_def flip: concat_append map_append)
qed

text \<open>Two threads: a record appended while another thread writes the swapped buffer is counted as
  flushed when that thread publishes, although its bytes are only in memory.\<close>
lemma publish_overtakes_write:
  assumes "wal_stream w rs m" "m < length rs" "log_fits r" "41 + length (lr_payload r) \<le> lb_capacity (wl_buffer w)"
    and "length rs + 2 < 2 ^ 64" "wal_append r (flush_swap w) = (w1, r', Inr l)" "flush_write w1 = (w2, res)"
  shows "res = Inr () \<and> unat l = length rs + 1 \<and> l \<le> wl_flushed_lsn (flush_publish w2) \<and>
    wal_bytes (flush_publish w2) = concat (map log_image rs) \<and> lb_buffer (wl_buffer (flush_publish w2)) = log_image r'"
proof -
  let ?l = "wl_next_lsn w"
  define buf where "buf = concat (map log_image (drop m rs))"
  have l: "unat ?l = length rs + 1" using assms(1) by (simp add: wal_stream_def)
  have sw: "flush_swap w = w\<lparr>wl_buffer := (wl_buffer w)\<lparr>lb_buffer := []\<rparr>, wl_flush_buffer := buf\<rparr>"
    using assms(1) by (simp add: flush_swap_def log_buffer_swap_def wal_stream_def buf_def)
  have a: "l = ?l" "r' = appended r w"
    "w1 = w\<lparr>wl_buffer := (wl_buffer w)\<lparr>lb_buffer := log_image r'\<rparr>, wl_flush_buffer := buf, wl_next_lsn := ?l + 1\<rparr>"
    using assms(3,4,6) by (auto simp: sw wal_append_def Let_def log_buffer_append_ok appended_def)
  have "segments_ok w1" "unat (wl_segment_id w1) + 1 < 2 ^ 64"
    using assms(1,2) by (simp_all add: a wal_stream_def)
  note fw = flush_write_ok [OF this assms(7)]
  have sel: "wl_next_lsn w2 = ?l + 1" "wl_buffer w2 = (wl_buffer w)\<lparr>lb_buffer := log_image r'\<rparr>"
    using arg_cong [OF fw(5), of wl_next_lsn] arg_cong [OF fw(5), of wl_buffer] by (simp_all add: a)
  have "wal_bytes w2 = concat (map log_image rs)"
    using fw(3) assms(1) by (simp add: a wal_stream_def buf_def flip: concat_append map_append)
  then show ?thesis
    using fw(1) l a sel by (auto simp: flush_publish_def Let_def)
qed

end
