(* ===== verification/Buffer_Pool.thy ===== *)
theory Buffer_Pool
  imports Disk_Manager Clock_Replacer Wal_Manager
begin

text \<open>
  \<open>buffer_frame.hpp\<close>, \<open>page_handle.hpp/.cpp\<close>, \<open>buffer_pool.hpp/.cpp\<close>: the cache of pages between the disk
  manager and its users. The model is the behaviour of one thread. The page table is an association
  list, whose order stands for the unspecified iteration order of the hash map; a page handle is the id
  of the frame it pins. Operations that call the write-ahead log may throw and return \<open>exn + 'a result\<close>.
\<close>

section \<open>State\<close>

record frame =
  fr_page_id :: page_id
  fr_valid :: bool
  fr_dirty :: bool
  fr_pin_count :: u32
  fr_page :: page

record buffer_pool =
  bp_pool_size :: nat
  bp_frames :: "frame list"
  bp_replacer :: clock
  bp_page_table :: "(page_id \<times> frame_id) list"
  bp_free_list :: "frame_id list"
  bp_disk :: disk
  bp_wal :: "wal option"
  bp_hits :: u64
  bp_misses :: u64
  bp_evictions :: u64
  bp_flushes :: u64

type_synonym 'a outcome = "exn + 'a result"

text \<open>A default \<open>Page\<close> has an invalid id and a buffer of the default page size.\<close>

definition BufferFrame_init :: frame where
  "BufferFrame_init = \<lparr>fr_page_id = invalid_value, fr_valid = False, fr_dirty = False, fr_pin_count = 0,
     fr_page = new_page invalid_value DEFAULT_PAGE_SIZE\<rparr>"

definition BufferPool_init :: "nat \<Rightarrow> disk \<Rightarrow> wal option \<Rightarrow> buffer_pool" where
  "BufferPool_init pool_size d w = \<lparr>bp_pool_size = pool_size, bp_frames = replicate pool_size BufferFrame_init,
     bp_replacer = ClockReplacer_init pool_size, bp_page_table = [], bp_free_list = map of_nat [0..<pool_size],
     bp_disk = d, bp_wal = w, bp_hits = 0, bp_misses = 0, bp_evictions = 0, bp_flushes = 0\<rparr>"

abbreviation frame_of :: "buffer_pool \<Rightarrow> frame_id \<Rightarrow> frame" where
  "frame_of bp f \<equiv> bp_frames bp ! unat f"

definition set_frame :: "frame_id \<Rightarrow> frame \<Rightarrow> buffer_pool \<Rightarrow> buffer_pool" where
  "set_frame f fr bp = bp\<lparr>bp_frames := (bp_frames bp)[unat f := fr]\<rparr>"

definition frame_pin :: "frame \<Rightarrow> frame" where "frame_pin fr = fr\<lparr>fr_pin_count := fr_pin_count fr + 1\<rparr>"
definition frame_unpin :: "frame \<Rightarrow> frame" where "frame_unpin fr = fr\<lparr>fr_pin_count := fr_pin_count fr - 1\<rparr>"

definition on_replacer :: "(clock \<Rightarrow> clock) \<Rightarrow> buffer_pool \<Rightarrow> buffer_pool" where
  "on_replacer g bp = bp\<lparr>bp_replacer := g (bp_replacer bp)\<rparr>"

definition table_erase :: "page_id \<Rightarrow> (page_id \<times> frame_id) list \<Rightarrow> (page_id \<times> frame_id) list" where
  "table_erase i t = filter (\<lambda>e. fst e \<noteq> i) t"

definition table_set :: "page_id \<Rightarrow> frame_id \<Rightarrow> (page_id \<times> frame_id) list \<Rightarrow> (page_id \<times> frame_id) list" where
  "table_set i f t = (i, f) # table_erase i t"

section \<open>Operations\<close>

definition unpin_page :: "frame_id \<Rightarrow> buffer_pool \<Rightarrow> buffer_pool" where
  "unpin_page f bp =
     (if unat f < bp_pool_size bp \<and> fr_pin_count (frame_of bp f) = 0 then on_replacer (clock_unpin f) bp else bp)"

text \<open>\<open>PageHandle::unpin\<close>, run by its destructor, and the mutable access of a handle.\<close>

definition handle_unpin :: "frame_id \<Rightarrow> buffer_pool \<Rightarrow> buffer_pool" where
  "handle_unpin f bp = unpin_page f (set_frame f (frame_unpin (frame_of bp f)) bp)"

definition handle_mark_dirty :: "frame_id \<Rightarrow> buffer_pool \<Rightarrow> buffer_pool" where
  "handle_mark_dirty f bp = set_frame f ((frame_of bp f)\<lparr>fr_dirty := True\<rparr>) bp"

definition handle_get :: "frame_id \<Rightarrow> buffer_pool \<Rightarrow> page" where
  "handle_get f bp = fr_page (frame_of bp f)"

definition handle_modify :: "frame_id \<Rightarrow> (bytes \<Rightarrow> bytes) \<Rightarrow> buffer_pool \<Rightarrow> buffer_pool" where
  "handle_modify f g bp =
     (let bp = handle_mark_dirty f bp; fr = frame_of bp f
      in set_frame f (fr\<lparr>fr_page := (fr_page fr)\<lparr>pg_data := g (pg_data (fr_page fr))\<rparr>\<rparr>) bp)"

text \<open>The WAL-before-data rule: flush the log up to the page's LSN.\<close>

definition flush_log_for :: "frame \<Rightarrow> buffer_pool \<Rightarrow> buffer_pool \<times> (exn + unit)" where
  "flush_log_for fr bp =
     (case bp_wal bp of
        None \<Rightarrow> (bp, Inr ())
      | Some w \<Rightarrow>
          (let page_lsn = ph_lsn (read_header (fr_page fr)) in
           if LSN_is_valid page_lsn
           then case flush_up_to page_lsn w of (w, r) \<Rightarrow> (bp\<lparr>bp_wal := Some w\<rparr>, r)
           else (bp, Inr ())))"

text \<open>Writing back a dirty frame; \<open>write_page\<close> also stamps the page in the frame.\<close>

definition write_back :: "frame_id \<Rightarrow> buffer_pool \<Rightarrow> buffer_pool \<times> unit outcome" where
  "write_back f bp =
     (case flush_log_for (frame_of bp f) bp of
        (bp, Inl e) \<Rightarrow> (bp, Inl e)
      | (bp, Inr _) \<Rightarrow>
          (case write_page (bp_disk bp) (fr_page (frame_of bp f)) of
             (d, p, r) \<Rightarrow>
               let bp = set_frame f ((frame_of bp f)\<lparr>fr_page := p\<rparr>) (bp\<lparr>bp_disk := d\<rparr>) in
               case r of
                 Inl e \<Rightarrow> (bp, Inr (Inl e))
               | Inr _ \<Rightarrow>
                   (set_frame f ((frame_of bp f)\<lparr>fr_dirty := False\<rparr>) (bp\<lparr>bp_flushes := bp_flushes bp + 1\<rparr>), Inr (Inr ()))))"

text \<open>The clean-up on both failure paths of \<open>fetch_page\<close>.\<close>

definition fetch_cleanup :: "page_id \<Rightarrow> frame_id \<Rightarrow> buffer_pool \<Rightarrow> buffer_pool" where
  "fetch_cleanup i f bp =
     (let bp = unpin_page f (set_frame f (frame_unpin (frame_of bp f)) bp)
      in bp\<lparr>bp_page_table := table_erase i (bp_page_table bp), bp_free_list := bp_free_list bp @ [f]\<rparr>)"

text \<open>Choosing a frame: the free list first, then the replacer.\<close>

definition find_frame :: "buffer_pool \<Rightarrow> buffer_pool \<times> frame_id option" where
  "find_frame bp =
     (case bp_free_list bp of
        f # fs \<Rightarrow> (bp\<lparr>bp_free_list := fs\<rparr>, Some f)
      | [] \<Rightarrow>
          (case victim (bp_replacer bp) of
             (c, None) \<Rightarrow> (bp\<lparr>bp_replacer := c\<rparr>, None)
           | (c, Some f) \<Rightarrow> (bp\<lparr>bp_replacer := c, bp_evictions := bp_evictions bp + 1\<rparr>, Some f)))"

text \<open>Claiming it for page \<open>i\<close>: drop the old mapping, pin, add the new mapping.\<close>

definition claim_frame :: "page_id \<Rightarrow> frame_id \<Rightarrow> buffer_pool \<Rightarrow> buffer_pool" where
  "claim_frame i f bp =
     (let fr = frame_of bp f;
          t = (if fr_valid fr then table_erase (fr_page_id fr) (bp_page_table bp) else bp_page_table bp);
          bp = on_replacer (clock_pin f) (set_frame f (frame_pin fr) (bp\<lparr>bp_page_table := t\<rparr>))
      in bp\<lparr>bp_page_table := table_set i f t\<rparr>)"

text \<open>The disk part of a miss: write the old page back if dirty, read the new one.\<close>

definition load_frame :: "page_id \<Rightarrow> frame_id \<Rightarrow> buffer_pool \<Rightarrow> buffer_pool \<times> frame_id outcome" where
  "load_frame i f bp =
     (let fr = frame_of bp f;
          (bp, wb) = (if fr_valid fr \<and> fr_dirty fr then write_back f bp else (bp, Inr (Inr ())))
      in case wb of
           Inl e \<Rightarrow> (bp, Inl e)
         | Inr (Inl e) \<Rightarrow> (fetch_cleanup i f bp, Inr (Inl e))
         | Inr (Inr _) \<Rightarrow>
             (case read_page (bp_disk bp) i of
                (d, Inl e) \<Rightarrow> (fetch_cleanup i f (bp\<lparr>bp_disk := d\<rparr>), Inr (Inl e))
              | (d, Inr p) \<Rightarrow>
                  (on_replacer (record_access f)
                     (set_frame f ((frame_of bp f)\<lparr>fr_page := p, fr_page_id := i, fr_valid := True, fr_dirty := False\<rparr>)
                       (bp\<lparr>bp_disk := d\<rparr>)), Inr (Inr f))))"

definition fetch_page :: "page_id \<Rightarrow> buffer_pool \<Rightarrow> buffer_pool \<times> frame_id outcome" where
  "fetch_page i bp =
     (case map_of (bp_page_table bp) i of
        Some f \<Rightarrow>
          (on_replacer (record_access f) (on_replacer (clock_pin f)
             (set_frame f (frame_pin (frame_of bp f)) (bp\<lparr>bp_hits := bp_hits bp + 1\<rparr>))), Inr (Inr f))
      | None \<Rightarrow>
          (case find_frame (bp\<lparr>bp_misses := bp_misses bp + 1\<rparr>) of
             (bp, None) \<Rightarrow> (bp, Inr (Inl InternalError))
           | (bp, Some f) \<Rightarrow> load_frame i f (claim_frame i f bp)))"

definition pool_allocate_page :: "buffer_pool \<Rightarrow> buffer_pool \<times> frame_id outcome" where
  "pool_allocate_page bp =
     (case allocate_page (bp_disk bp) of
        (d, Inl e) \<Rightarrow> (bp\<lparr>bp_disk := d\<rparr>, Inr (Inl e))
      | (d, Inr i) \<Rightarrow> fetch_page i (bp\<lparr>bp_disk := d\<rparr>))"

definition flush_page :: "page_id \<Rightarrow> buffer_pool \<Rightarrow> buffer_pool \<times> unit outcome" where
  "flush_page i bp =
     (case map_of (bp_page_table bp) i of
        None \<Rightarrow> (bp, Inr (Inr ()))
      | Some f \<Rightarrow>
          if fr_valid (frame_of bp f) \<and> fr_page_id (frame_of bp f) = i \<and> fr_dirty (frame_of bp f)
          then write_back f bp else (bp, Inr (Inr ())))"

text \<open>\<open>flush_all\<close> walks the page table and stops at the first failure.\<close>

fun flush_frames :: "frame_id list \<Rightarrow> buffer_pool \<Rightarrow> buffer_pool \<times> unit outcome" where
  "flush_frames [] bp = (bp, Inr (Inr ()))"
| "flush_frames (f # fs) bp =
     (if fr_valid (frame_of bp f) \<and> fr_dirty (frame_of bp f)
      then case write_back f bp of
             (bp, Inr (Inr _)) \<Rightarrow> flush_frames fs bp
           | (bp, r) \<Rightarrow> (bp, r)
      else flush_frames fs bp)"

definition flush_all :: "buffer_pool \<Rightarrow> buffer_pool \<times> unit outcome" where
  "flush_all bp = flush_frames (map snd (bp_page_table bp)) bp"

section \<open>Frames, disk and the view\<close>

text \<open>
  A valid frame holds a page of the right size under its id, which the disk can address, and agrees with the disk, modulo the
  checksum, unless it is dirty. No two valid frames hold the same page.
\<close>

definition frame_ok :: "disk \<Rightarrow> frame \<Rightarrow> bool" where
  "frame_ok d fr \<longleftrightarrow> pg_id (fr_page fr) = fr_page_id fr \<and> length (pg_data (fr_page fr)) = dk_page_size d \<and>
     addressable d (fr_page_id fr) \<and> (\<not> fr_dirty fr \<longrightarrow> (\<exists>b. disk_page d (fr_page_id fr) = Some b \<and> page_body b = page_body (pg_data (fr_page fr))))"

definition core_ok :: "buffer_pool \<Rightarrow> bool" where
  "core_ok bp \<longleftrightarrow> length (bp_frames bp) = bp_pool_size bp \<and> bp_pool_size bp < 2 ^ 32 \<and>
     ck_num_frames (bp_replacer bp) = bp_pool_size bp \<and> clock_ok (bp_replacer bp) \<and> disk_ok (bp_disk bp) \<and>
     (\<forall>f. unat f < bp_pool_size bp \<longrightarrow> fr_valid (frame_of bp f) \<longrightarrow> frame_ok (bp_disk bp) (frame_of bp f)) \<and>
     (\<forall>f g. unat f < bp_pool_size bp \<longrightarrow> unat g < bp_pool_size bp \<longrightarrow> fr_valid (frame_of bp f) \<longrightarrow>
        fr_valid (frame_of bp g) \<longrightarrow> fr_page_id (frame_of bp f) = fr_page_id (frame_of bp g) \<longrightarrow> f = g)"

lemma addressable_cong: "dk_page_size d' = dk_page_size d \<Longrightarrow> addressable d' = addressable d"
  by (simp add: fun_eq_iff addressable_def)

lemma addressable_held: "disk_page d i = Some b \<Longrightarrow> addressable d i"
  by (simp add: disk_page_def split: if_splits)

lemma core_okI:
  assumes "length (bp_frames bp) = bp_pool_size bp" "bp_pool_size bp < 2 ^ 32"
    and "ck_num_frames (bp_replacer bp) = bp_pool_size bp" "clock_ok (bp_replacer bp)" "disk_ok (bp_disk bp)"
    and "\<And>f. unat f < bp_pool_size bp \<Longrightarrow> fr_valid (frame_of bp f) \<Longrightarrow> frame_ok (bp_disk bp) (frame_of bp f)"
    and "\<And>f g. unat f < bp_pool_size bp \<Longrightarrow> unat g < bp_pool_size bp \<Longrightarrow> fr_valid (frame_of bp f) \<Longrightarrow>
        fr_valid (frame_of bp g) \<Longrightarrow> fr_page_id (frame_of bp f) = fr_page_id (frame_of bp g) \<Longrightarrow> f = g"
  shows "core_ok bp"
  using assms unfolding core_ok_def by blast

lemma core_okD:
  assumes "core_ok bp"
  shows "length (bp_frames bp) = bp_pool_size bp" "bp_pool_size bp < 2 ^ 32"
    and "ck_num_frames (bp_replacer bp) = bp_pool_size bp" "clock_ok (bp_replacer bp)" "disk_ok (bp_disk bp)"
    and "\<And>f. unat f < bp_pool_size bp \<Longrightarrow> fr_valid (frame_of bp f) \<Longrightarrow> frame_ok (bp_disk bp) (frame_of bp f)"
    and "\<And>f g. unat f < bp_pool_size bp \<Longrightarrow> unat g < bp_pool_size bp \<Longrightarrow> fr_valid (frame_of bp f) \<Longrightarrow>
        fr_valid (frame_of bp g) \<Longrightarrow> fr_page_id (frame_of bp f) = fr_page_id (frame_of bp g) \<Longrightarrow> f = g"
  using assms unfolding core_ok_def by blast+

text \<open>What a user of the pool sees of page \<open>i\<close>: the frame that holds it, or else the disk.\<close>

definition pool_view :: "buffer_pool \<Rightarrow> page_id \<Rightarrow> bytes option" where
  "pool_view bp i =
     (case find (\<lambda>fr. fr_valid fr \<and> fr_page_id fr = i) (bp_frames bp) of
        Some fr \<Rightarrow> Some (pg_data (fr_page fr))
      | None \<Rightarrow> disk_page (bp_disk bp) i)"

definition same_view :: "buffer_pool \<Rightarrow> buffer_pool \<Rightarrow> bool" where
  "same_view bp bp' \<longleftrightarrow> (\<forall>j b. pool_view bp j = Some b \<longrightarrow> (\<exists>b'. pool_view bp' j = Some b' \<and> page_body b' = page_body b))"

lemma same_view_refl: "same_view bp bp"
  by (simp add: same_view_def)

lemma same_view_trans: "same_view bp bp1 \<Longrightarrow> same_view bp1 bp2 \<Longrightarrow> same_view bp bp2"
  unfolding same_view_def by metis

lemma nth_frame: "k < bp_pool_size bp \<Longrightarrow> bp_pool_size bp < 2 ^ 32 \<Longrightarrow> unat (of_nat k :: frame_id) = k"
  by (intro unat_of_nat_fits) simp

lemma pool_view_held:
  assumes "core_ok bp" "unat f < bp_pool_size bp" "fr_valid (frame_of bp f)" "fr_page_id (frame_of bp f) = i"
  shows "pool_view bp i = Some (pg_data (fr_page (frame_of bp f)))"
proof -
  have len: "length (bp_frames bp) = bp_pool_size bp" "bp_pool_size bp < 2 ^ 32" using assms(1) by (simp_all add: core_ok_def)
  obtain fr where fr: "find (\<lambda>fr. fr_valid fr \<and> fr_page_id fr = i) (bp_frames bp) = Some fr"
    using assms(2-4) len by (cases "find (\<lambda>fr. fr_valid fr \<and> fr_page_id fr = i) (bp_frames bp)")
      (auto simp: find_None_iff in_set_conv_nth)
  then obtain k where k: "k < bp_pool_size bp" "fr_valid (bp_frames bp ! k)" "fr_page_id (bp_frames bp ! k) = i" "fr = bp_frames bp ! k"
    using len by (auto simp: find_Some_iff)
  then have "of_nat k = f"
    using assms nth_frame [OF k(1) len(2)] by (auto simp: core_ok_def)
  then show ?thesis using fr k nth_frame [OF k(1) len(2)] by (auto simp: pool_view_def)
qed

lemma pool_view_disk:
  assumes "core_ok bp" "\<And>f. unat f < bp_pool_size bp \<Longrightarrow> fr_valid (frame_of bp f) \<Longrightarrow> fr_page_id (frame_of bp f) \<noteq> i"
  shows "pool_view bp i = disk_page (bp_disk bp) i"
proof -
  have len: "length (bp_frames bp) = bp_pool_size bp" "bp_pool_size bp < 2 ^ 32" using assms(1) by (simp_all add: core_ok_def)
  have "find (\<lambda>fr. fr_valid fr \<and> fr_page_id fr = i) (bp_frames bp) = None"
  proof (rule ccontr)
    assume "find (\<lambda>fr. fr_valid fr \<and> fr_page_id fr = i) (bp_frames bp) \<noteq> None"
    then obtain k where k: "k < bp_pool_size bp" "fr_valid (bp_frames bp ! k)" "fr_page_id (bp_frames bp ! k) = i"
      using len by (auto simp: find_Some_iff)
    then show False using assms(2) [of "of_nat k"] nth_frame [OF k(1) len(2)] by simp
  qed
  then show ?thesis by (simp add: pool_view_def)
qed

text \<open>Every page of the disk that is held in no frame reads from the disk; the two cases as a rule.\<close>

lemma pool_view_cases:
  assumes "core_ok bp"
  obtains (frame) f where "unat f < bp_pool_size bp" "fr_valid (frame_of bp f)" "fr_page_id (frame_of bp f) = i"
      "pool_view bp i = Some (pg_data (fr_page (frame_of bp f)))"
  | (disk) "\<And>f. unat f < bp_pool_size bp \<Longrightarrow> fr_valid (frame_of bp f) \<Longrightarrow> fr_page_id (frame_of bp f) \<noteq> i"
      "pool_view bp i = disk_page (bp_disk bp) i"
  using pool_view_held [OF assms] pool_view_disk [OF assms] by metis

section \<open>Writing back\<close>

text \<open>Nothing but the page contents, the disk, the log and the counters changed.\<close>

definition same_index :: "buffer_pool \<Rightarrow> buffer_pool \<Rightarrow> bool" where
  "same_index bp bp' \<longleftrightarrow> bp_pool_size bp' = bp_pool_size bp \<and> bp_page_table bp' = bp_page_table bp \<and>
     bp_free_list bp' = bp_free_list bp \<and> bp_replacer bp' = bp_replacer bp \<and>
     (\<forall>f. unat f < bp_pool_size bp \<longrightarrow> fr_valid (frame_of bp' f) = fr_valid (frame_of bp f) \<and>
        fr_page_id (frame_of bp' f) = fr_page_id (frame_of bp f) \<and> fr_pin_count (frame_of bp' f) = fr_pin_count (frame_of bp f))"

lemma same_indexI:
  assumes "bp_pool_size bp' = bp_pool_size bp" "bp_page_table bp' = bp_page_table bp"
    "bp_free_list bp' = bp_free_list bp" "bp_replacer bp' = bp_replacer bp"
    and "\<And>f. unat f < bp_pool_size bp \<Longrightarrow> fr_valid (frame_of bp' f) = fr_valid (frame_of bp f) \<and>
        fr_page_id (frame_of bp' f) = fr_page_id (frame_of bp f) \<and> fr_pin_count (frame_of bp' f) = fr_pin_count (frame_of bp f)"
  shows "same_index bp bp'"
  using assms unfolding same_index_def by blast

lemma same_indexD:
  assumes "same_index bp bp'"
  shows "bp_pool_size bp' = bp_pool_size bp" "bp_page_table bp' = bp_page_table bp"
    "bp_free_list bp' = bp_free_list bp" "bp_replacer bp' = bp_replacer bp"
    and "\<And>f. unat f < bp_pool_size bp \<Longrightarrow> fr_valid (frame_of bp' f) = fr_valid (frame_of bp f)"
    and "\<And>f. unat f < bp_pool_size bp \<Longrightarrow> fr_page_id (frame_of bp' f) = fr_page_id (frame_of bp f)"
    and "\<And>f. unat f < bp_pool_size bp \<Longrightarrow> fr_pin_count (frame_of bp' f) = fr_pin_count (frame_of bp f)"
  using assms unfolding same_index_def by blast+

lemma flush_log_for_eq:
  assumes "flush_log_for fr bp = (bp', r)"
  shows "bp' = bp\<lparr>bp_wal := bp_wal bp'\<rparr>"
  using assms by (auto simp: flush_log_for_def Let_def split: option.splits if_splits prod.splits)

lemma write_back_ok:
  assumes core: "core_ok bp" and f: "unat f < bp_pool_size bp" "fr_valid (frame_of bp f)" "fr_dirty (frame_of bp f)"
    and res: "write_back f bp = (bp', Inr r)"
  shows "core_ok bp'" "same_index bp bp'" "same_view bp bp'"
    and "r = Inr () \<Longrightarrow> \<not> fr_dirty (frame_of bp' f)"
    and "\<And>g. g \<noteq> f \<Longrightarrow> unat g < bp_pool_size bp \<Longrightarrow> frame_of bp' g = frame_of bp g"
    and "page_body (pg_data (fr_page (frame_of bp' f))) = page_body (pg_data (fr_page (frame_of bp f)))"
proof -
  let ?fr = "frame_of bp f" and ?d = "bp_disk bp"
  let ?i = "fr_page_id ?fr"
  obtain bp1 r1 where fl: "flush_log_for ?fr bp = (bp1, r1)" by fastforce
  have bp1: "bp1 = bp\<lparr>bp_wal := bp_wal bp1\<rparr>" by (rule flush_log_for_eq [OF fl])
  obtain d' p' r2 where w: "write_page ?d (fr_page ?fr) = (d', p', r2)" by (cases "write_page ?d (fr_page ?fr)") auto
  have len: "length (bp_frames bp) = bp_pool_size bp" and dok: "disk_ok ?d" using core by (simp_all add: core_ok_def)
  have fok: "frame_ok ?d ?fr" using core f by (simp add: core_ok_def)
  then have lp: "length (pg_data (fr_page ?fr)) = dk_page_size ?d" and pid: "pg_id (fr_page ?fr) = ?i"
    by (simp_all add: frame_ok_def)
  note wf = dm.wr_frame [OF dok w lp]
  define fr' where "fr' = ?fr\<lparr>fr_page := p', fr_dirty := (r2 \<noteq> Inr ())\<rparr>"
  have sel: "bp_pool_size bp1 = bp_pool_size bp" "bp_frames bp1 = bp_frames bp" "bp_disk bp1 = ?d" "bp_page_table bp1 = bp_page_table bp"
    "bp_free_list bp1 = bp_free_list bp" "bp_replacer bp1 = bp_replacer bp"
    by (subst bp1, simp)+
  have r1: "r1 = Inr ()" using res fl by (auto simp: write_back_def split: sum.splits)
  have dirty: "?fr\<lparr>fr_page := p', fr_dirty := True\<rparr> = ?fr\<lparr>fr_page := p'\<rparr>" using f(3) by simp
  have r: "r = r2" and b: "bp_frames bp' = (bp_frames bp)[unat f := fr']" "bp_disk bp' = d'" "bp_pool_size bp' = bp_pool_size bp"
    "bp_page_table bp' = bp_page_table bp" "bp_free_list bp' = bp_free_list bp" "bp_replacer bp' = bp_replacer bp"
    using res fl r1 w sel f(1) len dirty
    by (cases r2; auto simp: write_back_def Let_def set_frame_def fr'_def)+
  have fr'_f: "frame_of bp' f = fr'" using b f(1) len by simp
  show other: "frame_of bp' g = frame_of bp g" if "g \<noteq> f" "unat g < bp_pool_size bp" for g
    using that b by (simp add: word_unat_eq_iff)
  show idx: "same_index bp bp'"
  proof (rule same_indexI)
    fix g :: frame_id assume "unat g < bp_pool_size bp"
    then show "fr_valid (frame_of bp' g) = fr_valid (frame_of bp g) \<and> fr_page_id (frame_of bp' g) = fr_page_id (frame_of bp g) \<and>
      fr_pin_count (frame_of bp' g) = fr_pin_count (frame_of bp g)"
      using other [of g] fr'_f by (cases "g = f") (simp_all add: fr'_def)
  qed (use b in simp_all)
  show "r = Inr () \<Longrightarrow> \<not> fr_dirty (frame_of bp' f)" using fr'_f r by (simp add: fr'_def)
  show bf: "page_body (pg_data (fr_page (frame_of bp' f))) = page_body (pg_data (fr_page ?fr))"
    using wf fr'_f by (simp add: fr'_def)
  have keep: "disk_page d' j = Some b" if "j \<noteq> ?i" "disk_page ?d j = Some b" for j b
    using dm.wr_other [OF dok w lp _ that(2)] that(1) pid by simp
  have fok': "frame_ok d' (frame_of bp' g)" if g: "unat g < bp_pool_size bp" "fr_valid (frame_of bp' g)" for g
  proof (cases "g = f")
    case True
    have "\<exists>b. disk_page d' ?i = Some b \<and> page_body b = page_body (pg_data p')" if "r2 = Inr ()"
      using dm.wr_same [OF dok w [unfolded that] lp] pid by simp
    then show ?thesis using True fr'_f wf pid fok addressable_cong [of d' ?d] by (simp add: frame_ok_def fr'_def)
  next
    case False
    then have eq: "frame_of bp' g = frame_of bp g" using other g(1) by simp
    then have v: "fr_valid (frame_of bp g)" using g by simp
    then have "fr_page_id (frame_of bp g) \<noteq> ?i" using core_okD(7) [OF core g(1) f(1) v f(2)] False by blast
    moreover have "frame_ok ?d (frame_of bp g)" by (rule core_okD(6) [OF core g(1) v])
    ultimately show ?thesis using keep wf addressable_cong [of d' ?d] by (auto simp: eq frame_ok_def)
  qed
  show core': "core_ok bp'"
  proof (rule core_okI)
    show "frame_ok (bp_disk bp') (frame_of bp' g)" if "unat g < bp_pool_size bp'" "fr_valid (frame_of bp' g)" for g
      using fok' that b by simp
    show "g = h" if "unat g < bp_pool_size bp'" "unat h < bp_pool_size bp'" "fr_valid (frame_of bp' g)" "fr_valid (frame_of bp' h)"
      "fr_page_id (frame_of bp' g) = fr_page_id (frame_of bp' h)" for g h
      using that core_okD(7) [OF core, of g h] same_indexD [OF idx] by simp
  qed (use core_okD(1-5) [OF core] b wf in simp_all)
  show "same_view bp bp'"
    unfolding same_view_def
  proof (intro allI impI)
    fix j b0 assume v: "pool_view bp j = Some b0"
    from core show "\<exists>b'. pool_view bp' j = Some b' \<and> page_body b' = page_body b0"
    proof (cases rule: pool_view_cases [where i = j])
      case (frame g)
      then have "pool_view bp' j = Some (pg_data (fr_page (frame_of bp' g)))"
        using same_indexD [OF idx] by (intro pool_view_held [OF core']) simp_all
      then show ?thesis using frame v other [of g] bf by (cases "g = f") auto
    next
      case disk
      have "pool_view bp' j = disk_page d' j"
        using pool_view_disk [OF core', of j] disk(1) same_indexD [OF idx] b by simp
      then show ?thesis using v disk keep [of j b0] f by auto
    qed
  qed
qed

section \<open>Page table, free list and replacer\<close>

text \<open>
  A frame is mapped, or free. A free frame that is still valid, left behind by a failed load, is the
  only free frame, and its page is not mapped. The replacer's candidates are unpinned mapped frames,
  and possibly free frames.
\<close>

definition index_ok :: "buffer_pool \<Rightarrow> bool" where
  "index_ok bp \<longleftrightarrow>
     distinct (map fst (bp_page_table bp)) \<and> distinct (bp_free_list bp) \<and>
     (\<forall>j f. (j, f) \<in> set (bp_page_table bp) \<longrightarrow> unat f < bp_pool_size bp \<and> fr_valid (frame_of bp f) \<and>
        fr_page_id (frame_of bp f) = j \<and> f \<notin> set (bp_free_list bp)) \<and>
     (\<forall>f\<in>set (bp_free_list bp). unat f < bp_pool_size bp \<and> fr_pin_count (frame_of bp f) = 0) \<and>
     (\<forall>f. unat f < bp_pool_size bp \<longrightarrow> fr_valid (frame_of bp f) \<longrightarrow>
        (fr_page_id (frame_of bp f), f) \<in> set (bp_page_table bp) \<or>
        bp_free_list bp = [f] \<and> fr_page_id (frame_of bp f) \<notin> fst ` set (bp_page_table bp)) \<and>
     (\<forall>f. unat f \<in> candidates (bp_replacer bp) \<longrightarrow>
        f \<in> set (bp_free_list bp) \<or>
        (fr_page_id (frame_of bp f), f) \<in> set (bp_page_table bp) \<and> fr_pin_count (frame_of bp f) = 0)"

definition bp_ok :: "buffer_pool \<Rightarrow> bool" where
  "bp_ok bp \<longleftrightarrow> core_ok bp \<and> index_ok bp"

text \<open>During a miss: frame \<open>f\<close> is claimed for page \<open>i\<close> and everything else is in order.\<close>

definition claimed :: "page_id \<Rightarrow> frame_id \<Rightarrow> (page_id \<times> frame_id) list \<Rightarrow> buffer_pool \<Rightarrow> bool" where
  "claimed i f t bp \<longleftrightarrow>
     bp_page_table bp = (i, f) # t \<and> i \<notin> fst ` set t \<and> distinct (map fst t) \<and>
     (\<forall>j g. (j, g) \<in> set t \<longrightarrow> unat g < bp_pool_size bp \<and> fr_valid (frame_of bp g) \<and>
        fr_page_id (frame_of bp g) = j \<and> g \<notin> set (bp_free_list bp) \<and> g \<noteq> f) \<and>
     (\<forall>g. unat g < bp_pool_size bp \<longrightarrow> fr_valid (frame_of bp g) \<longrightarrow> g \<noteq> f \<longrightarrow> (fr_page_id (frame_of bp g), g) \<in> set t) \<and>
     (fr_valid (frame_of bp f) \<longrightarrow> fr_page_id (frame_of bp f) \<notin> fst ` set t \<and> bp_free_list bp = []) \<and>
     (\<forall>g. unat g \<in> candidates (bp_replacer bp) \<longrightarrow>
        g \<in> set (bp_free_list bp) \<or> (fr_page_id (frame_of bp g), g) \<in> set t \<and> fr_pin_count (frame_of bp g) = 0) \<and>
     distinct (bp_free_list bp) \<and> f \<notin> set (bp_free_list bp) \<and> unat f < bp_pool_size bp \<and>
     (\<forall>g\<in>set (bp_free_list bp). unat g < bp_pool_size bp \<and> fr_pin_count (frame_of bp g) = 0) \<and> fr_pin_count (frame_of bp f) = 1"

lemma claimedI:
  assumes "bp_page_table bp = (i, f) # t" "i \<notin> fst ` set t" "distinct (map fst t)"
    and "\<And>j g. (j, g) \<in> set t \<Longrightarrow> unat g < bp_pool_size bp \<and> fr_valid (frame_of bp g) \<and>
        fr_page_id (frame_of bp g) = j \<and> g \<notin> set (bp_free_list bp) \<and> g \<noteq> f"
    and "\<And>g. unat g < bp_pool_size bp \<Longrightarrow> fr_valid (frame_of bp g) \<Longrightarrow> g \<noteq> f \<Longrightarrow> (fr_page_id (frame_of bp g), g) \<in> set t"
    and "fr_valid (frame_of bp f) \<Longrightarrow> fr_page_id (frame_of bp f) \<notin> fst ` set t \<and> bp_free_list bp = []"
    and "\<And>g. unat g \<in> candidates (bp_replacer bp) \<Longrightarrow>
        g \<in> set (bp_free_list bp) \<or> (fr_page_id (frame_of bp g), g) \<in> set t \<and> fr_pin_count (frame_of bp g) = 0"
    and "distinct (bp_free_list bp)" "f \<notin> set (bp_free_list bp)" "unat f < bp_pool_size bp"
    and "\<And>g. g \<in> set (bp_free_list bp) \<Longrightarrow> unat g < bp_pool_size bp \<and> fr_pin_count (frame_of bp g) = 0"
    and "fr_pin_count (frame_of bp f) = 1"
  shows "claimed i f t bp"
  unfolding claimed_def by (intro conjI allI impI ballI; (rule assms; assumption) | simp add: assms)

lemma claimedD:
  assumes "claimed i f t bp"
  shows "bp_page_table bp = (i, f) # t" "i \<notin> fst ` set t" "distinct (map fst t)"
    and "\<And>j g. (j, g) \<in> set t \<Longrightarrow> unat g < bp_pool_size bp \<and> fr_valid (frame_of bp g) \<and>
        fr_page_id (frame_of bp g) = j \<and> g \<notin> set (bp_free_list bp) \<and> g \<noteq> f"
    and "\<And>g. unat g < bp_pool_size bp \<Longrightarrow> fr_valid (frame_of bp g) \<Longrightarrow> g \<noteq> f \<Longrightarrow> (fr_page_id (frame_of bp g), g) \<in> set t"
    and "fr_valid (frame_of bp f) \<Longrightarrow> fr_page_id (frame_of bp f) \<notin> fst ` set t \<and> bp_free_list bp = []"
    and "\<And>g. unat g \<in> candidates (bp_replacer bp) \<Longrightarrow>
        g \<in> set (bp_free_list bp) \<or> (fr_page_id (frame_of bp g), g) \<in> set t \<and> fr_pin_count (frame_of bp g) = 0"
    and "distinct (bp_free_list bp)" "f \<notin> set (bp_free_list bp)" "unat f < bp_pool_size bp"
    and "\<And>g. g \<in> set (bp_free_list bp) \<Longrightarrow> unat g < bp_pool_size bp \<and> fr_pin_count (frame_of bp g) = 0"
    and "fr_pin_count (frame_of bp f) = 1"
  using assms unfolding claimed_def by blast+

lemma claimed_cong:
  assumes "same_index bp bp'" "core_ok bp" "claimed i f t bp"
  shows "claimed i f t bp'"
proof -
  note d = same_indexD [OF assms(1)] and C = claimedD [OF assms(3)]
  have c: "unat g \<in> candidates (bp_replacer bp) \<Longrightarrow> unat g < bp_pool_size bp" for g :: frame_id
    using core_okD(3,4) [OF assms(2)] ck.cands_bound [of "bp_replacer bp"] by auto
  show ?thesis
  proof (rule claimedI, unfold d(1-4))
    show "unat g < bp_pool_size bp \<and> fr_valid (frame_of bp' g) \<and> fr_page_id (frame_of bp' g) = j \<and> g \<notin> set (bp_free_list bp) \<and> g \<noteq> f"
      if "(j, g) \<in> set t" for j g
      using C(4) [OF that] d(5-7) [of g] by simp
    show "(fr_page_id (frame_of bp' g), g) \<in> set t" if "unat g < bp_pool_size bp" "fr_valid (frame_of bp' g)" "g \<noteq> f" for g
      using C(5) [of g] that d(5-7) [of g] by simp
    show "fr_valid (frame_of bp' f) \<Longrightarrow> fr_page_id (frame_of bp' f) \<notin> fst ` set t \<and> bp_free_list bp = []"
      using C(6,10) d(5-7) [of f] by simp
    show "g \<in> set (bp_free_list bp) \<or> (fr_page_id (frame_of bp' g), g) \<in> set t \<and> fr_pin_count (frame_of bp' g) = 0"
      if "unat g \<in> candidates (bp_replacer bp)" for g
      using C(7) [OF that] d(5-7) [OF c [OF that]] by simp
    show "fr_pin_count (frame_of bp' f) = 1" using C(10,12) d(7) [of f] by simp
    show "unat g < bp_pool_size bp \<and> fr_pin_count (frame_of bp' g) = 0" if "g \<in> set (bp_free_list bp)" for g
      using C(11) [OF that] d(7) [of g] by simp
  qed (use C in simp_all)
qed

lemma pool_view_cong:
  assumes "core_ok bp" "core_ok bp'" "bp_pool_size bp' = bp_pool_size bp" "disk_page (bp_disk bp') = disk_page (bp_disk bp)"
    and "\<And>f. unat f < bp_pool_size bp \<Longrightarrow> fr_valid (frame_of bp' f) = fr_valid (frame_of bp f) \<and>
      fr_page_id (frame_of bp' f) = fr_page_id (frame_of bp f) \<and> fr_page (frame_of bp' f) = fr_page (frame_of bp f)"
  shows "pool_view bp' = pool_view bp"
proof
  fix i
  from assms(1) show "pool_view bp' i = pool_view bp i"
  proof (cases rule: pool_view_cases [where i = i])
    case (frame f)
    then show ?thesis using pool_view_held [OF assms(2), of f i] assms(3,5) by simp
  next
    case disk
    then show ?thesis using pool_view_disk [OF assms(2), of i] assms(3-5) by simp
  qed
qed

lemma frame_ok_pin [simp]: "frame_ok d (frame_pin fr) = frame_ok d fr" "frame_ok d (frame_unpin fr) = frame_ok d fr"
  by (simp_all add: frame_ok_def frame_pin_def frame_unpin_def)

lemma frame_pin_sel [simp]:
  "fr_valid (frame_pin fr) = fr_valid fr" "fr_page_id (frame_pin fr) = fr_page_id fr" "fr_page (frame_pin fr) = fr_page fr"
  "fr_dirty (frame_pin fr) = fr_dirty fr"
  "fr_valid (frame_unpin fr) = fr_valid fr" "fr_page_id (frame_unpin fr) = fr_page_id fr" "fr_page (frame_unpin fr) = fr_page fr"
  "fr_dirty (frame_unpin fr) = fr_dirty fr"
  by (simp_all add: frame_pin_def frame_unpin_def)

text \<open>Changes that touch pin counts, the replacer and the index only keep the core and the view.\<close>

lemma core_ok_repin:
  assumes core: "core_ok bp" and f: "unat f < bp_pool_size bp"
    and fr: "fr_valid fr = fr_valid (frame_of bp f)" "fr_page_id fr = fr_page_id (frame_of bp f)"
      "fr_page fr = fr_page (frame_of bp f)" "fr_dirty fr = fr_dirty (frame_of bp f)"
    and bp': "bp_frames bp' = (bp_frames bp)[unat f := fr]" "bp_pool_size bp' = bp_pool_size bp" "bp_disk bp' = bp_disk bp"
      "clock_ok (bp_replacer bp')" "ck_num_frames (bp_replacer bp') = bp_pool_size bp"
  shows "core_ok bp'" "pool_view bp' = pool_view bp"
    and "\<And>g. g \<noteq> f \<Longrightarrow> frame_of bp' g = frame_of bp g" and "frame_of bp' f = fr"
proof -
  show other: "frame_of bp' g = frame_of bp g" if "g \<noteq> f" for g :: frame_id
    using that bp' by (simp add: word_unat_eq_iff)
  show same: "frame_of bp' f = fr" using bp'(1) f core_okD(1) [OF core] by simp
  have eq: "fr_valid (frame_of bp' g) = fr_valid (frame_of bp g) \<and> fr_page_id (frame_of bp' g) = fr_page_id (frame_of bp g) \<and>
      fr_page (frame_of bp' g) = fr_page (frame_of bp g) \<and> fr_dirty (frame_of bp' g) = fr_dirty (frame_of bp g)" for g
    using other [of g] same fr by (cases "g = f") simp_all
  show core': "core_ok bp'"
  proof (rule core_okI)
    show "frame_ok (bp_disk bp') (frame_of bp' g)" if "unat g < bp_pool_size bp'" "fr_valid (frame_of bp' g)" for g
      using core_okD(6) [OF core, of g] that bp' eq [of g] by (simp add: frame_ok_def)
    show "g = h" if "unat g < bp_pool_size bp'" "unat h < bp_pool_size bp'" "fr_valid (frame_of bp' g)" "fr_valid (frame_of bp' h)"
      "fr_page_id (frame_of bp' g) = fr_page_id (frame_of bp' h)" for g h
      using that core_okD(7) [OF core, of g h] bp' eq by simp
  qed (use core_okD [OF core] bp' in simp_all)
  show "pool_view bp' = pool_view bp"
    using eq bp' by (intro pool_view_cong [OF core core']) simp_all
qed

lemma table_erase_keys: "fst ` set (table_erase i t) = fst ` set t - {i}"
  by (auto simp: table_erase_def)

lemma table_erase_mem: "(j, g) \<in> set (table_erase i t) \<longleftrightarrow> (j, g) \<in> set t \<and> j \<noteq> i"
  by (auto simp: table_erase_def)

lemma table_erase_id: "i \<notin> fst ` set t \<Longrightarrow> table_erase i t = t"
  by (force simp: table_erase_def intro: filter_True)

lemma table_erase_distinct: "distinct (map fst t) \<Longrightarrow> distinct (map fst (table_erase i t))"
  unfolding table_erase_def by (rule distinct_map_filter)

lemma index_okD:
  assumes "index_ok bp"
  shows "distinct (map fst (bp_page_table bp))" "distinct (bp_free_list bp)"
    and "\<And>j f. (j, f) \<in> set (bp_page_table bp) \<Longrightarrow> unat f < bp_pool_size bp \<and> fr_valid (frame_of bp f) \<and>
        fr_page_id (frame_of bp f) = j \<and> f \<notin> set (bp_free_list bp)"
    and "\<And>f. f \<in> set (bp_free_list bp) \<Longrightarrow> unat f < bp_pool_size bp \<and> fr_pin_count (frame_of bp f) = 0"
    and "\<And>f. unat f < bp_pool_size bp \<Longrightarrow> fr_valid (frame_of bp f) \<Longrightarrow>
        (fr_page_id (frame_of bp f), f) \<in> set (bp_page_table bp) \<or>
        bp_free_list bp = [f] \<and> fr_page_id (frame_of bp f) \<notin> fst ` set (bp_page_table bp)"
    and "\<And>f. unat f \<in> candidates (bp_replacer bp) \<Longrightarrow> f \<in> set (bp_free_list bp) \<or>
        (fr_page_id (frame_of bp f), f) \<in> set (bp_page_table bp) \<and> fr_pin_count (frame_of bp f) = 0"
  using assms unfolding index_ok_def by blast+

lemma find_claim:
  assumes ok: "bp_ok bp" and none: "map_of (bp_page_table bp) i = None" and ff: "find_frame bp = (bp1, Some f)"
  shows "core_ok (claim_frame i f bp1)" "\<exists>t. claimed i f t (claim_frame i f bp1)" "pool_view (claim_frame i f bp1) = pool_view bp"
    and "\<And>g. g \<noteq> f \<Longrightarrow> frame_of (claim_frame i f bp1) g = frame_of bp g"
    and "frame_of (claim_frame i f bp1) f = frame_pin (frame_of bp f)"
    and "fr_pin_count (frame_of bp f) = 0"
    and "bp_pool_size (claim_frame i f bp1) = bp_pool_size bp" "bp_disk (claim_frame i f bp1) = bp_disk bp"
    and "unat f < bp_pool_size bp"
proof -
  have core: "core_ok bp" and idx: "index_ok bp" using ok by (simp_all add: bp_ok_def)
  note D = core_okD [OF core] and I = index_okD [OF idx]
  let ?t0 = "bp_page_table bp" and ?fr = "frame_of bp f"
  have i: "i \<notin> fst ` set ?t0" using none by (simp add: map_of_eq_None_iff)
  let ?bp2 = "claim_frame i f bp1"
  have cases: "(\<exists>fs. bp_free_list bp = f # fs \<and> bp1 = bp\<lparr>bp_free_list := fs\<rparr>) \<or>
     (\<exists>c. bp_free_list bp = [] \<and> victim (bp_replacer bp) = (c, Some f) \<and>
        bp1 = bp\<lparr>bp_replacer := c, bp_evictions := bp_evictions bp + 1\<rparr>)"
    using ff by (auto simp: find_frame_def split: list.splits prod.splits option.splits)
  have c1: "clock_ok (bp_replacer bp1)" "ck_num_frames (bp_replacer bp1) = bp_pool_size bp"
    "candidates (bp_replacer bp1) - {unat f} = candidates (bp_replacer bp) - {unat f}"
  proof -
    have "clock_ok (bp_replacer bp1) \<and> ck_num_frames (bp_replacer bp1) = bp_pool_size bp \<and>
      candidates (bp_replacer bp1) - {unat f} = candidates (bp_replacer bp) - {unat f}"
      using cases
    proof (elim disjE exE conjE)
      fix fs assume "bp1 = bp\<lparr>bp_free_list := fs\<rparr>"
      then show ?thesis using D(3,4) by simp
    next
      fix c assume v: "victim (bp_replacer bp) = (c, Some f)" and "bp1 = bp\<lparr>bp_replacer := c, bp_evictions := bp_evictions bp + 1\<rparr>"
      then show ?thesis using D(3) ck.pick_ok [OF D(4) v] ck.pick_Some [OF D(4) v] by simp
    qed
    then show "clock_ok (bp_replacer bp1)" "ck_num_frames (bp_replacer bp1) = bp_pool_size bp"
      "candidates (bp_replacer bp1) - {unat f} = candidates (bp_replacer bp) - {unat f}" by blast+
  qed
  have same: "bp_frames bp1 = bp_frames bp" "bp_page_table bp1 = ?t0" "bp_pool_size bp1 = bp_pool_size bp" "bp_disk bp1 = bp_disk bp"
    using cases by (auto elim!: disjE)
  have fmem: "f \<in> set (bp_free_list bp) \<or> (fr_page_id ?fr, f) \<in> set ?t0 \<and> fr_pin_count ?fr = 0 \<and> bp_free_list bp = []"
    using cases
  proof (elim disjE exE conjE)
    fix c assume v: "bp_free_list bp = []" "victim (bp_replacer bp) = (c, Some f)"
    then show ?thesis using ck.pick_Some [OF D(4) v(2)] I(6) [of f] by simp
  qed simp
  then show pf: "fr_pin_count ?fr = 0" using I(4) by blast
  show fn: "unat f < bp_pool_size bp" using fmem I(3,4) by blast
  define t where "t = (if fr_valid ?fr then table_erase (fr_page_id ?fr) ?t0 else ?t0)"
  have it: "i \<notin> fst ` set t" using i by (auto simp: t_def table_erase_keys)
  have "bp_page_table ?bp2 = table_set i f t"
    using same by (simp add: claim_frame_def Let_def t_def)
  then have tab0: "bp_page_table ?bp2 = (i, f) # t" by (simp add: table_set_def table_erase_id [OF it])
  have tab: "bp_page_table ?bp2 = (i, f) # t" "bp_free_list ?bp2 = bp_free_list bp1" "bp_frames ?bp2 = (bp_frames bp)[unat f := frame_pin ?fr]"
    "bp_pool_size ?bp2 = bp_pool_size bp" "bp_disk ?bp2 = bp_disk bp" "bp_replacer ?bp2 = clock_pin f (bp_replacer bp1)"
    using tab0 same by (simp_all add: claim_frame_def Let_def on_replacer_def set_frame_def)
  then show "bp_pool_size ?bp2 = bp_pool_size bp" "bp_disk ?bp2 = bp_disk bp" by simp_all
  have "clock_ok (bp_replacer ?bp2)" "ck_num_frames (bp_replacer ?bp2) = bp_pool_size bp"
    and cand: "candidates (bp_replacer ?bp2) = candidates (bp_replacer bp) - {unat f}"
    using ck.pin_ok [OF c1(1), of f] c1(2,3) tab(6) by simp_all
  note rp = core_ok_repin [OF core fn _ _ _ _ tab(3,4,5) this(1,2), simplified]
  show "core_ok ?bp2" "pool_view ?bp2 = pool_view bp" by (rule rp)+
  show oth: "frame_of ?bp2 g = frame_of bp g" if "g \<noteq> f" for g by (rule rp(3) [OF that])
  show own: "frame_of ?bp2 f = frame_pin ?fr" by (rule rp(4))
  have fl: "set (bp_free_list bp1) = set (bp_free_list bp) - {f}" "distinct (bp_free_list bp1)" "f \<notin> set (bp_free_list bp1)"
    using cases I(2) by auto
  have tmem: "(j, g) \<in> set ?t0 \<and> g \<noteq> f" if "(j, g) \<in> set t" for j g
  proof -
    have m: "(j, g) \<in> set ?t0" using that by (auto simp: t_def table_erase_mem split: if_splits)
    moreover have "g \<noteq> f"
      using that I(3) [OF m] by (auto simp: t_def table_erase_mem split: if_splits)
    ultimately show ?thesis by blast
  qed
  have tmem2: "(fr_page_id (frame_of bp g), g) \<in> set t"
    if g: "g \<noteq> f" "(fr_page_id (frame_of bp g), g) \<in> set ?t0" for g
  proof -
    have "fr_page_id (frame_of bp g) \<noteq> fr_page_id ?fr" if "fr_valid ?fr"
      using D(7) [of g f] I(3) [OF g(2)] that fn g(1) by blast
    then show ?thesis using g(2) by (auto simp: t_def table_erase_mem)
  qed
  have vf: "fr_page_id ?fr \<notin> fst ` set t \<and> bp_free_list bp1 = []" if v: "fr_valid ?fr"
  proof
    show "fr_page_id ?fr \<notin> fst ` set t" using v by (simp add: t_def table_erase_keys)
    show "bp_free_list bp1 = []" using cases
    proof (elim disjE exE conjE)
      fix fs assume "bp_free_list bp = f # fs" "bp1 = bp\<lparr>bp_free_list := fs\<rparr>"
      then show ?thesis using I(5) [OF fn v] I(3) [of "fr_page_id ?fr" f] by auto
    qed simp
  qed
  have "claimed i f t ?bp2"
  proof (rule claimedI, unfold tab(2,4) cand)
    show "bp_page_table ?bp2 = (i, f) # t" "i \<notin> fst ` set t" by (rule tab it)+
    show "distinct (map fst t)" using I(1) by (simp add: t_def table_erase_distinct)
    show "unat g < bp_pool_size bp \<and> fr_valid (frame_of ?bp2 g) \<and> fr_page_id (frame_of ?bp2 g) = j \<and> g \<notin> set (bp_free_list bp1) \<and> g \<noteq> f"
      if "(j, g) \<in> set t" for j g
    proof -
      have m: "(j, g) \<in> set ?t0" "g \<noteq> f" using tmem [OF that] by blast+
      show ?thesis using I(3) [OF m(1)] oth [OF m(2)] m(2) fl(1) by simp
    qed
    show "(fr_page_id (frame_of ?bp2 g), g) \<in> set t" if g: "unat g < bp_pool_size bp" "fr_valid (frame_of ?bp2 g)" "g \<noteq> f" for g
    proof -
      have v: "fr_valid (frame_of bp g)" using g oth by simp
      have "(fr_page_id (frame_of bp g), g) \<in> set ?t0"
        using I(5) [OF g(1) v] fmem g(3) by auto
      then show "(fr_page_id (frame_of ?bp2 g), g) \<in> set t" using tmem2 [OF g(3)] oth [OF g(3)] by simp
    qed
    show "fr_valid (frame_of ?bp2 f) \<Longrightarrow> fr_page_id (frame_of ?bp2 f) \<notin> fst ` set t \<and> bp_free_list bp1 = []"
      using vf own by simp
    show "g \<in> set (bp_free_list bp1) \<or> (fr_page_id (frame_of ?bp2 g), g) \<in> set t \<and> fr_pin_count (frame_of ?bp2 g) = 0"
      if g: "unat g \<in> candidates (bp_replacer bp) - {unat f}" for g
    proof -
      have "g \<noteq> f" using g by auto
      then show ?thesis
        using I(6) [of g] g fl(1) tmem2 oth by auto
    qed
    show "unat g < bp_pool_size bp \<and> fr_pin_count (frame_of ?bp2 g) = 0" if "g \<in> set (bp_free_list bp1)" for g
      using I(4) [of g] oth [of g] that fl by auto
    show "fr_pin_count (frame_of ?bp2 f) = 1" using own pf by (simp add: frame_pin_def)
  qed (use fl fn in auto)
  then show "\<exists>t. claimed i f t ?bp2" ..
qed

lemma index_okI:
  assumes "distinct (map fst (bp_page_table bp))" "distinct (bp_free_list bp)"
    and "\<And>j f. (j, f) \<in> set (bp_page_table bp) \<Longrightarrow> unat f < bp_pool_size bp \<and> fr_valid (frame_of bp f) \<and>
        fr_page_id (frame_of bp f) = j \<and> f \<notin> set (bp_free_list bp)"
    and "\<And>f. f \<in> set (bp_free_list bp) \<Longrightarrow> unat f < bp_pool_size bp \<and> fr_pin_count (frame_of bp f) = 0"
    and "\<And>f. unat f < bp_pool_size bp \<Longrightarrow> fr_valid (frame_of bp f) \<Longrightarrow>
        (fr_page_id (frame_of bp f), f) \<in> set (bp_page_table bp) \<or>
        bp_free_list bp = [f] \<and> fr_page_id (frame_of bp f) \<notin> fst ` set (bp_page_table bp)"
    and "\<And>f. unat f \<in> candidates (bp_replacer bp) \<Longrightarrow> f \<in> set (bp_free_list bp) \<or>
        (fr_page_id (frame_of bp f), f) \<in> set (bp_page_table bp) \<and> fr_pin_count (frame_of bp f) = 0"
  shows "index_ok bp"
  using assms unfolding index_ok_def by blast

lemma fetch_cleanup_ok:
  assumes core: "core_ok bp" and cl: "claimed i f t bp"
  shows "bp_ok (fetch_cleanup i f bp)" "pool_view (fetch_cleanup i f bp) = pool_view bp"
    and "\<And>g. g \<noteq> f \<Longrightarrow> frame_of (fetch_cleanup i f bp) g = frame_of bp g" "fr_pin_count (frame_of (fetch_cleanup i f bp) f) = 0"
proof -
  let ?bp' = "fetch_cleanup i f bp" and ?fr = "frame_unpin (frame_of bp f)"
  note C = claimedD [OF cl]
  note t = C(1-3) and tm = C(4) and vm = C(5) and vf = C(6) and cm = C(7) and fl = C(8,9) and fn = C(10) and fb = C(11) and pf = C(12)
  have te: "table_erase i (bp_page_table bp) = t" using t(1,2) table_erase_id [OF t(2)] by (simp add: table_erase_def)
  have sel: "bp_page_table ?bp' = t" "bp_free_list ?bp' = bp_free_list bp @ [f]" "bp_frames ?bp' = (bp_frames bp)[unat f := ?fr]"
    "bp_pool_size ?bp' = bp_pool_size bp" "bp_disk ?bp' = bp_disk bp"
    "bp_replacer ?bp' = bp_replacer bp \<or> bp_replacer ?bp' = clock_unpin f (bp_replacer bp)"
    by (simp_all add: fetch_cleanup_def Let_def unpin_page_def set_frame_def on_replacer_def te)
  note D = core_okD [OF core]
  have ck: "clock_ok (bp_replacer ?bp')" "ck_num_frames (bp_replacer ?bp') = bp_pool_size bp"
    "candidates (bp_replacer ?bp') \<subseteq> insert (unat f) (candidates (bp_replacer bp))"
    using sel(6) ck.unpin_ok [OF D(4), of f] D(3,4) by (elim disjE; auto split: if_splits)+
  note rp = core_ok_repin [OF core fn _ _ _ _ sel(3-5) ck(1,2), simplified]
  show "pool_view ?bp' = pool_view bp" by (rule rp(2))
  show oth: "frame_of ?bp' g = frame_of bp g" if "g \<noteq> f" for g by (rule rp(3) [OF that])
  have own: "frame_of ?bp' f = ?fr" by (rule rp(4))
  then show "fr_pin_count (frame_of ?bp' f) = 0" using pf by (simp add: frame_unpin_def)
  have "index_ok ?bp'"
  proof (rule index_okI, unfold sel(1,2,4))
    show "distinct (map fst t)" by (rule t(3))
    show "distinct (bp_free_list bp @ [f])" using fl by simp
    show "unat g < bp_pool_size bp \<and> fr_valid (frame_of ?bp' g) \<and> fr_page_id (frame_of ?bp' g) = j \<and> g \<notin> set (bp_free_list bp @ [f])"
      if "(j, g) \<in> set t" for j g
      using tm [OF that] oth [of g] by simp
    show "unat g < bp_pool_size bp \<and> fr_pin_count (frame_of ?bp' g) = 0" if "g \<in> set (bp_free_list bp @ [f])" for g
      using that fb [of g] fn oth [of g] own pf by (cases "g = f") (auto simp: frame_unpin_def)
    show "(fr_page_id (frame_of ?bp' g), g) \<in> set t \<or> bp_free_list bp @ [f] = [g] \<and> fr_page_id (frame_of ?bp' g) \<notin> fst ` set t"
      if "unat g < bp_pool_size bp" "fr_valid (frame_of ?bp' g)" for g
      using that vm [of g] vf oth [of g] own by (cases "g = f") auto
    show "g \<in> set (bp_free_list bp @ [f]) \<or> (fr_page_id (frame_of ?bp' g), g) \<in> set t \<and> fr_pin_count (frame_of ?bp' g) = 0"
      if "unat g \<in> candidates (bp_replacer ?bp')" for g
      using that ck(3) cm [of g] oth [of g] by (cases "g = f") (auto simp: word_unat_eq_iff)
  qed
  with rp(1) show "bp_ok ?bp'" by (simp add: bp_ok_def)
qed

text \<open>The frame receives the page that was read.\<close>

lemma load_ok:
  assumes core: "core_ok bp" and cl: "claimed i f t bp" and clean: "fr_valid (frame_of bp f) \<Longrightarrow> \<not> fr_dirty (frame_of bp f)"
    and rd: "read_page (bp_disk bp) i = (d, Inr p)"
    and bp': "bp' = on_replacer (record_access f)
      (set_frame f ((frame_of bp f)\<lparr>fr_page := p, fr_page_id := i, fr_valid := True, fr_dirty := False\<rparr>) (bp\<lparr>bp_disk := d\<rparr>))"
  shows "bp_ok bp'" "same_view bp bp'" "pool_view bp' i = Some (pg_data p)"
    and "\<And>g. g \<noteq> f \<Longrightarrow> frame_of bp' g = frame_of bp g" "handle_get f bp' = p" "fr_pin_count (frame_of bp' f) = 1"
proof -
  let ?fr = "(frame_of bp f)\<lparr>fr_page := p, fr_page_id := i, fr_valid := True, fr_dirty := False\<rparr>"
  note C = claimedD [OF cl]
  note t = C(1-3) and tm = C(4) and vm = C(5) and vf = C(6) and cm = C(7) and fl = C(8,9) and fn = C(10) and fb = C(11) and pf = C(12)
  note D = core_okD [OF core]
  have rk: "disk_ok d" "dk_page_size d = dk_page_size (bp_disk bp)" "disk_page d = disk_page (bp_disk bp)"
    "disk_page (bp_disk bp) i = Some (pg_data p)" "pg_id p = i"
    using dm.rd_ok [OF D(5) rd] dm.rd_held [OF D(5) rd] by simp_all
  have sel: "bp_page_table bp' = bp_page_table bp" "bp_free_list bp' = bp_free_list bp" "bp_frames bp' = (bp_frames bp)[unat f := ?fr]"
    "bp_pool_size bp' = bp_pool_size bp" "bp_disk bp' = d" "bp_replacer bp' = record_access f (bp_replacer bp)"
    by (simp_all add: bp' on_replacer_def set_frame_def)
  have ck: "clock_ok (bp_replacer bp')" "ck_num_frames (bp_replacer bp') = bp_pool_size bp"
    "candidates (bp_replacer bp') = candidates (bp_replacer bp)"
    using ck.access_ok [OF D(4), of f] D(3) by (simp_all add: sel)
  show oth: "frame_of bp' g = frame_of bp g" if "g \<noteq> f" for g using that by (simp add: sel word_unat_eq_iff)
  have own: "frame_of bp' f = ?fr" using fn D(1) by (simp add: sel)
  then show "handle_get f bp' = p" "fr_pin_count (frame_of bp' f) = 1" using pf by (simp_all add: handle_get_def)
  have noti: "fr_page_id (frame_of bp g) \<noteq> i" if "unat g < bp_pool_size bp" "fr_valid (frame_of bp g)" "g \<noteq> f" for g
    using vm [OF that] t(2) by (metis fst_conv image_eqI)
  have core': "core_ok bp'"
  proof (rule core_okI, unfold sel(4))
    show "frame_ok (bp_disk bp') (frame_of bp' g)" if g: "unat g < bp_pool_size bp" "fr_valid (frame_of bp' g)" for g
    proof (cases "g = f")
      case True
      then show ?thesis
        using rk dm.held_length [OF D(5) rk(4)] own addressable_cong [OF rk(2)] addressable_held [OF rk(4)]
        by (simp add: frame_ok_def sel(5))
    next
      case False
      then show ?thesis using D(6) [OF g(1)] g oth rk addressable_cong [OF rk(2)] by (simp add: frame_ok_def sel(5))
    qed
    show "g = h" if "unat g < bp_pool_size bp" "unat h < bp_pool_size bp" "fr_valid (frame_of bp' g)" "fr_valid (frame_of bp' h)"
      "fr_page_id (frame_of bp' g) = fr_page_id (frame_of bp' h)" for g h
    proof (cases "g = f \<or> h = f")
      case True
      then show ?thesis using that own oth [of g] oth [of h] noti [of g] noti [of h] by (cases "g = f"; cases "h = f") auto
    next
      case False
      then show ?thesis using that oth D(7) by simp
    qed
  qed (use D sel ck rk in simp_all)
  show "pool_view bp' i = Some (pg_data p)"
    using pool_view_held [OF core', of f i] fn own by (simp add: sel(4))
  have "index_ok bp'"
  proof (rule index_okI, unfold sel(1,2,4) t(1) ck(3))
    show "distinct (map fst ((i, f) # t))" using t by simp
    show "distinct (bp_free_list bp)" by (rule fl)
    show "unat g < bp_pool_size bp \<and> fr_valid (frame_of bp' g) \<and> fr_page_id (frame_of bp' g) = j \<and> g \<notin> set (bp_free_list bp)"
      if "(j, g) \<in> set ((i, f) # t)" for j g
      using that tm [of j g] oth [of g] own fn fl by (cases "g = f") auto
    show "unat g < bp_pool_size bp \<and> fr_pin_count (frame_of bp' g) = 0" if "g \<in> set (bp_free_list bp)" for g
      using fb [OF that] oth [of g] that fl(2) by (cases "g = f") auto
    show "(fr_page_id (frame_of bp' g), g) \<in> set ((i, f) # t) \<or> bp_free_list bp = [g] \<and> fr_page_id (frame_of bp' g) \<notin> fst ` set ((i, f) # t)"
      if "unat g < bp_pool_size bp" "fr_valid (frame_of bp' g)" for g
      using that vm [of g] oth [of g] own by (cases "g = f") auto
    show "g \<in> set (bp_free_list bp) \<or> (fr_page_id (frame_of bp' g), g) \<in> set ((i, f) # t) \<and> fr_pin_count (frame_of bp' g) = 0"
      if "unat g \<in> candidates (bp_replacer bp)" for g
      using cm [OF that] oth [of g] fl(2) tm by (cases "g = f") auto
  qed
  with core' show "bp_ok bp'" by (simp add: bp_ok_def)
  show "same_view bp bp'"
    unfolding same_view_def
  proof (intro allI impI)
    fix j b assume v: "pool_view bp j = Some b"
    from core show "\<exists>b'. pool_view bp' j = Some b' \<and> page_body b' = page_body b"
    proof (cases rule: pool_view_cases [where i = j])
      case (frame g)
      show ?thesis
      proof (cases "g = f")
        case False
        then have "pool_view bp' j = Some b"
          using frame v oth [of g] pool_view_held [OF core', of g j] by (simp add: sel(4))
        then show ?thesis by simp
      next
        case True
        then obtain b1 where b1: "disk_page (bp_disk bp) j = Some b1" "page_body b1 = page_body b"
          using D(6) [OF fn] clean frame v by (auto simp: frame_ok_def)
        have "pool_view bp' j = Some b1"
        proof (cases "j = i")
          case True
          then show ?thesis using b1 rk(4) \<open>pool_view bp' i = Some (pg_data p)\<close> by simp
        next
          case False
          have "fr_page_id (frame_of bp' h) \<noteq> j" if "unat h < bp_pool_size bp'" "fr_valid (frame_of bp' h)" for h
            using that False own oth [of h] frame \<open>g = f\<close> D(7) [of h f] by (cases "h = f") (auto simp: sel(4))
          then show ?thesis using pool_view_disk [OF core', of j] b1 rk by (simp add: sel(5))
        qed
        then show ?thesis using b1 by simp
      qed
    next
      case disk
      show ?thesis
      proof (cases "j = i")
        case True
        then show ?thesis using disk v rk(4) \<open>pool_view bp' i = Some (pg_data p)\<close> by simp
      next
        case False
        have "fr_page_id (frame_of bp' h) \<noteq> j" if "unat h < bp_pool_size bp'" "fr_valid (frame_of bp' h)" for h
          using that False own oth [of h] disk(1) [of h] by (cases "h = f") (auto simp: sel(4))
        then show ?thesis using pool_view_disk [OF core', of j] v disk rk by (simp add: sel(5))
      qed
    qed
  qed
qed

lemma fetch_cleanup_table: "claimed i f t bp \<Longrightarrow> bp_page_table (fetch_cleanup i f bp) = t"
  using claimedD(1,2) [of i f t bp] table_erase_id [of i t]
  by (simp add: fetch_cleanup_def Let_def unpin_page_def set_frame_def on_replacer_def table_erase_def)

lemma fetch_cleanup_size: "bp_pool_size (fetch_cleanup i f bp) = bp_pool_size bp"
  by (simp add: fetch_cleanup_def Let_def unpin_page_def set_frame_def on_replacer_def)

lemma same_view_eq: "pool_view bp' = pool_view bp \<Longrightarrow> same_view bp bp'"
  by (simp add: same_view_def)

lemma read_page_error_disk:
  assumes "core_ok bp" "read_page (bp_disk bp) i = (d, Inl e)"
  shows "core_ok (bp\<lparr>bp_disk := d\<rparr>)" "pool_view (bp\<lparr>bp_disk := d\<rparr>) = pool_view bp"
proof -
  note D = core_okD [OF assms(1)]
  have rk: "disk_ok d" "dk_page_size d = dk_page_size (bp_disk bp)" "disk_page d = disk_page (bp_disk bp)"
    using dm.rd_ok [OF D(5) assms(2)] by simp_all
  show c: "core_ok (bp\<lparr>bp_disk := d\<rparr>)"
    using D rk addressable_cong [OF rk(2)] by (intro core_okI) (simp_all add: frame_ok_def)
  show "pool_view (bp\<lparr>bp_disk := d\<rparr>) = pool_view bp"
    using rk by (intro pool_view_cong [OF assms(1) c]) simp_all
qed

lemma claimed_disk: "claimed i f t (bp\<lparr>bp_disk := d\<rparr>) = claimed i f t bp"
  by (simp add: claimed_def)

text \<open>The outcome of the disk part of a miss: the pool is in order, nothing else moved, and on success the frame holds the page.\<close>

definition loaded :: "page_id \<Rightarrow> frame_id \<Rightarrow> (page_id \<times> frame_id) list \<Rightarrow> buffer_pool \<Rightarrow> buffer_pool \<Rightarrow> frame_id result \<Rightarrow> bool" where
  "loaded i f t bp bp' r \<longleftrightarrow> bp_ok bp' \<and> same_view bp bp' \<and> bp_pool_size bp' = bp_pool_size bp \<and>
     (\<forall>g. g \<noteq> f \<longrightarrow> unat g < bp_pool_size bp \<longrightarrow> frame_of bp' g = frame_of bp g) \<and> set t \<subseteq> set (bp_page_table bp') \<and>
     fr_pin_count (frame_of bp' f) = (case r of Inr _ \<Rightarrow> 1 | Inl _ \<Rightarrow> 0) \<and>
     (\<forall>h. r = Inr h \<longrightarrow> h = f \<and> (i, f) \<in> set (bp_page_table bp') \<and>
        pool_view bp' i = Some (pg_data (handle_get f bp')))"

lemma loaded_cleanup:
  assumes "core_ok bp" "claimed i f t bp"
  shows "loaded i f t bp (fetch_cleanup i f bp) (Inl e)"
  using fetch_cleanup_ok [OF assms] fetch_cleanup_table [OF assms(2)] fetch_cleanup_size [of i f bp]
  by (simp add: loaded_def same_view_eq)

lemma loaded_read:
  assumes core: "core_ok bp" and cl: "claimed i f t bp" and clean: "fr_valid (frame_of bp f) \<Longrightarrow> \<not> fr_dirty (frame_of bp f)"
    and res: "(case read_page (bp_disk bp) i of
                (d, Inl e) \<Rightarrow> (fetch_cleanup i f (bp\<lparr>bp_disk := d\<rparr>), Inr (Inl e))
              | (d, Inr p) \<Rightarrow>
                  (on_replacer (record_access f)
                     (set_frame f ((frame_of bp f)\<lparr>fr_page := p, fr_page_id := i, fr_valid := True, fr_dirty := False\<rparr>)
                       (bp\<lparr>bp_disk := d\<rparr>)), Inr (Inr f))) = (bp', Inr r)"
  shows "loaded i f t bp bp' r"
proof -
  obtain d x where rd: "read_page (bp_disk bp) i = (d, x)" by fastforce
  show ?thesis
  proof (cases x)
    case (Inl e)
    note rk = read_page_error_disk [OF core rd [unfolded Inl]]
    have "loaded i f t (bp\<lparr>bp_disk := d\<rparr>) bp' r"
      using loaded_cleanup [OF rk(1), of i f t e] cl res rd Inl by (simp add: claimed_disk)
    then show ?thesis using rk(2) by (auto simp: loaded_def same_view_def)
  next
    case (Inr p)
    then have b: "bp' = on_replacer (record_access f)
      (set_frame f ((frame_of bp f)\<lparr>fr_page := p, fr_page_id := i, fr_valid := True, fr_dirty := False\<rparr>) (bp\<lparr>bp_disk := d\<rparr>))"
      and r: "r = Inr f" using res rd by simp_all
    have tab: "bp_page_table bp' = (i, f) # t" "bp_pool_size bp' = bp_pool_size bp"
      using claimedD(1) [OF cl] by (simp_all add: b on_replacer_def set_frame_def)
    show ?thesis
      using load_ok [OF core cl clean rd [unfolded Inr] b] tab r by (simp add: loaded_def) blast
  qed
qed

lemma load_frame_ok:
  assumes core: "core_ok bp" and cl: "claimed i f t bp" and res: "load_frame i f bp = (bp', Inr r)"
  shows "loaded i f t bp bp' r"
proof (cases "fr_valid (frame_of bp f) \<and> fr_dirty (frame_of bp f)")
  case False
  then show ?thesis
    using res loaded_read [OF core cl, of bp' r] by (auto simp: load_frame_def)
next
  case True
  have fn: "unat f < bp_pool_size bp" by (rule claimedD(10) [OF cl])
  obtain bp1 wb where wb: "write_back f bp = (bp1, wb)" by fastforce
  show ?thesis
  proof (cases wb)
    case (Inl e)
    then show ?thesis using res True wb by (simp add: load_frame_def)
  next
    case (Inr x)
    note W = write_back_ok [OF core fn conjunct1 [OF True] conjunct2 [OF True] wb [unfolded Inr]]
    note cl1 = claimed_cong [OF W(2) core cl]
    have "loaded i f t bp1 bp' r"
    proof (cases x)
      case (Inl e)
      then show ?thesis using res True wb Inr loaded_cleanup [OF W(1) cl1, of e] by (simp add: load_frame_def)
    next
      case (Inr u)
      then have x: "x = Inr ()" by simp
      show ?thesis
        using loaded_read [OF W(1) cl1 _ , of bp' r] W(4) [OF x] res True wb \<open>wb = Inr x\<close> x by (simp add: load_frame_def)
    qed
    then show ?thesis
      using W(3,5) same_indexD(1) [OF W(2)]
      by (auto simp: loaded_def intro: same_view_trans)
  qed
qed


lemma find_frame_None:
  assumes "bp_ok bp" "find_frame bp = (bp', None)"
  shows "bp_ok bp'" "pool_view bp' = pool_view bp" "bp_frames bp' = bp_frames bp" "bp_page_table bp' = bp_page_table bp"
proof -
  have core: "core_ok bp" and idx: "index_ok bp" using assms(1) by (simp_all add: bp_ok_def)
  obtain c where c: "bp_free_list bp = []" "victim (bp_replacer bp) = (c, None)" "bp' = bp\<lparr>bp_replacer := c\<rparr>"
    using assms(2) by (auto simp: find_frame_def split: list.splits prod.splits option.splits)
  note v = ck.pick_ok [OF core_okD(4) [OF core] c(2)] and n = ck.pick_None [OF core_okD(4) [OF core] c(2)]
  show "bp_frames bp' = bp_frames bp" "bp_page_table bp' = bp_page_table bp" by (simp_all add: c)
  have c': "core_ok bp'" using core_okD [OF core] v by (intro core_okI) (simp_all add: c)
  then show "pool_view bp' = pool_view bp" by (intro pool_view_cong [OF core]) (simp_all add: c)
  show "bp_ok bp'" using c' idx n by (simp add: bp_ok_def index_ok_def c)
qed

end
