(* ===== verification/Page_Cache.thy ===== *)
theory Page_Cache
  imports Buffer_Pool
begin

text \<open>
  The buffer pool as its users see it: what fetching, changing and releasing pages through handles does
  to the contents of pages, when fetching succeeds, what flushing saves, and the order of log and data
  writes. The locale \<open>page_cache\<close> is the interface the table heap and the catalog rely on; \<open>pc\<close> is the
  buffer pool's instance of it.
\<close>

section \<open>The pool as a page cache\<close>

definition pool_pins :: "buffer_pool \<Rightarrow> frame_id \<Rightarrow> u32" where
  "pool_pins bp f = (if unat f < bp_pool_size bp then fr_pin_count (frame_of bp f) else 0)"

definition mapped :: "buffer_pool \<Rightarrow> page_id \<Rightarrow> frame_id \<Rightarrow> bool" where
  "mapped bp i f \<longleftrightarrow> (i, f) \<in> set (bp_page_table bp)"

lemma counters [simp]:
  "bp_ok (bp\<lparr>bp_misses := n\<rparr>) = bp_ok bp" "pool_view (bp\<lparr>bp_misses := n\<rparr>) = pool_view bp"
  "bp_ok (bp\<lparr>bp_hits := n\<rparr>) = bp_ok bp" "pool_view (bp\<lparr>bp_hits := n\<rparr>) = pool_view bp"
  by (simp_all add: bp_ok_def core_ok_def index_ok_def pool_view_def fun_eq_iff split: option.splits)

lemma fetch_hit:
  assumes ok: "bp_ok bp" and hit: "map_of (bp_page_table bp) i = Some f" and res: "fetch_page i bp = (bp', Inr r)"
  shows "bp_ok bp'" "pool_view bp' = pool_view bp" "r = Inr f" "bp_page_table bp' = bp_page_table bp" "bp_pool_size bp' = bp_pool_size bp"
    and "\<And>g. g \<noteq> f \<Longrightarrow> frame_of bp' g = frame_of bp g" "frame_of bp' f = frame_pin (frame_of bp f)"
proof -
  have core: "core_ok bp" and idx: "index_ok bp" using ok by (simp_all add: bp_ok_def)
  have m: "(i, f) \<in> set (bp_page_table bp)" using hit by (rule map_of_SomeD)
  note I = index_okD [OF idx] and D = core_okD [OF core]
  have fn: "unat f < bp_pool_size bp" using I(3) [OF m] by blast
  have sel: "r = Inr f" "bp_page_table bp' = bp_page_table bp" "bp_free_list bp' = bp_free_list bp"
    "bp_frames bp' = (bp_frames bp)[unat f := frame_pin (frame_of bp f)]" "bp_pool_size bp' = bp_pool_size bp" "bp_disk bp' = bp_disk bp"
    "bp_replacer bp' = record_access f (clock_pin f (bp_replacer bp))"
    using res hit by (auto simp: fetch_page_def on_replacer_def set_frame_def)
  have p: "clock_ok (clock_pin f (bp_replacer bp))" "ck_num_frames (clock_pin f (bp_replacer bp)) = bp_pool_size bp"
     "candidates (clock_pin f (bp_replacer bp)) = candidates (bp_replacer bp) - {unat f}"
    using ck.pin_ok [OF D(4), of f] D(3) by simp_all
  have ck: "clock_ok (bp_replacer bp')" "ck_num_frames (bp_replacer bp') = bp_pool_size bp"
    "candidates (bp_replacer bp') = candidates (bp_replacer bp) - {unat f}"
    using ck.access_ok [OF p(1), of f] p by (simp_all add: sel)
  note rp = core_ok_repin [OF core fn _ _ _ _ sel(4-6) ck(1,2), simplified]
  show oth: "frame_of bp' g = frame_of bp g" if "g \<noteq> f" for g by (rule rp(3) [OF that])
  show own: "frame_of bp' f = frame_pin (frame_of bp f)" by (rule rp(4))
  show "pool_view bp' = pool_view bp" by (rule rp(2))
  show "r = Inr f" "bp_page_table bp' = bp_page_table bp" "bp_pool_size bp' = bp_pool_size bp" by (rule sel)+
  have eq: "fr_valid (frame_of bp' g) = fr_valid (frame_of bp g)" "fr_page_id (frame_of bp' g) = fr_page_id (frame_of bp g)" for g
    using oth [of g] own by (cases "g = f"; simp)+
  have ff: "f \<notin> set (bp_free_list bp)" using I(3) [OF m] by blast
  have "index_ok bp'"
  proof (rule index_okI, unfold sel(2,3,5) ck(3) eq)
    show "unat g < bp_pool_size bp \<and> fr_pin_count (frame_of bp' g) = 0" if "g \<in> set (bp_free_list bp)" for g
      using I(4) [OF that] oth [of g] that ff by (cases "g = f") auto
    show "g \<in> set (bp_free_list bp) \<or> (fr_page_id (frame_of bp g), g) \<in> set (bp_page_table bp) \<and> fr_pin_count (frame_of bp' g) = 0"
      if "unat g \<in> candidates (bp_replacer bp) - {unat f}" for g
      using that I(6) [of g] oth [of g] by (cases "g = f") auto
  qed (use I in blast)+
  with rp(1) show "bp_ok bp'" by (simp add: bp_ok_def)
qed

lemma fetch_page_ok:
  assumes ok: "bp_ok bp" and res: "fetch_page i bp = (bp', Inr r)"
  shows "bp_ok bp' \<and> same_view bp bp' \<and> bp_pool_size bp' = bp_pool_size bp"
    and "pool_pins bp' = (case r of Inl _ \<Rightarrow> pool_pins bp | Inr f \<Rightarrow> (pool_pins bp)(f := pool_pins bp f + 1))"
    and "\<And>f. r = Inr f \<Longrightarrow> mapped bp' i f \<and> pool_view bp' i = Some (pg_data (handle_get f bp'))"
    and "\<And>j g. mapped bp j g \<Longrightarrow> pool_pins bp g \<noteq> 0 \<Longrightarrow> mapped bp' j g \<and> handle_get g bp' = handle_get g bp"
proof -
  have idx: "index_ok bp" using ok by (simp add: bp_ok_def)
  have "(bp_ok bp' \<and> same_view bp bp' \<and> bp_pool_size bp' = bp_pool_size bp) \<and>
    (pool_pins bp' = (case r of Inl _ \<Rightarrow> pool_pins bp | Inr f \<Rightarrow> (pool_pins bp)(f := pool_pins bp f + 1))) \<and>
    (\<forall>f. r = Inr f \<longrightarrow> mapped bp' i f \<and> pool_view bp' i = Some (pg_data (handle_get f bp'))) \<and>
    (\<forall>j g. mapped bp j g \<longrightarrow> pool_pins bp g \<noteq> 0 \<longrightarrow> mapped bp' j g \<and> handle_get g bp' = handle_get g bp)"
  proof (cases "map_of (bp_page_table bp) i")
    case (Some f)
    note H = fetch_hit [OF ok Some res]
    have m: "(i, f) \<in> set (bp_page_table bp)" using Some by (rule map_of_SomeD)
    have F: "unat f < bp_pool_size bp" "fr_valid (frame_of bp f)" "fr_page_id (frame_of bp f) = i"
      using index_okD(3) [OF idx m] by blast+
    have v: "pool_view bp' i = Some (pg_data (handle_get f bp'))"
      using pool_view_held [of bp' f i] H F by (simp add: bp_ok_def handle_get_def)
    have "pool_pins bp' g = ((pool_pins bp)(f := pool_pins bp f + 1)) g" for g
      using H(5-7) F(1) by (cases "g = f") (simp_all add: pool_pins_def frame_pin_def)
    moreover have "handle_get g bp' = handle_get g bp" for g
      using H(6,7) by (cases "g = f") (simp_all add: handle_get_def)
    ultimately show ?thesis using H(1-5) v m by (simp add: same_view_eq mapped_def fun_eq_iff)
  next
    case miss: None
    define bp0 where "bp0 = bp\<lparr>bp_misses := bp_misses bp + 1\<rparr>"
    have ok0: "bp_ok bp0" and none0: "map_of (bp_page_table bp0) i = None" using ok miss by (simp_all add: bp0_def)
    have v0: "pool_view bp0 = pool_view bp" by (simp add: bp0_def)
    obtain bp1 x where ff: "find_frame bp0 = (bp1, x)" by fastforce
    show ?thesis
    proof (cases x)
      case None
      then have e: "bp' = bp1" "r = Inl InternalError" using res miss ff by (simp_all add: fetch_page_def bp0_def)
      note F = find_frame_None [OF ok0 ff [unfolded None]]
      have sz: "bp_pool_size bp1 = bp_pool_size bp"
        using core_okD(1) [of bp1] core_okD(1) [of bp] F(1,3) ok by (simp add: bp_ok_def bp0_def)
      have "pool_pins bp1 = pool_pins bp" "mapped bp1 = mapped bp" "\<And>g. handle_get g bp1 = handle_get g bp"
        using F(3,4) sz by (simp_all add: fun_eq_iff pool_pins_def mapped_def handle_get_def bp0_def)
      then show ?thesis using F(1,2) e v0 sz by (simp add: same_view_eq)
    next
      case (Some f)
      let ?bp2 = "claim_frame i f bp1"
      note C = find_claim [OF ok0 none0 ff [unfolded Some]]
      have ld: "load_frame i f ?bp2 = (bp', Inr r)" using res miss ff Some by (simp add: fetch_page_def bp0_def)
      obtain t where cl: "claimed i f t ?bp2" using C(2) by blast
      note L = load_frame_ok [OF C(1) cl ld, unfolded loaded_def]
      have sz: "bp_pool_size ?bp2 = bp_pool_size bp" and f: "unat f < bp_pool_size bp" using C(7,9) by (simp_all add: bp0_def)
      have oth: "frame_of bp' g = frame_of bp g" if "g \<noteq> f" "unat g < bp_pool_size bp" for g
        using L C(4) [OF that(1)] that sz by (simp add: bp0_def)
      have pf: "fr_pin_count (frame_of bp f) = 0" using C(6) by (simp add: bp0_def)
      have "pool_pins bp' g = (case r of Inl _ \<Rightarrow> pool_pins bp | Inr f \<Rightarrow> (pool_pins bp)(f := pool_pins bp f + 1)) g" for g
      proof -
        have s': "bp_pool_size bp' = bp_pool_size bp" using L sz by simp
        have "fr_pin_count (frame_of bp' f) = (case r of Inr _ \<Rightarrow> 1 | Inl _ \<Rightarrow> 0)" "\<And>h. r = Inr h \<Longrightarrow> h = f"
          using L by blast+
        then show ?thesis using oth [of g] pf f s' by (cases "g = f"; cases r) (auto simp: pool_pins_def)
      qed
      moreover have "mapped bp' j g \<and> handle_get g bp' = handle_get g bp" if m: "mapped bp j g" and p: "pool_pins bp g \<noteq> 0" for j g
      proof -
        have G: "unat g < bp_pool_size bp" "fr_valid (frame_of bp g)" "fr_page_id (frame_of bp g) = j"
          using index_okD(3) [OF idx, of j g] m by (simp_all add: mapped_def)
        have "g \<noteq> f" using p pf by (auto simp: pool_pins_def split: if_splits)
        moreover from this have "(j, g) \<in> set t"
          using claimedD(5) [OF cl, of g] G C(4) [of g] sz by (simp add: bp0_def)
        moreover have "set t \<subseteq> set (bp_page_table bp')" using L by blast
        ultimately show ?thesis using oth [OF _ G(1)] by (auto simp: mapped_def handle_get_def)
      qed
      moreover have "\<forall>f. r = Inr f \<longrightarrow> mapped bp' i f \<and> pool_view bp' i = Some (pg_data (handle_get f bp'))"
        using L by (auto simp: mapped_def)
      moreover have "bp_ok bp'" "same_view bp bp'" "bp_pool_size bp' = bp_pool_size bp"
        using L C(3) v0 sz by (auto simp: same_view_def)
      ultimately show ?thesis by (simp add: fun_eq_iff)
    qed
  qed
  then show "bp_ok bp' \<and> same_view bp bp' \<and> bp_pool_size bp' = bp_pool_size bp"
    and "pool_pins bp' = (case r of Inl _ \<Rightarrow> pool_pins bp | Inr f \<Rightarrow> (pool_pins bp)(f := pool_pins bp f + 1))"
    and "\<And>f. r = Inr f \<Longrightarrow> mapped bp' i f \<and> pool_view bp' i = Some (pg_data (handle_get f bp'))"
    and "\<And>j g. mapped bp j g \<Longrightarrow> pool_pins bp g \<noteq> 0 \<Longrightarrow> mapped bp' j g \<and> handle_get g bp' = handle_get g bp"
    by blast+
qed

text \<open>Replacing the contents of a mapped frame.\<close>

lemma set_frame_ok:
  assumes ok: "bp_ok bp" and m: "mapped bp i f" and fr: "fr_valid fr" "fr_page_id fr = i" "fr_pin_count fr = fr_pin_count (frame_of bp f)"
    and fo: "frame_ok (bp_disk bp) fr"
  shows "bp_ok (set_frame f fr bp)" "pool_view (set_frame f fr bp) = (pool_view bp)(i \<mapsto> pg_data (fr_page fr))"
    and "pool_pins (set_frame f fr bp) = pool_pins bp" "mapped (set_frame f fr bp) = mapped bp"
proof -
  let ?bp' = "set_frame f fr bp"
  have core: "core_ok bp" and idx: "index_ok bp" using ok by (simp_all add: bp_ok_def)
  note I = index_okD [OF idx] and D = core_okD [OF core]
  have F: "unat f < bp_pool_size bp" "fr_valid (frame_of bp f)" "fr_page_id (frame_of bp f) = i"
    using I(3) [of i f] m by (simp_all add: mapped_def)
  have sel: "bp_frames ?bp' = (bp_frames bp)[unat f := fr]" "bp_pool_size ?bp' = bp_pool_size bp" "bp_disk ?bp' = bp_disk bp"
    "bp_page_table ?bp' = bp_page_table bp" "bp_free_list ?bp' = bp_free_list bp" "bp_replacer ?bp' = bp_replacer bp"
    by (simp_all add: set_frame_def)
  have oth: "frame_of ?bp' h = frame_of bp h" if "h \<noteq> f" for h using that by (simp add: sel word_unat_eq_iff)
  have own: "frame_of ?bp' f = fr" using F(1) D(1) by (simp add: sel)
  have eq: "fr_valid (frame_of ?bp' h) = fr_valid (frame_of bp h)" "fr_page_id (frame_of ?bp' h) = fr_page_id (frame_of bp h)"
    "fr_pin_count (frame_of ?bp' h) = fr_pin_count (frame_of bp h)" for h
    using oth [of h] own fr F by (cases "h = f"; simp)+
  have core': "core_ok ?bp'"
  proof (rule core_okI, unfold sel(2,3,6) eq)
    show "frame_ok (bp_disk bp) (frame_of ?bp' h)" if "unat h < bp_pool_size bp" "fr_valid (frame_of bp h)" for h
      using D(6) [OF that] own oth [of h] fo by (cases "h = f") simp_all
  qed (use D sel(1) in simp_all)
  moreover have "index_ok ?bp'"
    using I by (intro index_okI; unfold sel(2,4-6) eq) blast+
  ultimately show "bp_ok ?bp'" by (simp add: bp_ok_def)
  show "pool_pins ?bp' = pool_pins bp" "mapped ?bp' = mapped bp" by (simp_all add: fun_eq_iff pool_pins_def mapped_def sel(2,4) eq)
  show "pool_view ?bp' = (pool_view bp)(i \<mapsto> pg_data (fr_page fr))"
  proof
    fix j
    from core show "pool_view ?bp' j = ((pool_view bp)(i \<mapsto> pg_data (fr_page fr))) j"
    proof (cases rule: pool_view_cases [where i = j])
      case (frame h)
      then have "pool_view ?bp' j = Some (pg_data (fr_page (frame_of ?bp' h)))"
        by (intro pool_view_held [OF core']) (simp_all add: sel(2) eq)
      moreover have "h = f" if "j = i" using that D(7) [OF frame(1) F(1) frame(2) F(2)] frame(3) F(3) by simp
      ultimately show ?thesis using frame oth [of h] own F by (cases "h = f") auto
    next
      case disk
      then have "pool_view ?bp' j = disk_page (bp_disk bp) j"
        using pool_view_disk [OF core', of j] by (simp add: sel(2,3) eq)
      then show ?thesis using disk F by auto
    qed
  qed
qed

lemma handle_modify_ok:
  assumes ok: "bp_ok bp" and m: "mapped bp i f" and len: "\<And>b. length (g b) = length b"
  shows "bp_ok (handle_modify f g bp)" "pool_view (handle_modify f g bp) = (pool_view bp)(i := map_option g (pool_view bp i))"
    and "pool_pins (handle_modify f g bp) = pool_pins bp" "mapped (handle_modify f g bp) = mapped bp"
proof -
  let ?fr = "(frame_of bp f)\<lparr>fr_dirty := True, fr_page := (fr_page (frame_of bp f))\<lparr>pg_data := g (pg_data (fr_page (frame_of bp f)))\<rparr>\<rparr>"
  have core: "core_ok bp" and idx: "index_ok bp" using ok by (simp_all add: bp_ok_def)
  have F: "unat f < bp_pool_size bp" "fr_valid (frame_of bp f)" "fr_page_id (frame_of bp f) = i"
    using index_okD(3) [OF idx, of i f] m by (simp_all add: mapped_def)
  have e: "handle_modify f g bp = set_frame f ?fr bp"
    using F(1) core_okD(1) [OF core] by (simp add: handle_modify_def handle_mark_dirty_def set_frame_def Let_def)
  have "frame_ok (bp_disk bp) ?fr" using core_okD(6) [OF core F(1,2)] len by (simp add: frame_ok_def)
  note S = set_frame_ok [OF ok m _ _ _ this, folded e]
  show "bp_ok (handle_modify f g bp)" "pool_view (handle_modify f g bp) = (pool_view bp)(i := map_option g (pool_view bp i))"
    "pool_pins (handle_modify f g bp) = pool_pins bp" "mapped (handle_modify f g bp) = mapped bp"
    using S F pool_view_held [OF core F] by simp_all
qed

lemma handle_unpin_ok:
  assumes ok: "bp_ok bp" and m: "mapped bp i f" and p: "pool_pins bp f \<noteq> 0"
  shows "bp_ok (handle_unpin f bp)" "pool_view (handle_unpin f bp) = pool_view bp"
    and "pool_pins (handle_unpin f bp) = (pool_pins bp)(f := pool_pins bp f - 1)" "mapped (handle_unpin f bp) = mapped bp"
    and "\<And>g. handle_get g (handle_unpin f bp) = handle_get g bp"
proof -
  let ?bp' = "handle_unpin f bp" and ?fr = "frame_unpin (frame_of bp f)"
  have core: "core_ok bp" and idx: "index_ok bp" using ok by (simp_all add: bp_ok_def)
  note I = index_okD [OF idx] and D = core_okD [OF core]
  have F: "unat f < bp_pool_size bp" "fr_valid (frame_of bp f)" "fr_page_id (frame_of bp f) = i" "f \<notin> set (bp_free_list bp)"
    using I(3) [of i f] m by (simp_all add: mapped_def)
  have sel: "bp_frames ?bp' = (bp_frames bp)[unat f := ?fr]" "bp_pool_size ?bp' = bp_pool_size bp" "bp_disk ?bp' = bp_disk bp"
    "bp_page_table ?bp' = bp_page_table bp" "bp_free_list ?bp' = bp_free_list bp"
    "bp_replacer ?bp' = (if fr_pin_count ?fr = 0 then clock_unpin f (bp_replacer bp) else bp_replacer bp)"
    using F(1) D(1) by (simp_all add: handle_unpin_def unpin_page_def set_frame_def on_replacer_def)
  have ck: "clock_ok (bp_replacer ?bp')" "ck_num_frames (bp_replacer ?bp') = bp_pool_size bp"
    "candidates (bp_replacer ?bp') = (if fr_pin_count ?fr = 0 then insert (unat f) (candidates (bp_replacer bp)) else candidates (bp_replacer bp))"
    using ck.unpin_ok [OF D(4), of f] D(3,4) F(1) by (simp_all add: sel(6))
  note rp = core_ok_repin [OF core F(1) _ _ _ _ sel(1-3) ck(1,2), simplified]
  show "pool_view ?bp' = pool_view bp" by (rule rp(2))
  have oth: "frame_of ?bp' g = frame_of bp g" if "g \<noteq> f" for g by (rule rp(3) [OF that])
  have own: "frame_of ?bp' f = ?fr" by (rule rp(4))
  show "handle_get g ?bp' = handle_get g bp" for g using oth [of g] own by (cases "g = f") (simp_all add: handle_get_def)
  show "mapped ?bp' = mapped bp" by (simp add: fun_eq_iff mapped_def sel)
  show "pool_pins ?bp' = (pool_pins bp)(f := pool_pins bp f - 1)"
  proof
    fix g
    show "pool_pins ?bp' g = ((pool_pins bp)(f := pool_pins bp f - 1)) g"
      using oth [of g] own F(1) by (cases "g = f") (simp_all add: pool_pins_def sel(2) frame_unpin_def)
  qed
  have eq: "fr_valid (frame_of ?bp' g) = fr_valid (frame_of bp g)" "fr_page_id (frame_of ?bp' g) = fr_page_id (frame_of bp g)" for g
    using oth [of g] own by (cases "g = f"; simp)+
  have fc: "unat f \<notin> candidates (bp_replacer bp)"
    using I(6) [of f] F p by (auto simp: pool_pins_def)
  have "index_ok ?bp'"
  proof (rule index_okI, unfold sel(2,4,5) eq)
    show "unat g < bp_pool_size bp \<and> fr_pin_count (frame_of ?bp' g) = 0" if "g \<in> set (bp_free_list bp)" for g
      using I(4) [OF that] oth [of g] that F(4) by (cases "g = f") auto
    show "g \<in> set (bp_free_list bp) \<or> (fr_page_id (frame_of bp g), g) \<in> set (bp_page_table bp) \<and> fr_pin_count (frame_of ?bp' g) = 0"
      if "unat g \<in> candidates (bp_replacer ?bp')" for g
    proof (cases "g = f")
      case True
      then show ?thesis using that fc own m F(3) by (auto simp: ck(3) mapped_def split: if_splits)
    next
      case False
      then have "unat g \<noteq> unat f" by (simp add: word_unat_eq_iff)
      then have "unat g \<in> candidates (bp_replacer bp)" using that by (auto simp: ck(3) split: if_splits)
      then show ?thesis using I(6) [of g] oth [OF False] by simp
    qed
  qed (use I in blast)+
  with rp(1) show "bp_ok ?bp'" by (simp add: bp_ok_def)
qed


text \<open>
  What the users of the pool (the table heap, the catalog, the index) rely on. Views agree modulo \<open>body\<close>:
  the checksum field changes whenever a page is written back.
\<close>

locale page_cache =
  fixes ok :: "'p \<Rightarrow> bool" and view :: "'p \<Rightarrow> page_id \<Rightarrow> bytes option" and body :: "bytes \<Rightarrow> bytes"
    and pins :: "'p \<Rightarrow> frame_id \<Rightarrow> u32" and maps :: "'p \<Rightarrow> page_id \<Rightarrow> frame_id \<Rightarrow> bool" and content :: "frame_id \<Rightarrow> 'p \<Rightarrow> page"
    and fetch :: "page_id \<Rightarrow> 'p \<Rightarrow> 'p \<times> frame_id outcome" and modify :: "frame_id \<Rightarrow> (bytes \<Rightarrow> bytes) \<Rightarrow> 'p \<Rightarrow> 'p"
    and release :: "frame_id \<Rightarrow> 'p \<Rightarrow> 'p"
  assumes fetch_keeps: "ok p \<Longrightarrow> fetch i p = (p', Inr r) \<Longrightarrow> ok p'"
    and fetch_view: "ok p \<Longrightarrow> fetch i p = (p', Inr r) \<Longrightarrow> view p j = Some b \<Longrightarrow> \<exists>b'. view p' j = Some b' \<and> body b' = body b"
    and fetch_pins: "ok p \<Longrightarrow> fetch i p = (p', Inr r) \<Longrightarrow>
      pins p' = (case r of Inl _ \<Rightarrow> pins p | Inr f \<Rightarrow> (pins p)(f := pins p f + 1))"
    and fetch_held: "ok p \<Longrightarrow> fetch i p = (p', Inr (Inr f)) \<Longrightarrow> maps p' i f \<and> view p' i = Some (pg_data (content f p'))"
    and fetch_pinned: "ok p \<Longrightarrow> fetch i p = (p', Inr r) \<Longrightarrow> maps p j f \<Longrightarrow> pins p f \<noteq> 0 \<Longrightarrow>
      maps p' j f \<and> content f p' = content f p"
    and modify_keeps: "ok p \<Longrightarrow> maps p i f \<Longrightarrow> (\<And>b. length (g b) = length b) \<Longrightarrow> ok (modify f g p)"
    and modify_view: "ok p \<Longrightarrow> maps p i f \<Longrightarrow> (\<And>b. length (g b) = length b) \<Longrightarrow>
      view (modify f g p) = (view p)(i := map_option g (view p i))"
    and modify_pins: "ok p \<Longrightarrow> maps p i f \<Longrightarrow> (\<And>b. length (g b) = length b) \<Longrightarrow>
      pins (modify f g p) = pins p \<and> maps (modify f g p) = maps p"
    and release_keeps: "ok p \<Longrightarrow> maps p i f \<Longrightarrow> pins p f \<noteq> 0 \<Longrightarrow> ok (release f p) \<and> view (release f p) = view p"
    and release_pins: "ok p \<Longrightarrow> maps p i f \<Longrightarrow> pins p f \<noteq> 0 \<Longrightarrow> pins (release f p) = (pins p)(f := pins p f - 1)"
begin

text \<open>Fetching a page and letting the handle go, whether or not the fetch succeeds, changes no page and no pin.\<close>

lemma visit_step:
  assumes "ok p" "\<And>f. pins p f + 1 \<noteq> 0" "fetch i p = (p1, Inr r)"
    and "p2 = (case r of Inl _ \<Rightarrow> p1 | Inr f \<Rightarrow> release f p1)"
  shows "ok p2" "pins p2 = pins p" "view p j = Some b \<Longrightarrow> \<exists>b'. view p2 j = Some b' \<and> body b' = body b"
proof -
  note k = fetch_keeps [OF assms(1,3)] fetch_pins [OF assms(1,3)]
  have "ok p2 \<and> pins p2 = pins p \<and> view p2 = view p1"
  proof (cases r)
    case (Inl e)
    then show ?thesis using k assms(4) by simp
  next
    case (Inr f)
    have m: "maps p1 i f" using fetch_held [OF assms(1) assms(3) [unfolded Inr]] by blast
    have "pins p1 f \<noteq> 0" using k(2) Inr assms(2) by simp
    then show ?thesis using release_keeps [OF k(1) m] release_pins [OF k(1) m] k(2) Inr assms(4) by simp
  qed
  then show "ok p2" "pins p2 = pins p" "view p j = Some b \<Longrightarrow> \<exists>b'. view p2 j = Some b' \<and> body b' = body b"
    using fetch_view [OF assms(1,3)] by auto
qed

text \<open>Fetch, modify, release: the view of that page becomes the modified page.\<close>

lemma store_step:
  assumes "ok p" "\<And>f. pins p f + 1 \<noteq> 0" "fetch i p = (p1, Inr (Inr f))" "\<And>b. length (g b) = length b"
    and "p2 = release f (modify f g p1)"
  shows "ok p2" "pins p2 = pins p" "view p2 i = Some (g (pg_data (content f p1)))"
proof -
  note k = fetch_keeps [OF assms(1,3)] fetch_pins [OF assms(1,3)] and h = fetch_held [OF assms(1,3)]
  have m: "maps p1 i f" using h by blast
  note mk = modify_keeps [OF k(1) m assms(4)] modify_view [OF k(1) m assms(4)] modify_pins [OF k(1) m assms(4)]
  have m2: "maps (modify f g p1) i f" and p2: "pins (modify f g p1) f \<noteq> 0" using mk(3) m k(2) assms(2) by simp_all
  show "ok p2" "pins p2 = pins p" "view p2 i = Some (g (pg_data (content f p1)))"
    using release_keeps [OF mk(1) m2 p2] release_pins [OF mk(1) m2 p2] mk k(2) h assms(5) by simp_all
qed

end

interpretation pc: page_cache bp_ok pool_view page_body pool_pins mapped handle_get fetch_page handle_modify handle_unpin
proof
  fix p p' i r
  assume a: "bp_ok p" "fetch_page i p = (p', Inr r)"
  show "bp_ok p'" using fetch_page_ok(1) [OF a] by blast
  show "pool_pins p' = (case r of Inl _ \<Rightarrow> pool_pins p | Inr f \<Rightarrow> (pool_pins p)(f := pool_pins p f + 1))"
    by (rule fetch_page_ok(2) [OF a])
  show "\<exists>b'. pool_view p' j = Some b' \<and> page_body b' = page_body b" if "pool_view p j = Some b" for j b
    using fetch_page_ok(1) [OF a] that by (simp add: same_view_def)
  show "mapped p' j f \<and> handle_get f p' = handle_get f p" if "mapped p j f" "pool_pins p f \<noteq> 0" for j f
    by (rule fetch_page_ok(4) [OF a that])
next
  fix p p' i f assume "bp_ok p" "fetch_page i p = (p', Inr (Inr f))"
  then show "mapped p' i f \<and> pool_view p' i = Some (pg_data (handle_get f p'))" by (rule fetch_page_ok(3)) simp
qed (simp_all add: handle_modify_ok handle_unpin_ok)

text \<open>Using other pages in between: fetch each page of a list and let it go; stop on an exception.\<close>

fun visit_pages :: "page_id list \<Rightarrow> buffer_pool \<Rightarrow> exn + buffer_pool" where
  "visit_pages [] bp = Inr bp"
| "visit_pages (i # is) bp =
     (case fetch_page i bp of
        (_, Inl e) \<Rightarrow> Inl e
      | (bp, Inr (Inl _)) \<Rightarrow> visit_pages is bp
      | (bp, Inr (Inr f)) \<Rightarrow> visit_pages is (handle_unpin f bp))"

lemma visit_pages_ok:
  assumes "visit_pages is bp = Inr bp'" "bp_ok bp" "\<And>f. pool_pins bp f + 1 \<noteq> 0" "pool_view bp j = Some b"
  shows "bp_ok bp' \<and> pool_pins bp' = pool_pins bp \<and> (\<exists>b'. pool_view bp' j = Some b' \<and> page_body b' = page_body b)"
  using assms
proof (induction "is" arbitrary: bp b)
  case (Cons i js)
  obtain bp1 x where f: "fetch_page i bp = (bp1, x)" by fastforce
  then obtain r where x: "x = Inr r" using Cons.prems(1) by (cases x) auto
  define bp2 where "bp2 = (case r of Inl _ \<Rightarrow> bp1 | Inr f \<Rightarrow> handle_unpin f bp1)"
  note S = pc.visit_step [OF Cons.prems(2,3) f [unfolded x] bp2_def]
  obtain b2 where b2: "pool_view bp2 j = Some b2" "page_body b2 = page_body b" using S(3) [OF Cons.prems(4)] by blast
  have "visit_pages js bp2 = Inr bp'" using Cons.prems(1) f x by (cases r) (auto simp: bp2_def)
  from Cons.IH [OF this S(1) _ b2(1)] show ?case using S(2) b2(2) Cons.prems(3) by simp
qed simp

text \<open>C1. A change made to a page through a handle survives eviction: after the handle is released and
  any pages have been fetched in between, with or without success, a fetch of the page that succeeds
  returns the changed contents, up to the checksum field that writing back recomputes.\<close>
theorem cached_write_survives:
  assumes "bp_ok bp" "\<And>f. pool_pins bp f + 1 \<noteq> 0" "fetch_page i bp = (bp1, Inr (Inr f))" "\<And>b. length (g b) = length b"
    and "visit_pages is (handle_unpin f (handle_modify f g bp1)) = Inr bp2" "fetch_page i bp2 = (bp3, Inr (Inr h))"
  shows "page_body (pg_data (handle_get h bp3)) = page_body (g (pg_data (handle_get f bp1)))"
proof -
  note S = pc.store_step [OF assms(1-4) refl]
  have pin: "pool_pins (handle_unpin f (handle_modify f g bp1)) k + 1 \<noteq> 0" for k using S(2) assms(2) by simp
  note V = visit_pages_ok [OF assms(5) S(1) pin S(3)]
  have "bp_ok bp2" using V by blast
  from pc.fetch_held [OF this assms(6)] pc.fetch_view [OF this assms(6)] V show ?thesis by fastforce
qed

lemma write_page_quiet:
  assumes ok: "disk_ok d" and q: "quiet d" and a: "addressable d (pg_id p)" and len: "length (pg_data p) = dk_page_size d"
  shows "\<exists>d' p'. write_page d p = (d', p', Inr ()) \<and> quiet d'"
proof -
  have ps: "0 < dk_page_size d" "dk_page_size d < 2 ^ 64" using ok by (simp_all add: disk_ok_def)
  let ?off = "pg_id p * of_nat (dk_page_size d) :: u64"
  have lt: "unat (pg_id p) * dk_page_size d < 2 ^ 64" "is_valid_id (pg_id p)" using a by (simp_all add: addressable_def)
  have co: "calculate_offset d (pg_id p) = Inr ?off" and uo: "unat ?off = unat (pg_id p) * dk_page_size d"
    using calculate_offset_eq [OF ps] unat_offset [OF ps(2) lt(1)] lt by simp_all
  have "\<not> seek_fails ?off (dk_fm d)" using q a uo by (simp add: seek_fails_def quiet_def addressable_def)
  then show ?thesis
    using ok co q by (simp add: write_page_def disk_ok_def on_file_def file_write_at_def take_fault_def quiet_def Let_def)
qed

lemma read_page_quiet:
  assumes "disk_ok d" "quiet d" "disk_page d i = Some b" "i = 0 \<or> checksum_ok b"
  shows "\<exists>d'. read_page d i = (d', Inr \<lparr>pg_id = i, pg_data = b, pg_dirty = False\<rparr>) \<and> quiet d'"
proof -
  obtain d' r where rd: "read_page d i = (d', r)" by fastforce
  have r: "r = Inr \<lparr>pg_id = i, pg_data = b, pg_dirty = False\<rparr>"
    using read_page_no_fault [of d i b] assms rd by (simp add: quiet_def)
  have "quiet d'"
    using rd assms(2) r by (auto simp: read_page_def on_file_def file_read_def take_fault_def quiet_def Let_def
        split: if_splits sum.splits prod.splits list.splits)
  then show ?thesis using rd r by blast
qed


section \<open>Availability\<close>

definition readable :: "disk \<Rightarrow> page_id \<Rightarrow> bool" where
  "readable d i \<longleftrightarrow> (\<exists>b. disk_page d i = Some b \<and> (i = 0 \<or> checksum_ok b))"

text \<open>The log, if there is one, is in a state reached from a fresh directory.\<close>

definition log_ready :: "buffer_pool \<Rightarrow> bool" where
  "log_ready bp \<longleftrightarrow> (\<forall>w. bp_wal bp = Some w \<longrightarrow> (\<exists>dir rs. wal_reach dir w rs))"

definition healthy :: "buffer_pool \<Rightarrow> bool" where
  "healthy bp \<longleftrightarrow> quiet (bp_disk bp) \<and> log_ready bp"

lemma flush_log_for_ready:
  assumes "log_ready bp"
  shows "\<exists>bp'. flush_log_for fr bp = (bp', Inr ()) \<and> log_ready bp'"
proof (cases "bp_wal bp")
  case None
  then show ?thesis using assms by (simp add: flush_log_for_def)
next
  case (Some w)
  let ?l = "ph_lsn (read_header (fr_page fr))"
  obtain dir rs where reach: "wal_reach dir w rs" using assms Some by (auto simp: log_ready_def)
  obtain m where m: "wal_stream w rs m" "unat (wl_flushed_lsn w) \<le> m" using wal_reach_stream [OF reach] by blast
  obtain w' r where f: "flush_up_to ?l w = (w', r)" by fastforce
  have r: "r = Inr ()" by (rule flush_up_to_ok(1) [OF m f])
  have "wal_reach dir w' rs" by (rule reach_flush [OF reach f [unfolded r]])
  then show ?thesis using Some assms f r by (cases "LSN_is_valid ?l") (auto simp: flush_log_for_def log_ready_def Let_def)
qed

lemma write_back_live:
  assumes core: "core_ok bp" and f: "unat f < bp_pool_size bp" "fr_valid (frame_of bp f)" and h: "healthy bp"
  shows "\<exists>bp'. write_back f bp = (bp', Inr (Inr ())) \<and> healthy bp' \<and> (\<forall>i. readable (bp_disk bp) i \<longrightarrow> readable (bp_disk bp') i)"
proof -
  let ?p = "fr_page (frame_of bp f)" and ?d = "bp_disk bp"
  obtain bp1 where b1: "flush_log_for (frame_of bp f) bp = (bp1, Inr ())" "log_ready bp1"
    using flush_log_for_ready h by (auto simp: healthy_def)
  have sel: "bp_frames bp1 = bp_frames bp" "bp_disk bp1 = ?d" by (subst flush_log_for_eq [OF b1(1)], simp)+
  have ok: "disk_ok ?d" by (rule core_okD(5) [OF core])
  have F: "addressable ?d (pg_id ?p)" and len: "length (pg_data ?p) = dk_page_size ?d"
    using core_okD(6) [OF core f] by (simp_all add: frame_ok_def)
  obtain d' p' where w: "write_page ?d ?p = (d', p', Inr ())" "quiet d'"
    using write_page_quiet [OF ok _ F len] h by (auto simp: healthy_def)
  have rd: "readable d' i" if r: "readable ?d i" for i
  proof (cases "i = pg_id ?p")
    case True
    have "36 \<le> length (pg_data ?p)" using ok len by (simp add: disk_ok_def)
    then show ?thesis using write_page_same [OF ok w(1) len] True checksum_ok_stamped by (auto simp: readable_def)
  next
    case False
    then show ?thesis using r write_page_other [OF ok w(1) len False] by (auto simp: readable_def)
  qed
  have "log_ready (set_frame f fr (bp1\<lparr>bp_disk := d', bp_flushes := n\<rparr>))" for fr n
    using b1(2) by (simp add: log_ready_def set_frame_def)
  then show ?thesis
    using b1 sel w rd by (simp add: write_back_def Let_def healthy_def set_frame_def log_ready_def)
qed

lemma load_frame_live:
  assumes core: "core_ok bp" and f: "unat f < bp_pool_size bp" and h: "healthy bp" and rd: "readable (bp_disk bp) i"
  shows "\<exists>bp'. load_frame i f bp = (bp', Inr (Inr f)) \<and> healthy bp' \<and> (\<forall>j. readable (bp_disk bp) j \<longrightarrow> readable (bp_disk bp') j)"
proof -
  let ?wb = "if fr_valid (frame_of bp f) \<and> fr_dirty (frame_of bp f) then write_back f bp else (bp, Inr (Inr ()))"
  have "\<exists>bp1. ?wb = (bp1, Inr (Inr ())) \<and> healthy bp1 \<and> disk_ok (bp_disk bp1) \<and> (\<forall>j. readable (bp_disk bp) j \<longrightarrow> readable (bp_disk bp1) j)"
  proof (cases "fr_valid (frame_of bp f) \<and> fr_dirty (frame_of bp f)")
    case True
    then obtain bp1 where w: "write_back f bp = (bp1, Inr (Inr ()))" "healthy bp1"
      "\<forall>j. readable (bp_disk bp) j \<longrightarrow> readable (bp_disk bp1) j"
      using write_back_live [OF core f _ h] by blast
    moreover have "disk_ok (bp_disk bp1)" using write_back_ok(1) [OF core f _ _ w(1)] True by (simp add: core_okD(5))
    ultimately show ?thesis using True by simp
  qed (use h core_okD(5) [OF core] in auto)
  then obtain bp1 where b1: "?wb = (bp1, Inr (Inr ()))" "healthy bp1" "disk_ok (bp_disk bp1)"
    "\<forall>j. readable (bp_disk bp) j \<longrightarrow> readable (bp_disk bp1) j" by blast
  obtain b where b: "disk_page (bp_disk bp1) i = Some b" "i = 0 \<or> checksum_ok b" using b1(4) rd by (auto simp: readable_def)
  obtain d' where r: "read_page (bp_disk bp1) i = (d', Inr \<lparr>pg_id = i, pg_data = b, pg_dirty = False\<rparr>)" "quiet d'"
    using read_page_quiet [OF b1(3) _ b] b1(2) by (auto simp: healthy_def)
  have "readable d' j = readable (bp_disk bp1) j" for j using read_page_frame(1) [OF r(1)] by (simp add: readable_def)
  then show ?thesis
    using b1 r by (simp add: load_frame_def Let_def healthy_def log_ready_def on_replacer_def set_frame_def)
qed

lemma fetch_page_live:
  assumes ok: "bp_ok bp" and h: "healthy bp" and rd: "readable (bp_disk bp) i"
    and room: "mapped bp i g \<or> bp_free_list bp \<noteq> [] \<or> candidates (bp_replacer bp) \<noteq> {}"
  shows "\<exists>bp' f. fetch_page i bp = (bp', Inr (Inr f)) \<and> healthy bp' \<and> (\<forall>j. readable (bp_disk bp) j \<longrightarrow> readable (bp_disk bp') j)"
proof (cases "map_of (bp_page_table bp) i")
  case (Some f)
  then show ?thesis using h by (simp add: fetch_page_def healthy_def log_ready_def on_replacer_def set_frame_def)
next
  case None
  let ?bp0 = "bp\<lparr>bp_misses := bp_misses bp + 1\<rparr>"
  have ok0: "bp_ok ?bp0" and n0: "map_of (bp_page_table ?bp0) i = None" using ok None by simp_all
  have room': "bp_free_list bp \<noteq> [] \<or> candidates (bp_replacer bp) \<noteq> {}"
    using room None by (auto simp: mapped_def map_of_eq_None_iff image_iff)
  obtain bp1 x where ff: "find_frame ?bp0 = (bp1, x)" by fastforce
  have "x \<noteq> None"
  proof
    assume "x = None"
    then have "bp_free_list bp = [] \<and> snd (victim (bp_replacer bp)) = None"
      using ff by (auto simp: find_frame_def split: list.splits prod.splits option.splits)
    then show False using room' ck.pick_iff [of "bp_replacer bp"] ok by (simp add: bp_ok_def core_okD(4))
  qed
  then obtain f where x: "x = Some f" by blast
  let ?bp2 = "claim_frame i f bp1"
  note C = find_claim [OF ok0 n0 ff [unfolded x]]
  have d: "bp_disk ?bp2 = bp_disk bp" "bp_wal ?bp2 = bp_wal bp"
    using ff x by (auto simp: find_frame_def claim_frame_def Let_def on_replacer_def set_frame_def split: list.splits prod.splits option.splits)
  have "healthy ?bp2" "readable (bp_disk ?bp2) i" "unat f < bp_pool_size ?bp2"
    using h rd C(7,9) by (simp_all add: healthy_def log_ready_def d)
  from load_frame_live [OF C(1) this(3,1,2)] show ?thesis
    using None ff x d by (auto simp: fetch_page_def)
qed



lemma BufferPool_init_ok:
  assumes "disk_ok d" "n < 2 ^ 32"
  shows "bp_ok (BufferPool_init n d w)" "pool_pins (BufferPool_init n d w) f = 0"
    "pool_view (BufferPool_init n d w) = disk_page d"
proof -
  let ?bp = "BufferPool_init n d w"
  have inv: "\<not> fr_valid (bp_frames ?bp ! k)" "fr_pin_count (bp_frames ?bp ! k) = 0" if "k < n" for k
    using that by (simp_all add: BufferPool_init_def BufferFrame_init_def)
  have sel: "bp_pool_size ?bp = n" "bp_page_table ?bp = []" "bp_free_list ?bp = map of_nat [0..<n]" "bp_disk ?bp = d"
    "bp_replacer ?bp = ClockReplacer_init n" "length (bp_frames ?bp) = n" by (simp_all add: BufferPool_init_def)
  have fit: "unat (of_nat k :: frame_id) = k" if "k < n" for k using that assms(2) by (intro unat_of_nat_fits) simp
  have n: "n < 4294967296" using assms(2) by simp
  have c: "clock_ok (ClockReplacer_init n)" "ck_num_frames (ClockReplacer_init n) = n" "candidates (ClockReplacer_init n) = {}"
    using n by (auto simp: clock_ok_def ClockReplacer_init_def candidates_def evictable_def)
  have core: "core_ok ?bp" using assms(1) c inv n by (intro core_okI) (simp_all add: sel)
  have "distinct (map of_nat [0..<n] :: frame_id list)"
    using fit by (auto simp: distinct_map inj_on_def) (metis fit)
  then have "index_ok ?bp"
    using inv fit c by (intro index_okI) (auto simp: sel)
  with core show "bp_ok ?bp" by (simp add: bp_ok_def)
  show "pool_pins ?bp f = 0" using inv by (simp add: pool_pins_def sel)
  show "pool_view ?bp = disk_page d" using pool_view_disk [OF core] inv by (auto simp: sel fun_eq_iff)
qed

lemma handle_unpin_evictable:
  assumes "bp_ok bp" "mapped bp i f" "pool_pins bp f = 1"
  shows "unat f \<in> candidates (bp_replacer (handle_unpin f bp))"
proof -
  have core: "core_ok bp" using assms(1) by (simp add: bp_ok_def)
  have f: "unat f < bp_pool_size bp" using index_okD(3) [of bp i f] assms by (simp add: bp_ok_def mapped_def)
  then have "bp_replacer (handle_unpin f bp) = clock_unpin f (bp_replacer bp)"
    using assms(3) core_okD(1) [OF core] by (simp add: handle_unpin_def unpin_page_def set_frame_def on_replacer_def frame_unpin_def pool_pins_def)
  then show ?thesis using ck.unpin_ok [OF core_okD(4) [OF core], of f] core_okD(3) [OF core] f by simp
qed

lemma handle_frame [simp]:
  "bp_disk (handle_unpin f bp) = bp_disk bp" "bp_disk (handle_modify f g bp) = bp_disk bp"
  "healthy (handle_unpin f bp) = healthy bp" "healthy (handle_modify f g bp) = healthy bp"
  by (simp_all add: handle_unpin_def handle_modify_def handle_mark_dirty_def unpin_page_def set_frame_def on_replacer_def Let_def healthy_def log_ready_def)

text \<open>A pool of one frame over a disk on which page 1 has been written.\<close>

lemma example_pool:
  obtains bp where "bp_ok bp" "\<forall>f. pool_pins bp f = 0" "healthy bp" "readable (bp_disk bp) 0" "readable (bp_disk bp) 1"
    "bp_free_list bp \<noteq> []" "bp_pool_size bp = 1"
proof -
  obtain d p' where w: "write_page (example_disk 3) (new_page 1 100) = (d, p', Inr ())" "quiet d"
    using example_write(2) by blast
  have len: "length (pg_data (new_page 1 100)) = dk_page_size (example_disk 3)"
    by (simp add: new_page_def example_disk_def)
  have ok: "disk_ok d" by (rule write_page_frame(1) [OF example_write(1) w(1)])
  have "readable d 1" using write_page_same [OF example_write(1) w(1) len] checksum_ok_stamped by (simp add: readable_def new_page_def)
  moreover have "disk_page (example_disk 3) 0 \<noteq> None"
    by (simp add: disk_page_def addressable_def example_disk_def dk_content_def)
  then obtain b where "disk_page (example_disk 3) 0 = Some b" by blast
  then have "readable d 0" using write_page_other [OF example_write(1) w(1) len, of 0 b] by (simp add: readable_def new_page_def)
  ultimately show ?thesis
    using that [of "BufferPool_init 1 d None"] BufferPool_init_ok [OF ok, of 1 None] w(2)
    by (simp add: healthy_def log_ready_def) (simp add: BufferPool_init_def)
qed


text \<open>Page 1 is fetched and changed, and its handle released.\<close>

lemma example_store:
  obtains bp f bp1 bp2 where "bp_ok bp" "\<forall>g. pool_pins bp g = 0" "fetch_page 1 bp = (bp1, Inr (Inr f))"
    "bp2 = handle_unpin f (handle_modify f rev bp1)" "healthy bp2" "readable (bp_disk bp2) 0" "readable (bp_disk bp2) 1"
    "candidates (bp_replacer bp2) \<noteq> {}" "bp_ok bp2" "\<forall>g. pool_pins bp2 g = 0" "mapped bp2 1 f" "bp_pool_size bp2 = 1"
    "fr_dirty (frame_of bp2 f)"
proof -
  obtain bp where b: "bp_ok bp" "\<forall>f. pool_pins bp f = 0" "healthy bp" "readable (bp_disk bp) 0" "readable (bp_disk bp) 1"
    "bp_free_list bp \<noteq> []" "bp_pool_size bp = 1" by (rule example_pool)
  obtain bp1 f where f: "fetch_page 1 bp = (bp1, Inr (Inr f))" "healthy bp1" "\<And>j. readable (bp_disk bp) j \<Longrightarrow> readable (bp_disk bp1) j"
    using fetch_page_live [OF b(1,3,5)] b(6) by blast
  let ?m = "handle_modify f rev bp1" and ?bp2 = "handle_unpin f (handle_modify f rev bp1)"
  note F = fetch_page_ok [OF b(1) f(1)]
  have ok1: "bp_ok bp1" and m: "mapped bp1 1 f" and sz: "bp_pool_size bp1 = 1" using F(1,3) b(7) by simp_all
  note M = handle_modify_ok [OF ok1 m, of rev, simplified]
  have mm: "mapped ?m 1 f" and p1: "pool_pins ?m f = 1" using M F(2) m b(2) by simp_all
  note U = handle_unpin_ok [OF M(1) mm]
  have fn: "unat f < length (bp_frames bp1)"
    using index_okD(3) [of bp1 1 f] core_okD(1) [of bp1] ok1 m by (simp add: bp_ok_def mapped_def)
  have dirty: "fr_dirty (frame_of ?bp2 f)" "bp_pool_size ?bp2 = 1"
    using fn less_le_trans [OF _ fn [unfolded less_eq_Suc_le], of 0] sz by (simp_all add: handle_unpin_def handle_modify_def handle_mark_dirty_def unpin_page_def set_frame_def on_replacer_def Let_def)
  show ?thesis
  proof (rule that [OF b(1,2) f(1) refl])
    show "healthy ?bp2" "readable (bp_disk ?bp2) 0" "readable (bp_disk ?bp2) 1" using f b(4,5) by simp_all
    show "candidates (bp_replacer ?bp2) \<noteq> {}" using handle_unpin_evictable [OF M(1) mm p1] by blast
    show "bp_ok ?bp2" "mapped ?bp2 1 f" using U p1 mm by simp_all
    show "\<forall>g. pool_pins ?bp2 g = 0" using U(3) p1 M(3) F(2) b(2) by simp
  qed (use dirty in simp_all)
qed


theorem cached_write_survives_witness:
  "\<exists>bp bp1 f bp2 bp3 h. fetch_page 1 bp = (bp1, Inr (Inr f)) \<and> bp_pool_size bp2 = 1 \<and>
     visit_pages [0] (handle_unpin f (handle_modify f rev bp1)) = Inr bp2 \<and> fetch_page 1 bp2 = (bp3, Inr (Inr h)) \<and>
     page_body (pg_data (handle_get h bp3)) = page_body (rev (pg_data (handle_get f bp1)))"
proof -
  obtain bp f bp1 bp2 where b: "bp_ok bp" "\<forall>g. pool_pins bp g = 0" "fetch_page 1 bp = (bp1, Inr (Inr f))"
    "bp2 = handle_unpin f (handle_modify f rev bp1)" "healthy bp2" "readable (bp_disk bp2) 0" "readable (bp_disk bp2) 1"
    "candidates (bp_replacer bp2) \<noteq> {}" "bp_ok bp2" "\<forall>g. pool_pins bp2 g = 0" "bp_pool_size bp2 = 1"
    by (rule example_store)
  obtain bp3 h where h: "fetch_page 0 bp2 = (bp3, Inr (Inr h))" "healthy bp3" "readable (bp_disk bp3) 1"
    using fetch_page_live [OF b(9,5,6)] b(7,8) by blast
  note F = fetch_page_ok [OF b(9) h(1)]
  let ?bp4 = "handle_unpin h bp3"
  have m: "mapped bp3 0 h" and p: "pool_pins bp3 h = 1" and ok3: "bp_ok bp3" using F b(10) by simp_all
  have ev: "candidates (bp_replacer ?bp4) \<noteq> {}" using handle_unpin_evictable [OF ok3 m p] by blast
  have ok4: "bp_ok ?bp4" and sz: "bp_pool_size ?bp4 = 1" using handle_unpin_ok(1) [OF ok3 m] p F(1) b(11)
    by (simp_all add: handle_unpin_def unpin_page_def set_frame_def on_replacer_def)
  obtain bp5 k where k: "fetch_page 1 ?bp4 = (bp5, Inr (Inr k))"
    using fetch_page_live [OF ok4, of 1] h(2,3) ev by auto
  have v: "visit_pages [0] (handle_unpin f (handle_modify f rev bp1)) = Inr ?bp4" using h(1) b(4) by simp
  have "page_body (pg_data (handle_get k bp5)) = page_body (rev (pg_data (handle_get f bp1)))"
    by (rule cached_write_survives [OF b(1) _ b(3) _ v k]) (use b(2) in simp_all)
  with b(3) v k sz show ?thesis by blast
qed

section \<open>Flushing\<close>

lemma index_ok_cong:
  assumes "same_index bp bp'" "core_ok bp" "index_ok bp"
  shows "index_ok bp'"
proof -
  note d = same_indexD [OF assms(1)] and I = index_okD [OF assms(3)]
  have c: "unat g \<in> candidates (bp_replacer bp) \<Longrightarrow> unat g < bp_pool_size bp" for g :: frame_id
    using core_okD(3,4) [OF assms(2)] ck.cands_bound [of "bp_replacer bp"] by auto
  show ?thesis
  proof (rule index_okI, unfold d(1-4))
    show "unat g < bp_pool_size bp \<and> fr_valid (frame_of bp' g) \<and> fr_page_id (frame_of bp' g) = j \<and> g \<notin> set (bp_free_list bp)"
      if "(j, g) \<in> set (bp_page_table bp)" for j g
      using I(3) [OF that] d(5-7) [of g] by simp
    show "unat g < bp_pool_size bp \<and> fr_pin_count (frame_of bp' g) = 0" if "g \<in> set (bp_free_list bp)" for g
      using I(4) [OF that] d(7) [of g] by simp
    show "(fr_page_id (frame_of bp' g), g) \<in> set (bp_page_table bp) \<or> bp_free_list bp = [g] \<and> fr_page_id (frame_of bp' g) \<notin> fst ` set (bp_page_table bp)"
      if "unat g < bp_pool_size bp" "fr_valid (frame_of bp' g)" for g
      using I(5) [of g] that d(5,6) [of g] by simp
    show "g \<in> set (bp_free_list bp) \<or> (fr_page_id (frame_of bp' g), g) \<in> set (bp_page_table bp) \<and> fr_pin_count (frame_of bp' g) = 0"
      if "unat g \<in> candidates (bp_replacer bp)" for g
      using I(6) [OF that] d(6,7) [OF c [OF that]] by simp
  qed (use I in simp_all)
qed

lemma same_index_refl: "same_index bp bp"
  by (simp add: same_index_def)

lemma same_index_trans: "same_index bp bp1 \<Longrightarrow> same_index bp1 bp2 \<Longrightarrow> same_index bp bp2"
  unfolding same_index_def by simp

lemma flush_frames_ok:
  assumes "flush_frames fs bp = (bp', Inr r)" "core_ok bp" "\<And>f. f \<in> set fs \<Longrightarrow> unat f < bp_pool_size bp"
  shows "core_ok bp' \<and> same_index bp bp' \<and> same_view bp bp' \<and>
    (\<forall>g. unat g < bp_pool_size bp \<longrightarrow> fr_dirty (frame_of bp' g) \<longrightarrow> fr_dirty (frame_of bp g)) \<and>
    (\<forall>g. unat g < bp_pool_size bp \<longrightarrow> g \<notin> set fs \<longrightarrow> frame_of bp' g = frame_of bp g) \<and>
    (r = Inr () \<longrightarrow> (\<forall>g\<in>set fs. fr_valid (frame_of bp' g) \<longrightarrow> \<not> fr_dirty (frame_of bp' g)))"
  using assms
proof (induction fs arbitrary: bp)
  case Nil
  then show ?case by (simp add: same_index_refl same_view_refl)
next
  case (Cons f fs)
  have fn: "unat f < bp_pool_size bp" using Cons.prems(3) by simp
  show ?case
  proof (cases "fr_valid (frame_of bp f) \<and> fr_dirty (frame_of bp f)")
    case False
    note IH = Cons.IH [of bp]
    have p: "flush_frames fs bp = (bp', Inr r)" using Cons.prems(1) False by auto
    have H: "core_ok bp' \<and> same_index bp bp' \<and> same_view bp bp' \<and>
      (\<forall>g. unat g < bp_pool_size bp \<longrightarrow> fr_dirty (frame_of bp' g) \<longrightarrow> fr_dirty (frame_of bp g)) \<and>
      (\<forall>g. unat g < bp_pool_size bp \<longrightarrow> g \<notin> set fs \<longrightarrow> frame_of bp' g = frame_of bp g) \<and>
      (r = Inr () \<longrightarrow> (\<forall>g\<in>set fs. fr_valid (frame_of bp' g) \<longrightarrow> \<not> fr_dirty (frame_of bp' g)))"
      by (rule IH [OF p Cons.prems(2)]) (use Cons.prems(3) in simp)
    moreover have "fr_valid (frame_of bp' f) \<longrightarrow> \<not> fr_dirty (frame_of bp' f)"
      using H False fn same_indexD(5) [of bp bp' f] by blast
    ultimately show ?thesis by auto
  next
    case True
    obtain bp1 x where w: "write_back f bp = (bp1, x)" by fastforce
    show ?thesis
    proof (cases "x = Inr (Inr ())")
      case False
      then have e: "bp' = bp1" "x = Inr r" "r \<noteq> Inr ()"
        using Cons.prems(1) True w by (auto split: sum.splits)
      note W = write_back_ok [OF Cons.prems(2) fn conjunct1 [OF True] conjunct2 [OF True] w [unfolded e(2)]]
      show ?thesis using W e True by (metis list.set_intros(1))
    next
      case x: True
      note W = write_back_ok [OF Cons.prems(2) fn conjunct1 [OF True] conjunct2 [OF True] w [unfolded x]]
      have p: "flush_frames fs bp1 = (bp', Inr r)" using Cons.prems(1) True w x by simp
      have sz: "bp_pool_size bp1 = bp_pool_size bp" by (rule same_indexD(1) [OF W(2)])
      have H: "core_ok bp' \<and> same_index bp1 bp' \<and> same_view bp1 bp' \<and>
        (\<forall>g. unat g < bp_pool_size bp1 \<longrightarrow> fr_dirty (frame_of bp' g) \<longrightarrow> fr_dirty (frame_of bp1 g)) \<and>
        (\<forall>g. unat g < bp_pool_size bp1 \<longrightarrow> g \<notin> set fs \<longrightarrow> frame_of bp' g = frame_of bp1 g) \<and>
        (r = Inr () \<longrightarrow> (\<forall>g\<in>set fs. fr_valid (frame_of bp' g) \<longrightarrow> \<not> fr_dirty (frame_of bp' g)))"
        by (rule Cons.IH [OF p W(1)]) (use Cons.prems(3) sz in simp)
      have d: "fr_dirty (frame_of bp g)" if "unat g < bp_pool_size bp" "fr_dirty (frame_of bp1 g)" for g
        using that W(5) [of g] True by (cases "g = f") simp_all
      have "\<not> fr_dirty (frame_of bp' f)" using H W(4) fn sz by auto
      with H W d sz show ?thesis by (auto intro: same_index_trans same_view_trans)
    qed
  qed
qed

lemma flush_all_ok:
  assumes ok: "bp_ok bp" and res: "flush_all bp = (bp', Inr r)"
  shows "bp_ok bp'" "same_view bp bp'" "mapped bp' = mapped bp"
    and "\<And>g. unat g < bp_pool_size bp \<Longrightarrow> (\<And>i. \<not> mapped bp i g) \<Longrightarrow> frame_of bp' g = frame_of bp g"
    and "\<And>i g. r = Inr () \<Longrightarrow> mapped bp i g \<Longrightarrow> \<not> fr_dirty (frame_of bp' g)"
proof -
  have core: "core_ok bp" and idx: "index_ok bp" using ok by (simp_all add: bp_ok_def)
  have fs: "unat f < bp_pool_size bp" if "f \<in> set (map snd (bp_page_table bp))" for f
    using that index_okD(3) [OF idx] by auto
  note F = flush_frames_ok [OF res [unfolded flush_all_def] core fs]
  show "bp_ok bp'" using F index_ok_cong [OF _ core idx] by (simp add: bp_ok_def)
  show "same_view bp bp'" using F by blast
  show "mapped bp' = mapped bp" using F same_indexD(2) [of bp bp'] by (simp add: fun_eq_iff mapped_def)
  show "frame_of bp' g = frame_of bp g" if "unat g < bp_pool_size bp" "\<And>i. \<not> mapped bp i g" for g
    using F that by (force simp: mapped_def)
  show "\<not> fr_dirty (frame_of bp' g)" if "r = Inr ()" "mapped bp i g" for i g
  proof -
    have "g \<in> set (map snd (bp_page_table bp))" using that(2) by (force simp: mapped_def)
    moreover have "fr_valid (frame_of bp' g)"
      using F index_okD(3) [OF idx, of i g] that(2) same_indexD(5) [of bp bp' g] by (simp add: mapped_def)
    ultimately show ?thesis using F that(1) by blast
  qed
qed

text \<open>When \<open>flush_all\<close> succeeds, every page in the page table is on disk with the contents its users see
  (up to the checksum field); no page changes for the users, whether or not the flush succeeds.\<close>
lemma flush_all_saves:
  assumes "bp_ok bp" "flush_all bp = (bp', Inr r)"
  shows "bp_ok bp' \<and> same_view bp bp' \<and>
    (r = Inr () \<longrightarrow> (\<forall>i f. mapped bp i f \<longrightarrow>
       (\<exists>b b'. pool_view bp i = Some b \<and> disk_page (bp_disk bp') i = Some b' \<and> page_body b' = page_body b)))"
proof (intro conjI impI allI)
  note F = flush_all_ok [OF assms]
  show "bp_ok bp'" "same_view bp bp'" by (rule F)+
  fix i f assume r: "r = Inr ()" and m: "mapped bp i f"
  have "mapped bp' i f" using F(3) m by simp
  then have f: "unat f < bp_pool_size bp'" "fr_valid (frame_of bp' f)" "fr_page_id (frame_of bp' f) = i"
    using index_okD(3) [of bp' i f] F(1) by (simp_all add: bp_ok_def mapped_def)
  have core': "core_ok bp'" using F(1) by (simp add: bp_ok_def)
  have g: "unat f < bp_pool_size bp" "fr_valid (frame_of bp f)" "fr_page_id (frame_of bp f) = i"
    using index_okD(3) [of bp i f] assms(1) m by (simp_all add: bp_ok_def mapped_def)
  have v: "pool_view bp i = Some (pg_data (fr_page (frame_of bp f)))"
    using pool_view_held [OF _ g] assms(1) by (simp add: bp_ok_def)
  have "pool_view bp' i = Some (pg_data (fr_page (frame_of bp' f)))" by (rule pool_view_held [OF core' f])
  moreover obtain b' where "disk_page (bp_disk bp') i = Some b'" "page_body b' = page_body (pg_data (fr_page (frame_of bp' f)))"
    using core_okD(6) [OF core' f(1,2)] F(5) [OF r m] f(3) by (auto simp: frame_ok_def)
  ultimately show "\<exists>b b'. pool_view bp i = Some b \<and> disk_page (bp_disk bp') i = Some b' \<and> page_body b' = page_body b"
    using v F(2) by (fastforce simp: same_view_def)
qed

lemma flush_frames_live:
  assumes "core_ok bp" "healthy bp" "\<And>f. f \<in> set fs \<Longrightarrow> unat f < bp_pool_size bp"
  shows "\<exists>bp'. flush_frames fs bp = (bp', Inr (Inr ()))"
  using assms
proof (induction fs arbitrary: bp)
  case (Cons f fs)
  show ?case
  proof (cases "fr_valid (frame_of bp f) \<and> fr_dirty (frame_of bp f)")
    case True
    have fn: "unat f < bp_pool_size bp" using Cons.prems(3) by simp
    obtain bp1 where w: "write_back f bp = (bp1, Inr (Inr ()))" "healthy bp1"
      using write_back_live [OF Cons.prems(1) fn _ Cons.prems(2)] True by blast
    note W = write_back_ok [OF Cons.prems(1) fn conjunct1 [OF True] conjunct2 [OF True] w(1)]
    show ?thesis using Cons.IH [OF W(1) w(2)] Cons.prems(3) same_indexD(1) [OF W(2)] w(1) True by simp
  qed (use Cons in auto)
qed simp

text \<open>
  The failure path of an eviction. The frame goes to the free list still valid and dirty, and its page
  leaves the page table.
\<close>

lemma flush_log_for_frames:
  assumes "flush_log_for fr bp = (bp', r)"
  shows "bp_frames bp' = bp_frames bp" "bp_disk bp' = bp_disk bp"
  by (subst flush_log_for_eq [OF assms], simp)+

lemma write_back_flags:
  assumes "write_back f bp = (bp', Inr (Inl e))"
  shows "unat f < length (bp_frames bp) \<Longrightarrow> fr_dirty (frame_of bp' f) = fr_dirty (frame_of bp f)"
  using assms
  by (auto simp: write_back_def set_frame_def Let_def dest!: flush_log_for_frames(1) split: prod.splits sum.splits)


lemma write_page_fault:
  assumes ok: "disk_ok d" and q: "os_faults (dk_os d) = [Some 0]" "\<not> fm_fail (dk_fm d)" and a: "addressable d (pg_id p)"
  shows "\<exists>d' p'. write_page d p = (d', p', Inl IOError)"
proof -
  have ps: "0 < dk_page_size d" "dk_page_size d < 2 ^ 64" using ok by (simp_all add: disk_ok_def)
  let ?off = "pg_id p * of_nat (dk_page_size d) :: u64"
  have lt: "unat (pg_id p) * dk_page_size d < 2 ^ 64" "is_valid_id (pg_id p)" using a by (simp_all add: addressable_def)
  have co: "calculate_offset d (pg_id p) = Inr ?off" and uo: "unat ?off = unat (pg_id p) * dk_page_size d"
    using calculate_offset_eq [OF ps] unat_offset [OF ps(2) lt(1)] lt by simp_all
  have "\<not> seek_fails ?off (dk_fm d)" using q a uo by (simp add: seek_fails_def addressable_def)
  then show ?thesis
    using ok co q by (simp add: write_page_def disk_ok_def on_file_def file_write_at_def take_fault_def Let_def)
qed


lemma write_back_fault:
  assumes core: "core_ok bp" and f: "unat f < bp_pool_size bp" "fr_valid (frame_of bp f)"
    and q: "log_ready bp" "os_faults (dk_os (bp_disk bp)) = [Some 0]" "\<not> fm_fail (dk_fm (bp_disk bp))"
  shows "\<exists>bp'. write_back f bp = (bp', Inr (Inl IOError))"
proof -
  let ?p = "fr_page (frame_of bp f)" and ?d = "bp_disk bp"
  obtain bp1 where b1: "flush_log_for (frame_of bp f) bp = (bp1, Inr ())"
    using flush_log_for_ready [OF q(1)] by blast
  have "addressable ?d (pg_id ?p)" using core_okD(6) [OF core f] by (simp add: frame_ok_def)
  then obtain d' p' where "write_page ?d ?p = (d', p', Inl IOError)"
    using write_page_fault [OF core_okD(5) [OF core] q(2,3)] by blast
  then show ?thesis using b1 flush_log_for_frames [OF b1] by (simp add: write_back_def Let_def)
qed

lemma bp_ok_faults:
  assumes "bp_ok bp"
  shows "bp_ok (bp\<lparr>bp_disk := (bp_disk bp)\<lparr>dk_os := (dk_os (bp_disk bp))\<lparr>os_faults := fs\<rparr>\<rparr>\<rparr>)"
proof -
  let ?d = "(bp_disk bp)\<lparr>dk_os := (dk_os (bp_disk bp))\<lparr>os_faults := fs\<rparr>\<rparr>"
  have "dk_content ?d = dk_content (bp_disk bp)" by (simp add: dk_content_def)
  then have "disk_page ?d = disk_page (bp_disk bp)" "disk_ok ?d = disk_ok (bp_disk bp)" "addressable ?d = addressable (bp_disk bp)"
    by (simp_all add: fun_eq_iff disk_page_def disk_ok_def addressable_def)
  then show ?thesis using assms by (simp add: bp_ok_def core_ok_def index_ok_def frame_ok_def)
qed





end
