(* ===== verification/Wait_For_Graph.thy ===== *)
theory Wait_For_Graph
  imports Core_Base "HOL-Library.AList"
begin

text \<open>
  \<open>wait_for_graph.hpp/.cpp\<close>: the graph of transactions that wait for each other, and the search for a
  deadlock. The hash map of hash sets is an association list of lists, whose orders stand for the
  unspecified iteration orders: the theorems hold for every list. The recursion of \<open>dfs_visit\<close> carries
  fuel; it never runs out when it starts with one more than the number of nodes.
\<close>

type_synonym txn_id = u64
type_synonym wfg = "(txn_id \<times> txn_id list) list"

section \<open>Edges\<close>

definition succs :: "wfg \<Rightarrow> txn_id \<Rightarrow> txn_id list" where
  "succs g n = (case map_of g n of None \<Rightarrow> [] | Some hs \<Rightarrow> hs)"

definition add_edge :: "txn_id \<Rightarrow> txn_id \<Rightarrow> wfg \<Rightarrow> wfg" where
  "add_edge waiting holding g =
     (if waiting = holding then g else AList.update waiting (List.insert holding (succs g waiting)) g)"

definition remove_edge :: "txn_id \<Rightarrow> txn_id \<Rightarrow> wfg \<Rightarrow> wfg" where
  "remove_edge waiting holding g =
     (case map_of g waiting of
        None \<Rightarrow> g
      | Some hs \<Rightarrow>
          let hs = removeAll holding hs in
          if hs = [] then AList.delete waiting g else AList.update waiting hs g)"

definition remove_transaction :: "txn_id \<Rightarrow> wfg \<Rightarrow> wfg" where
  "remove_transaction txn g =
     filter (\<lambda>(_, hs). hs \<noteq> []) (map (\<lambda>(w, hs). (w, removeAll txn hs)) (AList.delete txn g))"

section \<open>Cycle detection\<close>

text \<open>Result of the search: found, visited, stack and path; \<open>None\<close> when out of fuel.\<close>

type_synonym dfs_result = "(bool \<times> txn_id list \<times> txn_id list \<times> txn_id list) option"

fun dfs_visit :: "nat \<Rightarrow> wfg \<Rightarrow> txn_id \<Rightarrow> txn_id list \<Rightarrow> txn_id list \<Rightarrow> txn_id list \<Rightarrow> dfs_result"
  and dfs_neighbors :: "nat \<Rightarrow> wfg \<Rightarrow> txn_id list \<Rightarrow> txn_id list \<Rightarrow> txn_id list \<Rightarrow> txn_id list \<Rightarrow> dfs_result" where
  "dfs_visit 0 g node visited stack path = None"
| "dfs_visit (Suc k) g node visited stack path =
     (case dfs_neighbors k g (succs g node) (node # visited) (node # stack) (path @ [node]) of
        None \<Rightarrow> None
      | Some (found, visited, stack, path) \<Rightarrow>
          if found then Some (True, visited, stack, path)
          else Some (False, visited, removeAll node stack, butlast path))"
| "dfs_neighbors k g [] visited stack path = Some (False, visited, stack, path)"
| "dfs_neighbors k g (n # ns) visited stack path =
     (if n \<in> set stack then Some (True, visited, stack, path @ [n])
      else if n \<notin> set visited
      then case dfs_visit k g n visited stack path of
             None \<Rightarrow> None
           | Some (found, visited, stack, path) \<Rightarrow>
               if found then Some (True, visited, stack, path)
               else dfs_neighbors k g ns visited stack path
      else dfs_neighbors k g ns visited stack path)"

definition graph_nodes :: "wfg \<Rightarrow> txn_id list" where
  "graph_nodes g = map fst g @ concat (map snd g)"

text \<open>The youngest transaction of the path.\<close>

definition pick_victim :: "txn_id list \<Rightarrow> txn_id" where
  "pick_victim path = fold (\<lambda>txn v. if txn > v then txn else v) path (hd path)"

fun detect_from :: "nat \<Rightarrow> wfg \<Rightarrow> txn_id list \<Rightarrow> txn_id list \<Rightarrow> txn_id list \<Rightarrow> txn_id list option" where
  "detect_from k g [] visited stack = None"
| "detect_from k g (node # nodes) visited stack =
     (if node \<notin> set visited
      then case dfs_visit k g node visited stack [] of
             None \<Rightarrow> None
           | Some (found, visited, stack, path) \<Rightarrow>
               if found then Some path else detect_from k g nodes visited stack
      else detect_from k g nodes visited stack)"

definition detect_path :: "wfg \<Rightarrow> txn_id list option" where
  "detect_path g = detect_from (Suc (length (graph_nodes g))) g (map fst g) [] []"

definition detect_cycle :: "wfg \<Rightarrow> txn_id option" where
  "detect_cycle g = map_option pick_victim (detect_path g)"

section \<open>Correctness of the search\<close>

definition waits :: "wfg \<Rightarrow> (txn_id \<times> txn_id) set" where
  "waits g = {(a, b). b \<in> set (succs g a)}"

definition unvisited :: "wfg \<Rightarrow> txn_id list \<Rightarrow> nat" where
  "unvisited g V = card (set (graph_nodes g) - set V)"

text \<open>Nodes that are done lead to done nodes only and lie on no cycle.\<close>

definition search_inv :: "wfg \<Rightarrow> txn_id list \<Rightarrow> txn_id list \<Rightarrow> bool" where
  "search_inv g V S \<longleftrightarrow> set S \<subseteq> set V \<and>
     (\<forall>x\<in>set V - set S. set (succs g x) \<subseteq> set V - set S \<and> (x, x) \<notin> (waits g)\<^sup>+)"

definition path_inv :: "wfg \<Rightarrow> txn_id list \<Rightarrow> bool" where
  "path_inv g P \<longleftrightarrow> (\<forall>i. Suc i < length P \<longrightarrow> (P ! i, P ! Suc i) \<in> waits g)"

lemma succs_None: "map_of g a = None \<Longrightarrow> succs g a = []" and succs_Some: "map_of g a = Some hs \<Longrightarrow> succs g a = hs"
  by (simp_all add: succs_def)

lemma succs_nodes: "n \<in> set (succs g a) \<Longrightarrow> n \<in> set (graph_nodes g)"
proof (cases "map_of g a")
  case (Some hs)
  assume "n \<in> set (succs g a)"
  then have "(a, hs) \<in> set g" "n \<in> set hs" using Some by (auto simp: succs_def dest: map_of_SomeD)
  then show ?thesis by (force simp: graph_nodes_def)
qed (simp add: succs_def)

lemma path_inv_snoc:
  "path_inv g P \<Longrightarrow> (P \<noteq> [] \<Longrightarrow> (last P, n) \<in> waits g) \<Longrightarrow> path_inv g (P @ [n])"
  unfolding path_inv_def
proof (intro allI impI)
  fix i assume p: "\<forall>i. Suc i < length P \<longrightarrow> (P ! i, P ! Suc i) \<in> waits g" and l: "P \<noteq> [] \<Longrightarrow> (last P, n) \<in> waits g"
    and i: "Suc i < length (P @ [n])"
  show "((P @ [n]) ! i, (P @ [n]) ! Suc i) \<in> waits g"
  proof (cases "Suc i < length P")
    case False
    then have "Suc i = length P" "length P - 1 = i" "P \<noteq> []" using i by auto
    then show ?thesis using l by (simp add: nth_append last_conv_nth)
  qed (use p in \<open>simp add: nth_append\<close>)
qed

lemma path_inv_reach:
  assumes "path_inv g P" "j < length P" "i < j"
  shows "(P ! i, P ! j) \<in> (waits g)\<^sup>+"
  using assms(2,3)
proof (induction j)
  case (Suc j)
  have e: "(P ! j, P ! Suc j) \<in> waits g" using assms(1) Suc.prems by (simp add: path_inv_def)
  show ?case
  proof (cases "i = j")
    case False
    then have "(P ! i, P ! j) \<in> (waits g)\<^sup>+" using Suc by simp
    then show ?thesis using e by (rule trancl_into_trancl)
  qed (use e in auto)
qed simp

lemma unvisited_less:
  assumes "n \<in> set (graph_nodes g)" "n \<notin> set V"
  shows "unvisited g (n # V) < unvisited g V"
  unfolding unvisited_def using assms by (intro psubset_card_mono) auto

lemma unvisited_mono: "set V \<subseteq> set V' \<Longrightarrow> unvisited g V' \<le> unvisited g V"
  unfolding unvisited_def by (intro card_mono) auto

text \<open>A finished node whose successors are done joins the done nodes.\<close>

lemma search_inv_finish:
  assumes "search_inv g V (n # S)" "set (succs g n) \<subseteq> set V - set (n # S)" "n \<notin> set S"
  shows "search_inv g V S"
proof -
  let ?F = "set V - set (n # S)"
  have closed: "y \<in> ?F" if "(x, y) \<in> (waits g)\<^sup>+" "x \<in> ?F" for x y
    using that by (induction rule: trancl_induct) (use assms(1) in \<open>auto simp: search_inv_def waits_def\<close>)
  have "(n, n) \<notin> (waits g)\<^sup>+"
  proof
    assume "(n, n) \<in> (waits g)\<^sup>+"
    then obtain y where y: "(n, y) \<in> waits g" "y = n \<or> (y, n) \<in> (waits g)\<^sup>+" by (meson tranclD rtranclD)
    then have "y \<in> ?F" using assms(2) by (auto simp: waits_def)
    with y(2) closed show False by auto
  qed
  with assms show ?thesis by (auto simp: search_inv_def)
qed

definition cyclic_path :: "wfg \<Rightarrow> txn_id list \<Rightarrow> bool" where
  "cyclic_path g P \<longleftrightarrow> path_inv g P \<and> P \<noteq> [] \<and> last P \<in> set (butlast P)"

lemma cyclic_path_cycle: "cyclic_path g P \<Longrightarrow> (last P, last P) \<in> (waits g)\<^sup>+"
proof -
  assume c: "cyclic_path g P"
  then obtain i where i: "i < length P - 1" "P ! i = last P"
    by (auto simp: cyclic_path_def in_set_conv_nth nth_butlast)
  have "(P ! i, P ! (length P - 1)) \<in> (waits g)\<^sup>+"
    using c i(1) by (intro path_inv_reach) (auto simp: cyclic_path_def)
  then show ?thesis using i(2) c by (simp add: cyclic_path_def last_conv_nth)
qed

text \<open>What the search from a node, or over the remaining neighbours of the last node of the path, achieves.\<close>

definition dfs_post :: "wfg \<Rightarrow> txn_id list \<Rightarrow> txn_id list \<Rightarrow> txn_id list \<Rightarrow> txn_id set \<Rightarrow> dfs_result \<Rightarrow> bool" where
  "dfs_post g V S P N r \<longleftrightarrow>
     (case r of
        None \<Rightarrow> False
      | Some (found, V', S', P') \<Rightarrow>
          if found then cyclic_path g P' \<and> (\<exists>Q. P' = P @ Q)
          else S' = S \<and> P' = P \<and> set V \<subseteq> set V' \<and> search_inv g V' S \<and> N \<subseteq> set V' - set S)"

lemma dfs_correct:
  "\<lbrakk>search_inv g V S; set S = set P; path_inv g P; P \<noteq> [] \<longrightarrow> (last P, n) \<in> waits g; n \<notin> set V; n \<in> set (graph_nodes g);
    unvisited g V < k\<rbrakk> \<Longrightarrow> dfs_post g V S P {n} (dfs_visit k g n V S P)"
  "\<lbrakk>search_inv g V S; set S = set P; path_inv g P; P \<noteq> []; \<forall>x\<in>set ns. (last P, x) \<in> waits g;
    unvisited g V < k\<rbrakk> \<Longrightarrow> dfs_post g V S P (set ns) (dfs_neighbors k g ns V S P)"
proof (induction k g n V S P and k g ns V S P rule: dfs_visit_dfs_neighbors.induct)
  case (2 k g n V S P)
  have n: "n \<notin> set S" using 2 by (auto simp: search_inv_def)
  have "dfs_post g (n # V) (n # S) (P @ [n]) (set (succs g n)) (dfs_neighbors k g (succs g n) (n # V) (n # S) (P @ [n]))"
  proof (rule "2.IH")
    show "search_inv g (n # V) (n # S)" using "2.prems"(1,5) n by (auto simp: search_inv_def)
    show "path_inv g (P @ [n])" using "2.prems"(3,4) by (intro path_inv_snoc) auto
    show "unvisited g (n # V) < k" using unvisited_less [OF "2.prems"(6,5)] "2.prems"(7) by simp
  qed (use "2.prems"(2) in \<open>auto simp: waits_def\<close>)
  then show ?case
    using search_inv_finish [of g _ n S] n
    by (auto simp: dfs_post_def search_inv_def split: option.splits prod.splits if_splits)
next
  case (4 k g n ns V S P)
  show ?case
  proof (cases "n \<in> set S")
    case True
    have "path_inv g (P @ [n])" using "4.prems"(3,5) by (intro path_inv_snoc) auto
    then show ?thesis using True "4.prems"(2) by (simp add: dfs_post_def cyclic_path_def)
  next
    case nS: False
    show ?thesis
    proof (cases "n \<in> set V")
      case True
      then have "dfs_post g V S P (set ns) (dfs_neighbors k g ns V S P)" using "4.IH"(3) nS "4.prems" by simp
      then show ?thesis using True nS by (auto simp: dfs_post_def split: option.splits prod.splits)
    next
      case False
      have nn: "n \<in> set (graph_nodes g)" using "4.prems"(5) succs_nodes by (auto simp: waits_def)
      have V: "dfs_post g V S P {n} (dfs_visit k g n V S P)"
        using "4.IH"(1) nS False "4.prems" nn by simp
      then obtain found V' S' P' where r: "dfs_visit k g n V S P = Some (found, V', S', P')"
        by (auto simp: dfs_post_def split: option.splits)
      show ?thesis
      proof (cases found)
        case True
        then show ?thesis using V r nS False by (simp add: dfs_post_def)
      next
        case nf: False
        then have e: "S' = S" "P' = P" "set V \<subseteq> set V'" "search_inv g V' S" "n \<in> set V'" using V r by (simp_all add: dfs_post_def)
        have "unvisited g V' < k" using unvisited_mono [OF e(3), of g] "4.prems"(6) by simp
        then have "dfs_post g V' S P (set ns) (dfs_neighbors k g ns V' S P)"
          using "4.IH"(2) [OF nS False r refl refl refl nf] e "4.prems" by simp
        then show ?thesis
          using r nf e(3,5) nS False unfolding e(1,2)
          by (simp add: dfs_post_def split: option.splits prod.splits) (metis subset_trans subsetD)
      qed
    qed
  qed
qed (simp_all add: dfs_post_def)


definition detect_post :: "wfg \<Rightarrow> txn_id list \<Rightarrow> txn_id set \<Rightarrow> txn_id list option \<Rightarrow> bool" where
  "detect_post g V N r \<longleftrightarrow>
     (case r of
        Some P \<Rightarrow> cyclic_path g P
      | None \<Rightarrow> \<exists>V'. search_inv g V' [] \<and> set V \<subseteq> set V' \<and> N \<subseteq> set V')"

lemma detect_post_mono: "detect_post g V' N r \<Longrightarrow> set V \<subseteq> set V' \<Longrightarrow> n \<in> set V' \<Longrightarrow> detect_post g V (insert n N) r"
  by (auto simp: detect_post_def split: option.splits)

lemma detect_from_correct:
  assumes "search_inv g V []" "set ns \<subseteq> set (graph_nodes g)" "unvisited g V < k"
  shows "detect_post g V (set ns) (detect_from k g ns V [])"
  using assms
proof (induction ns arbitrary: V)
  case Nil
  then show ?case by (auto simp: detect_post_def)
next
  case (Cons n ns)
  have ns: "set ns \<subseteq> set (graph_nodes g)" and n: "n \<in> set (graph_nodes g)" using Cons.prems(2) by simp_all
  show ?case
  proof (cases "n \<in> set V")
    case True
    then show ?thesis using detect_post_mono [OF Cons.IH [OF Cons.prems(1) ns Cons.prems(3)] subset_refl True] by simp
  next
    case False
    have V: "dfs_post g V [] [] {n} (dfs_visit k g n V [] [])"
      using Cons.prems(1,3) n False by (intro dfs_correct(1)) (simp_all add: path_inv_def)
    then obtain found V' S' P' where r: "dfs_visit k g n V [] [] = Some (found, V', S', P')"
      by (auto simp: dfs_post_def split: option.splits)
    show ?thesis
    proof (cases found)
      case True
      then show ?thesis using V r False by (simp add: dfs_post_def detect_post_def)
    next
      case nf: False
      then have e: "S' = []" "set V \<subseteq> set V'" "search_inv g V' []" "n \<in> set V'" using V r by (simp_all add: dfs_post_def)
      have u: "unvisited g V' < k" using unvisited_mono [OF e(2), of g] Cons.prems(3) by simp
      show ?thesis using detect_post_mono [OF Cons.IH [OF e(3) ns u] e(2,4)] r nf e(1) False by simp
    qed
  qed
qed

lemma detect_path_correct:
  "case detect_path g of Some P \<Rightarrow> cyclic_path g P | None \<Rightarrow> acyclic (waits g)"
proof -
  have "unvisited g [] < Suc (length (graph_nodes g))"
    by (simp add: unvisited_def card_length less_Suc_eq_le)
  moreover have "search_inv g [] []" by (simp add: search_inv_def)
  moreover have "set (map fst g) \<subseteq> set (graph_nodes g)" by (auto simp: graph_nodes_def)
  ultimately have c: "detect_post g [] (set (map fst g)) (detect_path g)"
    unfolding detect_path_def by (intro detect_from_correct)
  show ?thesis
  proof (cases "detect_path g")
    case None
    then obtain V where V: "search_inv g V []" "fst ` set g \<subseteq> set V" using c by (auto simp: detect_post_def)
    have "(x, x) \<notin> (waits g)\<^sup>+" for x
    proof
      assume "(x, x) \<in> (waits g)\<^sup>+"
      then obtain y where "(x, y) \<in> waits g" by (meson tranclD)
      then have "map_of g x \<noteq> None" by (cases "map_of g x") (auto simp: waits_def succs_None)
      then have "x \<in> fst ` set g" by (simp add: map_of_eq_None_iff)
      then show False using V \<open>(x, x) \<in> (waits g)\<^sup>+\<close> by (auto simp: search_inv_def)
    qed
    then show ?thesis using None by (simp add: acyclic_def)
  qed (use c in \<open>simp add: detect_post_def\<close>)
qed

section \<open>The edges as a relation\<close>

definition graph_ok :: "wfg \<Rightarrow> bool" where
  "graph_ok g \<longleftrightarrow> distinct (map fst g)"

lemma succs_update [simp]: "succs (AList.update a hs g) n = (if n = a then hs else succs g n)"
  by (simp add: succs_def update_conv')

lemma succs_delete [simp]: "succs (AList.delete a g) n = (if n = a then [] else succs g n)"
  by (simp add: succs_def delete_conv')

lemma waits_add_edge: "waits (add_edge a b g) = (if a = b then waits g else insert (a, b) (waits g))"
  by (auto simp: waits_def add_edge_def split: if_splits)

lemma waits_remove_edge: "waits (remove_edge a b g) = waits g - {(a, b)}"
proof (cases "map_of g a")
  case None
  then show ?thesis by (auto simp: remove_edge_def waits_def succs_None)
next
  case (Some hs)
  have "set hs \<subseteq> {b}" if "removeAll b hs = []" using that by (metis Diff_eq_empty_iff set_empty set_removeAll)
  then show ?thesis using Some succs_Some [OF Some] by (auto simp: remove_edge_def waits_def Let_def split: if_splits)
qed

lemma succs_remove_transaction:
  assumes "graph_ok g"
  shows "succs (remove_transaction txn g) n = (if n = txn then [] else removeAll txn (succs g n))"
proof -
  have d: "distinct (map fst (AList.delete txn g))" using assms by (simp add: graph_ok_def distinct_delete)
  let ?h = "map (\<lambda>(w, hs). (w, removeAll txn hs)) (AList.delete txn g)"
  have m: "map_of ?h k = map_option (removeAll txn) (map_of (AList.delete txn g) k)" for k by (simp add: map_of_map)
  have k: "map fst ?h = map fst (AList.delete txn g)" by (simp add: case_prod_unfold comp_def)
  have "map_of (remove_transaction txn g) n = (case map_of ?h n of None \<Rightarrow> None | Some hs \<Rightarrow> if hs \<noteq> [] then Some hs else None)"
    unfolding remove_transaction_def using d by (intro map_of_filter_val) (simp only: k)
  then show ?thesis
    unfolding m by (cases "map_of g n") (simp_all add: succs_def delete_conv')
qed

lemma waits_remove_transaction:
  "graph_ok g \<Longrightarrow> waits (remove_transaction txn g) = {(a, b) \<in> waits g. a \<noteq> txn \<and> b \<noteq> txn}"
  by (auto simp: waits_def succs_remove_transaction split: if_splits)

lemma graph_ok_ops:
  assumes "graph_ok g"
  shows "graph_ok (add_edge a b g)" "graph_ok (remove_edge a b g)" "graph_ok (remove_transaction t g)"
proof -
  show "graph_ok (add_edge a b g)" "graph_ok (remove_edge a b g)"
    using assms by (auto simp: graph_ok_def add_edge_def remove_edge_def distinct_update distinct_delete Let_def split: option.splits)
  have k: "map fst (map (\<lambda>(w, hs). (w, removeAll t hs)) (AList.delete t g)) = map fst (AList.delete t g)"
    by (simp add: case_prod_unfold comp_def)
  have "distinct (map fst (AList.delete t g))" using assms by (simp add: graph_ok_def distinct_delete)
  then show "graph_ok (remove_transaction t g)"
    unfolding graph_ok_def remove_transaction_def by (intro distinct_map_filter) (simp only: k)
qed

section \<open>Properties\<close>



text \<open>The victim need not be part of the deadlock: transaction 9 only waits for a transaction of the cycle,
  yet it is chosen, because the whole search path counts. Aborting it leaves the deadlock in place.\<close>
lemma victim_off_cycle:
  "detect_cycle [(9, [1]), (1, [2]), (2, [1])] = Some 9 \<and>
   (9, 9) \<notin> (waits [(9, [1]), (1, [2]), (2, [1])])\<^sup>+ \<and>
   detect_cycle (remove_transaction 9 [(9, [1]), (1, [2]), (2, [1])]) = Some 2"
proof -
  let ?g = "[(9, [1]), (1, [2]), (2, [1])] :: wfg"
  have w: "b = 1 \<or> b = 2" if "(a, b) \<in> waits ?g" for a b
    using that by (simp add: waits_def succs_def split: if_splits)
  have "(9, 9) \<notin> (waits ?g)\<^sup>+"
  proof
    assume "(9, 9) \<in> (waits ?g)\<^sup>+"
    then obtain c where "(c, 9) \<in> waits ?g" by (meson tranclD2)
    then show False using w [of c 9] by simp
  qed
  moreover have "detect_path ?g = Some [9, 1, 2, 1]" by code_simp
  then have "detect_cycle ?g = Some 9" by (simp add: detect_cycle_def pick_victim_def)
  moreover have "remove_transaction 9 ?g = [(1, [2]), (2, [1])]" by (simp add: remove_transaction_def)
  moreover have "detect_path [(1, [2]), (2, [1])] = Some [1, 2, 1]" by code_simp
  then have "detect_cycle [(1, [2]), (2, [1])] = Some 2" by (simp add: detect_cycle_def pick_victim_def)
  ultimately show ?thesis by simp
qed

end
