(* ===== verification/Lock_Manager.thy ===== *)
theory Lock_Manager
  imports Wait_For_Graph
begin

text \<open>
  \<open>lock_mode.hpp\<close>, \<open>lock_resource.hpp\<close>, \<open>lock_manager.hpp/.cpp\<close>: the sharded lock table. A call of
  \<open>lock\<close> that has to wait is cut where its thread sleeps on the condition variable: \<open>lock_request\<close> is
  the part before, \<open>lock_wake\<close> an evaluation of the wait predicate with what follows when it holds, and
  \<open>lock_timeout\<close> the expiry of the wait. Threads interleave at these points, so a run is a sequence of
  such steps. The standard hash functions are parameters. Resources compare with \<open>operator==\<close>, which
  ignores the fields below the resource's level; the tables are keyed by the resource with those
  fields cleared.
\<close>

section \<open>Modes and resources\<close>

datatype lock_mode = Shared | Exclusive | IntentShared | IntentExclusive | SharedIntentExclusive

fun is_compatible :: "lock_mode \<Rightarrow> lock_mode \<Rightarrow> bool" where
  "is_compatible IntentShared requested \<longleftrightarrow> requested \<noteq> Exclusive"
| "is_compatible IntentExclusive requested \<longleftrightarrow> requested = IntentShared \<or> requested = IntentExclusive"
| "is_compatible Shared requested \<longleftrightarrow> requested = IntentShared \<or> requested = Shared"
| "is_compatible SharedIntentExclusive requested \<longleftrightarrow> requested = IntentShared"
| "is_compatible Exclusive requested \<longleftrightarrow> False"

lemma is_compatible_sym: "is_compatible a b = is_compatible b a"
  by (cases a; cases b) simp_all

datatype lock_resource_type = Database_res | Schema_res | Table_res | Page_res | Row_res | Cell_res

fun type_rank :: "lock_resource_type \<Rightarrow> nat" where
  "type_rank Database_res = 0"
| "type_rank Schema_res = 1"
| "type_rank Table_res = 2"
| "type_rank Page_res = 3"
| "type_rank Row_res = 4"
| "type_rank Cell_res = 5"

record lock_resource =
  res_type :: lock_resource_type
  res_database :: u32
  res_schema :: u32
  res_table :: u32
  res_page :: u32
  res_row :: u32
  res_column :: u32

definition res_eq :: "lock_resource \<Rightarrow> lock_resource \<Rightarrow> bool" where
  "res_eq a b \<longleftrightarrow> res_type a = res_type b \<and> res_database a = res_database b \<and>
     (case res_type a of
        Database_res \<Rightarrow> True
      | Schema_res \<Rightarrow> res_schema a = res_schema b
      | Table_res \<Rightarrow> res_schema a = res_schema b \<and> res_table a = res_table b
      | Page_res \<Rightarrow> res_schema a = res_schema b \<and> res_table a = res_table b \<and> res_page a = res_page b
      | Row_res \<Rightarrow> res_schema a = res_schema b \<and> res_table a = res_table b \<and> res_page a = res_page b \<and> res_row a = res_row b
      | Cell_res \<Rightarrow> res_schema a = res_schema b \<and> res_table a = res_table b \<and> res_page a = res_page b \<and> res_row a = res_row b \<and>
          res_column a = res_column b)"

definition hash_mix :: "u64 \<Rightarrow> u64 \<Rightarrow> u64" where
  "hash_mix h v = h XOR (v + 0x9e3779b9 + push_bit 6 h + drop_bit 2 h)"

definition resource_hash :: "(nat \<Rightarrow> u64) \<Rightarrow> (u32 \<Rightarrow> u64) \<Rightarrow> lock_resource \<Rightarrow> u64" where
  "resource_hash hash_int hash_u32 r =
     (let k = type_rank (res_type r);
          h = hash_int k;
          h = hash_mix h (hash_u32 (res_database r));
          h = (if k \<ge> 1 then hash_mix h (hash_u32 (res_schema r)) else h);
          h = (if k \<ge> 2 then hash_mix h (hash_u32 (res_table r)) else h);
          h = (if k \<ge> 3 then hash_mix h (hash_u32 (res_page r)) else h);
          h = (if k \<ge> 4 then hash_mix h (hash_u32 (res_row r)) else h);
          h = (if k \<ge> 5 then hash_mix h (hash_u32 (res_column r)) else h)
      in h)"

text \<open>The fields that count.\<close>

definition res_key :: "lock_resource \<Rightarrow> lock_resource" where
  "res_key r =
     (let k = type_rank (res_type r) in
      r\<lparr>res_schema := if k \<ge> 1 then res_schema r else 0, res_table := if k \<ge> 2 then res_table r else 0,
        res_page := if k \<ge> 3 then res_page r else 0, res_row := if k \<ge> 4 then res_row r else 0,
        res_column := if k \<ge> 5 then res_column r else 0\<rparr>)"

lemma res_eq_key: "res_eq a b \<longleftrightarrow> res_key a = res_key b"
  by (cases a; cases b) (auto simp: res_eq_def res_key_def Let_def split: lock_resource_type.splits)

lemma resource_hash_key [simp]: "resource_hash hi hu (res_key r) = resource_hash hi hu r"
  by (cases "res_type r") (simp_all add: resource_hash_def res_key_def Let_def)

lemma resource_hash_eq: "res_eq a b \<Longrightarrow> resource_hash hi hu a = resource_hash hi hu b"
  by (metis res_eq_key resource_hash_key)

section \<open>The lock table\<close>

record lock_req =
  rq_txn :: txn_id
  rq_mode :: lock_mode
  rq_aborted :: bool

record lock_state =
  ls_holders :: "(txn_id \<times> lock_mode) list"
  ls_waiters :: "lock_req list"

definition LockState_init :: lock_state where
  "LockState_init = \<lparr>ls_holders = [], ls_waiters = []\<rparr>"

type_synonym lock_table = "(lock_resource \<times> lock_state) list"

record lock_manager =
  lm_shards :: "lock_table list"
  lm_graph :: wfg

definition LockManager_init :: "nat \<Rightarrow> lock_manager" where
  "LockManager_init num_shards = \<lparr>lm_shards = replicate num_shards [], lm_graph = []\<rparr>"

definition get_shard :: "(lock_resource \<Rightarrow> u64) \<Rightarrow> lock_resource \<Rightarrow> lock_manager \<Rightarrow> nat" where
  "get_shard hf res lm = unat (hf res) mod length (lm_shards lm)"

definition lock_find :: "(lock_resource \<Rightarrow> u64) \<Rightarrow> lock_resource \<Rightarrow> lock_manager \<Rightarrow> lock_state option" where
  "lock_find hf res lm = map_of (lm_shards lm ! get_shard hf res lm) (res_key res)"

definition lock_store :: "(lock_resource \<Rightarrow> u64) \<Rightarrow> lock_resource \<Rightarrow> lock_state \<Rightarrow> lock_manager \<Rightarrow> lock_manager" where
  "lock_store hf res st lm =
     (let k = get_shard hf res lm
      in lm\<lparr>lm_shards := (lm_shards lm)[k := AList.update (res_key res) st (lm_shards lm ! k)]\<rparr>)"

definition lock_erase :: "(lock_resource \<Rightarrow> u64) \<Rightarrow> lock_resource \<Rightarrow> lock_manager \<Rightarrow> lock_manager" where
  "lock_erase hf res lm =
     (let k = get_shard hf res lm
      in lm\<lparr>lm_shards := (lm_shards lm)[k := AList.delete (res_key res) (lm_shards lm ! k)]\<rparr>)"

text \<open>\<open>shard.table[resource]\<close> gives a fresh state for a new resource.\<close>

definition lock_state_at :: "(lock_resource \<Rightarrow> u64) \<Rightarrow> lock_resource \<Rightarrow> lock_manager \<Rightarrow> lock_state" where
  "lock_state_at hf res lm = (case lock_find hf res lm of None \<Rightarrow> LockState_init | Some st \<Rightarrow> st)"

definition can_grant :: "lock_state \<Rightarrow> lock_mode \<Rightarrow> bool" where
  "can_grant st requested_mode = list_all (\<lambda>(_, held_mode). is_compatible held_mode requested_mode) (ls_holders st)"

definition can_upgrade :: "lock_state \<Rightarrow> txn_id \<Rightarrow> lock_mode \<Rightarrow> bool" where
  "can_upgrade st txn mode =
     list_all (\<lambda>(other_txn, other_mode). \<not> (other_txn \<noteq> txn \<and> \<not> is_compatible other_mode mode)) (ls_holders st)"

datatype lock_outcome = Granted | Waiting | Failed status

definition drop_waiter :: "txn_id \<Rightarrow> lock_state \<Rightarrow> lock_state" where
  "drop_waiter txn st = st\<lparr>ls_waiters := filter (\<lambda>r. rq_txn r \<noteq> txn) (ls_waiters st)\<rparr>"

fun erase_first :: "txn_id \<Rightarrow> lock_req list \<Rightarrow> lock_req list" where
  "erase_first txn [] = []"
| "erase_first txn (r # rs) = (if rq_txn r = txn then rs else r # erase_first txn rs)"

text \<open>After queueing: the wait-for edges, deadlock detection, and the abort of the requester if it is the victim.\<close>

definition wait_edges :: "txn_id \<Rightarrow> lock_state \<Rightarrow> wfg \<Rightarrow> wfg" where
  "wait_edges txn st g = fold (\<lambda>(holder, _) g. if holder \<noteq> txn then add_edge txn holder g else g) (ls_holders st) g"

definition enqueue :: "(lock_resource \<Rightarrow> u64) \<Rightarrow> txn_id \<Rightarrow> lock_resource \<Rightarrow> lock_state \<Rightarrow> lock_manager \<Rightarrow> lock_manager \<times> lock_outcome" where
  "enqueue hf txn res st lm =
     (let g = wait_edges txn st (lm_graph lm) in
      case detect_cycle g of
        None \<Rightarrow> ((lock_store hf res st lm)\<lparr>lm_graph := g\<rparr>, Waiting)
      | Some v \<Rightarrow>
          if v = txn
          then ((lock_store hf res (st\<lparr>ls_waiters := erase_first txn (ls_waiters st)\<rparr>) lm)\<lparr>lm_graph := remove_transaction txn g\<rparr>,
                Failed TransactionAborted)
          else ((lock_store hf res st lm)\<lparr>lm_graph := g\<rparr>, Waiting))"

definition lock_request :: "(lock_resource \<Rightarrow> u64) \<Rightarrow> txn_id \<Rightarrow> lock_resource \<Rightarrow> lock_mode \<Rightarrow> lock_manager \<Rightarrow> lock_manager \<times> lock_outcome" where
  "lock_request hf txn res mode lm =
     (let st = lock_state_at hf res lm; req = \<lparr>rq_txn = txn, rq_mode = mode, rq_aborted = False\<rparr> in
      case map_of (ls_holders st) txn of
        Some held_mode \<Rightarrow>
          if held_mode = mode \<or> is_compatible mode held_mode then (lock_store hf res st lm, Granted)
          else if can_upgrade st txn mode
          then (lock_store hf res (st\<lparr>ls_holders := AList.update txn mode (ls_holders st)\<rparr>) lm, Granted)
          else enqueue hf txn res (st\<lparr>ls_waiters := req # ls_waiters st\<rparr>) lm
      | None \<Rightarrow>
          if ls_waiters st = [] \<and> can_grant st mode
          then (lock_store hf res (st\<lparr>ls_holders := AList.update txn mode (ls_holders st)\<rparr>) lm, Granted)
          else enqueue hf txn res (st\<lparr>ls_waiters := ls_waiters st @ [req]\<rparr>) lm)"

text \<open>A wake-up evaluates the predicate; a waiter that may not proceed sleeps again.\<close>

definition lock_wake :: "(lock_resource \<Rightarrow> u64) \<Rightarrow> txn_id \<Rightarrow> lock_resource \<Rightarrow> lock_mode \<Rightarrow> lock_manager \<Rightarrow> lock_manager \<times> lock_outcome" where
  "lock_wake hf txn res mode lm =
     (let st = lock_state_at hf res lm in
      case find (\<lambda>r. rq_txn r = txn) (ls_waiters st) of
        None \<Rightarrow> (lm, Waiting)
      | Some my_req \<Rightarrow>
          if rq_aborted my_req
          then ((lock_store hf res (drop_waiter txn st) lm)\<lparr>lm_graph := remove_transaction txn (lm_graph lm)\<rparr>, Failed TransactionAborted)
          else if rq_txn (hd (ls_waiters st)) = txn \<and> can_grant st mode
          then ((lock_store hf res (st\<lparr>ls_holders := AList.update txn mode (ls_holders st), ls_waiters := tl (ls_waiters st)\<rparr>) lm)
                  \<lparr>lm_graph := remove_transaction txn (lm_graph lm)\<rparr>, Granted)
          else (lm, Waiting))"

definition lock_timeout :: "(lock_resource \<Rightarrow> u64) \<Rightarrow> txn_id \<Rightarrow> lock_resource \<Rightarrow> lock_mode \<Rightarrow> lock_manager \<Rightarrow> lock_manager \<times> lock_outcome" where
  "lock_timeout hf txn res mode lm =
     (case lock_wake hf txn res mode lm of
        (lm, Waiting) \<Rightarrow>
          ((lock_store hf res (drop_waiter txn (lock_state_at hf res lm)) lm)\<lparr>lm_graph := remove_transaction txn (lm_graph lm)\<rparr>,
           Failed Timeout)
      | r \<Rightarrow> r)"

definition unlock :: "(lock_resource \<Rightarrow> u64) \<Rightarrow> txn_id \<Rightarrow> lock_resource \<Rightarrow> lock_manager \<Rightarrow> lock_manager \<times> unit result" where
  "unlock hf txn res lm =
     (case lock_find hf res lm of
        None \<Rightarrow> (lm, Inl NotFound)
      | Some st \<Rightarrow>
          if map_of (ls_holders st) txn = None then (lm, Inl InvalidArgument)
          else let st = st\<lparr>ls_holders := AList.delete txn (ls_holders st)\<rparr> in
               if ls_holders st = [] \<and> ls_waiters st = [] then (lock_erase hf res lm, Inr ())
               else (lock_store hf res st lm, Inr ()))"

definition release_all :: "(lock_resource \<Rightarrow> u64) \<Rightarrow> txn_id \<Rightarrow> lock_resource list \<Rightarrow> lock_manager \<Rightarrow> lock_manager" where
  "release_all hf txn resources lm =
     (let lm = fold (\<lambda>res lm. fst (unlock hf txn res lm)) resources lm
      in lm\<lparr>lm_graph := remove_transaction txn (lm_graph lm)\<rparr>)"

section \<open>The table as a map\<close>

text \<open>What the lock operations rely on: a map from resources, modulo the key, to lock states.\<close>

locale keyed_table =
  fixes ok :: "'s \<Rightarrow> bool" and key :: "'r \<Rightarrow> 'k"
    and look :: "'r \<Rightarrow> 's \<Rightarrow> 'v option" and store :: "'r \<Rightarrow> 'v \<Rightarrow> 's \<Rightarrow> 's" and erase :: "'r \<Rightarrow> 's \<Rightarrow> 's"
  assumes store_ok: "ok s \<Longrightarrow> ok (store r v s)" and erase_ok: "ok s \<Longrightarrow> ok (erase r s)"
    and look_store: "ok s \<Longrightarrow> look q (store r v s) = (if key q = key r then Some v else look q s)"
    and look_erase: "ok s \<Longrightarrow> look q (erase r s) = (if key q = key r then None else look q s)"
begin

text \<open>Storing or erasing keeps a property of all stored values.\<close>

lemma store_all: "ok s \<Longrightarrow> (\<And>q v. look q s = Some v \<Longrightarrow> P v) \<Longrightarrow> P v \<Longrightarrow> look q (store r v s) = Some w \<Longrightarrow> P w"
  by (auto simp: look_store split: if_splits)

lemma erase_all: "ok s \<Longrightarrow> (\<And>q v. look q s = Some v \<Longrightarrow> P v) \<Longrightarrow> look q (erase r s) = Some w \<Longrightarrow> P w"
  by (auto simp: look_erase split: if_splits)

end

definition lm_ok :: "lock_manager \<Rightarrow> bool" where
  "lm_ok lm \<longleftrightarrow> lm_shards lm \<noteq> []"

interpretation lt: keyed_table lm_ok res_key "lock_find (resource_hash hi hu)" "lock_store (resource_hash hi hu)" "lock_erase (resource_hash hi hu)"
  for hi hu
proof
  fix s :: lock_manager and q r v
  let ?hf = "resource_hash hi hu"
  assume ok: "lm_ok s"
  show "lm_ok (lock_store ?hf r v s)" "lm_ok (lock_erase ?hf r s)"
    using ok by (simp_all add: lm_ok_def lock_store_def lock_erase_def Let_def)
  have k: "get_shard ?hf r s < length (lm_shards s)" using ok by (simp add: get_shard_def lm_ok_def)
  have h: "?hf q = ?hf r" if "res_key q = res_key r" using that by (metis resource_hash_key)
  have g: "get_shard ?hf q (s\<lparr>lm_shards := (lm_shards s)[i := t]\<rparr>) = get_shard ?hf q s" for i t by (simp add: get_shard_def)
  have e: "get_shard ?hf q s = get_shard ?hf r s" if "res_key q = res_key r" using h [OF that] by (simp add: get_shard_def)
  show "lock_find ?hf q (lock_store ?hf r v s) = (if res_key q = res_key r then Some v else lock_find ?hf q s)"
    using k e by (cases "get_shard ?hf q s = get_shard ?hf r s") (auto simp: lock_find_def lock_store_def Let_def g update_conv')
  show "lock_find ?hf q (lock_erase ?hf r s) = (if res_key q = res_key r then None else lock_find ?hf q s)"
    using k e by (cases "get_shard ?hf q s = get_shard ?hf r s") (auto simp: lock_find_def lock_erase_def Let_def g delete_conv')
qed

lemma find_graph [simp]: "lock_find hf r (lm\<lparr>lm_graph := g\<rparr>) = lock_find hf r lm" "lm_ok (lm\<lparr>lm_graph := g\<rparr>) = lm_ok lm"
  by (simp_all add: lock_find_def get_shard_def lm_ok_def)

lemmas lock_step_defs = lock_request_def enqueue_def lock_wake_def lock_timeout_def unlock_def lock_state_at_def drop_waiter_def Let_def

section \<open>Holders are compatible\<close>

definition state_ok :: "lock_state \<Rightarrow> bool" where
  "state_ok st \<longleftrightarrow> distinct (map fst (ls_holders st)) \<and>
     (\<forall>t m u n. (t, m) \<in> set (ls_holders st) \<longrightarrow> (u, n) \<in> set (ls_holders st) \<longrightarrow> t \<noteq> u \<longrightarrow> is_compatible m n)"

definition locks_ok :: "(lock_resource \<Rightarrow> u64) \<Rightarrow> lock_manager \<Rightarrow> bool" where
  "locks_ok hf lm \<longleftrightarrow> lm_ok lm \<and> (\<forall>r st. lock_find hf r lm = Some st \<longrightarrow> state_ok st)"

lemma state_ok_waiters [simp]: "state_ok (st\<lparr>ls_waiters := ws\<rparr>) = state_ok st" "state_ok LockState_init"
  by (simp_all add: state_ok_def LockState_init_def)

lemma set_update_subset: "(t, m) \<in> set (AList.update k v al) \<Longrightarrow> distinct (map fst al) \<Longrightarrow> (t, m) = (k, v) \<or> t \<noteq> k \<and> (t, m) \<in> set al"
  by (induction al) (auto simp: image_iff split: if_splits)

text \<open>A new or upgraded holder that is compatible with the others.\<close>

lemma state_ok_grant:
  assumes "state_ok st" "\<And>u n. (u, n) \<in> set (ls_holders st) \<Longrightarrow> u \<noteq> txn \<Longrightarrow> is_compatible n mode"
  shows "state_ok (st\<lparr>ls_holders := AList.update txn mode (ls_holders st)\<rparr>)"
proof -
  have d: "distinct (map fst (ls_holders st))" using assms(1) by (simp add: state_ok_def)
  have "is_compatible m n" if "(t, m) \<in> set (AList.update txn mode (ls_holders st))" "(u, n) \<in> set (AList.update txn mode (ls_holders st))" "t \<noteq> u"
    for t m u n
    using set_update_subset [OF that(1) d] set_update_subset [OF that(2) d] that(3) assms is_compatible_sym
    by (auto simp: state_ok_def)
  then show ?thesis using d by (simp add: state_ok_def distinct_update)
qed

lemma state_ok_drop: "state_ok st \<Longrightarrow> state_ok (st\<lparr>ls_holders := AList.delete txn (ls_holders st)\<rparr>)"
  by (auto simp: state_ok_def AList.delete_eq distinct_map_filter)

lemma can_grant_compat: "can_grant st mode \<Longrightarrow> (u, n) \<in> set (ls_holders st) \<Longrightarrow> is_compatible n mode"
  by (auto simp: can_grant_def list_all_iff)

lemma can_upgrade_compat: "can_upgrade st txn mode \<Longrightarrow> (u, n) \<in> set (ls_holders st) \<Longrightarrow> u \<noteq> txn \<Longrightarrow> is_compatible n mode"
  by (auto simp: can_upgrade_def list_all_iff)

lemma locks_ok_at: "locks_ok hf lm \<Longrightarrow> state_ok (lock_state_at hf r lm)"
  by (auto simp: locks_ok_def lock_state_at_def split: option.splits)

lemma locks_ok_store:
  assumes "locks_ok (resource_hash hi hu) lm" "state_ok st"
  shows "locks_ok (resource_hash hi hu) (lock_store (resource_hash hi hu) r st lm)"
  using assms lt.store_ok lt.look_store by (auto simp: locks_ok_def split: if_splits)

lemma locks_ok_graph [simp]: "locks_ok hf (lm\<lparr>lm_graph := g\<rparr>) = locks_ok hf lm"
  by (simp add: locks_ok_def)


lemma lock_request_ok:
  assumes "locks_ok (resource_hash hi hu) lm"
  shows "locks_ok (resource_hash hi hu) (fst (lock_request (resource_hash hi hu) txn res mode lm))"
proof -
  let ?hf = "resource_hash hi hu"
  let ?st = "lock_state_at ?hf res lm"
  have st: "state_ok ?st" by (rule locks_ok_at [OF assms])
  have up: "state_ok (?st\<lparr>ls_holders := AList.update txn mode (ls_holders ?st)\<rparr>)"
    if "can_grant ?st mode \<or> can_upgrade ?st txn mode"
    using that can_grant_compat can_upgrade_compat by (intro state_ok_grant [OF st]) blast
  have enq: "locks_ok ?hf (fst (enqueue ?hf txn res (?st\<lparr>ls_waiters := ws\<rparr>) lm))" for ws
    using locks_ok_store [OF assms] st by (auto simp: enqueue_def Let_def split: option.splits)
  show ?thesis
    using locks_ok_store [OF assms] st up enq by (auto simp: lock_request_def Let_def split: option.splits)
qed

lemma lock_wake_ok:
  assumes "locks_ok (resource_hash hi hu) lm"
  shows "locks_ok (resource_hash hi hu) (fst (lock_wake (resource_hash hi hu) txn res mode lm))"
proof -
  let ?hf = "resource_hash hi hu"
  let ?st = "lock_state_at ?hf res lm"
  have st: "state_ok ?st" by (rule locks_ok_at [OF assms])
  have up: "state_ok (?st\<lparr>ls_holders := AList.update txn mode (ls_holders ?st), ls_waiters := ws\<rparr>)" if "can_grant ?st mode" for ws
    using state_ok_grant [OF st, of txn mode] that can_grant_compat by fastforce
  show ?thesis
    using locks_ok_store [OF assms] st up assms by (auto simp: lock_wake_def drop_waiter_def Let_def split: option.splits)
qed

lemma lock_timeout_ok:
  assumes "locks_ok (resource_hash hi hu) lm"
  shows "locks_ok (resource_hash hi hu) (fst (lock_timeout (resource_hash hi hu) txn res mode lm))"
proof -
  let ?hf = "resource_hash hi hu"
  obtain lm' out where w: "lock_wake ?hf txn res mode lm = (lm', out)" by fastforce
  have ok': "locks_ok ?hf lm'" using lock_wake_ok [OF assms, of txn res mode] w by simp
  then show ?thesis
    using locks_ok_store [OF ok'] locks_ok_at [OF ok'] w
    by (cases out) (simp_all add: lock_timeout_def drop_waiter_def)
qed

lemma unlock_ok:
  assumes "locks_ok (resource_hash hi hu) lm"
  shows "locks_ok (resource_hash hi hu) (fst (unlock (resource_hash hi hu) txn res lm))"
proof -
  let ?hf = "resource_hash hi hu"
  have "locks_ok ?hf (lock_erase ?hf res lm)"
    using assms lt.erase_ok lt.look_erase by (auto simp: locks_ok_def split: if_splits)
  moreover have "locks_ok ?hf (lock_store ?hf res (st\<lparr>ls_holders := AList.delete txn (ls_holders st)\<rparr>) lm)"
    if "lock_find ?hf res lm = Some st" for st
    using that assms by (intro locks_ok_store [OF assms] state_ok_drop) (simp add: locks_ok_def)
  ultimately show ?thesis using assms by (auto simp: unlock_def Let_def split: option.splits)
qed

text \<open>The steps of the threads.\<close>

datatype lm_op =
    Op_request txn_id lock_resource lock_mode
  | Op_wake txn_id lock_resource lock_mode
  | Op_timeout txn_id lock_resource lock_mode
  | Op_unlock txn_id lock_resource
  | Op_release txn_id "lock_resource list"

fun lm_step :: "(lock_resource \<Rightarrow> u64) \<Rightarrow> lm_op \<Rightarrow> lock_manager \<Rightarrow> lock_manager" where
  "lm_step hf (Op_request t r m) lm = fst (lock_request hf t r m lm)"
| "lm_step hf (Op_wake t r m) lm = fst (lock_wake hf t r m lm)"
| "lm_step hf (Op_timeout t r m) lm = fst (lock_timeout hf t r m lm)"
| "lm_step hf (Op_unlock t r) lm = fst (unlock hf t r lm)"
| "lm_step hf (Op_release t rs) lm = release_all hf t rs lm"

lemma release_all_ok:
  assumes "locks_ok (resource_hash hi hu) lm"
  shows "locks_ok (resource_hash hi hu) (release_all (resource_hash hi hu) txn rs lm)"
proof -
  let ?hf = "resource_hash hi hu"
  have "locks_ok ?hf (fold (\<lambda>res lm. fst (unlock ?hf txn res lm)) rs lm)"
    using assms by (induction rs arbitrary: lm) (simp_all add: unlock_ok)
  then show ?thesis by (simp add: release_all_def Let_def)
qed

lemma lm_steps_ok:
  assumes "locks_ok (resource_hash hi hu) lm"
  shows "locks_ok (resource_hash hi hu) (fold (lm_step (resource_hash hi hu)) ops lm)"
  using assms
proof (induction ops arbitrary: lm)
  case (Cons op ops)
  have "locks_ok (resource_hash hi hu) (lm_step (resource_hash hi hu) op lm)"
    using Cons.prems
    by (cases op) (simp_all add: lock_request_ok lock_wake_ok lock_timeout_ok unlock_ok release_all_ok)
  then show ?case using Cons.IH by simp
qed simp

lemma locks_ok_init: "0 < n \<Longrightarrow> locks_ok hf (LockManager_init n)"
  by (simp add: locks_ok_def lm_ok_def LockManager_init_def lock_find_def get_shard_def)


section \<open>Steps of other transactions\<close>

primrec op_txn :: "lm_op \<Rightarrow> txn_id" where
  "op_txn (Op_request t r m) = t"
| "op_txn (Op_wake t r m) = t"
| "op_txn (Op_timeout t r m) = t"
| "op_txn (Op_unlock t r) = t"
| "op_txn (Op_release t rs) = t"

abbreviation held_mode :: "(lock_resource \<Rightarrow> u64) \<Rightarrow> txn_id \<Rightarrow> lock_resource \<Rightarrow> lock_manager \<Rightarrow> lock_mode option" where
  "held_mode hf txn res lm \<equiv> map_of (ls_holders (lock_state_at hf res lm)) txn"

lemma lock_state_at_store:
  "lm_ok lm \<Longrightarrow> lock_state_at (resource_hash hi hu) q (lock_store (resource_hash hi hu) r st lm) =
     (if res_key q = res_key r then st else lock_state_at (resource_hash hi hu) q lm)"
  by (simp add: lock_state_at_def lt.look_store)

lemma lock_state_at_erase:
  "lm_ok lm \<Longrightarrow> lock_state_at (resource_hash hi hu) q (lock_erase (resource_hash hi hu) r lm) =
     (if res_key q = res_key r then LockState_init else lock_state_at (resource_hash hi hu) q lm)"
  by (simp add: lock_state_at_def lt.look_erase)

lemma lock_state_at_graph [simp]: "lock_state_at hf q (lm\<lparr>lm_graph := g\<rparr>) = lock_state_at hf q lm"
  by (simp add: lock_state_at_def)

lemma lock_state_at_key: "res_key q = res_key r \<Longrightarrow> lock_state_at (resource_hash hi hu) q lm = lock_state_at (resource_hash hi hu) r lm"
  by (simp add: lock_state_at_def lock_find_def get_shard_def) (metis resource_hash_key)

lemma held_after_store:
  assumes "lm_ok lm" "map_of (ls_holders st) t = held_mode (resource_hash hi hu) t r lm"
  shows "held_mode (resource_hash hi hu) t q (lock_store (resource_hash hi hu) r st lm) = held_mode (resource_hash hi hu) t q lm"
  using assms lock_state_at_key [of q r hi hu lm] by (simp add: lock_state_at_store)

lemma unlock_other:
  assumes "lm_ok lm" "txn \<noteq> t"
  shows "held_mode (resource_hash hi hu) t q (fst (unlock (resource_hash hi hu) txn r lm)) = held_mode (resource_hash hi hu) t q lm"
    "lm_ok (fst (unlock (resource_hash hi hu) txn r lm))"
proof -
  let ?hf = "resource_hash hi hu"
  show "lm_ok (fst (unlock ?hf txn r lm))"
    using assms(1) lt.store_ok lt.erase_ok by (auto simp: unlock_def Let_def split: option.splits)
  show "held_mode ?hf t q (fst (unlock ?hf txn r lm)) = held_mode ?hf t q lm"
  proof (cases "lock_find ?hf r lm")
    case (Some st)
    let ?h = "AList.delete txn (ls_holders st)"
    have at: "lock_state_at ?hf r lm = st" using Some by (simp add: lock_state_at_def)
    have m: "map_of ?h t = map_of (ls_holders st) t" using assms(2) by (simp add: delete_conv')
    have "held_mode ?hf t q (lock_erase ?hf r lm) = held_mode ?hf t q lm" if "?h = []"
      using assms(1) lock_state_at_key [of q r hi hu lm] m that by (simp add: lock_state_at_erase at LockState_init_def)
    moreover have "held_mode ?hf t q (lock_store ?hf r (st\<lparr>ls_holders := ?h\<rparr>) lm) = held_mode ?hf t q lm"
      using m by (intro held_after_store [OF assms(1)]) (simp add: at)
    ultimately show ?thesis using Some by (simp add: unlock_def Let_def)
  qed (simp add: unlock_def)
qed

lemma lm_step_other:
  assumes "lm_ok lm" "op_txn op \<noteq> t"
  shows "held_mode (resource_hash hi hu) t q (lm_step (resource_hash hi hu) op lm) = held_mode (resource_hash hi hu) t q lm
    \<and> lm_ok (lm_step (resource_hash hi hu) op lm)"
proof -
  let ?hf = "resource_hash hi hu"
  note store = held_after_store [OF assms(1), of _ t hi hu] and sok = lt.store_ok [OF assms(1), of hi hu]
  have wake: "held_mode ?hf t q (fst (lock_wake ?hf u r m lm)) = held_mode ?hf t q lm \<and> lm_ok (fst (lock_wake ?hf u r m lm))"
    if "u \<noteq> t" for u r m
    using store sok that assms(1) by (auto simp: lock_wake_def drop_waiter_def Let_def update_conv' split: option.splits)
  show ?thesis
  proof (cases op)
    case (Op_request u r m)
    then show ?thesis
      using store sok assms(2) by (auto simp: lock_request_def enqueue_def Let_def update_conv' split: option.splits)
  next
    case (Op_wake u r m)
    then show ?thesis using wake assms(2) by simp
  next
    case (Op_timeout u r m)
    obtain lm' out where w: "lock_wake ?hf u r m lm = (lm', out)" by fastforce
    have k: "held_mode ?hf t x lm' = held_mode ?hf t x lm" "lm_ok lm'" for x
      using w Op_timeout assms(2) store sok assms(1)
      by (auto simp: lock_wake_def drop_waiter_def Let_def update_conv' split: option.splits if_splits)
    have "held_mode ?hf t q (lock_store ?hf r (drop_waiter u (lock_state_at ?hf r lm')) lm') = held_mode ?hf t q lm'"
      by (intro held_after_store [OF k(2)]) (simp add: drop_waiter_def)
    then show ?thesis using Op_timeout w k lt.store_ok [OF k(2)] by (cases out) (simp_all add: lock_timeout_def)
  next
    case (Op_unlock u r)
    then show ?thesis using unlock_other [OF assms(1)] assms(2) by simp
  next
    case (Op_release u rs)
    then have u: "u \<noteq> t" using assms(2) by simp
    have "held_mode ?hf t q (fold (\<lambda>res lm. fst (unlock ?hf u res lm)) rs lm) = held_mode ?hf t q lm \<and>
        lm_ok (fold (\<lambda>res lm. fst (unlock ?hf u res lm)) rs lm)"
      using assms(1) by (induction rs arbitrary: lm) (simp_all add: unlock_other [OF _ u])
    then show ?thesis using Op_release by (simp add: release_all_def Let_def)
  qed
qed

lemma lm_steps_other:
  assumes "lm_ok lm" "\<And>op. op \<in> set ops \<Longrightarrow> op_txn op \<noteq> t"
  shows "held_mode (resource_hash hi hu) t q (fold (lm_step (resource_hash hi hu)) ops lm) = held_mode (resource_hash hi hu) t q lm"
  using assms
proof (induction ops arbitrary: lm)
  case (Cons op ops)
  then show ?case using lm_step_other [OF Cons.prems(1), of op t hi hu q] by simp
qed simp


lemma unlock_self:
  assumes "lm_ok lm"
  shows "held_mode (resource_hash hi hu) txn q (fst (unlock (resource_hash hi hu) txn r lm)) =
    (if res_key q = res_key r then None else held_mode (resource_hash hi hu) txn q lm)"
proof -
  let ?hf = "resource_hash hi hu"
  show ?thesis
  proof (cases "lock_find ?hf r lm")
    case None
    then have "lock_state_at ?hf r lm = LockState_init" by (simp add: lock_state_at_def)
    then show ?thesis using None lock_state_at_key [of q r hi hu lm] by (simp add: unlock_def LockState_init_def)
  next
    case (Some st)
    then have at: "lock_state_at ?hf r lm = st" by (simp add: lock_state_at_def)
    show ?thesis
      using Some lock_state_at_key [of q r hi hu lm] at assms
      by (auto simp: unlock_def Let_def lock_state_at_erase lock_state_at_store LockState_init_def delete_conv')
  qed
qed

lemma release_fold:
  assumes "lm_ok lm"
  shows "held_mode (resource_hash hi hu) txn q (fold (\<lambda>res lm. fst (unlock (resource_hash hi hu) txn res lm)) rs lm) =
    (if res_key q \<in> res_key ` set rs then None else held_mode (resource_hash hi hu) txn q lm)"
  using assms
proof (induction rs arbitrary: lm)
  case (Cons r rs)
  have "lm_ok (fst (unlock (resource_hash hi hu) txn r lm))"
    using Cons.prems lt.store_ok lt.erase_ok by (auto simp: unlock_def Let_def split: option.splits)
  then show ?case using Cons.IH unlock_self [OF Cons.prems, where hi = hi and hu = hu and txn = txn and q = q and r = r] by auto
qed simp

section \<open>Properties\<close>

abbreviation example_hash :: "lock_resource \<Rightarrow> u64" where
  "example_hash \<equiv> resource_hash of_nat ucast"

definition table_lock :: "u32 \<Rightarrow> lock_resource" where
  "table_lock t = \<lparr>res_type = Table_res, res_database = 1, res_schema = 1, res_table = t, res_page = 0, res_row = 0, res_column = 0\<rparr>"

lemma table_lock_key [simp]: "res_key (table_lock t) = table_lock t" "table_lock t = table_lock u \<longleftrightarrow> t = u"
  by (simp_all add: table_lock_def res_key_def)

lemma lock_state_at_init [simp]: "lock_state_at hf r (LockManager_init (Suc n)) = LockState_init" "lm_ok (LockManager_init (Suc n))"
  "lm_graph (LockManager_init n) = []"
proof -
  have "replicate (Suc n) [] ! (unat (hf r) mod Suc n) = []" by (rule nth_replicate) simp
  then show "lock_state_at hf r (LockManager_init (Suc n)) = LockState_init"
    by (simp add: lock_state_at_def lock_find_def LockManager_init_def get_shard_def del: replicate_Suc)
qed (simp_all add: LockManager_init_def lm_ok_def)

lemma lm_graph_store [simp]: "lm_graph (lock_store hf r st lm) = lm_graph lm"
  by (simp add: lock_store_def Let_def)

text \<open>C35. Whatever the threads do, in any interleaving of requests, wake-ups, timeouts, unlocks and releases,
  two transactions that are recorded as holders of one resource hold it in compatible modes. In
  particular an exclusive holder is alone.\<close>
theorem holders_compatible:
  assumes "0 < n" "lock_find (resource_hash hi hu) res (fold (lm_step (resource_hash hi hu)) ops (LockManager_init n)) = Some st"
    and "(t, m) \<in> set (ls_holders st)" "(u, k) \<in> set (ls_holders st)" "t \<noteq> u"
  shows "is_compatible m k"
proof -
  have "locks_ok (resource_hash hi hu) (fold (lm_step (resource_hash hi hu)) ops (LockManager_init n))"
    by (rule lm_steps_ok [OF locks_ok_init [OF assms(1)]])
  then have "state_ok st" using assms(2) by (simp add: locks_ok_def)
  then show ?thesis using assms(3-5) by (auto simp: state_ok_def)
qed

lemma lock_find_state: "lock_find hf r lm \<noteq> None \<Longrightarrow> lock_find hf r lm = Some (lock_state_at hf r lm)"
  by (auto simp: lock_state_at_def)

theorem holders_compatible_witness:
  "\<exists>st. lock_find example_hash (table_lock 7)
       (fold (lm_step example_hash) [Op_request 1 (table_lock 7) Shared, Op_request 2 (table_lock 7) IntentShared] (LockManager_init 64)) = Some st
     \<and> (1, Shared) \<in> set (ls_holders st) \<and> (2, IntentShared) \<in> set (ls_holders st) \<and> is_compatible Shared IntentShared"
proof -
  let ?lm = "fold (lm_step example_hash) [Op_request 1 (table_lock 7) Shared, Op_request 2 (table_lock 7) IntentShared] (LockManager_init 64)"
  have f: "lock_find example_hash (table_lock 7) ?lm = Some \<lparr>ls_holders = [(1, Shared), (2, IntentShared)], ls_waiters = []\<rparr>"
    using lock_state_at_init(2) [of 63] lock_state_at_init(1) [of example_hash "table_lock 7" 63]
    by (simp add: lock_request_def Let_def LockState_init_def can_grant_def lt.look_store lt.store_ok lock_state_at_store)
  show ?thesis
    using holders_compatible [OF _ f, of 1 Shared 2 IntentShared] f by simp
qed

text \<open>\<open>release_all\<close> takes every listed lock from its transaction, for resources equal to a listed one in the
  sense of \<open>operator==\<close>, and changes no lock of another transaction.\<close>
lemma release_all_releases:
  assumes "lm_ok lm"
  shows "held_mode (resource_hash hi hu) txn q (release_all (resource_hash hi hu) txn rs lm) =
      (if \<exists>r\<in>set rs. res_eq q r then None else held_mode (resource_hash hi hu) txn q lm) \<and>
    (t \<noteq> txn \<longrightarrow> held_mode (resource_hash hi hu) t q (release_all (resource_hash hi hu) txn rs lm) = held_mode (resource_hash hi hu) t q lm)"
  using release_fold [OF assms, where hi = hi and hu = hu and txn = txn and q = q and rs = rs] lm_step_other [OF assms, of "Op_release txn rs" t hi hu q]
  by (auto simp: release_all_def Let_def res_eq_key image_iff)

text \<open>An upgrade that has to wait never succeeds: the wait predicate tests the requested mode against all
  holders, the requester included, and its own held mode conflicts. Whatever the other transactions
  do, even after all of them are gone, waking up does not grant the lock.\<close>
lemma upgrade_waits_forever:
  assumes "lm_ok lm" "held_mode (resource_hash hi hu) txn res lm = Some held"
    and "lock_request (resource_hash hi hu) txn res mode lm = (lm', Waiting)" "\<And>op. op \<in> set ops \<Longrightarrow> op_txn op \<noteq> txn"
  shows "snd (lock_wake (resource_hash hi hu) txn res mode (fold (lm_step (resource_hash hi hu)) ops lm')) \<noteq> Granted"
proof -
  let ?hf = "resource_hash hi hu" and ?lm = "fold (lm_step (resource_hash hi hu)) ops lm'"
  let ?st = "lock_state_at ?hf res lm"
  have nc: "\<not> is_compatible held mode"
    using assms(2,3) is_compatible_sym by (auto simp: lock_request_def Let_def split: if_splits)
  have e: "enqueue ?hf txn res (?st\<lparr>ls_waiters := \<lparr>rq_txn = txn, rq_mode = mode, rq_aborted = False\<rparr> # ls_waiters ?st\<rparr>) lm = (lm', Waiting)"
    using assms(2,3) by (auto simp: lock_request_def Let_def split: if_splits)
  have "lm_ok lm' \<and> held_mode ?hf txn res lm' = Some held"
    using e assms(1,2) lt.store_ok [OF assms(1)]
    by (auto simp: enqueue_def Let_def lock_state_at_store split: option.splits if_splits)
  then have "held_mode ?hf txn res ?lm = Some held" using lm_steps_other [of lm' ops txn hi hu res] assms(4) by simp
  then have "\<not> can_grant (lock_state_at ?hf res ?lm) mode"
    using nc by (auto simp: can_grant_def list_all_iff dest!: map_of_SomeD)
  then show ?thesis by (auto simp: lock_wake_def Let_def split: option.splits)
qed


lemma example_graph:
  "detect_cycle [(1, [2])] = None" "detect_cycle [(2, [1])] = None" "detect_cycle [(2, [1]), (1, [3])] = None"
  by (simp_all add: detect_cycle_def, code_simp+)

text \<open>The steps below are run by rewriting with the laws of the table.\<close>

lemmas run_simps = lock_request_def lock_wake_def enqueue_def wait_edges_def can_grant_def can_upgrade_def unlock_def Let_def
  lt.look_store lt.store_ok lock_state_at_store LockState_init_def add_edge_def succs_def

text \<open>A transaction that holds \<open>IntentShared\<close> and asks for \<open>Shared\<close> is told that it has the lock, because the
  test for "an equal or stronger lock" is a test of compatibility; its entry stays \<open>IntentShared\<close>, and
  another transaction is then granted \<open>IntentExclusive\<close>, which conflicts with \<open>Shared\<close>.\<close>
lemma stronger_lock_not_taken:
  assumes "lm_ok lm" "lock_state_at (resource_hash hi hu) res lm = \<lparr>ls_holders = [(txn, IntentShared)], ls_waiters = []\<rparr>" "u \<noteq> txn"
  shows "\<exists>lm1 lm2. lock_request (resource_hash hi hu) txn res Shared lm = (lm1, Granted) \<and>
    lock_request (resource_hash hi hu) u res IntentExclusive lm1 = (lm2, Granted) \<and>
    held_mode (resource_hash hi hu) txn res lm2 = Some IntentShared \<and> \<not> is_compatible Shared IntentExclusive"
  using assms by (auto simp: run_simps)

text \<open>A deadlock can go undetected. Transaction 2 waits for 1; then 1 waits for 3, and when 1 is granted that
  lock, all edges of 1 are removed, the one of its waiter included. When 1 now asks for the lock that 2
  holds, no cycle is found: both sleep, no wake-up can succeed, and the graph shows no deadlock.\<close>
lemma deadlock_undetected:
  "\<exists>lm. lm = fold (lm_step example_hash)
       [Op_request 1 (table_lock 1) Exclusive, Op_request 2 (table_lock 3) Exclusive, Op_request 3 (table_lock 2) Exclusive,
        Op_request 2 (table_lock 1) Exclusive, Op_request 1 (table_lock 2) Exclusive, Op_release 3 [table_lock 2],
        Op_wake 1 (table_lock 2) Exclusive, Op_request 1 (table_lock 3) Exclusive] (LockManager_init 64) \<and>
     held_mode example_hash 1 (table_lock 1) lm = Some Exclusive \<and> map rq_txn (ls_waiters (lock_state_at example_hash (table_lock 1) lm)) = [2] \<and>
     held_mode example_hash 2 (table_lock 3) lm = Some Exclusive \<and> map rq_txn (ls_waiters (lock_state_at example_hash (table_lock 3) lm)) = [1] \<and>
     lock_wake example_hash 2 (table_lock 1) Exclusive lm = (lm, Waiting) \<and> lock_wake example_hash 1 (table_lock 3) Exclusive lm = (lm, Waiting) \<and>
     detect_cycle (lm_graph lm) = None"
proof -
  have i: "lm_ok (LockManager_init 64)" "\<And>r. lock_state_at example_hash r (LockManager_init 64) = LockState_init"
    using lock_state_at_init(2) [of 63] lock_state_at_init(1) [where n = 63] by simp_all
  show ?thesis
    using i by (simp add: run_simps example_graph release_all_def remove_transaction_def)
qed

end
