(* ===== verification/Table_Page.thy ===== *)
theory Table_Page
  imports Page_Format
begin

text \<open>
  \<open>table_page.hpp/.cpp\<close>, \<open>slot.hpp\<close> and \<open>record_id.hpp\<close>: the slotted page that stores records.

  The C++ code overlays structs on the page buffer (\<open>reinterpret_cast\<close>), so the model works on
  the bytes. Offsets follow the x86-64 layout: \<open>sizeof(PageHeader)\<close> is 40 although the header is
  serialized in \<open>PageHeader::SIZE\<close> = 36 bytes, so the table header sits at byte 36, the slot array
  at byte 68, and the base that record offsets are relative to (\<open>hdr - sizeof(PageHeader)\<close>) is four
  bytes before the buffer: a record with offset \<open>o\<close> starts at byte \<open>o - 4\<close> and \<open>page_size()\<close> is the
  buffer length plus four.
\<close>

section \<open>Struct overlays\<close>

definition sizeof_PageHeader :: nat where "sizeof_PageHeader = 40"
definition sizeof_TablePageHeader :: nat where "sizeof_TablePageHeader = 32"
definition sizeof_Slot :: nat where "sizeof_Slot = 12"

lemmas sizeof_defs = sizeof_PageHeader_def sizeof_TablePageHeader_def sizeof_Slot_def

text \<open>Loads and stores of native integers (little-endian host).\<close>

definition get16 :: "bytes \<Rightarrow> nat \<Rightarrow> u16" where "get16 d off = le_word (bslice off 2 d)"
definition get32 :: "bytes \<Rightarrow> nat \<Rightarrow> u32" where "get32 d off = le_word (bslice off 4 d)"
definition get64 :: "bytes \<Rightarrow> nat \<Rightarrow> u64" where "get64 d off = le_word (bslice off 8 d)"
definition put16 :: "nat \<Rightarrow> u16 \<Rightarrow> bytes \<Rightarrow> bytes" where "put16 off v d = patch off (le_bytes 2 v) d"
definition put32 :: "nat \<Rightarrow> u32 \<Rightarrow> bytes \<Rightarrow> bytes" where "put32 off v d = patch off (le_bytes 4 v) d"
definition put64 :: "nat \<Rightarrow> u64 \<Rightarrow> bytes \<Rightarrow> bytes" where "put64 off v d = patch off (le_bytes 8 v) d"

record record_id =
  rid_page :: page_id
  rid_slot :: u32

definition INVALID_SLOT :: u32 where "INVALID_SLOT = - 1"

definition invalid_rid :: record_id where
  "invalid_rid = \<lparr>rid_page = invalid_value, rid_slot = INVALID_SLOT\<rparr>"

definition rid_is_valid :: "record_id \<Rightarrow> bool" where
  "rid_is_valid r \<longleftrightarrow> is_valid_id (rid_page r) \<and> rid_slot r \<noteq> INVALID_SLOT"

record slot =
  s_offset :: u32
  s_length :: u32
  s_flags :: u16

definition FLAG_EMPTY :: u16 where "FLAG_EMPTY = 0"
definition FLAG_LIVE :: u16 where "FLAG_LIVE = push_bit 0 1"
definition FLAG_DELETED :: u16 where "FLAG_DELETED = push_bit 1 1"

definition is_live :: "slot \<Rightarrow> bool" where "is_live s \<longleftrightarrow> s_flags s AND FLAG_LIVE \<noteq> 0"
definition is_deleted :: "slot \<Rightarrow> bool" where "is_deleted s \<longleftrightarrow> s_flags s AND FLAG_DELETED \<noteq> 0"
definition is_empty :: "slot \<Rightarrow> bool" where "is_empty s \<longleftrightarrow> s_flags s = FLAG_EMPTY"

text \<open>\<open>TablePageHeader\<close> at byte 36.\<close>

definition hdr_next :: "bytes \<Rightarrow> page_id" where "hdr_next d = get64 d 36"
definition hdr_prev :: "bytes \<Rightarrow> page_id" where "hdr_prev d = get64 d 44"
definition slot_count :: "bytes \<Rightarrow> u32" where "slot_count d = get32 d 52"
definition lower_bound :: "bytes \<Rightarrow> u32" where "lower_bound d = get32 d 56"
definition upper_bound :: "bytes \<Rightarrow> u32" where "upper_bound d = get32 d 60"
definition live_count :: "bytes \<Rightarrow> u32" where "live_count d = get32 d 64"

text \<open>\<open>slots[i]\<close>: twelve bytes each from byte 68, the last two are padding.\<close>

definition slot_at :: "bytes \<Rightarrow> nat \<Rightarrow> slot" where
  "slot_at d i = \<lparr>s_offset = get32 d (68 + 12 * i), s_length = get32 d (72 + 12 * i),
     s_flags = get16 d (76 + 12 * i)\<rparr>"

text \<open>\<open>page_size()\<close> of the page whose buffer is \<open>d\<close>, and unsigned subtraction on \<open>size_t\<close>.\<close>

definition tp_page_size :: "bytes \<Rightarrow> nat" where
  "tp_page_size d = length (drop PageHeader_SIZE d) + sizeof_PageHeader"

definition size_sub :: "nat \<Rightarrow> nat \<Rightarrow> nat" where
  "size_sub a b = (if b \<le> a then a - b else 2 ^ 64 + a - b)"

text \<open>\<open>page_data + offset\<close> as an index into the buffer.\<close>

definition rec_at :: "u32 \<Rightarrow> nat" where
  "rec_at off = unat off - 4"

definition slot_bytes :: "bytes \<Rightarrow> slot \<Rightarrow> bytes" where
  "slot_bytes d s = bslice (rec_at (s_offset s)) (unat (s_length s)) d"

section \<open>Operations\<close>

text \<open>
  A \<open>TablePage\<close> holds a pinned frame: the page and the dirty flag of the frame, which \<open>get_mut\<close>
  and \<open>mark_dirty\<close> set.
\<close>

record table_page =
  tp_page :: page
  tp_frame_dirty :: bool

definition tp_data :: "table_page \<Rightarrow> bytes" where "tp_data t = pg_data (tp_page t)"

definition tp_page_id :: "table_page \<Rightarrow> page_id" where "tp_page_id t = pg_id (tp_page t)"

definition get_mut :: "table_page \<Rightarrow> table_page" where
  "get_mut t = t\<lparr>tp_frame_dirty := True\<rparr>"

definition with_data :: "table_page \<Rightarrow> bytes \<Rightarrow> table_page" where
  "with_data t d = t\<lparr>tp_page := (tp_page t)\<lparr>pg_data := d\<rparr>, tp_frame_dirty := True\<rparr>"

definition tp_init :: "table_page \<Rightarrow> table_page" where
  "tp_init t =
     (let d = tp_data t;
          d = put64 36 invalid_value d;
          d = put64 44 invalid_value d;
          d = put32 52 0 d;
          d = put32 56 (of_nat (sizeof_PageHeader + sizeof_TablePageHeader)) d;
          d = put32 60 (of_nat (tp_page_size d)) d;
          d = put32 64 0 d
      in with_data t d)"

definition free_space :: "bytes \<Rightarrow> nat" where
  "free_space d =
     (if lower_bound d \<le> upper_bound d then unat (upper_bound d - lower_bound d) else 0)"

text \<open>The slot search of \<open>insert\<close>: the first slot that is not live.\<close>

definition find_free_slot :: "bytes \<Rightarrow> u32" where
  "find_free_slot d =
     (case find (\<lambda>i. \<not> is_live (slot_at d i)) [0..<unat (slot_count d)] of
        Some i \<Rightarrow> of_nat i | None \<Rightarrow> INVALID_SLOT)"

definition insert_data :: "bytes \<Rightarrow> bytes \<Rightarrow> bytes \<times> u32 result" where
  "insert_data d record_bytes =
     (let size = length record_bytes in
      if size > size_sub (size_sub (size_sub (tp_page_size d) sizeof_PageHeader) sizeof_TablePageHeader) sizeof_Slot
      then (d, Inl InvalidArgument)
      else
        let target = find_free_slot d;
            required = (if target = INVALID_SLOT then size + sizeof_Slot else size)
        in if required > free_space d then (d, Inl InternalError)
           else
             let (target, d) =
                   (if target = INVALID_SLOT
                    then (slot_count d,
                          put32 56 (lower_bound d + of_nat sizeof_Slot) (put32 52 (slot_count d + 1) d))
                    else (target, d));
                 d = put32 60 (upper_bound d - of_nat size) d;
                 record_offset = upper_bound d;
                 d = patch (rec_at record_offset) record_bytes d;
                 d = put32 (68 + 12 * unat target) record_offset d;
                 d = put32 (72 + 12 * unat target) (of_nat size) d;
                 d = put16 (76 + 12 * unat target) FLAG_LIVE d;
                 d = put32 64 (live_count d + 1) d
             in (d, Inr target))"

definition tp_insert :: "table_page \<Rightarrow> bytes \<Rightarrow> table_page \<times> record_id result" where
  "tp_insert t record_bytes =
     (case insert_data (tp_data t) record_bytes of
        (_, Inl InvalidArgument) \<Rightarrow> (t, Inl InvalidArgument)
      | (_, Inl e) \<Rightarrow> (get_mut t, Inl e)
      | (d, Inr target) \<Rightarrow> (with_data t d, Inr \<lparr>rid_page = tp_page_id t, rid_slot = target\<rparr>))"

definition tp_get :: "table_page \<Rightarrow> record_id \<Rightarrow> bytes result" where
  "tp_get t rid =
     (let d = tp_data t in
      if rid_page rid \<noteq> tp_page_id t then Inl InvalidArgument
      else if rid_slot rid \<ge> slot_count d then Inl NotFound
      else let s = slot_at d (unat (rid_slot rid)) in
        if \<not> is_live s then Inl NotFound
        else if unat (s_offset s + s_length s) > tp_page_size d then Inl InternalError
        else Inr (slot_bytes d s))"

definition tp_erase :: "table_page \<Rightarrow> record_id \<Rightarrow> table_page \<times> unit result" where
  "tp_erase t rid =
     (let d = tp_data t; i = unat (rid_slot rid) in
      if rid_page rid \<noteq> tp_page_id t then (t, Inl InvalidArgument)
      else if rid_slot rid \<ge> slot_count d then (get_mut t, Inl NotFound)
      else if \<not> is_live (slot_at d i) then (get_mut t, Inl NotFound)
      else let d = put16 (76 + 12 * i) FLAG_DELETED d;
               d = put32 64 (live_count d - 1) d
           in (with_data t d, Inr ()))"

definition tp_update :: "table_page \<Rightarrow> record_id \<Rightarrow> bytes \<Rightarrow> table_page \<times> unit result" where
  "tp_update t rid record_bytes =
     (let d = tp_data t; i = unat (rid_slot rid); size = length record_bytes in
      if rid_page rid \<noteq> tp_page_id t then (t, Inl InvalidArgument)
      else if rid_slot rid \<ge> slot_count d then (get_mut t, Inl NotFound)
      else let s = slot_at d i in
        if \<not> is_live s then (get_mut t, Inl NotFound)
        else if size \<le> unat (s_length s)
        then let d = patch (rec_at (s_offset s)) record_bytes d;
                 d = put32 (72 + 12 * i) (of_nat size) d
             in (with_data t d, Inr ())
        else if size > free_space d then (get_mut t, Inl InternalError)
        else let d = put32 60 (upper_bound d - of_nat size) d;
                 new_offset = upper_bound d;
                 d = patch (rec_at new_offset) record_bytes d;
                 d = put32 (68 + 12 * i) new_offset d;
                 d = put32 (72 + 12 * i) (of_nat size) d
             in (with_data t d, Inr ()))"

text \<open>
  \<open>compact()\<close>: collect the live slots, sort them by offset, largest first, and slide each record to
  the right end. \<open>compact_loop\<close> is the loop over the sorted list; \<open>trim_slots\<close> drops the trailing
  slots that are not live.
\<close>

definition live_slots :: "bytes \<Rightarrow> (nat \<times> u32) list" where
  "live_slots d = map (\<lambda>i. (i, s_offset (slot_at d i)))
     (filter (\<lambda>i. is_live (slot_at d i)) [0..<unat (slot_count d)])"

fun compact_loop :: "(nat \<times> u32) list \<Rightarrow> bytes \<Rightarrow> u32 \<Rightarrow> bytes \<times> u32" where
  "compact_loop [] d write_cursor = (d, write_cursor)"
| "compact_loop ((i, off) # srs) d write_cursor =
     (let s = slot_at d i;
          write_cursor = write_cursor - s_length s;
          d = (if s_offset s \<noteq> write_cursor
               then put32 (68 + 12 * i) write_cursor (patch (rec_at write_cursor) (slot_bytes d s) d)
               else d)
      in compact_loop srs d write_cursor)"

fun trim_slots :: "nat \<Rightarrow> bytes \<Rightarrow> bytes" where
  "trim_slots 0 d = d"
| "trim_slots (Suc n) d =
     (if is_live (slot_at d n) then d
      else trim_slots n (put32 56 (lower_bound d - of_nat sizeof_Slot) (put32 52 (slot_count d - 1) d)))"

definition compact_data :: "bytes \<Rightarrow> bytes" where
  "compact_data d =
     (let srs = sort_key (\<lambda>sr. - uint (snd sr)) (live_slots d);
          (d, write_cursor) = compact_loop srs d (of_nat (tp_page_size d));
          d = put32 60 write_cursor d
      in trim_slots (unat (slot_count d)) d)"

definition tp_compact :: "table_page \<Rightarrow> table_page" where
  "tp_compact t = with_data t (compact_data (tp_data t))"

definition set_next_page_id :: "table_page \<Rightarrow> page_id \<Rightarrow> table_page" where
  "set_next_page_id t i = with_data t (put64 36 i (tp_data t))"

definition set_prev_page_id :: "table_page \<Rightarrow> page_id \<Rightarrow> table_page" where
  "set_prev_page_id t i = with_data t (put64 44 i (tp_data t))"

definition next_page_id :: "table_page \<Rightarrow> page_id" where
  "next_page_id t = hdr_next (tp_data t)"

definition prev_page_id :: "table_page \<Rightarrow> page_id" where
  "prev_page_id t = hdr_prev (tp_data t)"

definition set_lsn :: "table_page \<Rightarrow> u64 \<Rightarrow> table_page" where
  "set_lsn t lsn =
     (get_mut t)\<lparr>tp_page := write_header ((read_header (tp_page t))\<lparr>ph_lsn := lsn\<rparr>) (tp_page t)\<rparr>"

definition tp_lsn :: "table_page \<Rightarrow> u64" where
  "tp_lsn t = ph_lsn (read_header (tp_page t))"


section \<open>Reading back what was written\<close>

lemmas overlay_defs = get16_def get32_def get64_def put16_def put32_def put64_def
lemmas field_defs = hdr_next_def hdr_prev_def slot_count_def lower_bound_def upper_bound_def live_count_def

lemma length_put [simp]:
  "off + 2 \<le> length d \<Longrightarrow> length (put16 off v d) = length d"
  "off + 4 \<le> length d \<Longrightarrow> length (put32 off w d) = length d"
  "off + 8 \<le> length d \<Longrightarrow> length (put64 off x d) = length d"
  by (simp_all add: overlay_defs)

lemma get_put_same [simp]:
  "off + 2 \<le> length d \<Longrightarrow> get16 (put16 off v d) off = v"
  "off + 4 \<le> length d \<Longrightarrow> get32 (put32 off w d) off = w"
  "off + 8 \<le> length d \<Longrightarrow> get64 (put64 off x d) off = x"
  by (simp_all add: overlay_defs slice_patch_same')

lemma get_patch_other:
  assumes "off + length bs \<le> length d"
  shows "i + 2 \<le> length d \<Longrightarrow> i + 2 \<le> off \<or> off + length bs \<le> i \<Longrightarrow> get16 (patch off bs d) i = get16 d i"
    and "i + 4 \<le> length d \<Longrightarrow> i + 4 \<le> off \<or> off + length bs \<le> i \<Longrightarrow> get32 (patch off bs d) i = get32 d i"
    and "i + 8 \<le> length d \<Longrightarrow> i + 8 \<le> off \<or> off + length bs \<le> i \<Longrightarrow> get64 (patch off bs d) i = get64 d i"
  using assms by (simp_all add: get16_def get32_def get64_def slice_patch_disjoint)

lemmas put_patch = put16_def put32_def put64_def

lemma fields_patch_body:
  assumes "68 \<le> off" "off + length bs \<le> length d"
  shows "hdr_next (patch off bs d) = hdr_next d" "hdr_prev (patch off bs d) = hdr_prev d"
    "slot_count (patch off bs d) = slot_count d" "lower_bound (patch off bs d) = lower_bound d"
    "upper_bound (patch off bs d) = upper_bound d" "live_count (patch off bs d) = live_count d"
  using assms by (simp_all add: field_defs get_patch_other)

lemma fields_put_header:
  assumes "68 \<le> length d"
  shows "slot_count (put32 52 v d) = v" "slot_count (put32 56 v d) = slot_count d"
    "slot_count (put32 60 v d) = slot_count d" "slot_count (put32 64 v d) = slot_count d"
    "lower_bound (put32 52 v d) = lower_bound d" "lower_bound (put32 56 v d) = v"
    "lower_bound (put32 60 v d) = lower_bound d" "lower_bound (put32 64 v d) = lower_bound d"
    "upper_bound (put32 52 v d) = upper_bound d" "upper_bound (put32 56 v d) = upper_bound d"
    "upper_bound (put32 60 v d) = v" "upper_bound (put32 64 v d) = upper_bound d"
    "live_count (put32 52 v d) = live_count d" "live_count (put32 56 v d) = live_count d"
    "live_count (put32 60 v d) = live_count d" "live_count (put32 64 v d) = v"
  using assms by (simp_all add: field_defs) (simp_all add: put_patch get_patch_other)

lemma slot_at_patch_other:
  assumes "off + length bs \<le> length d" "80 + 12 * i \<le> length d"
    and "off + length bs \<le> 68 + 12 * i \<or> 80 + 12 * i \<le> off"
  shows "slot_at (patch off bs d) i = slot_at d i"
  using assms by (auto simp: slot_at_def get_patch_other)

lemma slot_at_put_header:
  assumes "80 + 12 * i \<le> length d" "off + 4 \<le> 68"
  shows "slot_at (put32 off v d) i = slot_at d i"
  using assms by (simp add: put_patch slot_at_patch_other)

lemma slot_at_put_slot:
  assumes "80 + 12 * i \<le> length d" "80 + 12 * k \<le> length d"
  shows "slot_at (put32 (68 + 12 * k) v d) i = (if i = k then (slot_at d i)\<lparr>s_offset := v\<rparr> else slot_at d i)"
    and "slot_at (put32 (72 + 12 * k) v d) i = (if i = k then (slot_at d i)\<lparr>s_length := v\<rparr> else slot_at d i)"
    and "slot_at (put16 (76 + 12 * k) f d) i = (if i = k then (slot_at d i)\<lparr>s_flags := f\<rparr> else slot_at d i)"
proof -
  have other: "slot_at (patch off bs d) i = slot_at d i"
    if "i \<noteq> k" "68 + 12 * k \<le> off" "off + length bs \<le> 80 + 12 * k" for off and bs
    using that assms by (intro slot_at_patch_other) (cases "i < k"; simp)+
  show "slot_at (put32 (68 + 12 * k) v d) i = (if i = k then (slot_at d i)\<lparr>s_offset := v\<rparr> else slot_at d i)"
    using assms other by (auto simp: slot_at_def) (simp_all add: put_patch get_patch_other)
  show "slot_at (put32 (72 + 12 * k) v d) i = (if i = k then (slot_at d i)\<lparr>s_length := v\<rparr> else slot_at d i)"
    using assms other by (auto simp: slot_at_def) (simp_all add: put_patch get_patch_other)
  show "slot_at (put16 (76 + 12 * k) f d) i = (if i = k then (slot_at d i)\<lparr>s_flags := f\<rparr> else slot_at d i)"
    using assms other by (auto simp: slot_at_def) (simp_all add: put_patch get_patch_other)
qed

lemma fields_put_slot:
  assumes "80 + 12 * k \<le> length d"
  shows "slot_count (put32 (68 + 12 * k) v d) = slot_count d" "slot_count (put32 (72 + 12 * k) v d) = slot_count d"
    "slot_count (put16 (76 + 12 * k) f d) = slot_count d"
    "lower_bound (put32 (68 + 12 * k) v d) = lower_bound d" "lower_bound (put32 (72 + 12 * k) v d) = lower_bound d"
    "lower_bound (put16 (76 + 12 * k) f d) = lower_bound d"
    "upper_bound (put32 (68 + 12 * k) v d) = upper_bound d" "upper_bound (put32 (72 + 12 * k) v d) = upper_bound d"
    "upper_bound (put16 (76 + 12 * k) f d) = upper_bound d"
    "live_count (put32 (68 + 12 * k) v d) = live_count d" "live_count (put32 (72 + 12 * k) v d) = live_count d"
    "live_count (put16 (76 + 12 * k) f d) = live_count d"
  using assms by (simp_all add: put_patch fields_patch_body)

lemma slice_put_before:
  assumes "off + 4 \<le> a" "a + n \<le> length d"
  shows "bslice a n (put32 off v d) = bslice a n d" "bslice a n (put16 off f d) = bslice a n d"
  using assms by (simp_all add: put_patch slice_patch_disjoint)

lemma take_patch: "n \<le> off \<Longrightarrow> n \<le> length xs \<Longrightarrow> take n (patch off bs xs) = take n xs"
  by (simp add: patch_def)

lemma take_put: "n \<le> off \<Longrightarrow> n \<le> length d \<Longrightarrow> take n (put16 off v2 d) = take n d"
    "n \<le> off \<Longrightarrow> n \<le> length d \<Longrightarrow> take n (put32 off v4 d) = take n d"
    "n \<le> off \<Longrightarrow> n \<le> length d \<Longrightarrow> take n (put64 off v8 d) = take n d"
  by (simp_all add: put_patch take_patch)

lemmas overlay_simps = fields_patch_body fields_put_header fields_put_slot slot_at_put_header slot_at_put_slot

section \<open>The page invariant and the abstract page\<close>

text \<open>
  The extent of a slot is where its record lies, if it is live. \<open>layout\<close> says that the extents lie
  between the upper bound and the end of the page and do not overlap.
\<close>

definition slot_ext :: "bytes \<Rightarrow> nat \<Rightarrow> (nat \<times> nat) option" where
  "slot_ext d i =
     (if i < unat (slot_count d) \<and> is_live (slot_at d i)
      then Some (unat (s_offset (slot_at d i)), unat (s_length (slot_at d i))) else None)"

definition layout :: "nat \<Rightarrow> nat \<Rightarrow> (nat \<Rightarrow> (nat \<times> nat) option) \<Rightarrow> bool" where
  "layout up ps E \<longleftrightarrow>
     (\<forall>i off len. E i = Some (off, len) \<longrightarrow> up \<le> off \<and> off + len \<le> ps) \<and>
     (\<forall>i j o1 l1 o2 l2. i \<noteq> j \<longrightarrow> E i = Some (o1, l1) \<longrightarrow> E j = Some (o2, l2) \<longrightarrow>
        o1 + l1 \<le> o2 \<or> o2 + l2 \<le> o1)"

definition tp_inv :: "bytes \<Rightarrow> bool" where
  "tp_inv d \<longleftrightarrow>
     80 \<le> length d \<and> length d + 4 < 2 ^ 32 \<and>
     unat (lower_bound d) = 72 + 12 * unat (slot_count d) \<and>
     lower_bound d \<le> upper_bound d \<and> unat (upper_bound d) \<le> length d + 4 \<and>
     layout (unat (upper_bound d)) (length d + 4) (slot_ext d) \<and>
     unat (live_count d) = card (dom (slot_ext d))"

text \<open>The abstract page: which record each slot holds.\<close>

definition ext_bytes :: "bytes \<Rightarrow> nat \<times> nat \<Rightarrow> bytes" where
  "ext_bytes d e = bslice (fst e - 4) (snd e) d"

definition tp_abs :: "bytes \<Rightarrow> nat \<Rightarrow> bytes option" where
  "tp_abs d i = map_option (ext_bytes d) (slot_ext d i)"

lemma layoutD:
  assumes "layout up ps E" "E i = Some (off, len)"
  shows "up \<le> off" "off + len \<le> ps"
  using assms by (auto simp: layout_def)

lemma layout_disjoint:
  assumes "layout up ps E" "E i = Some (o1, l1)" "E j = Some (o2, l2)" "i \<noteq> j"
  shows "o1 + l1 \<le> o2 \<or> o2 + l2 \<le> o1"
  using assms unfolding layout_def by blast

lemma layout_add:
  assumes "layout up ps E" "n \<le> up" "up \<le> ps"
  shows "layout (up - n) ps (E(k \<mapsto> (up - n, n)))"
  unfolding layout_def
proof (intro conjI allI impI)
  fix i off len assume "(E(k \<mapsto> (up - n, n))) i = Some (off, len)"
  with assms show "up - n \<le> off" "off + len \<le> ps"
    by (auto simp: layout_def split: if_splits dest: le_trans [OF diff_le_self])
next
  fix i j o1 l1 o2 l2
  assume "i \<noteq> j" "(E(k \<mapsto> (up - n, n))) i = Some (o1, l1)" "(E(k \<mapsto> (up - n, n))) j = Some (o2, l2)"
  with assms show "o1 + l1 \<le> o2 \<or> o2 + l2 \<le> o1"
    by (auto simp: layout_def split: if_splits)
qed

lemma layout_delete: "layout up ps E \<Longrightarrow> layout up ps (E(k := None))"
  by (auto simp: layout_def split: if_splits)

lemma layout_shrink:
  assumes "layout up ps E" "E k = Some (off, len)" "n \<le> len"
  shows "layout up ps (E(k \<mapsto> (off, n)))"
proof -
  have "o1 + n \<le> o2 \<or> o2 + l2 \<le> o1" if "o1 + len \<le> o2 \<or> o2 + l2 \<le> o1" for o1 o2 l2 :: nat
    using that assms(3) by linarith
  with assms show ?thesis
    unfolding layout_def by (fastforce split: if_splits)
qed


lemma tp_inv_room:
  assumes "tp_inv d"
  shows "68 + 12 * unat (slot_count d) \<le> length d"
    and "i < unat (slot_count d) \<Longrightarrow> 80 + 12 * i \<le> length d"
    and "unat (lower_bound d) \<le> unat (upper_bound d)"
    and "finite (dom (slot_ext d))"
proof -
  from assms show lu: "unat (lower_bound d) \<le> unat (upper_bound d)"
    by (simp add: tp_inv_def word_le_nat_alt)
  with assms show "68 + 12 * unat (slot_count d) \<le> length d"
    by (simp add: tp_inv_def)
  then show "i < unat (slot_count d) \<Longrightarrow> 80 + 12 * i \<le> length d"
    by simp
  have "dom (slot_ext d) \<subseteq> {..<unat (slot_count d)}"
    by (auto simp: slot_ext_def split: if_splits)
  then show "finite (dom (slot_ext d))"
    using finite_subset by blast
qed

lemma tp_inv_bounds:
  assumes "tp_inv d"
  shows "80 \<le> length d" "length d + 4 < 2 ^ 32" "unat (upper_bound d) \<le> length d + 4"
    "72 + 12 * unat (slot_count d) \<le> unat (upper_bound d)"
  using assms tp_inv_room(3) [OF assms] by (simp_all add: tp_inv_def)

lemma free_space_unat:
  "tp_inv d \<Longrightarrow> free_space d = unat (upper_bound d) - (72 + 12 * unat (slot_count d))"
  by (auto simp: free_space_def tp_inv_def unat_minus_if_le word_le_nat_alt)

lemma find_free_slot_cases:
  assumes "tp_inv d"
  obtains (new) "find_free_slot d = INVALID_SLOT" "\<And>i. i < unat (slot_count d) \<Longrightarrow> is_live (slot_at d i)"
  | (reuse) k where "k < unat (slot_count d)" "find_free_slot d \<noteq> INVALID_SLOT"
      "unat (find_free_slot d) = k" "\<not> is_live (slot_at d k)"
proof (cases "find (\<lambda>i. \<not> is_live (slot_at d i)) [0..<unat (slot_count d)]")
  case None
  then have "find_free_slot d = INVALID_SLOT"
    by (simp add: find_free_slot_def)
  moreover have "is_live (slot_at d i)" if "i < unat (slot_count d)" for i
    using None that by (auto simp: find_None_iff)
  ultimately show ?thesis
    by (rule new)
next
  case (Some k)
  then have k: "k < unat (slot_count d)" "\<not> is_live (slot_at d k)"
    by (auto simp: find_Some_iff)
  moreover have "k < 2 ^ 32 - 1"
    using k(1) tp_inv_room(1) [OF assms] assms by (simp add: tp_inv_def)
  then have "unat (of_nat k :: u32) = k" "(of_nat k :: u32) \<noteq> INVALID_SLOT"
    using unat_minus_one_full [where 'a = 32] by (auto simp: INVALID_SLOT_def unat_of_nat_fits dest: arg_cong [where f = unat])
  ultimately show ?thesis
    using Some by (intro reuse [of k]) (simp_all add: find_free_slot_def)
qed

text \<open>Placing a record below the upper bound and pointing slot \<open>k\<close> at it.\<close>

definition place :: "nat \<Rightarrow> bytes \<Rightarrow> bytes \<Rightarrow> bytes" where
  "place k bs d =
     (let off = upper_bound d - of_nat (length bs)
      in put32 (72 + 12 * k) (of_nat (length bs)) (put32 (68 + 12 * k) off
           (patch (rec_at off) bs (put32 60 off d))))"

lemma place_effect:
  fixes bs d k
  defines "off \<equiv> upper_bound d - of_nat (length bs)"
  assumes room: "84 + 12 * k + length bs \<le> unat (upper_bound d)"
    and up: "unat (upper_bound d) \<le> length d + 4" and len: "length d + 4 < 2 ^ 32"
  shows "unat off = unat (upper_bound d) - length bs"
    and "length (place k bs d) = length d"
    and "slot_count (place k bs d) = slot_count d" and "lower_bound (place k bs d) = lower_bound d"
    and "upper_bound (place k bs d) = off" and "live_count (place k bs d) = live_count d"
    and "slot_at (place k bs d) k = (slot_at d k)\<lparr>s_offset := off, s_length := of_nat (length bs)\<rparr>"
    and "\<And>i. i \<noteq> k \<Longrightarrow> 84 + 12 * i + length bs \<le> unat (upper_bound d) \<Longrightarrow> slot_at (place k bs d) i = slot_at d i"
    and "bslice (unat off - 4) (length bs) (place k bs d) = bs"
    and "\<And>a n. unat (upper_bound d) - 4 \<le> a \<Longrightarrow> a + n \<le> length d \<Longrightarrow> bslice a n (place k bs d) = bslice a n d"
    and "take 52 (place k bs d) = take 52 d"
proof -
  have n: "unat (of_nat (length bs) :: u32) = length bs"
    using room up len by (intro unat_of_nat_fits) simp
  show off: "unat off = unat (upper_bound d) - length bs"
    using room n by (simp add: off_def unat_minus_if_le)
  let ?d1 = "put32 60 off d"
  let ?d2 = "patch (rec_at off) bs ?d1"
  have l1: "length ?d1 = length d" using room up by simp
  have at: "rec_at off = unat (upper_bound d) - length bs - 4" by (simp add: rec_at_def off)
  have in2: "rec_at off + length bs \<le> length d" "80 + 12 * k \<le> rec_at off"
    using room up by (simp_all add: at)
  then have l2: "length ?d2 = length d" using l1 by simp
  have dk: "80 + 12 * k \<le> length d" using in2 by simp
  have eq: "place k bs d = put32 (72 + 12 * k) (of_nat (length bs)) (put32 (68 + 12 * k) off ?d2)"
    by (simp add: place_def off_def Let_def)
  show "length (place k bs d) = length d"
    using dk l2 by (simp add: eq)
  show "slot_count (place k bs d) = slot_count d" "lower_bound (place k bs d) = lower_bound d"
    "upper_bound (place k bs d) = off" "live_count (place k bs d) = live_count d"
    using dk l1 l2 in2 by (simp_all add: eq overlay_simps)
  have other: "slot_at ?d2 i = slot_at d i" if "84 + 12 * i + length bs \<le> unat (upper_bound d)" for i
  proof -
    have "80 + 12 * i \<le> rec_at off" "80 + 12 * i \<le> length d"
      using that up by (simp_all add: at)
    then show ?thesis
      using in2 l1 by (simp add: slot_at_patch_other slot_at_put_header)
  qed
  show "slot_at (place k bs d) k = (slot_at d k)\<lparr>s_offset := off, s_length := of_nat (length bs)\<rparr>"
    using dk l2 other [OF room] by (simp add: eq overlay_simps)
  show "slot_at (place k bs d) i = slot_at d i"
    if "i \<noteq> k" "84 + 12 * i + length bs \<le> unat (upper_bound d)" for i
    using that dk l2 other [OF that(2)] up by (simp add: eq overlay_simps)
  show "bslice (unat off - 4) (length bs) (place k bs d) = bs"
    using in2 l1 l2 dk by (simp add: eq slice_put_before rec_at_def [symmetric])
  show "bslice a n (place k bs d) = bslice a n d" if "unat (upper_bound d) - 4 \<le> a" "a + n \<le> length d" for a n
    using that room in2 l1 l2 dk by (simp add: eq slice_put_before slice_patch_disjoint at)
  show "take 52 (place k bs d) = take 52 d"
    using dk l1 l2 in2 by (simp add: eq take_put take_patch)
qed


lemma is_live_flags [simp]: "is_live (s\<lparr>s_flags := FLAG_LIVE\<rparr>)" "\<not> is_live (s\<lparr>s_flags := FLAG_DELETED\<rparr>)"
  by (simp_all add: is_live_def FLAG_LIVE_def FLAG_DELETED_def)

lemma is_live_cong [simp]: "is_live (s\<lparr>s_offset := v\<rparr>) = is_live s" "is_live (s\<lparr>s_length := v\<rparr>) = is_live s"
  by (simp_all add: is_live_def)

text \<open>Records at or above the upper bound read the same in two buffers.\<close>

definition same_above :: "nat \<Rightarrow> bytes \<Rightarrow> bytes \<Rightarrow> bool" where
  "same_above up d d' \<longleftrightarrow> length d' = length d \<and>
     (\<forall>a n. up - 4 \<le> a \<longrightarrow> a + n \<le> length d \<longrightarrow> bslice a n d' = bslice a n d)"

lemma ext_bytes_same_above:
  assumes "same_above up d d'" "layout up (length d + 4) E" "E i = Some e" "76 \<le> up"
  shows "ext_bytes d' e = ext_bytes d e"
proof -
  obtain off len where e: "e = (off, len)" by fastforce
  with layoutD [OF assms(2)] assms(3) have "up \<le> off" "off + len \<le> length d + 4" by auto
  with assms(1,4) show ?thesis
    by (auto simp: same_above_def ext_bytes_def e)
qed

lemma insert_effect:
  assumes x_def: "x = put16 (76 + 12 * k) FLAG_LIVE (place k bs d1)"
    and d'_def: "d' = put32 64 (live_count x + 1) x"
    and inv: "tp_inv d"
    and up: "upper_bound d1 = upper_bound d" and live: "live_count d1 = live_count d"
    and lower: "unat (lower_bound d1) = 72 + 12 * unat (slot_count d1)"
    and above: "same_above (unat (upper_bound d)) d d1"
    and k: "k < unat (slot_count d1)" "slot_ext d k = None"
    and slots: "\<And>i. i \<noteq> k \<Longrightarrow> i < unat (slot_count d1) \<longleftrightarrow> i < unat (slot_count d)"
      "\<And>i. i \<noteq> k \<Longrightarrow> i < unat (slot_count d) \<Longrightarrow> slot_at d1 i = slot_at d i"
    and room: "72 + 12 * unat (slot_count d1) + length bs \<le> unat (upper_bound d)"
  shows "tp_inv d'" and "tp_abs d' = (tp_abs d)(k \<mapsto> bs)" and "length d' = length d" and "take 52 d' = take 52 d1"
proof -
  let ?up = "unat (upper_bound d)"
  let ?off = "upper_bound d1 - of_nat (length bs)"
  have len: "length d1 = length d" using above by (simp add: same_above_def)
  have dlen: "length d + 4 < 2 ^ 32" "?up \<le> length d + 4" "layout ?up (length d + 4) (slot_ext d)"
    using inv by (auto simp: tp_inv_def)
  have roomi: "84 + 12 * i + length bs \<le> unat (upper_bound d1)" if "i < unat (slot_count d1)" for i
    using room that by (simp add: up)
  note pl = place_effect [OF roomi [OF k(1)], unfolded len, simplified up, OF dlen(2,1)]
  have dk: "80 + 12 * k \<le> length d" using roomi [OF k(1)] dlen(2) by (simp add: up)
  have lx: "length x = length d" using pl(2) dk by (simp add: x_def)
  then show l': "length d' = length d" using dk by (simp add: d'_def)
  show "take 52 d' = take 52 d1" using dk lx pl(2,11) by (simp add: d'_def x_def take_put)
  have fields: "slot_count d' = slot_count d1" "lower_bound d' = lower_bound d1"
    "upper_bound d' = upper_bound d - of_nat (length bs)" "live_count d' = live_count d + 1"
    using pl(2-6) dk lx live by (simp_all add: d'_def x_def overlay_simps)
  have sk: "slot_at d' k = (slot_at d1 k)\<lparr>s_offset := upper_bound d - of_nat (length bs),
      s_length := of_nat (length bs), s_flags := FLAG_LIVE\<rparr>"
    using pl(2,7) dk lx by (simp add: d'_def x_def overlay_simps)
  have si: "slot_at d' i = slot_at d i" if "i \<noteq> k" "i < unat (slot_count d)" for i
  proof -
    have i: "i < unat (slot_count d1)" using that slots(1) by blast
    then have "80 + 12 * i \<le> length d" using roomi [OF i] dlen(2) by (simp add: up)
    then show ?thesis
      using that pl(2) pl(8) [OF that(1)] roomi [OF i] dk lx slots(2)
      by (simp add: d'_def x_def overlay_simps up)
  qed
  have n: "unat (of_nat (length bs) :: u32) = length bs"
    using room dlen by (intro unat_of_nat_fits) simp
  have ext: "slot_ext d' = (slot_ext d)(k \<mapsto> (?up - length bs, length bs))"
  proof
    fix i show "slot_ext d' i = ((slot_ext d)(k \<mapsto> (?up - length bs, length bs))) i"
      using k(1) sk si [of i] slots(1) [of i] pl(1) n
      by (cases "i = k") (auto simp: slot_ext_def fields)
  qed
  have lay: "layout (?up - length bs) (length d + 4) (slot_ext d')"
    unfolding ext using dlen room by (intro layout_add) auto
  have card: "card (dom (slot_ext d')) = Suc (card (dom (slot_ext d)))"
    using tp_inv_room(4) [OF inv] k(2) by (simp add: ext card_insert_if domIff)
  have "dom (slot_ext d) \<subseteq> {..<unat (slot_count d)}"
    by (auto simp: slot_ext_def split: if_splits)
  then have "card (dom (slot_ext d)) \<le> unat (slot_count d)"
    using card_mono [of "{..<unat (slot_count d)}" "dom (slot_ext d)"] by simp
  then have "unat (live_count d + 1) = Suc (unat (live_count d))"
    using inv tp_inv_room(1) [OF inv] unat_plus_if_fits [of "live_count d" 1] by (simp add: tp_inv_def)
  moreover have "72 + 12 * unat (slot_count d1) \<le> ?up - length bs" "?up - length bs \<le> length d + 4"
    using room dlen by linarith+
  ultimately show "tp_inv d'"
    using inv lower lay card pl(1) dlen l'
    by (simp add: tp_inv_def fields word_le_nat_alt)
  have kup: "80 + 12 * k \<le> ?up - length bs - 4" "?up - length bs - 4 + length bs \<le> length d"
    using roomi [OF k(1)] dlen(2) by (simp_all add: up)
  show "tp_abs d' = (tp_abs d)(k \<mapsto> bs)"
  proof
    fix i
    have above': "same_above ?up d d'"
      using above pl(10) dk lx l' pl(2) kup
      by (auto simp: same_above_def d'_def x_def slice_put_before)
    show "tp_abs d' i = ((tp_abs d)(k \<mapsto> bs)) i"
    proof (cases "i = k")
      case True
      have "bslice (?up - length bs - 4) (length bs) d' = bs"
        using pl(1,9) pl(2) dk kup by (simp add: d'_def x_def slice_put_before)
      with True show ?thesis by (simp add: tp_abs_def ext ext_bytes_def)
    next
      case False
      then show ?thesis
        using ext_bytes_same_above [OF above' dlen(3), of i] kup(1)
        by (cases "slot_ext d i") (simp_all add: tp_abs_def ext)
    qed
  qed
qed


text \<open>How many bytes \<open>insert\<close> asks for: a slot too, unless a dead one can be reused.\<close>

definition insert_need :: "bytes \<Rightarrow> bytes \<Rightarrow> nat" where
  "insert_need d bs = length bs + (if find_free_slot d = INVALID_SLOT then 12 else 0)"

lemma insert_data_unfold:
  assumes "tp_inv d"
  shows "insert_data d bs =
    (if length d - 80 < length bs then (d, Inl InvalidArgument)
     else if free_space d < insert_need d bs then (d, Inl InternalError)
     else let k = (if find_free_slot d = INVALID_SLOT then slot_count d else find_free_slot d);
              d1 = (if find_free_slot d = INVALID_SLOT
                    then put32 56 (lower_bound d + 12) (put32 52 (slot_count d + 1) d) else d);
              x = put16 (76 + 12 * unat k) FLAG_LIVE (place (unat k) bs d1)
          in (put32 64 (live_count x + 1) x, Inr k))"
proof -
  have sz: "size_sub (size_sub (size_sub (tp_page_size d) sizeof_PageHeader) sizeof_TablePageHeader) sizeof_Slot = length d - 80"
    using tp_inv_bounds(1) [OF assms] by (auto simp: size_sub_def tp_page_size_def PageHeader_SIZE_def sizeof_defs)
  have up: "upper_bound (put32 60 v (put32 56 a (put32 52 b d))) = v" "upper_bound (put32 60 v d) = v" for v a b
    using assms by (simp_all add: tp_inv_def fields_put_header)
  show ?thesis
    unfolding insert_data_def Let_def sz by (simp add: insert_need_def place_def Let_def sizeof_Slot_def up)
qed

lemma insert_data_fails:
  assumes "insert_data d bs = (d', Inl e)"
  shows "d' = d \<and> (e = InvalidArgument \<or> e = InternalError)"
  using assms by (auto simp: insert_data_def Let_def split: if_splits)

lemma free_space_bound:
  assumes "tp_inv d" "find_free_slot d \<noteq> INVALID_SLOT"
  shows "free_space d \<le> length d - 80"
  using assms(1)
proof (cases rule: find_free_slot_cases)
  case (reuse k)
  then show ?thesis
    using free_space_unat [OF assms(1)] tp_inv_bounds [OF assms(1)] by linarith
qed (use assms(2) in simp)

lemma insert_data_succeeds_iff:
  assumes "tp_inv d"
  shows "(\<exists>d' k. insert_data d bs = (d', Inr k)) \<longleftrightarrow> insert_need d bs \<le> free_space d"
proof -
  have "length bs \<le> length d - 80" if "insert_need d bs \<le> free_space d"
  proof (cases "find_free_slot d = INVALID_SLOT")
    case True
    then show ?thesis
      using that free_space_unat [OF assms] tp_inv_bounds [OF assms] by (simp add: insert_need_def)
  next
    case False
    then show ?thesis
      using that free_space_bound [OF assms] by (simp add: insert_need_def)
  qed
  then show ?thesis
    by (auto simp: insert_data_unfold [OF assms] Let_def)
qed

lemma insert_data_ok:
  assumes inv: "tp_inv d" and res: "insert_data d bs = (d', Inr k)"
  shows "tp_inv d'" "tp_abs d (unat k) = None" "tp_abs d' = (tp_abs d)(unat k \<mapsto> bs)" "length d' = length d" "take 52 d' = take 52 d"
proof -
  have need: "insert_need d bs \<le> free_space d"
    using insert_data_succeeds_iff [OF inv, of bs] res by blast
  have big: "length bs \<le> length d - 80"
    using res by (simp add: insert_data_unfold [OF inv] split: if_splits)
  let ?new = "find_free_slot d = INVALID_SLOT"
  define d1 where "d1 = (if ?new then put32 56 (lower_bound d + 12) (put32 52 (slot_count d + 1) d) else d)"
  define x where "x = put16 (76 + 12 * unat k) FLAG_LIVE (place (unat k) bs d1)"
  have k: "k = (if ?new then slot_count d else find_free_slot d)"
    and d': "d' = put32 64 (live_count x + 1) x"
    using res need big unfolding insert_data_unfold [OF inv] x_def d1_def Let_def
    by (auto split: if_splits)
  note len = tp_inv_bounds(1,2) [OF inv] and up = tp_inv_bounds(3) [OF inv]
    and lu = tp_inv_bounds(4) [OF inv] and free = free_space_unat [OF inv]
  have "tp_inv d' \<and> tp_abs d' = (tp_abs d)(unat k \<mapsto> bs) \<and> length d' = length d \<and> slot_ext d (unat k) = None \<and> take 52 d' = take 52 d"
    using inv
  proof (cases rule: find_free_slot_cases)
    case new
    have room: "84 + 12 * unat (slot_count d) + length bs \<le> unat (upper_bound d)"
      using need new free lu by (simp add: insert_need_def)
    have cnt: "unat (slot_count d + 1) = unat (slot_count d) + 1"
      and low: "unat (lower_bound d + 12) = unat (lower_bound d) + 12"
      using room up len inv by (auto simp: tp_inv_def intro: unat_plus_if_fits [THEN trans])
    have d1: "d1 = put32 56 (lower_bound d + 12) (put32 52 (slot_count d + 1) d)"
      using new by (simp add: d1_def)
    have above: "same_above (unat (upper_bound d)) d d1"
      using len room by (auto simp: same_above_def d1 slice_put_before)
    have fields: "slot_count d1 = slot_count d + 1" "lower_bound d1 = lower_bound d + 12"
      "upper_bound d1 = upper_bound d" "live_count d1 = live_count d"
      using len by (simp_all add: d1 fields_put_header)
    have slots: "slot_at d1 i = slot_at d i" if "i < unat (slot_count d)" for i
      using tp_inv_room(2) [OF inv that] len by (simp add: d1 slot_at_put_header)
    have none: "slot_ext d (unat k) = None" using new k by (simp add: slot_ext_def)
    have lower: "unat (lower_bound d1) = 72 + 12 * unat (slot_count d1)"
      using inv by (simp add: fields cnt low tp_inv_def)
    have *: "unat k < unat (slot_count d1)" using new k by (simp add: fields cnt)
    have iff: "i < unat (slot_count d1) \<longleftrightarrow> i < unat (slot_count d)" if "i \<noteq> unat k" for i
      using that new k by (auto simp: fields cnt)
    have rm: "72 + 12 * unat (slot_count d1) + length bs \<le> unat (upper_bound d)"
      using room by (simp add: fields cnt)
    have "take 52 d1 = take 52 d" using len by (simp add: d1 take_put)
    then show ?thesis
      using insert_effect [OF x_def d' inv fields(3,4) lower above * none iff slots rm] none by simp
  next
    case (reuse j)
    then have d1: "d1 = d" and kj: "unat k = j" using k by (simp_all add: d1_def)
    have none: "slot_ext d (unat k) = None" using reuse kj by (simp add: slot_ext_def)
    have rm: "72 + 12 * unat (slot_count d1) + length bs \<le> unat (upper_bound d)"
      using need reuse free lu by (simp add: insert_need_def d1)
    have above: "same_above (unat (upper_bound d)) d d1" by (simp add: same_above_def d1)
    have lower: "unat (lower_bound d1) = 72 + 12 * unat (slot_count d1)"
      using inv by (simp add: d1 tp_inv_def)
    have *: "unat k < unat (slot_count d1)" using reuse kj by (simp add: d1)
    show ?thesis
      using insert_effect [OF x_def d' inv _ _ lower above * none _ _ rm] none by (simp add: d1)
  qed
  then show "tp_inv d'" "tp_abs d (unat k) = None" "tp_abs d' = (tp_abs d)(unat k \<mapsto> bs)" "length d' = length d" "take 52 d' = take 52 d"
    by (simp_all add: tp_abs_def)
qed


subsection \<open>Compaction\<close>

text \<open>
  The part of the invariant that the loop of \<open>compact\<close> keeps while the upper bound in the header is
  stale: \<open>lo\<close> is a bound below which no record lies.
\<close>

definition tp_body :: "nat \<Rightarrow> bytes \<Rightarrow> bool" where
  "tp_body lo d \<longleftrightarrow> 80 \<le> length d \<and> length d + 4 < 2 ^ 32 \<and>
     72 + 12 * unat (slot_count d) \<le> lo \<and> layout lo (length d + 4) (slot_ext d)"

text \<open>What the loop leaves alone.\<close>

definition same_frame :: "bytes \<Rightarrow> bytes \<Rightarrow> bool" where
  "same_frame d d' \<longleftrightarrow> length d' = length d \<and> slot_count d' = slot_count d \<and>
     lower_bound d' = lower_bound d \<and> live_count d' = live_count d \<and>
     dom (slot_ext d') = dom (slot_ext d) \<and> tp_abs d' = tp_abs d \<and> take 52 d' = take 52 d"

lemma same_frame_trans: "same_frame d d' \<Longrightarrow> same_frame d' d'' \<Longrightarrow> same_frame d d''"
  by (simp add: same_frame_def)

lemma slide_effect:
  assumes body: "tp_body lo d" and ei: "slot_ext d i = Some (off, len)"
    and w: "lo \<le> unat w" "unat w + len \<le> length d + 4"
    and clear: "\<And>j o2 l2. j \<noteq> i \<Longrightarrow> slot_ext d j = Some (o2, l2) \<Longrightarrow> o2 + l2 \<le> unat w \<or> unat w + len \<le> o2"
    and d'_def: "d' = put32 (68 + 12 * i) w (patch (rec_at w) (bslice (off - 4) len d) d)"
  shows "same_frame d d'" and "slot_ext d' = (slot_ext d)(i \<mapsto> (unat w, len))" and "tp_body lo d'"
proof -
  let ?bs = "bslice (off - 4) len d"
  have lay: "layout lo (length d + 4) (slot_ext d)" and len80: "80 \<le> length d"
    and cnt: "72 + 12 * unat (slot_count d) \<le> lo"
    using body by (simp_all add: tp_body_def)
  have i: "i < unat (slot_count d)" "is_live (slot_at d i)" "unat (s_length (slot_at d i)) = len"
    using ei by (auto simp: slot_ext_def split: if_splits)
  have off: "lo \<le> off" "off + len \<le> length d + 4"
    using layoutD [OF lay ei] by auto
  have lbs: "length ?bs = len" using off cnt by simp
  have at: "rec_at w = unat w - 4" by (simp add: rec_at_def)
  have in1: "68 + 12 * unat (slot_count d) \<le> rec_at w" "rec_at w + len \<le> length d"
    using w cnt by (simp_all add: at)
  let ?d1 = "patch (rec_at w) ?bs d"
  have l1: "length ?d1 = length d" using in1 lbs by simp
  have di: "80 + 12 * i \<le> length d" using i in1 by simp
  have l': "length d' = length d" using l1 di by (simp add: d'_def)
  have fields: "slot_count d' = slot_count d" "lower_bound d' = lower_bound d" "live_count d' = live_count d"
    using l1 di in1 lbs by (simp_all add: d'_def overlay_simps)
  have slots: "slot_at d' j = (if j = i then (slot_at d j)\<lparr>s_offset := w\<rparr> else slot_at d j)"
    if "j < unat (slot_count d)" for j
  proof -
    have "80 + 12 * j \<le> rec_at w" "80 + 12 * j \<le> length d" using that in1 by simp_all
    then show ?thesis
      using di l1 in1 lbs by (simp add: d'_def slot_at_put_slot slot_at_patch_other)
  qed
  show ext: "slot_ext d' = (slot_ext d)(i \<mapsto> (unat w, len))"
  proof
    fix j show "slot_ext d' j = ((slot_ext d)(i \<mapsto> (unat w, len))) j"
      using i slots [of j] by (cases "j = i") (auto simp: slot_ext_def fields)
  qed
  have keep: "ext_bytes d' (o2, l2) = ext_bytes d (o2, l2)" if "j \<noteq> i" "slot_ext d j = Some (o2, l2)" for j o2 l2
  proof -
    have b: "lo \<le> o2" "o2 + l2 \<le> length d + 4" using layoutD [OF lay that(2)] by auto
    have "o2 - 4 + l2 \<le> length d" "68 + 12 * i + 4 \<le> o2 - 4" "4 \<le> o2" using b cnt i by simp_all
    moreover have "o2 - 4 + l2 \<le> rec_at w \<or> rec_at w + len \<le> o2 - 4"
      using clear [OF that] b cnt w unfolding at by linarith
    ultimately show ?thesis
      using l1 lbs in1 by (simp add: ext_bytes_def d'_def slice_put_before slice_patch_disjoint)
  qed
  have moved: "ext_bytes d' (unat w, len) = ext_bytes d (off, len)"
  proof -
    have "68 + 12 * i + 4 \<le> unat w - 4" "unat w - 4 + len \<le> length d" using w cnt i by simp_all
    then show ?thesis
      using l1 lbs slice_patch_same' [where off = "rec_at w" and bs = ?bs and xs = d] in1
      by (simp add: ext_bytes_def d'_def slice_put_before at)
  qed
  have "tp_abs d' = tp_abs d"
  proof
    fix j show "tp_abs d' j = tp_abs d j"
      using keep [of j] moved ei by (cases "slot_ext d j") (auto simp: tp_abs_def ext)
  qed
  moreover have "dom (slot_ext d') = dom (slot_ext d)"
    using ei by (auto simp: ext)
  moreover have "take 52 d' = take 52 d" using di l1 in1 by (simp add: d'_def take_put take_patch)
  ultimately show "same_frame d d'"
    by (simp add: same_frame_def l' fields)
  have "layout lo (length d + 4) (slot_ext d')"
    using lay clear w unfolding ext layout_def by (fastforce split: if_splits)
  then show "tp_body lo d'"
    using body by (simp add: tp_body_def l' fields)
qed


lemma compact_loop_ok:
  assumes "compact_loop srs d w = (d', w')" "tp_body lo d" "lo \<le> unat w" "unat w \<le> length d + 4"
    and "distinct (map fst srs)" "sorted_wrt (\<lambda>a b. snd b \<le> snd a) srs"
    and "\<And>i off. (i, off) \<in> set srs \<Longrightarrow> \<exists>len. slot_ext d i = Some (unat off, len) \<and> unat off + len \<le> unat w"
    and "\<And>i off len. i \<notin> fst ` set srs \<Longrightarrow> slot_ext d i = Some (off, len) \<Longrightarrow> unat w \<le> off"
  shows "same_frame d d' \<and> tp_body lo d' \<and> lo \<le> unat w' \<and> unat w' \<le> length d + 4 \<and>
    layout (unat w') (length d + 4) (slot_ext d') \<and>
    unat w' + (\<Sum>sr\<leftarrow>srs. snd (the (slot_ext d (fst sr)))) = unat w"
  using assms
proof (induction srs arbitrary: d w)
  case Nil
  have "layout (unat w) (length d + 4) (slot_ext d)"
    using Nil.prems(2,8) by (auto simp: tp_body_def layout_def)
  with Nil.prems show ?case by (simp add: same_frame_def)
next
  case (Cons sr srs)
  obtain i off where sr: "sr = (i, off)" by (cases sr)
  obtain len where ei: "slot_ext d i = Some (unat off, len)" and le: "unat off + len \<le> unat w"
    using Cons.prems(7) sr by auto
  have lay: "layout lo (length d + 4) (slot_ext d)" using Cons.prems(2) by (simp add: tp_body_def)
  have i: "unat (s_offset (slot_at d i)) = unat off" "unat (s_length (slot_at d i)) = len"
    using ei by (auto simp: slot_ext_def split: if_splits)
  define w1 where "w1 = w - s_length (slot_at d i)"
  have w1: "unat w1 = unat w - len" using i le by (simp add: w1_def unat_minus_if_le)
  define d1 where "d1 = (if s_offset (slot_at d i) \<noteq> w1
     then put32 (68 + 12 * i) w1 (patch (rec_at w1) (bslice (unat off - 4) len d) d) else d)"
  have step: "compact_loop srs d1 w1 = (d', w')"
    using Cons.prems(1) i by (simp add: sr Let_def d1_def w1_def slot_bytes_def rec_at_def cong: if_cong)
  have desc: "unat o2 \<le> unat off" if "(j, o2) \<in> set srs" for j o2
    using Cons.prems(6) that by (auto simp: sr word_le_nat_alt)
  have others: "o2 + l2 \<le> unat w1 \<or> unat w \<le> o2"
    if "j \<noteq> i" "slot_ext d j = Some (o2, l2)" for j o2 l2
  proof (cases "j \<in> fst ` set srs")
    case True
    then obtain off2 where j: "(j, off2) \<in> set srs" by auto
    then obtain l where "slot_ext d j = Some (unat off2, l)" "unat off2 + l \<le> unat w"
      using Cons.prems(7) [of j off2] by auto
    then have "unat off2 = o2" "o2 + l2 \<le> unat w" using that(2) by simp_all
    moreover have "unat off2 \<le> unat off"
      using desc [OF j] .
    ultimately have "o2 \<le> unat off" "o2 + l2 \<le> unat w" by simp_all
    with layout_disjoint [OF lay that(2) ei that(1)] le show ?thesis unfolding w1 by linarith
  next
    case False
    then show ?thesis using Cons.prems(8) [of j] that by (auto simp: sr)
  qed
  have "same_frame d d1 \<and> slot_ext d1 = (slot_ext d)(i \<mapsto> (unat w1, len)) \<and> tp_body lo d1"
  proof (cases "s_offset (slot_at d i) = w1")
    case True
    then have "unat off = unat w1" using i by simp
    then have "slot_ext d = (slot_ext d)(i \<mapsto> (unat w1, len))" using ei by (simp add: fun_upd_idem)
    moreover have "d1 = d" using True by (simp add: d1_def)
    ultimately show ?thesis
      using Cons.prems(2) by (simp add: same_frame_def)
  next
    case False
    have "unat off \<le> unat w1" "lo \<le> unat off" using le layoutD [OF lay ei] by (simp_all add: w1)
    then have b: "lo \<le> unat w1" "unat w1 + len \<le> length d + 4" using le Cons.prems(4) by (simp_all add: w1)
    have clear: "o2 + l2 \<le> unat w1 \<or> unat w1 + len \<le> o2" if "j \<noteq> i" "slot_ext d j = Some (o2, l2)" for j o2 l2
      using others [OF that] le by (simp add: w1)
    have d1: "d1 = put32 (68 + 12 * i) w1 (patch (rec_at w1) (bslice (unat off - 4) len d) d)"
      using False by (simp add: d1_def)
    show ?thesis
      by (intro conjI; rule slide_effect [OF Cons.prems(2) ei b _ d1]; rule clear)
  qed
  then have sf: "same_frame d d1" and ext: "slot_ext d1 = (slot_ext d)(i \<mapsto> (unat w1, len))" and body: "tp_body lo d1"
    by auto
  have l1: "length d1 = length d" using sf by (simp add: same_frame_def)
  have "same_frame d1 d' \<and> tp_body lo d' \<and> lo \<le> unat w' \<and> unat w' \<le> length d1 + 4 \<and>
    layout (unat w') (length d1 + 4) (slot_ext d') \<and>
    unat w' + (\<Sum>sr\<leftarrow>srs. snd (the (slot_ext d1 (fst sr)))) = unat w1"
  proof (rule Cons.IH [OF step body])
    show "lo \<le> unat w1" using le layoutD [OF lay ei] by (simp add: w1)
    show "unat w1 \<le> length d1 + 4" using Cons.prems(4) by (simp add: w1 l1)
    show "distinct (map fst srs)" "sorted_wrt (\<lambda>a b. snd b \<le> snd a) srs" using Cons.prems(5,6) by simp_all
    show "\<exists>l. slot_ext d1 j = Some (unat o2, l) \<and> unat o2 + l \<le> unat w1" if jin: "(j, o2) \<in> set srs" for j o2
    proof -
      have ne: "j \<noteq> i" using Cons.prems(5) jin by (auto simp: sr rev_image_eqI)
      obtain l where l: "slot_ext d j = Some (unat o2, l)" "unat o2 + l \<le> unat w"
        using Cons.prems(7) [of j o2] jin by auto
      have "unat o2 + l \<le> unat w1" using others [OF ne l(1)] le l(2) desc [OF jin] by (auto simp: w1)
      with l ne show ?thesis by (simp add: ext)
    qed
    show "unat w1 \<le> o2" if "j \<notin> fst ` set srs" "slot_ext d1 j = Some (o2, l)" for j o2 l
      using that Cons.prems(8) [of j o2 l] by (cases "j = i") (auto simp: ext sr w1)
  qed
  moreover have "map (\<lambda>sr. snd (the (slot_ext d1 (fst sr)))) srs = map (\<lambda>sr. snd (the (slot_ext d (fst sr)))) srs"
    using Cons.prems(5) by (auto simp: ext sr)
  ultimately show ?case
    using same_frame_trans [OF sf, of d'] l1 ei le by (auto simp: sr w1)
qed

lemma trim_slots_ok:
  assumes "unat (slot_count d) = n" "tp_inv d"
  shows "tp_inv (trim_slots n d) \<and> tp_abs (trim_slots n d) = tp_abs d \<and> length (trim_slots n d) = length d \<and>
    upper_bound (trim_slots n d) = upper_bound d \<and> take 52 (trim_slots n d) = take 52 d"
  using assms
proof (induction n arbitrary: d)
  case (Suc n)
  show ?case
  proof (cases "is_live (slot_at d n)")
    case False
    define d1 where "d1 = put32 56 (lower_bound d - 12) (put32 52 (slot_count d - 1) d)"
    note b = tp_inv_bounds [OF Suc.prems(2)]
    have l1: "length d1 = length d" using b by (simp add: d1_def)
    have fields: "slot_count d1 = slot_count d - 1" "lower_bound d1 = lower_bound d - 12"
      "upper_bound d1 = upper_bound d" "live_count d1 = live_count d"
      using b by (simp_all add: d1_def fields_put_header)
    have cnt: "unat (slot_count d - 1) = n" using Suc.prems(1) by (simp add: unat_minus_if_le)
    have low: "unat (lower_bound d) = 72 + 12 * Suc n" using Suc.prems by (simp add: tp_inv_def)
    then have low1: "unat (lower_bound d - 12) = 72 + 12 * n" by (simp add: unat_minus_if_le)
    have slots: "slot_at d1 i = slot_at d i" if "i < n" for i
      using that b Suc.prems(1) by (simp add: d1_def slot_at_put_header)
    have ext: "slot_ext d1 = slot_ext d"
    proof
      fix i show "slot_ext d1 i = slot_ext d i"
        using False slots [of i] Suc.prems(1) by (cases "i = n") (auto simp: slot_ext_def fields cnt)
    qed
    have inv: "tp_inv d1"
      using Suc.prems low1 b by (simp add: tp_inv_def fields ext l1 cnt word_le_nat_alt)
    have above: "same_above (unat (upper_bound d)) d d1"
      using b by (auto simp: same_above_def d1_def slice_put_before)
    have "tp_abs d1 = tp_abs d"
    proof
      fix i show "tp_abs d1 i = tp_abs d i"
        using ext_bytes_same_above [OF above, of "slot_ext d" i] Suc.prems b
        by (cases "slot_ext d i") (simp_all add: tp_abs_def ext tp_inv_def)
    qed
    moreover have "take 52 d1 = take 52 d" using b by (simp add: d1_def take_put)
    ultimately show ?thesis
      using Suc.IH [of d1] inv cnt False l1 by (simp add: fields sizeof_Slot_def flip: d1_def)
  qed (use Suc.prems in simp)
qed simp


lemma live_slots_sorted:
  defines "srs \<equiv> \<lambda>d. sort_key (\<lambda>sr. - uint (snd sr)) (live_slots d)"
  shows "sorted_wrt (\<lambda>a b. snd b \<le> snd a) (srs d)" "distinct (map fst (srs d))"
    "fst ` set (srs d) = dom (slot_ext d)"
    "(i, off) \<in> set (srs d) \<Longrightarrow> slot_ext d i = Some (unat off, unat (s_length (slot_at d i)))"
proof -
  have "sorted_wrt (\<lambda>a b. - uint (snd a) \<le> - uint (snd b)) (srs d)"
    using sorted_sort_key [of "\<lambda>sr. - uint (snd sr)" "live_slots d"]
    by (simp add: srs_def sorted_map)
  then show "sorted_wrt (\<lambda>a b. snd b \<le> snd a) (srs d)"
    by (rule sorted_wrt_mono_rel [rotated]) (simp add: word_le_def)
  have "distinct (map fst (live_slots d))"
    by (simp add: live_slots_def comp_def)
  then show "distinct (map fst (srs d))"
    by (simp add: srs_def distinct_map)
  show "fst ` set (srs d) = dom (slot_ext d)"
    by (force simp: srs_def live_slots_def slot_ext_def split: if_splits)
  show "(i, off) \<in> set (srs d) \<Longrightarrow> slot_ext d i = Some (unat off, unat (s_length (slot_at d i)))"
    by (auto simp: srs_def live_slots_def slot_ext_def)
qed


lemma compact_data_ok:
  assumes inv: "tp_inv d"
  shows "tp_inv (compact_data d)" "tp_abs (compact_data d) = tp_abs d" "length (compact_data d) = length d"
    "unat (upper_bound (compact_data d)) + (\<Sum>i\<in>dom (tp_abs d). length (the (tp_abs d i))) = length d + 4"
    "take 52 (compact_data d) = take 52 d"
proof -
  let ?srs = "sort_key (\<lambda>sr. - uint (snd sr)) (live_slots d)"
  note b = tp_inv_bounds [OF inv]
  let ?lo = "unat (lower_bound d)"
  have lo: "?lo = 72 + 12 * unat (slot_count d)" and lay: "layout (unat (upper_bound d)) (length d + 4) (slot_ext d)"
    using inv by (simp_all add: tp_inv_def)
  have body: "tp_body ?lo d"
    using lay b lo by (fastforce simp: tp_body_def layout_def)
  obtain d1 w where loop: "compact_loop ?srs d (of_nat (tp_page_size d)) = (d1, w)" by fastforce
  have ps: "unat (of_nat (tp_page_size d) :: u32) = length d + 4"
  proof -
    have "tp_page_size d = length d + 4"
      using b by (simp add: tp_page_size_def PageHeader_SIZE_def sizeof_PageHeader_def)
    then show ?thesis using b(2) by (intro unat_of_nat_fits [THEN trans]) simp_all
  qed
  have "same_frame d d1 \<and> tp_body ?lo d1 \<and> ?lo \<le> unat w \<and> unat w \<le> length d + 4 \<and>
    layout (unat w) (length d + 4) (slot_ext d1) \<and>
    unat w + (\<Sum>sr\<leftarrow>?srs. snd (the (slot_ext d (fst sr)))) = unat (of_nat (tp_page_size d) :: u32)"
  proof (rule compact_loop_ok [OF loop body _ _ live_slots_sorted(2,1)])
    show "\<exists>len. slot_ext d i = Some (unat off, len) \<and> unat off + len \<le> unat (of_nat (tp_page_size d) :: u32)"
      if "(i, off) \<in> set ?srs" for i off
      using live_slots_sorted(4) [OF that] layoutD(2) [OF lay] by (auto simp: ps)
    show "unat (of_nat (tp_page_size d) :: u32) \<le> off"
      if "i \<notin> fst ` set ?srs" "slot_ext d i = Some (off, len)" for i off len
      using that live_slots_sorted(3) [of d] by blast
  qed (use b lo in \<open>simp_all add: ps\<close>)
  then have sf: "same_frame d d1" and w: "?lo \<le> unat w" "unat w \<le> length d + 4"
    and lay1: "layout (unat w) (length d + 4) (slot_ext d1)"
    and sum: "unat w + (\<Sum>sr\<leftarrow>?srs. snd (the (slot_ext d (fst sr)))) = length d + 4" by (auto simp: ps)
  define d2 where "d2 = put32 60 w d1"
  have l1: "length d1 = length d" "slot_count d1 = slot_count d" "lower_bound d1 = lower_bound d"
    "live_count d1 = live_count d" "dom (slot_ext d1) = dom (slot_ext d)" "tp_abs d1 = tp_abs d" "take 52 d1 = take 52 d"
    using sf by (simp_all add: same_frame_def)
  have l2: "length d2 = length d" using l1 b by (simp add: d2_def)
  have fields: "slot_count d2 = slot_count d" "lower_bound d2 = lower_bound d" "upper_bound d2 = w"
    "live_count d2 = live_count d"
    using b l1 by (simp_all add: d2_def fields_put_header)
  have slots: "slot_at d2 i = slot_at d1 i" if "i < unat (slot_count d)" for i
    using that tp_inv_room(2) [OF inv that] l1 by (simp add: d2_def slot_at_put_header)
  have ext: "slot_ext d2 = slot_ext d1"
    using slots by (auto simp: slot_ext_def fields l1 fun_eq_iff)
  have above: "same_above (unat w) d1 d2"
    using w lo b l1 by (auto simp: same_above_def d2_def slice_put_before)
  have abs: "tp_abs d2 = tp_abs d1"
  proof
    fix i show "tp_abs d2 i = tp_abs d1 i"
    proof (cases "slot_ext d1 i")
      case (Some e)
      show ?thesis
      proof (cases "76 \<le> unat w")
        case True
        then show ?thesis
          using ext_bytes_same_above [OF above _ _ True, of "slot_ext d1" i e] lay1 Some
          unfolding tp_abs_def ext by (simp add: l1)
      next
        case False
        then have "unat (slot_count d) = 0" using w lo by simp
        then show ?thesis using Some by (simp add: slot_ext_def l1)
      qed
    qed (simp add: tp_abs_def ext)
  qed
  have inv2: "tp_inv d2"
    using inv lay1 w by (simp add: tp_inv_def fields ext l1 l2 word_le_nat_alt)
  have "compact_data d = trim_slots (unat (slot_count d2)) d2"
    by (simp add: compact_data_def loop d2_def Let_def)
  then have fin: "tp_inv (compact_data d) \<and> tp_abs (compact_data d) = tp_abs d \<and>
      length (compact_data d) = length d \<and> upper_bound (compact_data d) = w \<and> take 52 (compact_data d) = take 52 d"
    using trim_slots_ok [OF refl inv2] abs l1 l2 fields b by (simp add: d2_def take_put)
  then show "tp_inv (compact_data d)" "tp_abs (compact_data d) = tp_abs d" "length (compact_data d) = length d"
    "take 52 (compact_data d) = take 52 d"
    by auto
  have "(\<Sum>sr\<leftarrow>?srs. snd (the (slot_ext d (fst sr)))) = (\<Sum>i\<in>dom (slot_ext d). snd (the (slot_ext d i)))"
    using sum_list_distinct_conv_sum_set [OF live_slots_sorted(2), of "\<lambda>i. snd (the (slot_ext d i))" d]
      live_slots_sorted(3) [of d] by (simp add: comp_def)
  also have "\<dots> = (\<Sum>i\<in>dom (tp_abs d). length (the (tp_abs d i)))"
  proof (rule sum.cong)
    show "dom (slot_ext d) = dom (tp_abs d)" by (auto simp: tp_abs_def)
    fix i assume "i \<in> dom (tp_abs d)"
    then obtain o2 l where "slot_ext d i = Some (o2, l)" by (auto simp: tp_abs_def)
    with layoutD [OF lay this] b show "snd (the (slot_ext d i)) = length (the (tp_abs d i))"
      by (simp add: tp_abs_def ext_bytes_def)
  qed
  finally show "unat (upper_bound (compact_data d)) + (\<Sum>i\<in>dom (tp_abs d). length (the (tp_abs d i))) = length d + 4"
    using fin sum by simp
qed


subsection \<open>Initialisation, erasure and update\<close>

lemma tp_init_ok:
  assumes "80 \<le> length (tp_data t)" "length (tp_data t) + 4 < 2 ^ 32"
  shows "tp_inv (tp_data (tp_init t))" "tp_abs (tp_data (tp_init t)) = Map.empty"
    "length (tp_data (tp_init t)) = length (tp_data t)" "free_space (tp_data (tp_init t)) = length (tp_data t) - 68"
proof -
  define d where "d = put64 44 invalid_value (put64 36 invalid_value (tp_data t))"
  have l: "length d = length (tp_data t)" using assms by (simp add: d_def)
  define d' where "d' = put32 64 0 (put32 60 (of_nat (length d + 4)) (put32 56 72 (put32 52 0 d)))"
  have ps: "tp_page_size (put32 56 a (put32 52 0 d)) = length d + 4" for a
    using assms l by (simp add: tp_page_size_def PageHeader_SIZE_def sizeof_PageHeader_def)
  have eq: "tp_data (tp_init t) = d'"
    unfolding tp_init_def Let_def d_def [symmetric] ps
    by (simp add: tp_data_def with_data_def sizeof_defs d'_def)
  have fields: "slot_count d' = 0" "lower_bound d' = 72" "upper_bound d' = of_nat (length d + 4)" "live_count d' = 0"
    using assms l by (simp_all add: d'_def fields_put_header)
  have ps: "unat (of_nat (length d + 4) :: u32) = length d + 4"
    using assms(2) l by (intro unat_of_nat_fits) simp
  have ext: "slot_ext d' = Map.empty" by (simp add: slot_ext_def fields fun_eq_iff)
  have l': "length d' = length d" using assms l by (simp add: d'_def)
  show inv: "tp_inv (tp_data (tp_init t))"
    using assms l' l ps unfolding eq tp_inv_def ext fields
    by (auto simp del: of_nat_add simp: layout_def word_le_nat_alt)
  show "tp_abs (tp_data (tp_init t)) = Map.empty" by (simp add: tp_abs_def eq ext fun_eq_iff)
  show "length (tp_data (tp_init t)) = length (tp_data t)" using l l' eq by simp
  show "free_space (tp_data (tp_init t)) = length (tp_data t) - 68"
    using free_space_unat [OF inv] ps l unfolding eq fields by simp
qed

lemma tp_abs_live:
  assumes "tp_inv d" "is_live (slot_at d i)" "i < unat (slot_count d)"
  shows "tp_abs d i = Some (slot_bytes d (slot_at d i))"
  using assms by (simp add: tp_abs_def slot_ext_def ext_bytes_def slot_bytes_def rec_at_def)

lemma tp_get_ok:
  assumes inv: "tp_inv (tp_data t)" and "rid_page rid = tp_page_id t"
  shows "tp_get t rid = (case tp_abs (tp_data t) (unat (rid_slot rid)) of None \<Rightarrow> Inl NotFound | Some bs \<Rightarrow> Inr bs)"
proof (cases "unat (rid_slot rid) < unat (slot_count (tp_data t)) \<and> is_live (slot_at (tp_data t) (unat (rid_slot rid)))")
  case True
  let ?d = "tp_data t" and ?i = "unat (rid_slot rid)"
  let ?s = "slot_at ?d ?i"
  have "slot_ext ?d ?i = Some (unat (s_offset ?s), unat (s_length ?s))" using True by (simp add: slot_ext_def)
  then have "unat (s_offset ?s) + unat (s_length ?s) \<le> length ?d + 4"
    using inv layoutD(2) by (fastforce simp: tp_inv_def)
  moreover have "unat (s_offset ?s + s_length ?s) \<le> unat (s_offset ?s) + unat (s_length ?s)"
    by (simp add: unat_word_ariths)
  moreover have "tp_page_size ?d = length ?d + 4"
    using tp_inv_bounds(1) [OF inv] by (simp add: tp_page_size_def PageHeader_SIZE_def sizeof_PageHeader_def)
  ultimately show ?thesis
    using True assms tp_abs_live [OF inv] by (simp add: tp_get_def Let_def word_le_nat_alt)
next
  case False
  then show ?thesis
    using assms by (auto simp: tp_get_def Let_def word_le_nat_alt tp_abs_def slot_ext_def)
qed


lemma tp_abs_none_iff: "tp_abs d i = None \<longleftrightarrow> \<not> (i < unat (slot_count d) \<and> is_live (slot_at d i))"
  by (simp add: tp_abs_def slot_ext_def)

lemma with_data_data [simp]: "tp_data (with_data t d) = d" "tp_page_id (with_data t d) = tp_page_id t"
  "tp_data (get_mut t) = tp_data t" "tp_page_id (get_mut t) = tp_page_id t"
  by (simp_all add: with_data_def tp_data_def tp_page_id_def get_mut_def)

lemma erase_effect:
  assumes inv: "tp_inv d" and some: "tp_abs d k = Some bs"
    and d'_def: "d' = put32 64 (live_count d1 - 1) d1" "d1 = put16 (76 + 12 * k) FLAG_DELETED d"
  shows "tp_inv d'" "tp_abs d' = (tp_abs d)(k := None)" "length d' = length d"
proof -
  note b = tp_inv_bounds [OF inv]
  have k: "k < unat (slot_count d)" using some tp_abs_none_iff [of d k] by force
  have dk: "80 + 12 * k \<le> length d" by (rule tp_inv_room(2) [OF inv k])
  have l1: "length d1 = length d" and l': "length d' = length d" using dk by (simp_all add: d'_def)
  show "length d' = length d" by (rule l')
  have fields: "slot_count d' = slot_count d" "lower_bound d' = lower_bound d" "upper_bound d' = upper_bound d"
    "live_count d' = live_count d - 1"
    using dk b l1 unfolding d'_def by (simp_all add: overlay_simps)
  have slots: "slot_at d' i = (if i = k then (slot_at d i)\<lparr>s_flags := FLAG_DELETED\<rparr> else slot_at d i)"
    if "i < unat (slot_count d)" for i
    using tp_inv_room(2) [OF inv that] dk l1 unfolding d'_def by (simp add: overlay_simps)
  have ext: "slot_ext d' = (slot_ext d)(k := None)"
  proof
    fix i show "slot_ext d' i = ((slot_ext d)(k := None)) i"
      using slots [of i] by (cases "i = k") (auto simp: slot_ext_def fields)
  qed
  have above: "same_above (unat (upper_bound d)) d d'"
    using b k l1 dk unfolding same_above_def d'_def by (auto simp: slice_put_before)
  have "76 \<le> unat (upper_bound d)" using b k by simp
  then have keep: "ext_bytes d' e = ext_bytes d e" if "slot_ext d i = Some e" for i e
    using ext_bytes_same_above [OF above, of "slot_ext d" i e] that inv by (simp add: tp_inv_def)
  show "tp_abs d' = (tp_abs d)(k := None)"
  proof
    fix i show "tp_abs d' i = ((tp_abs d)(k := None)) i"
      using keep [of i] by (cases "slot_ext d i") (simp_all add: tp_abs_def ext)
  qed
  have fin: "finite (dom (slot_ext d))" "k \<in> dom (slot_ext d)"
    using tp_inv_room(4) [OF inv] some by (auto simp: tp_abs_def)
  then have "card (dom (slot_ext d) - {k}) = unat (live_count d) - 1" "1 \<le> unat (live_count d)"
    using inv card_Suc_Diff1 [OF fin] by (simp_all add: tp_inv_def)
  then have "unat (live_count d - 1) = card (dom (slot_ext d'))"
    by (simp add: ext unat_minus_if_le)
  then show "tp_inv d'"
    using inv layout_delete unfolding tp_inv_def fields l' by (simp add: ext)
qed

lemma overwrite_effect:
  assumes inv: "tp_inv d" and ek: "slot_ext d k = Some (off, len)" and n: "length bs \<le> len"
    and d'_def: "d' = put32 (72 + 12 * k) (of_nat (length bs)) (patch (off - 4) bs d)"
  shows "tp_inv d'" "tp_abs d' = (tp_abs d)(k \<mapsto> bs)" "length d' = length d" "take 52 d' = take 52 d"
proof -
  note b = tp_inv_bounds [OF inv]
  have lay: "layout (unat (upper_bound d)) (length d + 4) (slot_ext d)" using inv by (simp add: tp_inv_def)
  have off: "unat (upper_bound d) \<le> off" "off + len \<le> length d + 4" using layoutD [OF lay ek] by auto
  have k: "k < unat (slot_count d)" "is_live (slot_at d k)" "off = unat (s_offset (slot_at d k))"
    using ek by (auto simp: slot_ext_def split: if_splits)
  have dk: "80 + 12 * k \<le> off - 4" "off - 4 + length bs \<le> length d" using k b off n by simp_all
  let ?d1 = "patch (off - 4) bs d"
  have l1: "length ?d1 = length d" using dk by simp
  then show l': "length d' = length d" using dk by (simp add: d'_def)
  show "take 52 d' = take 52 d" using dk l1 by (simp add: d'_def take_put take_patch)
  have fields: "slot_count d' = slot_count d" "lower_bound d' = lower_bound d" "upper_bound d' = upper_bound d"
    "live_count d' = live_count d"
    using dk l1 by (simp_all add: d'_def overlay_simps)
  have slots: "slot_at d' i = (if i = k then (slot_at d i)\<lparr>s_length := of_nat (length bs)\<rparr> else slot_at d i)"
    if "i < unat (slot_count d)" for i
  proof -
    have "80 + 12 * i \<le> off - 4" using that b off by simp
    then show ?thesis using dk l1 by (simp add: d'_def slot_at_put_slot slot_at_patch_other)
  qed
  have nn: "unat (of_nat (length bs) :: u32) = length bs"
    using n off b by (intro unat_of_nat_fits) simp
  have ext: "slot_ext d' = (slot_ext d)(k \<mapsto> (off, length bs))"
  proof
    fix i show "slot_ext d' i = ((slot_ext d)(k \<mapsto> (off, length bs))) i"
      using slots [of i] k nn by (cases "i = k") (auto simp: slot_ext_def fields)
  qed
  have keep: "ext_bytes d' (o2, l2) = ext_bytes d (o2, l2)" if "i \<noteq> k" "slot_ext d i = Some (o2, l2)" for i o2 l2
  proof -
    have "unat (upper_bound d) \<le> o2" "o2 + l2 \<le> length d + 4" using layoutD [OF lay that(2)] by auto
    moreover have "o2 - 4 + l2 \<le> off - 4 \<or> off - 4 + length bs \<le> o2 - 4"
      using layout_disjoint [OF lay that(2) ek that(1)] n off b calculation by linarith
    moreover have "76 + 12 * k \<le> o2 - 4" using b k calculation(1) by linarith
    ultimately show ?thesis
      using l1 dk b by (simp add: ext_bytes_def d'_def slice_put_before slice_patch_disjoint)
  qed
  have "ext_bytes d' (off, length bs) = bs"
    using dk l1 by (simp add: ext_bytes_def d'_def slice_put_before slice_patch_same')
  then show "tp_abs d' = (tp_abs d)(k \<mapsto> bs)"
    using keep by (auto simp: tp_abs_def ext fun_eq_iff option.map_comp intro!: option.map_cong0)
  have "layout (unat (upper_bound d)) (length d + 4) (slot_ext d')"
    unfolding ext by (rule layout_shrink [OF lay ek n])
  then show "tp_inv d'"
    using inv ek unfolding tp_inv_def fields l' by (simp add: ext domIff insert_absorb)
qed


lemma move_effect:
  assumes inv: "tp_inv d" and ek: "slot_ext d k \<noteq> None" and n: "length bs \<le> free_space d"
  shows "tp_inv (place k bs d)" "tp_abs (place k bs d) = (tp_abs d)(k \<mapsto> bs)" "length (place k bs d) = length d"
    "take 52 (place k bs d) = take 52 d"
proof -
  note b = tp_inv_bounds [OF inv]
  let ?up = "unat (upper_bound d)"
  have lay: "layout ?up (length d + 4) (slot_ext d)" using inv by (simp add: tp_inv_def)
  have k: "k < unat (slot_count d)" "is_live (slot_at d k)"
    using ek by (auto simp: slot_ext_def split: if_splits)
  have roomi: "84 + 12 * i + length bs \<le> ?up" if "i < unat (slot_count d)" for i
    using that n b(4) free_space_unat [OF inv] by simp
  note pl = place_effect [OF roomi [OF k(1)] b(3,2)]
  show l': "length (place k bs d) = length d" by (rule pl(2))
  show "take 52 (place k bs d) = take 52 d" by (rule pl(11))
  have nn: "unat (of_nat (length bs) :: u32) = length bs"
    using roomi [OF k(1)] b by (intro unat_of_nat_fits) simp
  have ext: "slot_ext (place k bs d) = (slot_ext d)(k \<mapsto> (?up - length bs, length bs))"
  proof
    fix i show "slot_ext (place k bs d) i = ((slot_ext d)(k \<mapsto> (?up - length bs, length bs))) i"
      using k pl(1,3,7) pl(8) [of i] roomi [of i] nn by (cases "i = k") (auto simp: slot_ext_def)
  qed
  have above: "same_above ?up d (place k bs d)"
    using pl(2,10) by (simp add: same_above_def)
  have keep: "ext_bytes (place k bs d) e = ext_bytes d e" if "slot_ext d i = Some e" for i e
    using ext_bytes_same_above [OF above, of "slot_ext d" i e] that lay roomi [OF k(1)] by simp
  have "ext_bytes (place k bs d) (?up - length bs, length bs) = bs"
    using pl(1,9) by (simp add: ext_bytes_def)
  then show "tp_abs (place k bs d) = (tp_abs d)(k \<mapsto> bs)"
    using keep by (auto simp: tp_abs_def ext fun_eq_iff option.map_comp intro!: option.map_cong0)
  have "layout (?up - length bs) (length d + 4) (slot_ext (place k bs d))"
    unfolding ext using roomi [OF k(1)] b by (intro layout_add lay) simp_all
  moreover have "dom (slot_ext (place k bs d)) = dom (slot_ext d)" using ek by (auto simp: ext)
  moreover have "72 + 12 * unat (slot_count d) \<le> ?up - length bs"
    using n b(4) free_space_unat [OF inv] by simp
  ultimately show "tp_inv (place k bs d)"
    using inv b(3) pl(1) unfolding tp_inv_def l' pl(3-6) by (simp add: word_le_nat_alt)
qed

section \<open>Records by record id\<close>

text \<open>
  A page as its clients see it: which record each record id denotes. Ids of other pages denote none.
\<close>

definition tp_ok :: "table_page \<Rightarrow> bool" where
  "tp_ok t \<longleftrightarrow> tp_inv (tp_data t)"

definition tp_view :: "table_page \<Rightarrow> record_id \<Rightarrow> bytes option" where
  "tp_view t rid = (if rid_page rid = tp_page_id t then tp_abs (tp_data t) (unat (rid_slot rid)) else None)"

lemma tp_view_upd:
  assumes "tp_page_id t' = tp_page_id t" "tp_abs (tp_data t') = (tp_abs (tp_data t))(unat (rid_slot r) := v)"
    and "rid_page r = tp_page_id t"
  shows "tp_view t' = (tp_view t)(r := v)"
proof
  fix x :: record_id
  have "x = r" if "unat (rid_slot x) = unat (rid_slot r)" "rid_page x = rid_page r"
    using that by (cases x; cases r) (simp add: word_unat_eq_iff)
  then show "tp_view t' x = ((tp_view t)(r := v)) x"
    using assms by (auto simp: tp_view_def)
qed

lemma tp_view_same: "tp_data t' = tp_data t \<Longrightarrow> tp_page_id t' = tp_page_id t \<Longrightarrow> tp_ok t' = tp_ok t \<and> tp_view t' = tp_view t"
  by (simp add: tp_view_def tp_ok_def fun_eq_iff)

lemma tp_insert_view:
  assumes "tp_ok t" "tp_insert t bs = (t', Inr r)"
  shows "tp_ok t'" "tp_view t r = None" "tp_view t' = (tp_view t)(r \<mapsto> bs)" "rid_page r = tp_page_id t"
    "tp_page_id t' = tp_page_id t"
proof -
  obtain d k where d: "insert_data (tp_data t) bs = (d, Inr k)" and t': "t' = with_data t d"
    and r: "r = \<lparr>rid_page = tp_page_id t, rid_slot = k\<rparr>"
    using assms(2) by (auto simp: tp_insert_def split: prod.splits sum.splits status.splits)
  note ok = insert_data_ok [OF _ d]
  show "tp_ok t'" "tp_view t r = None" "rid_page r = tp_page_id t" "tp_page_id t' = tp_page_id t"
    using assms(1) ok by (simp_all add: tp_ok_def t' tp_view_def r)
  show "tp_view t' = (tp_view t)(r \<mapsto> bs)"
    using assms(1) ok by (intro tp_view_upd) (simp_all add: t' r tp_ok_def)
qed

lemma tp_insert_fails:
  assumes "tp_insert t bs = (t', Inl e)"
  shows "tp_data t' = tp_data t" "tp_page_id t' = tp_page_id t"
  using assms by (auto simp: tp_insert_def split: prod.splits sum.splits status.splits)

lemma tp_erase_view:
  assumes "tp_ok t" "tp_erase t r = (t', Inr ())"
  shows "tp_ok t'" "tp_view t r \<noteq> None" "tp_view t' = (tp_view t)(r := None)"
proof -
  let ?d = "tp_data t" and ?k = "unat (rid_slot r)"
  have r: "rid_page r = tp_page_id t" and k: "?k < unat (slot_count ?d)" "is_live (slot_at ?d ?k)"
    using assms(2) by (auto simp: tp_erase_def Let_def word_le_nat_alt not_le split: if_splits)
  then have t': "t' = with_data t (put32 64 (live_count (put16 (76 + 12 * ?k) FLAG_DELETED ?d) - 1)
      (put16 (76 + 12 * ?k) FLAG_DELETED ?d))"
    using assms(2) by (auto simp: tp_erase_def Let_def split: if_splits)
  obtain bs where some: "tp_abs ?d ?k = Some bs"
    using k tp_abs_none_iff [of ?d ?k] by auto
  note eff = erase_effect [OF _ some refl refl]
  show "tp_ok t'" "tp_view t r \<noteq> None"
    using assms(1) eff(1) some r by (simp_all add: tp_ok_def t' tp_view_def)
  show "tp_view t' = (tp_view t)(r := None)"
    using assms(1) eff(2) r by (intro tp_view_upd) (simp_all add: t' tp_ok_def)
qed

lemma tp_erase_fails:
  assumes "tp_erase t r = (t', Inl e)"
  shows "tp_data t' = tp_data t" "tp_page_id t' = tp_page_id t" "tp_view t r = None"
  using assms by (auto simp: tp_erase_def Let_def tp_view_def tp_abs_none_iff word_le_nat_alt split: if_splits)


lemma tp_update_view:
  assumes "tp_ok t" "tp_update t r bs = (t', Inr ())"
  shows "tp_ok t'" "tp_view t r \<noteq> None" "tp_view t' = (tp_view t)(r \<mapsto> bs)"
proof -
  let ?d = "tp_data t" and ?k = "unat (rid_slot r)"
  let ?s = "slot_at ?d ?k"
  have inv: "tp_inv ?d" using assms(1) by (simp add: tp_ok_def)
  have r: "rid_page r = tp_page_id t" and k: "?k < unat (slot_count ?d)" "is_live ?s"
    using assms(2) by (auto simp: tp_update_def Let_def word_le_nat_alt not_le split: if_splits)
  then have ek: "slot_ext ?d ?k = Some (unat (s_offset ?s), unat (s_length ?s))"
    by (simp add: slot_ext_def)
  have up: "upper_bound (put32 60 v ?d) = v" for v
    using tp_inv_bounds(1) [OF inv] by (simp add: fields_put_header)
  have "tp_ok t' \<and> tp_page_id t' = tp_page_id t \<and> tp_abs (tp_data t') = (tp_abs ?d)(?k \<mapsto> bs)"
  proof (cases "length bs \<le> unat (s_length ?s)")
    case True
    then have "t' = with_data t (put32 (72 + 12 * ?k) (of_nat (length bs)) (patch (unat (s_offset ?s) - 4) bs ?d))"
      using assms(2) r k by (auto simp: tp_update_def Let_def rec_at_def split: if_splits)
    then show ?thesis
      using overwrite_effect [OF inv ek True refl] by (simp add: tp_ok_def)
  next
    case False
    then have "length bs \<le> free_space ?d" and "t' = with_data t (place ?k bs ?d)"
      using assms(2) r k by (auto simp: tp_update_def Let_def place_def up split: if_splits)
    then show ?thesis
      using move_effect [OF inv] ek by (simp add: tp_ok_def)
  qed
  then show "tp_ok t'" "tp_view t r \<noteq> None" "tp_view t' = (tp_view t)(r \<mapsto> bs)"
    using tp_view_upd r ek by (simp_all add: tp_view_def tp_abs_def)
qed

lemma tp_update_fails:
  assumes "tp_update t r bs = (t', Inl e)"
  shows "tp_data t' = tp_data t" "tp_page_id t' = tp_page_id t"
  using assms by (auto simp: tp_update_def Let_def split: if_splits)

lemma tp_get_view:
  assumes "tp_ok t"
  shows "tp_get t r = (case tp_view t r of Some bs \<Rightarrow> Inr bs
    | None \<Rightarrow> Inl (if rid_page r = tp_page_id t then NotFound else InvalidArgument))"
proof (cases "rid_page r = tp_page_id t")
  case True
  then show ?thesis
    using tp_get_ok [of t r] assms by (simp add: tp_ok_def tp_view_def)
qed (simp add: tp_get_def tp_view_def)

lemma tp_compact_view: "tp_ok t \<Longrightarrow> tp_ok (tp_compact t) \<and> tp_view (tp_compact t) = tp_view t"
  using compact_data_ok [of "tp_data t"] by (simp add: tp_ok_def tp_compact_def tp_view_def fun_eq_iff)

section \<open>The interface of a record page\<close>

text \<open>
  What the table heap relies on: each operation changes the record it names and no other, and an
  operation that fails changes nothing.
\<close>

datatype page_op = Op_insert bytes | Op_update record_id bytes | Op_erase record_id | Op_compact

primrec page_step :: "('p \<Rightarrow> bytes \<Rightarrow> 'p \<times> record_id result) \<Rightarrow> ('p \<Rightarrow> record_id \<Rightarrow> bytes \<Rightarrow> 'p \<times> unit result) \<Rightarrow>
    ('p \<Rightarrow> record_id \<Rightarrow> 'p \<times> unit result) \<Rightarrow> ('p \<Rightarrow> 'p) \<Rightarrow> page_op \<Rightarrow> 'p \<Rightarrow> 'p" where
  "page_step ins upd del cmp (Op_insert bs) = (\<lambda>p. fst (ins p bs))"
| "page_step ins upd del cmp (Op_update r bs) = (\<lambda>p. fst (upd p r bs))"
| "page_step ins upd del cmp (Op_erase r) = (\<lambda>p. fst (del p r))"
| "page_step ins upd del cmp Op_compact = cmp"

locale record_page =
  fixes ok :: "'p \<Rightarrow> bool" and view :: "'p \<Rightarrow> record_id \<Rightarrow> bytes option"
    and ins :: "'p \<Rightarrow> bytes \<Rightarrow> 'p \<times> record_id result"
    and upd :: "'p \<Rightarrow> record_id \<Rightarrow> bytes \<Rightarrow> 'p \<times> unit result"
    and del :: "'p \<Rightarrow> record_id \<Rightarrow> 'p \<times> unit result"
    and cmp :: "'p \<Rightarrow> 'p"
    and look :: "'p \<Rightarrow> record_id \<Rightarrow> bytes result"
  assumes ins_ok: "ok p \<Longrightarrow> ins p bs = (p', Inr r) \<Longrightarrow> ok p' \<and> view p r = None \<and> view p' = (view p)(r \<mapsto> bs)"
    and ins_fail: "ok p \<Longrightarrow> ins p bs = (p', Inl e) \<Longrightarrow> ok p' \<and> view p' = view p"
    and upd_ok: "ok p \<Longrightarrow> upd p r bs = (p', Inr ()) \<Longrightarrow> ok p' \<and> view p r \<noteq> None \<and> view p' = (view p)(r \<mapsto> bs)"
    and upd_fail: "ok p \<Longrightarrow> upd p r bs = (p', Inl e) \<Longrightarrow> ok p' \<and> view p' = view p"
    and del_ok: "ok p \<Longrightarrow> del p r = (p', Inr ()) \<Longrightarrow> ok p' \<and> view p r \<noteq> None \<and> view p' = (view p)(r := None)"
    and del_fail: "ok p \<Longrightarrow> del p r = (p', Inl e) \<Longrightarrow> ok p' \<and> view p' = view p"
    and cmp_ok: "ok p \<Longrightarrow> ok (cmp p) \<and> view (cmp p) = view p"
    and look_iff: "ok p \<Longrightarrow> look p r = Inr bs \<longleftrightarrow> view p r = Some bs"
begin

abbreviation step :: "page_op \<Rightarrow> 'p \<Rightarrow> 'p" where
  "step \<equiv> page_step ins upd del cmp"

lemma step_view:
  assumes "ok p"
  shows "ok (step oper p)" and "oper \<noteq> Op_erase r \<Longrightarrow> (\<And>bs. oper \<noteq> Op_update r bs) \<Longrightarrow>
    view p r = Some v \<Longrightarrow> view (step oper p) r = Some v"
proof -
  have "ok (step oper p) \<and> (oper \<noteq> Op_erase r \<longrightarrow> (\<forall>bs. oper \<noteq> Op_update r bs) \<longrightarrow>
    view p r = Some v \<longrightarrow> view (step oper p) r = Some v)"
  proof (cases oper)
    case (Op_insert bs)
    then show ?thesis
      using ins_ok [OF assms] ins_fail [OF assms]
      by (cases "ins p bs"; cases "snd (ins p bs)") fastforce+
  next
    case (Op_update q bs)
    then show ?thesis
      using upd_ok [OF assms] upd_fail [OF assms]
      by (cases "upd p q bs"; cases "snd (upd p q bs)") fastforce+
  next
    case (Op_erase q)
    then show ?thesis
      using del_ok [OF assms] del_fail [OF assms]
      by (cases "del p q"; cases "snd (del p q)") fastforce+
  qed (use cmp_ok [OF assms] in simp)
  then show "ok (step oper p)" and "oper \<noteq> Op_erase r \<Longrightarrow> (\<And>bs. oper \<noteq> Op_update r bs) \<Longrightarrow>
    view p r = Some v \<Longrightarrow> view (step oper p) r = Some v" by auto
qed

lemma untouched_record_survives:
  assumes "ok p" "look p r = Inr v" "Op_erase r \<notin> set ops" "\<And>bs. Op_update r bs \<notin> set ops"
  shows "ok (fold step ops p)" "look (fold step ops p) r = Inr v"
proof -
  have "ok (fold step ops p) \<and> view (fold step ops p) r = Some v"
    using assms look_iff [OF assms(1)]
  proof (induction ops arbitrary: p)
    case (Cons a ops)
    then have "ok (step a p)" "view (step a p) r = Some v"
      using step_view(1) [OF Cons.prems(1)] step_view(2) [OF Cons.prems(1), of a r v] by auto
    then show ?case
      using Cons.IH [of "step a p"] Cons.prems look_iff by auto
  qed simp
  then show "ok (fold step ops p)" "look (fold step ops p) r = Inr v"
    by (auto simp: look_iff)
qed

end

interpretation tp: record_page tp_ok tp_view tp_insert tp_update tp_erase tp_compact tp_get
proof
  show "tp_ok p' \<and> tp_view p r = None \<and> tp_view p' = (tp_view p)(r \<mapsto> bs)"
    if "tp_ok p" "tp_insert p bs = (p', Inr r)" for p bs p' r
    using tp_insert_view [OF that] by simp
  show "tp_ok p' \<and> tp_view p' = tp_view p" if "tp_ok p" "tp_insert p bs = (p', Inl e)" for p bs p' e
    using tp_view_same tp_insert_fails [OF that(2)] that(1) by blast
  show "tp_ok p' \<and> tp_view p r \<noteq> None \<and> tp_view p' = (tp_view p)(r \<mapsto> bs)"
    if "tp_ok p" "tp_update p r bs = (p', Inr ())" for p r bs p'
    using tp_update_view [OF that] by simp
  show "tp_ok p' \<and> tp_view p' = tp_view p" if "tp_ok p" "tp_update p r bs = (p', Inl e)" for p r bs p' e
    using tp_view_same tp_update_fails [OF that(2)] that(1) by blast
  show "tp_ok p' \<and> tp_view p r \<noteq> None \<and> tp_view p' = (tp_view p)(r := None)"
    if "tp_ok p" "tp_erase p r = (p', Inr ())" for p r p'
    using tp_erase_view [OF that] by simp
  show "tp_ok p' \<and> tp_view p' = tp_view p" if "tp_ok p" "tp_erase p r = (p', Inl e)" for p r p' e
    using tp_view_same tp_erase_fails [OF that(2)] that(1) by blast
  show "tp_ok (tp_compact p) \<and> tp_view (tp_compact p) = tp_view p" if "tp_ok p" for p
    using tp_compact_view [OF that] .
  show "(tp_get p r = Inr bs) = (tp_view p r = Some bs)" if "tp_ok p" for p r bs
    using tp_get_view [OF that] by (simp split: option.splits)
qed


section \<open>Properties\<close>

definition example_page :: table_page where
  "example_page = tp_init \<lparr>tp_page = new_page 5 200, tp_frame_dirty = False\<rparr>"

lemma example_page_ok: "tp_ok example_page" "tp_view example_page = Map.empty"
    "tp_page_id example_page = 5" "free_space (tp_data example_page) = 132"
proof -
  have "length (tp_data \<lparr>tp_page = new_page 5 200, tp_frame_dirty = False\<rparr>) = 200"
    by (simp add: tp_data_def new_page_def)
  then show "tp_ok example_page" "tp_view example_page = Map.empty" "free_space (tp_data example_page) = 132"
    using tp_init_ok [of "\<lparr>tp_page = new_page 5 200, tp_frame_dirty = False\<rparr>"]
    by (simp_all add: tp_ok_def tp_view_def example_page_def fun_eq_iff)
  show "tp_page_id example_page = 5"
    by (simp add: example_page_def tp_init_def Let_def) (simp add: tp_page_id_def new_page_def)
qed

text \<open>C21. \<open>TablePage::insert\<close> refines adding a fresh entry to the map from record ids to records. It
  succeeds exactly when the free space holds the record, and a new slot unless a dead one can be
  reused; then the new id was unused, it denotes the record, and every other id keeps its record.
  When it fails the records are unchanged.\<close>
theorem tp_insert_refines:
  assumes "tp_ok t"
  shows "case tp_insert t bs of
      (t', Inr r) \<Rightarrow> insert_need (tp_data t) bs \<le> free_space (tp_data t) \<and> tp_ok t' \<and>
         tp_view t r = None \<and> tp_view t' = (tp_view t)(r \<mapsto> bs)
    | (t', Inl e) \<Rightarrow> free_space (tp_data t) < insert_need (tp_data t) bs \<and> tp_ok t' \<and> tp_view t' = tp_view t"
proof -
  have iff: "(\<exists>t' r. tp_insert t bs = (t', Inr r)) \<longleftrightarrow> insert_need (tp_data t) bs \<le> free_space (tp_data t)"
    using insert_data_succeeds_iff [of "tp_data t" bs] assms
    by (auto simp: tp_ok_def tp_insert_def split: prod.splits sum.splits status.splits)
  show ?thesis
    using iff tp.ins_ok [OF assms] tp.ins_fail [OF assms]
    by (auto split: prod.splits sum.splits)
qed

theorem tp_insert_refines_witness:
  "tp_ok example_page \<and> (\<exists>t' r. tp_insert example_page [1, 2, 3] = (t', Inr r) \<and> tp_view t' = [r \<mapsto> [1, 2, 3]])"
proof -
  have "insert_need (tp_data example_page) [1, 2, 3] \<le> free_space (tp_data example_page)"
    by (simp add: insert_need_def example_page_ok)
  then show ?thesis
    using tp_insert_refines [OF example_page_ok(1), of "[1, 2, 3]"] example_page_ok
    by (auto split: prod.splits sum.splits)
qed

text \<open>\<open>TablePage::update\<close> replaces the record of a live id and no other, whether the new record
  fits in place or moves to the free space. It fails only on a dead or foreign id, or when the record
  grows beyond what is free, and then no record changes.\<close>
lemma tp_update_refines:
  assumes "tp_ok t"
  shows "case tp_update t r bs of
      (t', Inr _) \<Rightarrow> tp_ok t' \<and> tp_view t r \<noteq> None \<and> tp_view t' = (tp_view t)(r \<mapsto> bs)
    | (t', Inl e) \<Rightarrow> tp_ok t' \<and> tp_view t' = tp_view t \<and>
        (\<forall>old. tp_view t r = Some old \<longrightarrow> length old < length bs \<and> free_space (tp_data t) < length bs)"
proof -
  have grow: "length old < length bs \<and> free_space (tp_data t) < length bs"
    if fail: "tp_update t r bs = (t', Inl e)" and some: "tp_view t r = Some old" for t' e old
  proof -
    let ?d = "tp_data t" and ?k = "unat (rid_slot r)"
    let ?s = "slot_at ?d ?k"
    have inv: "tp_inv ?d" using assms by (simp add: tp_ok_def)
    have r: "rid_page r = tp_page_id t" and abs: "tp_abs ?d ?k = Some old"
      using some by (auto simp: tp_view_def split: if_splits)
    then have k: "?k < unat (slot_count ?d)" "is_live ?s" using tp_abs_none_iff [of ?d ?k] by auto
    then have ek: "slot_ext ?d ?k = Some (unat (s_offset ?s), unat (s_length ?s))" by (simp add: slot_ext_def)
    moreover have "layout (unat (upper_bound ?d)) (length ?d + 4) (slot_ext ?d)" using inv by (simp add: tp_inv_def)
    ultimately have "unat (upper_bound ?d) \<le> unat (s_offset ?s)" "unat (s_offset ?s) + unat (s_length ?s) \<le> length ?d + 4"
      using layoutD by blast+
    then have "length old = unat (s_length ?s)"
      using abs ek tp_inv_bounds(4) [OF inv] by (auto simp: tp_abs_def ext_bytes_def)
    then show ?thesis
      using fail r k by (auto simp: tp_update_def Let_def word_le_nat_alt not_le split: if_splits)
  qed
  then show ?thesis
    using tp.upd_ok [OF assms] tp.upd_fail [OF assms]
    by (auto split: prod.splits sum.splits)
qed

text \<open>C20. \<open>TablePage::compact\<close> keeps every record under its id and leaves no gap between records: the
  bytes from the new upper bound to the end of the page are exactly the live records.\<close>
theorem tp_compact_refines:
  assumes "tp_ok t"
  shows "tp_ok (tp_compact t) \<and> tp_view (tp_compact t) = tp_view t \<and>
    unat (upper_bound (tp_data (tp_compact t))) +
      (\<Sum>i\<in>dom (tp_abs (tp_data t)). length (the (tp_abs (tp_data t) i))) = tp_page_size (tp_data t)"
proof -
  have "tp_page_size (tp_data t) = length (tp_data t) + 4"
    using tp_inv_bounds(1) [of "tp_data t"] assms
    by (simp add: tp_ok_def tp_page_size_def PageHeader_SIZE_def sizeof_PageHeader_def)
  then show ?thesis
    using compact_data_ok(4) [of "tp_data t"] tp_compact_view [OF assms] assms
    by (simp add: tp_ok_def tp_compact_def)
qed

theorem tp_compact_refines_witness:
  "tp_ok example_page \<and> unat (upper_bound (tp_data (tp_compact example_page))) = 204"
proof -
  have "tp_abs (tp_data example_page) = Map.empty" "tp_page_size (tp_data example_page) = 204"
    using tp_init_ok [of "\<lparr>tp_page = new_page 5 200, tp_frame_dirty = False\<rparr>"]
    by (simp_all add: example_page_def tp_data_def new_page_def tp_page_size_def PageHeader_SIZE_def sizeof_PageHeader_def)
  then show ?thesis
    using tp_compact_refines [OF example_page_ok(1)] example_page_ok(1) by simp
qed

text \<open>C2. A record stays readable, byte for byte, through every sequence of inserts, updates, erases and
  compactions that neither updates nor erases it, whether those operations succeed or fail.\<close>
theorem tp_record_survives:
  assumes "tp_ok t" "tp_get t r = Inr v"
    and "Op_erase r \<notin> set ops" "\<And>bs. Op_update r bs \<notin> set ops"
  shows "tp_get (fold (page_step tp_insert tp_update tp_erase tp_compact) ops t) r = Inr v"
  by (rule tp.untouched_record_survives(2) [OF assms])

theorem tp_record_survives_witness:
  "\<exists>t' r. tp_insert example_page [1, 2, 3] = (t', Inr r) \<and>
     tp_get (fold (page_step tp_insert tp_update tp_erase tp_compact) [Op_insert [9], Op_compact, Op_insert []] t') r = Inr [1, 2, 3]"
proof -
  have "insert_need (tp_data example_page) [1, 2, 3] \<le> free_space (tp_data example_page)"
    by (simp add: insert_need_def example_page_ok)
  then obtain t' r where ins: "tp_insert example_page [1, 2, 3] = (t', Inr r)"
    using insert_data_succeeds_iff [of "tp_data example_page" "[1, 2, 3]"] example_page_ok(1)
    by (auto simp: tp_ok_def tp_insert_def)
  then have "tp_ok t'" "tp_get t' r = Inr [1, 2, 3]"
    using tp.ins_ok [OF example_page_ok(1) ins] by (simp_all add: tp.look_iff)
  then show ?thesis
    using tp_record_survives [of t' r "[1, 2, 3]" "[Op_insert [9], Op_compact, Op_insert []]"] ins by simp
qed

end
