(* ===== verification/Transactions.thy ===== *)
theory Transactions
  imports Lock_Manager Wal_Manager Table_Page
begin

text \<open>
  The transaction layer: \<open>transaction_state.hpp\<close>, \<open>undo_record.hpp\<close>, \<open>transaction.hpp/.cpp\<close>,
  \<open>transaction_registry.hpp/.cpp\<close>, \<open>snapshot.hpp/.cpp\<close>, \<open>mvcc_header.hpp\<close>, \<open>visibility.hpp/.cpp\<close> and
  \<open>transaction_manager.hpp/.cpp\<close>. A \<open>Transaction*\<close> is the id under which the manager keeps the object,
  \<open>None\<close> the null pointer. Each operation is one atomic step.
\<close>

section \<open>Transactions\<close>

datatype txn_state = Active | Committing | Committed | Aborting | Aborted

fun txn_state_to_string :: "txn_state \<Rightarrow> string" where
  "txn_state_to_string Active = ''Active''"
| "txn_state_to_string Committing = ''Committing''"
| "txn_state_to_string Committed = ''Committed''"
| "txn_state_to_string Aborting = ''Aborting''"
| "txn_state_to_string Aborted = ''Aborted''"

datatype isolation_level = ReadCommitted | RepeatableRead | Serializable

datatype undo_operation = Undo_Insert | Undo_Update | Undo_Delete

record undo_record =
  ur_op :: undo_operation
  ur_table :: u64
  ur_record :: record_id

definition INVALID_TRANSACTION_ID :: txn_id where "INVALID_TRANSACTION_ID = 0"
definition INITIAL_TRANSACTION_ID :: txn_id where "INITIAL_TRANSACTION_ID = 1"

record transaction =
  tx_id :: txn_id
  tx_state :: txn_state
  tx_last_lsn :: u64
  tx_iso_level :: isolation_level
  tx_undo_records :: "undo_record list"
  tx_locks :: "lock_resource list"

definition Transaction_init :: "txn_id \<Rightarrow> isolation_level \<Rightarrow> transaction" where
  "Transaction_init i level = \<lparr>tx_id = i, tx_state = Active, tx_last_lsn = 0, tx_iso_level = level, tx_undo_records = [], tx_locks = []\<rparr>"

definition add_undo_record :: "undo_record \<Rightarrow> transaction \<Rightarrow> transaction" where
  "add_undo_record r t = t\<lparr>tx_undo_records := tx_undo_records t @ [r]\<rparr>"

definition clear_undo_records :: "transaction \<Rightarrow> transaction" where
  "clear_undo_records t = t\<lparr>tx_undo_records := []\<rparr>"

definition add_lock :: "lock_resource \<Rightarrow> transaction \<Rightarrow> transaction" where
  "add_lock r t = t\<lparr>tx_locks := tx_locks t @ [r]\<rparr>"

definition clear_locks :: "transaction \<Rightarrow> transaction" where
  "clear_locks t = t\<lparr>tx_locks := []\<rparr>"

section \<open>Registry\<close>

type_synonym registry = "(txn_id \<times> txn_state) list"

definition register_transaction :: "txn_id \<Rightarrow> txn_state \<Rightarrow> registry \<Rightarrow> registry" where
  "register_transaction i st reg = AList.update i st reg"

definition update_state :: "txn_id \<Rightarrow> txn_state \<Rightarrow> registry \<Rightarrow> registry \<times> bool" where
  "update_state i st reg = (case map_of reg i of Some _ \<Rightarrow> (AList.update i st reg, True) | None \<Rightarrow> (reg, False))"

definition get_state :: "registry \<Rightarrow> txn_id \<Rightarrow> txn_state option" where
  "get_state reg i = map_of reg i"

definition is_committed :: "registry \<Rightarrow> txn_id \<Rightarrow> bool" where
  "is_committed reg i \<longleftrightarrow> get_state reg i = Some Committed"

definition is_aborted :: "registry \<Rightarrow> txn_id \<Rightarrow> bool" where
  "is_aborted reg i \<longleftrightarrow> get_state reg i = None \<or> get_state reg i = Some Aborted"

definition live_state :: "txn_state \<Rightarrow> bool" where
  "live_state st \<longleftrightarrow> st = Active \<or> st = Committing \<or> st = Aborting"

definition get_active_transactions :: "registry \<Rightarrow> txn_id list" where
  "get_active_transactions reg = map fst (filter (\<lambda>(_, st). live_state st) reg)"

definition get_oldest_active_transaction :: "registry \<Rightarrow> txn_id" where
  "get_oldest_active_transaction reg =
     (let oldest = fold (\<lambda>(i, st) oldest. if live_state st then (if i < oldest then i else oldest) else oldest) reg (- 1)
      in if oldest = - 1 then INVALID_TRANSACTION_ID else oldest)"

section \<open>Snapshots and visibility\<close>

record snapshot =
  sn_xmin :: txn_id
  sn_xmax :: txn_id
  sn_active_txns :: "txn_id list"

definition Snapshot_init :: "txn_id \<Rightarrow> txn_id \<Rightarrow> txn_id list \<Rightarrow> snapshot" where
  "Snapshot_init xmin xmax active = \<lparr>sn_xmin = xmin, sn_xmax = xmax, sn_active_txns = sort active\<rparr>"

text \<open>\<open>std::lower_bound\<close> on the sorted vector: the rest from the first element that is not smaller.\<close>

definition lower_bound_from :: "txn_id \<Rightarrow> txn_id list \<Rightarrow> txn_id list" where
  "lower_bound_from x xs = dropWhile (\<lambda>y. y < x) xs"

definition is_active :: "snapshot \<Rightarrow> txn_id \<Rightarrow> bool" where
  "is_active s x =
     (if x < sn_xmin s then False
      else if x \<ge> sn_xmax s then True
      else case lower_bound_from x (sn_active_txns s) of [] \<Rightarrow> False | y # _ \<Rightarrow> y = x)"

record mvcc_header =
  mvcc_xmin :: txn_id
  mvcc_xmax :: txn_id
  mvcc_prev_version :: record_id

definition is_visible :: "registry \<Rightarrow> mvcc_header \<Rightarrow> snapshot \<Rightarrow> txn_id \<Rightarrow> bool" where
  "is_visible reg h s current_txn =
     (let created_visible =
            (if mvcc_xmin h = current_txn then True
             else if is_active s (mvcc_xmin h) then False
             else is_committed reg (mvcc_xmin h))
      in if \<not> created_visible then False
         else if mvcc_xmax h = INVALID_TRANSACTION_ID then True
         else let deleter_visible =
                    (if mvcc_xmax h = current_txn then True
                     else if is_active s (mvcc_xmax h) then False
                     else is_committed reg (mvcc_xmax h))
              in \<not> deleter_visible)"

section \<open>The transaction manager\<close>

record txn_manager =
  tm_next_txn_id :: txn_id
  tm_registry :: registry
  tm_transactions :: "(txn_id \<times> transaction) list"
  tm_lock_manager :: "lock_manager option"
  tm_wal_manager :: "wal option"

definition TransactionManager_init :: "lock_manager option \<Rightarrow> wal option \<Rightarrow> txn_manager" where
  "TransactionManager_init lm w = \<lparr>tm_next_txn_id = INITIAL_TRANSACTION_ID, tm_registry = [], tm_transactions = [],
     tm_lock_manager = lm, tm_wal_manager = w\<rparr>"

definition set_txn :: "transaction \<Rightarrow> txn_manager \<Rightarrow> txn_manager" where
  "set_txn t tm = tm\<lparr>tm_transactions := AList.update (tx_id t) t (tm_transactions tm)\<rparr>"

text \<open>Appending to the log if there is one; \<open>None\<close> when there is none.\<close>

definition log_append :: "log_record \<Rightarrow> txn_manager \<Rightarrow> txn_manager \<times> (exn + lsn option)" where
  "log_append rec tm =
     (case tm_wal_manager tm of
        None \<Rightarrow> (tm, Inr None)
      | Some w \<Rightarrow>
          (case wal_append rec w of
             (w, _, Inl e) \<Rightarrow> (tm\<lparr>tm_wal_manager := Some w\<rparr>, Inl e)
           | (w, _, Inr l) \<Rightarrow> (tm\<lparr>tm_wal_manager := Some w\<rparr>, Inr (Some l))))"

definition log_flush :: "(wal \<Rightarrow> wal \<times> (exn + unit)) \<Rightarrow> txn_manager \<Rightarrow> txn_manager \<times> (exn + unit)" where
  "log_flush fl tm =
     (case tm_wal_manager tm of
        None \<Rightarrow> (tm, Inr ())
      | Some w \<Rightarrow> (case fl w of (w, r) \<Rightarrow> (tm\<lparr>tm_wal_manager := Some w\<rparr>, r)))"

definition txn_begin :: "isolation_level \<Rightarrow> txn_manager \<Rightarrow> txn_manager \<times> (exn + txn_id)" where
  "txn_begin level tm =
     (let i = tm_next_txn_id tm;
          t = Transaction_init i level;
          tm = set_txn t (tm\<lparr>tm_next_txn_id := i + 1, tm_registry := register_transaction i Active (tm_registry tm)\<rparr>)
      in case log_append (LogRecord_state i LogRecordType_TxnBegin LSN_invalid) tm of
           (tm, Inl e) \<Rightarrow> (tm, Inl e)
         | (tm, Inr None) \<Rightarrow> (tm, Inr i)
         | (tm, Inr (Some l)) \<Rightarrow> (set_txn (t\<lparr>tx_last_lsn := l\<rparr>) tm, Inr i))"

definition txn_of :: "txn_manager \<Rightarrow> txn_id option \<Rightarrow> transaction option" where
  "txn_of tm p = (case p of None \<Rightarrow> None | Some i \<Rightarrow> map_of (tm_transactions tm) i)"

definition release_locks :: "(lock_resource \<Rightarrow> u64) \<Rightarrow> transaction \<Rightarrow> txn_manager \<Rightarrow> txn_manager" where
  "release_locks hf t tm = tm\<lparr>tm_lock_manager := map_option (release_all hf (tx_id t) (tx_locks t)) (tm_lock_manager tm)\<rparr>"

text \<open>The common end of commit and abort: registry, state, locks, and the lists of the transaction.\<close>

definition finish_txn :: "(lock_resource \<Rightarrow> u64) \<Rightarrow> txn_state \<Rightarrow> transaction \<Rightarrow> txn_manager \<Rightarrow> txn_manager" where
  "finish_txn hf st t tm =
     (let tm = tm\<lparr>tm_registry := fst (update_state (tx_id t) st (tm_registry tm))\<rparr>;
          t = t\<lparr>tx_state := st\<rparr>;
          tm = release_locks hf t tm
      in set_txn (clear_locks (clear_undo_records t)) tm)"

definition txn_commit :: "(lock_resource \<Rightarrow> u64) \<Rightarrow> txn_id option \<Rightarrow> txn_manager \<Rightarrow> txn_manager \<times> (exn + status)" where
  "txn_commit hf p tm =
     (case txn_of tm p of
        None \<Rightarrow> (tm, Inr InvalidState)
      | Some t \<Rightarrow>
          if tx_state t \<noteq> Active then (tm, Inr InvalidState)
          else case log_append (LogRecord_state (tx_id t) LogRecordType_TxnCommit (tx_last_lsn t)) tm of
                 (tm, Inl e) \<Rightarrow> (tm, Inl e)
               | (tm, Inr l) \<Rightarrow>
                   (case (case l of None \<Rightarrow> (tm, Inr ()) | Some l \<Rightarrow> log_flush (flush_up_to l) tm) of
                      (tm, Inl e) \<Rightarrow> (tm, Inl e)
                    | (tm, Inr _) \<Rightarrow> (finish_txn hf Committed t tm, Inr OK)))"

text \<open>\<open>rollback_undo_records\<close> has an empty body.\<close>

definition rollback_undo_records :: "transaction \<Rightarrow> txn_manager \<Rightarrow> txn_manager" where
  "rollback_undo_records t tm = tm"

definition txn_abort :: "(lock_resource \<Rightarrow> u64) \<Rightarrow> txn_id option \<Rightarrow> txn_manager \<Rightarrow> txn_manager \<times> (exn + status)" where
  "txn_abort hf p tm =
     (case txn_of tm p of
        None \<Rightarrow> (tm, Inr InvalidState)
      | Some t \<Rightarrow>
          if tx_state t \<noteq> Active then (tm, Inr InvalidState)
          else case log_append (LogRecord_state (tx_id t) LogRecordType_TxnAbort (tx_last_lsn t)) tm of
                 (tm, Inl e) \<Rightarrow> (tm, Inl e)
               | (tm, Inr l) \<Rightarrow>
                   let t = (case l of None \<Rightarrow> t | Some l \<Rightarrow> t\<lparr>tx_last_lsn := l\<rparr>);
                       tm = rollback_undo_records t (set_txn t tm)
                   in case log_append (LogRecord_state (tx_id t) LogRecordType_TxnEnd (tx_last_lsn t)) tm of
                        (tm, Inl e) \<Rightarrow> (tm, Inl e)
                      | (tm, Inr _) \<Rightarrow>
                          (case log_flush wal_flush tm of
                             (tm, Inl e) \<Rightarrow> (tm, Inl e)
                           | (tm, Inr _) \<Rightarrow>
                               let tm = tm\<lparr>tm_registry := fst (update_state (tx_id t) Aborted (tm_registry tm))\<rparr>;
                                   tm = rollback_undo_records t tm
                               in (finish_txn hf Aborted t tm, Inr OK)))"

definition create_snapshot :: "txn_manager \<Rightarrow> snapshot" where
  "create_snapshot tm =
     (let xmax = tm_next_txn_id tm;
          xmin = get_oldest_active_transaction (tm_registry tm);
          xmin = (if xmin = INVALID_TRANSACTION_ID \<or> xmin > xmax then xmax else xmin)
      in Snapshot_init xmin xmax (get_active_transactions (tm_registry tm)))"


section \<open>The active set of a snapshot\<close>

lemma lower_bound_mem:
  "sorted xs \<Longrightarrow> (case lower_bound_from x xs of [] \<Rightarrow> False | y # _ \<Rightarrow> y = x) \<longleftrightarrow> x \<in> set xs"
  unfolding lower_bound_from_def by (induction xs) (auto split: list.splits)

definition live_ids :: "registry \<Rightarrow> txn_id set" where
  "live_ids reg = {i. \<exists>st. (i, st) \<in> set reg \<and> live_state st}"

lemma set_active: "set (get_active_transactions reg) = live_ids reg"
  by (force simp: get_active_transactions_def live_ids_def)

lemma fold_oldest:
  "let o' = fold (\<lambda>(i, st) oldest. if live_state st then (if i < oldest then i else oldest) else oldest) reg o0
   in o' \<le> o0 \<and> (\<forall>i\<in>live_ids reg. o' \<le> i) \<and> (o' = o0 \<or> o' \<in> live_ids reg)"
proof (induction reg arbitrary: o0)
  case (Cons e reg)
  obtain i st where e: "e = (i, st)" by fastforce
  let ?o1 = "if live_state st then (if i < o0 then i else o0) else o0"
  have l: "live_ids (e # reg) = (if live_state st then insert i (live_ids reg) else live_ids reg)" by (auto simp: live_ids_def e)
  define o' where "o' = fold (\<lambda>(i, st) oldest. if live_state st then (if i < oldest then i else oldest) else oldest) reg ?o1"
  have o1: "?o1 \<le> o0" "live_state st \<Longrightarrow> ?o1 \<le> i" "?o1 = o0 \<or> live_state st \<and> ?o1 = i" by auto
  have IH: "o' \<le> ?o1" "\<forall>j\<in>live_ids reg. o' \<le> j" "o' = ?o1 \<or> o' \<in> live_ids reg"
    using Cons.IH [of ?o1] unfolding o'_def Let_def by blast+
  have f: "fold (\<lambda>(i, st) oldest. if live_state st then (if i < oldest then i else oldest) else oldest) (e # reg) o0 = o'"
    by (simp only: e fold_Cons comp_def prod.case o'_def)
  have "o' \<le> o0" using IH(1) o1(1) by (rule order_trans)
  moreover have "\<forall>j\<in>live_ids (e # reg). o' \<le> j" using IH(1,2) o1(2) by (auto simp: l split: if_splits)
  moreover have "o' = o0 \<or> o' \<in> live_ids (e # reg)" using IH(3) o1(3) by (auto simp: l)
  ultimately show ?case unfolding f Let_def by blast
qed (simp add: live_ids_def)

lemma oldest_spec:
  assumes "- 1 \<notin> live_ids reg" "0 \<notin> live_ids reg"
  shows "(live_ids reg = {} \<and> get_oldest_active_transaction reg = 0) \<or>
    (get_oldest_active_transaction reg \<in> live_ids reg \<and> (\<forall>i\<in>live_ids reg. get_oldest_active_transaction reg \<le> i))"
proof -
  let ?o = "fold (\<lambda>(i, st) oldest. if live_state st then (if i < oldest then i else oldest) else oldest) reg (- 1)"
  have F: "\<forall>i\<in>live_ids reg. ?o \<le> i" "?o = - 1 \<or> ?o \<in> live_ids reg" using fold_oldest [of reg "- 1"] by (simp_all add: Let_def)
  show ?thesis
  proof (cases "?o = - 1")
    case True
    have "live_ids reg = {}"
    proof (rule ccontr)
      assume "live_ids reg \<noteq> {}"
      then obtain i where i: "i \<in> live_ids reg" by blast
      then have "- 1 \<le> i" using F(1) True by simp
      then have "i = - 1" using word_order.extremum_uniqueI by blast
      then show False using i assms(1) by simp
    qed
    then show ?thesis using True by (simp add: get_oldest_active_transaction_def INVALID_TRANSACTION_ID_def)
  next
    case False
    then show ?thesis using F by (simp add: get_oldest_active_transaction_def)
  qed
qed

text \<open>Consistency of the manager: ids below the next one, and each object in the state the registry has for it.\<close>

definition tm_ok :: "txn_manager \<Rightarrow> bool" where
  "tm_ok tm \<longleftrightarrow> distinct (map fst (tm_registry tm)) \<and>
     (\<forall>i st. map_of (tm_registry tm) i = Some st \<longrightarrow> 0 < i \<and> i < tm_next_txn_id tm \<and> st \<in> {Active, Committed, Aborted}) \<and>
     (\<forall>i t. map_of (tm_transactions tm) i = Some t \<longrightarrow> tx_id t = i \<and> map_of (tm_registry tm) i = Some (tx_state t))"

lemma live_ids_map_of: "distinct (map fst reg) \<Longrightarrow> i \<in> live_ids reg \<longleftrightarrow> (\<exists>st. map_of reg i = Some st \<and> live_state st)"
  by (auto simp: live_ids_def)

lemma is_active_snapshot:
  assumes "tm_ok tm"
  shows "is_active (create_snapshot tm) x \<longleftrightarrow> x \<ge> tm_next_txn_id tm \<or> x \<in> live_ids (tm_registry tm)"
proof -
  let ?L = "live_ids (tm_registry tm)" and ?o = "get_oldest_active_transaction (tm_registry tm)" and ?n = "tm_next_txn_id tm"
  have L: "0 < i \<and> i < ?n" if "i \<in> ?L" for i
    using that assms by (auto simp: tm_ok_def live_ids_map_of)
  have m1: "- 1 \<notin> ?L" using L [of "- 1"] by auto
  have o: "(?L = {} \<and> ?o = 0) \<or> (?o \<in> ?L \<and> (\<forall>i\<in>?L. ?o \<le> i))" using oldest_spec [OF m1] L by blast
  define xmin where "xmin = (if ?o = INVALID_TRANSACTION_ID \<or> ?o > ?n then ?n else ?o)"
  have xm: "xmin \<le> ?n" "\<And>i. i \<in> ?L \<Longrightarrow> xmin \<le> i"
  proof -
    show "xmin \<le> ?n" by (auto simp: xmin_def)
    show "xmin \<le> i" if i: "i \<in> ?L" for i
    proof -
      have "?o \<in> ?L" "?o \<le> i" using o i by auto
      then show ?thesis using L [of ?o] by (auto simp: xmin_def INVALID_TRANSACTION_ID_def)
    qed
  qed
  have s: "create_snapshot tm = Snapshot_init xmin ?n (get_active_transactions (tm_registry tm))"
    by (simp add: create_snapshot_def xmin_def Let_def)
  have mem: "(case lower_bound_from x (sort (get_active_transactions (tm_registry tm))) of [] \<Rightarrow> False | y # _ \<Rightarrow> y = x) \<longleftrightarrow> x \<in> ?L"
    using lower_bound_mem [of "sort (get_active_transactions (tm_registry tm))" x] by (simp add: set_active)
  show ?thesis
  proof (cases "x < xmin")
    case True
    have "x \<notin> ?L" using xm(2) [of x] True by (meson leD)
    moreover have "\<not> x \<ge> ?n" using xm(1) True by simp
    ultimately show ?thesis using True by (simp add: is_active_def s Snapshot_init_def)
  next
    case False
    then show ?thesis using mem by (simp add: is_active_def s Snapshot_init_def)
  qed
qed


section \<open>Steps\<close>

lemma log_append_frame:
  assumes "log_append rec tm = (tm', r)"
  shows "tm_next_txn_id tm' = tm_next_txn_id tm" "tm_registry tm' = tm_registry tm" "tm_transactions tm' = tm_transactions tm"
    "tm_lock_manager tm' = tm_lock_manager tm"
  using assms by (auto simp: log_append_def split: option.splits prod.splits sum.splits)

lemma log_flush_frame:
  assumes "log_flush fl tm = (tm', r)"
  shows "tm_next_txn_id tm' = tm_next_txn_id tm" "tm_registry tm' = tm_registry tm" "tm_transactions tm' = tm_transactions tm"
    "tm_lock_manager tm' = tm_lock_manager tm"
  using assms by (auto simp: log_flush_def split: option.splits prod.splits)

datatype tm_op = Op_begin isolation_level | Op_commit "txn_id option" | Op_abort "txn_id option"

fun tm_step :: "(lock_resource \<Rightarrow> u64) \<Rightarrow> tm_op \<Rightarrow> txn_manager \<Rightarrow> txn_manager" where
  "tm_step hf (Op_begin level) tm = fst (txn_begin level tm)"
| "tm_step hf (Op_commit p) tm = fst (txn_commit hf p tm)"
| "tm_step hf (Op_abort p) tm = fst (txn_abort hf p tm)"

text \<open>What a step may do to the registry: final states stay, and only the next id is added.\<close>

definition tm_ext :: "txn_manager \<Rightarrow> txn_manager \<Rightarrow> bool" where
  "tm_ext tm tm' \<longleftrightarrow> tm_next_txn_id tm \<le> tm_next_txn_id tm' \<and>
     (\<forall>i. i < tm_next_txn_id tm \<longrightarrow> map_of (tm_registry tm) i \<noteq> Some Active \<longrightarrow> map_of (tm_registry tm') i = map_of (tm_registry tm) i)"

lemma tm_ext_refl: "tm_ext tm tm"
  by (simp add: tm_ext_def)

lemma tm_ext_trans: "tm_ext tm tm1 \<Longrightarrow> tm_ext tm1 tm2 \<Longrightarrow> tm_ext tm tm2"
  unfolding tm_ext_def by (metis order_less_le_trans order_trans)

lemma tm_ok_frame:
  assumes "tm_ok tm" "tm_next_txn_id tm' = tm_next_txn_id tm" "tm_registry tm' = tm_registry tm"
    "\<And>i t'. map_of (tm_transactions tm') i = Some t' \<Longrightarrow> \<exists>t. map_of (tm_transactions tm) i = Some t \<and> tx_id t' = tx_id t \<and> tx_state t' = tx_state t"
  shows "tm_ok tm'" "tm_ext tm tm'"
  using assms by (fastforce simp: tm_ok_def tm_ext_def)+

lemma finish_txn_ok:
  assumes ok: "tm_ok tm" and t: "map_of (tm_registry tm) (tx_id t) = Some Active" and st: "st \<in> {Committed, Aborted}"
  shows "tm_ok (finish_txn hf st t tm)" "tm_ext tm (finish_txn hf st t tm)" "tm_next_txn_id (finish_txn hf st t tm) = tm_next_txn_id tm"
proof -
  let ?tm = "finish_txn hf st t tm"
  have sel: "tm_registry ?tm = AList.update (tx_id t) st (tm_registry tm)" "tm_next_txn_id ?tm = tm_next_txn_id tm"
    "tm_transactions ?tm = AList.update (tx_id t) (clear_locks (clear_undo_records (t\<lparr>tx_state := st\<rparr>))) (tm_transactions tm)"
    using t by (simp_all add: finish_txn_def release_locks_def set_txn_def update_state_def clear_locks_def clear_undo_records_def Let_def)
  then show "tm_next_txn_id ?tm = tm_next_txn_id tm" by simp
  show "tm_ext tm ?tm" using t by (auto simp: tm_ext_def sel update_conv')
  show "tm_ok ?tm"
    using ok t st unfolding tm_ok_def
    by (auto simp: sel update_conv' distinct_update clear_locks_def clear_undo_records_def split: if_splits)
qed


lemma tm_ok_registry: "tm_ok tm \<Longrightarrow> txn_of tm p = Some t \<Longrightarrow> map_of (tm_registry tm) (tx_id t) = Some (tx_state t)"
  by (auto simp: tm_ok_def txn_of_def split: option.splits)

lemma log_append_ok:
  assumes "tm_ok tm" "log_append rec tm = (tm', r)"
  shows "tm_ok tm'" "tm_ext tm tm'"
  using tm_ok_frame [OF assms(1), of tm'] log_append_frame [OF assms(2)] by auto

lemma log_flush_ok:
  assumes "tm_ok tm" "log_flush fl tm = (tm', r)"
  shows "tm_ok tm'" "tm_ext tm tm'"
  using tm_ok_frame [OF assms(1), of tm'] log_flush_frame [OF assms(2)] by auto

lemma tm_okD:
  assumes "tm_ok tm"
  shows "distinct (map fst (tm_registry tm))"
    and "map_of (tm_registry tm) i = Some st \<Longrightarrow> 0 < i \<and> i < tm_next_txn_id tm \<and> st \<in> {Active, Committed, Aborted}"
    and "map_of (tm_transactions tm) i = Some t \<Longrightarrow> tx_id t = i \<and> map_of (tm_registry tm) i = Some (tx_state t)"
  using assms unfolding tm_ok_def by blast+

lemma txn_begin_ok:
  assumes ok: "tm_ok tm" and n: "tm_next_txn_id tm + 1 > tm_next_txn_id tm" "0 < tm_next_txn_id tm"
  shows "tm_ok (fst (txn_begin level tm))" "tm_ext tm (fst (txn_begin level tm))" "tm_next_txn_id (fst (txn_begin level tm)) = tm_next_txn_id tm + 1"
proof -
  let ?i = "tm_next_txn_id tm"
  let ?t = "Transaction_init ?i level"
  let ?tm = "set_txn ?t (tm\<lparr>tm_next_txn_id := ?i + 1, tm_registry := register_transaction ?i Active (tm_registry tm)\<rparr>)"
  have fresh: "map_of (tm_registry tm) ?i = None" using tm_okD(2) [OF ok, of ?i] by (cases "map_of (tm_registry tm) ?i") blast+
  have reg: "map_of (tm_registry ?tm) j = (if j = ?i then Some Active else map_of (tm_registry tm) j)" for j
    by (simp add: set_txn_def register_transaction_def update_conv')
  have txn: "map_of (tm_transactions ?tm) j = (if j = ?i then Some ?t else map_of (tm_transactions tm) j)" for j
    by (simp add: set_txn_def Transaction_init_def update_conv')
  have ok1: "tm_ok ?tm"
    unfolding tm_ok_def reg txn
  proof (intro conjI allI impI)
    show "distinct (map fst (tm_registry ?tm))"
      using tm_okD(1) [OF ok] by (simp add: set_txn_def register_transaction_def distinct_update)
    fix j st assume j: "(if j = ?i then Some Active else map_of (tm_registry tm) j) = Some st"
    note J = tm_okD(2) [OF ok, of j st]
    have K: "j = ?i \<and> st = Active \<or> (0 < j \<and> j < ?i \<and> st \<in> {Active, Committed, Aborted})"
      using j J by (metis option.inject)
    then show "0 < j" using n(2) by blast
    have "j \<le> ?i" using K by (blast intro: order.strict_implies_order)
    also have "?i < ?i + 1" by (rule n(1))
    finally show "j < tm_next_txn_id ?tm" by (simp add: set_txn_def)
    show "st \<in> {Active, Committed, Aborted}" using K by blast
  next
    fix j u assume u: "(if j = ?i then Some ?t else map_of (tm_transactions tm) j) = Some u"
    have "tx_id u = j \<and> (if j = ?i then Some Active else map_of (tm_registry tm) j) = Some (tx_state u)"
    proof (cases "j = ?i")
      case True
      then have "u = ?t" using u by simp
      then show ?thesis using True by (simp add: Transaction_init_def)
    next
      case False
      then show ?thesis using u tm_okD(3) [OF ok, of j u] by simp
    qed
    then show "tx_id u = j" "(if j = ?i then Some Active else map_of (tm_registry tm) j) = Some (tx_state u)" by blast+
  qed
  have ext1: "tm_ext tm ?tm"
    using n by (auto simp: tm_ext_def reg) (simp add: set_txn_def)
  obtain tm2 r where l: "log_append (LogRecord_state ?i LogRecordType_TxnBegin LSN_invalid) ?tm = (tm2, r)"
    by (cases "log_append (LogRecord_state ?i LogRecordType_TxnBegin LSN_invalid) ?tm")
  note ok2 = log_append_ok [OF ok1 l] and fr = log_append_frame [OF l]
  have t2: "map_of (tm_transactions tm2) ?i = Some ?t" using fr by (simp add: set_txn_def Transaction_init_def update_conv')
  have upd: "tm_ok (set_txn (?t\<lparr>tx_last_lsn := x\<rparr>) tm2)" "tm_ext tm2 (set_txn (?t\<lparr>tx_last_lsn := x\<rparr>) tm2)" for x
    using t2 by (auto intro!: tm_ok_frame [OF ok2(1)] simp: set_txn_def update_conv' Transaction_init_def split: if_splits)
  have "tm_next_txn_id tm2 = ?i + 1" using fr by (simp add: set_txn_def)
  then show "tm_ok (fst (txn_begin level tm))" "tm_ext tm (fst (txn_begin level tm))" "tm_next_txn_id (fst (txn_begin level tm)) = ?i + 1"
    using l ok2 upd tm_ext_trans [OF ext1 ok2(2)] tm_ext_trans [OF tm_ext_trans [OF ext1 ok2(2)] upd(2)]
    by (auto simp: txn_begin_def Let_def set_txn_def split: sum.splits option.splits)
qed

lemma txn_commit_ok:
  assumes ok: "tm_ok tm"
  shows "tm_ok (fst (txn_commit hf p tm)) \<and> tm_ext tm (fst (txn_commit hf p tm)) \<and> tm_next_txn_id (fst (txn_commit hf p tm)) = tm_next_txn_id tm"
proof (cases "txn_of tm p")
  case (Some t)
  show ?thesis
  proof (cases "tx_state t = Active")
    case True
    obtain tm1 r where l: "log_append (LogRecord_state (tx_id t) LogRecordType_TxnCommit (tx_last_lsn t)) tm = (tm1, r)" by fastforce
    note ok1 = log_append_ok [OF ok l] and f1 = log_append_frame [OF l]
    define fl where "fl = (case r of Inr (Some x) \<Rightarrow> log_flush (flush_up_to x) tm1 | _ \<Rightarrow> (tm1, Inr ()))"
    obtain tm2 q where f: "fl = (tm2, q)" by fastforce
    have ok2: "tm_ok tm2 \<and> tm_ext tm1 tm2 \<and> tm_registry tm2 = tm_registry tm1 \<and> tm_next_txn_id tm2 = tm_next_txn_id tm1"
      using f ok1 log_flush_ok [OF ok1(1)] log_flush_frame
      by (auto simp: fl_def tm_ext_refl split: sum.splits option.splits)
    have reg: "map_of (tm_registry tm2) (tx_id t) = Some Active" using tm_ok_registry [OF ok Some] True ok2 f1 by simp
    note F = finish_txn_ok [OF conjunct1 [OF ok2] reg, of Committed hf]
    have e12: "tm_ext tm tm2" using ok1 ok2 tm_ext_trans by blast
    have "txn_commit hf p tm = (case r of Inl e \<Rightarrow> (tm1, Inl e) | Inr _ \<Rightarrow> (case fl of (tm, Inl e) \<Rightarrow> (tm, Inl e) | (tm, Inr _) \<Rightarrow> (finish_txn hf Committed t tm, Inr OK)))"
      using Some True l by (auto simp: txn_commit_def fl_def split: sum.splits option.splits)
    then show ?thesis
      using ok1 f ok2 F e12 f1 tm_ext_trans [OF e12] by (auto split: sum.splits)
  qed (use ok Some in \<open>simp add: txn_commit_def tm_ext_refl\<close>)
qed (use ok in \<open>simp add: txn_commit_def tm_ext_refl\<close>)

lemma alist_update_idem: "AList.update k v (AList.update k v al) = AList.update k v al"
  by (induction al) auto

lemma finish_txn_twice:
  "finish_txn hf st t (tm\<lparr>tm_registry := fst (update_state (tx_id t) st (tm_registry tm))\<rparr>) = finish_txn hf st t tm"
  by (cases "map_of (tm_registry tm) (tx_id t)")
    (simp_all add: finish_txn_def update_state_def alist_update_idem update_conv' release_locks_def set_txn_def Let_def)

lemma set_txn_ok:
  assumes ok: "tm_ok tm" and t: "map_of (tm_transactions tm) (tx_id t) = Some t0" "tx_state t = tx_state t0" "tx_id t = tx_id t0"
  shows "tm_ok (set_txn t tm)" "tm_ext tm (set_txn t tm)"
  using t by (auto intro!: tm_ok_frame [OF ok] simp: set_txn_def update_conv' split: if_splits)

lemma txn_of_lookup: "tm_ok tm \<Longrightarrow> txn_of tm p = Some t \<Longrightarrow> p = Some (tx_id t) \<and> map_of (tm_transactions tm) (tx_id t) = Some t"
  by (auto simp: tm_ok_def txn_of_def split: option.splits)

lemma txn_abort_ok:
  assumes ok: "tm_ok tm"
  shows "tm_ok (fst (txn_abort hf p tm)) \<and> tm_ext tm (fst (txn_abort hf p tm)) \<and> tm_next_txn_id (fst (txn_abort hf p tm)) = tm_next_txn_id tm"
proof (cases "txn_of tm p")
  case (Some t)
  show ?thesis
  proof (cases "tx_state t = Active")
    case True
    obtain tm1 r where l: "log_append (LogRecord_state (tx_id t) LogRecordType_TxnAbort (tx_last_lsn t)) tm = (tm1, r)"
      by (cases "log_append (LogRecord_state (tx_id t) LogRecordType_TxnAbort (tx_last_lsn t)) tm")
    note ok1 = log_append_ok [OF ok l] and f1 = log_append_frame [OF l]
    define t1 where "t1 = (case r of Inr (Some x) \<Rightarrow> t\<lparr>tx_last_lsn := x\<rparr> | _ \<Rightarrow> t)"
    have t1: "tx_id t1 = tx_id t" "tx_state t1 = tx_state t" by (simp_all add: t1_def split: sum.splits option.splits)
    have "map_of (tm_transactions tm1) (tx_id t1) = Some t" using txn_of_lookup [OF ok Some] f1 t1 by simp
    note okS = set_txn_ok [OF ok1(1) this t1(2,1)]
    obtain tm2 q where l2: "log_append (LogRecord_state (tx_id t) LogRecordType_TxnEnd (tx_last_lsn t1)) (set_txn t1 tm1) = (tm2, q)"
      by (cases "log_append (LogRecord_state (tx_id t) LogRecordType_TxnEnd (tx_last_lsn t1)) (set_txn t1 tm1)")
    note ok2 = log_append_ok [OF okS(1) l2] and f2 = log_append_frame [OF l2]
    obtain tm3 w where l3: "log_flush wal_flush tm2 = (tm3, w)" by (cases "log_flush wal_flush tm2")
    note ok3 = log_flush_ok [OF ok2(1) l3] and f3 = log_flush_frame [OF l3]
    have sel: "tm_registry tm3 = tm_registry tm" "tm_next_txn_id tm3 = tm_next_txn_id tm" "tm_next_txn_id tm2 = tm_next_txn_id tm"
      using f1 f2 f3 by (simp_all add: set_txn_def)
    have reg: "map_of (tm_registry tm3) (tx_id t1) = Some Active" using tm_ok_registry [OF ok Some] True sel t1 by simp
    note F = finish_txn_ok [OF ok3(1) reg, of Aborted hf]
    have e2: "tm_ext tm tm2" using ok1(2) okS(2) ok2(2) tm_ext_trans by blast
    then have e3: "tm_ext tm tm3" using ok3(2) tm_ext_trans by blast
    have "txn_abort hf p tm = (case r of Inl e \<Rightarrow> (tm1, Inl e) | Inr _ \<Rightarrow>
        (case q of Inl e \<Rightarrow> (tm2, Inl e) | Inr _ \<Rightarrow> (case w of Inl e \<Rightarrow> (tm3, Inl e) | Inr _ \<Rightarrow> (finish_txn hf Aborted t1 tm3, Inr OK))))"
    proof (cases r)
      case (Inr x)
      have "t1 = (case x of None \<Rightarrow> t | Some l \<Rightarrow> t\<lparr>tx_last_lsn := l\<rparr>)" by (simp add: t1_def Inr)
      then show ?thesis
        using Some True l Inr l2 l3 t1 finish_txn_twice [of hf Aborted t1 tm3]
        by (simp add: txn_abort_def Let_def rollback_undo_records_def split: sum.splits)
    qed (use Some True l in \<open>simp add: txn_abort_def\<close>)
    then show ?thesis
      using ok1 ok2(1) e2 ok3(1) e3 F f1 sel tm_ext_trans [OF e3] by (auto split: sum.splits)
  qed (use ok Some in \<open>simp add: txn_abort_def tm_ext_refl\<close>)
qed (use ok in \<open>simp add: txn_abort_def tm_ext_refl\<close>)


lemma tm_step_ok:
  assumes ok: "tm_ok tm" and n: "0 < tm_next_txn_id tm" "unat (tm_next_txn_id tm) + 1 < 2 ^ 64"
  shows "tm_ok (tm_step hf op tm) \<and> tm_ext tm (tm_step hf op tm) \<and> 0 < tm_next_txn_id (tm_step hf op tm) \<and>
    unat (tm_next_txn_id (tm_step hf op tm)) \<le> unat (tm_next_txn_id tm) + 1"
proof (cases op)
  case (Op_begin level)
  have u: "unat (tm_next_txn_id tm + 1) = unat (tm_next_txn_id tm) + 1"
    using n(2) by (intro unat_plus_if_fits [THEN trans]) simp_all
  then have lt: "tm_next_txn_id tm < tm_next_txn_id tm + 1" by (simp add: word_less_nat_alt)
  note B = txn_begin_ok [OF ok lt n(1), of level]
  have "0 < tm_next_txn_id tm + 1" using lt n(1) order.strict_trans by blast
  then show ?thesis using B u Op_begin by simp
next
  case (Op_commit p)
  then show ?thesis using txn_commit_ok [OF ok, of hf p] n by simp
next
  case (Op_abort p)
  then show ?thesis using txn_abort_ok [OF ok, of hf p] n by simp
qed

lemma tm_steps_ok:
  assumes "tm_ok tm" "0 < tm_next_txn_id tm" "unat (tm_next_txn_id tm) + length ops < 2 ^ 64"
  shows "tm_ok (fold (tm_step hf) ops tm) \<and> tm_ext tm (fold (tm_step hf) ops tm) \<and> 0 < tm_next_txn_id (fold (tm_step hf) ops tm) \<and>
    unat (tm_next_txn_id (fold (tm_step hf) ops tm)) \<le> unat (tm_next_txn_id tm) + length ops"
  using assms
proof (induction ops arbitrary: tm)
  case (Cons op ops)
  then have n: "unat (tm_next_txn_id tm) + 1 < 2 ^ 64" by simp
  note S = tm_step_ok [OF Cons.prems(1,2) n, of hf op]
  then have n': "unat (tm_next_txn_id (tm_step hf op tm)) + length ops < 2 ^ 64" using Cons.prems(3) by simp
  have IH: "tm_ok (fold (tm_step hf) ops (tm_step hf op tm)) \<and> tm_ext (tm_step hf op tm) (fold (tm_step hf) ops (tm_step hf op tm)) \<and>
    0 < tm_next_txn_id (fold (tm_step hf) ops (tm_step hf op tm)) \<and>
    unat (tm_next_txn_id (fold (tm_step hf) ops (tm_step hf op tm))) \<le> unat (tm_next_txn_id (tm_step hf op tm)) + length ops"
    using Cons.IH S n' by blast
  have e: "tm_ext tm (fold (tm_step hf) ops (tm_step hf op tm))" using S IH tm_ext_trans by blast
  have b: "unat (tm_next_txn_id (fold (tm_step hf) ops (tm_step hf op tm))) \<le> unat (tm_next_txn_id tm) + length (op # ops)" using S IH by simp
  show ?case unfolding fold_Cons comp_apply using e b IH by blast
qed (simp add: tm_ext_refl)

lemma tm_init_ok:
  "tm_ok (TransactionManager_init lm w)" "0 < tm_next_txn_id (TransactionManager_init lm w)"
  "unat (tm_next_txn_id (TransactionManager_init lm w)) = 1"
  by (simp_all add: TransactionManager_init_def INITIAL_TRANSACTION_ID_def tm_ok_def)

lemma snapshot_committed:
  assumes ok: "tm_ok tm" and ext: "tm_ext tm tm'"
  shows "\<not> is_active (create_snapshot tm) x \<and> is_committed (tm_registry tm') x \<longleftrightarrow> is_committed (tm_registry tm) x"
proof -
  note d = tm_okD(1) [OF ok]
  have act: "is_active (create_snapshot tm) x \<longleftrightarrow> x \<ge> tm_next_txn_id tm \<or> (\<exists>st. map_of (tm_registry tm) x = Some st \<and> live_state st)"
    using is_active_snapshot [OF ok] live_ids_map_of [OF d] by blast
  show ?thesis
  proof (cases "is_active (create_snapshot tm) x")
    case True
    then have "\<not> is_committed (tm_registry tm) x"
      using act tm_okD(2) [OF ok, of x Committed] by (auto simp: is_committed_def get_state_def live_state_def)
    then show ?thesis using True by blast
  next
    case False
    then have "x < tm_next_txn_id tm" "map_of (tm_registry tm) x \<noteq> Some Active" using act by (auto simp: live_state_def)
    then have "map_of (tm_registry tm') x = map_of (tm_registry tm) x" using ext unfolding tm_ext_def by blast
    then show ?thesis using False by (simp add: is_committed_def get_state_def)
  qed
qed

section \<open>Properties\<close>

text \<open>C33. Snapshot isolation. For a snapshot taken in any state the manager reaches, and whatever
  begins, commits and aborts happen afterwards, a version is visible to a transaction exactly if it was
  created by the transaction itself or by one already committed when the snapshot was taken, and not
  deleted by the transaction itself or by one already committed then. The ids do not wrap around
  within \<open>2^64 - 1\<close> operations.\<close>
theorem snapshot_isolation:
  assumes "tm0 = fold (tm_step hf) ops (TransactionManager_init lm w)" "tm1 = fold (tm_step hf) later tm0"
    and "length ops + length later < 2 ^ 64 - 1"
  shows "is_visible (tm_registry tm1) h (create_snapshot tm0) txn \<longleftrightarrow>
    (mvcc_xmin h = txn \<or> is_committed (tm_registry tm0) (mvcc_xmin h)) \<and>
    \<not> (mvcc_xmax h \<noteq> INVALID_TRANSACTION_ID \<and> (mvcc_xmax h = txn \<or> is_committed (tm_registry tm0) (mvcc_xmax h)))"
proof -
  have "unat (tm_next_txn_id (TransactionManager_init lm w)) + length ops < 2 ^ 64" using assms(3) by (simp add: tm_init_ok(3))
  note A = tm_steps_ok [OF tm_init_ok(1,2) this, of hf, folded assms(1)]
  have "unat (tm_next_txn_id tm0) + length later < 2 ^ 64" using A assms(3) by (simp add: tm_init_ok(3))
  note B = tm_steps_ok [OF _ _ this, of hf, folded assms(2)]
  have S: "\<not> is_active (create_snapshot tm0) x \<and> is_committed (tm_registry tm1) x \<longleftrightarrow> is_committed (tm_registry tm0) x" for x
    using snapshot_committed A B by blast
  show ?thesis unfolding is_visible_def Let_def S [symmetric] by auto
qed

text \<open>A writer that commits after the snapshot stays invisible to it, and its own version is visible.\<close>

lemma example_txns:
  assumes "tm = fold (tm_step hf) [Op_begin RepeatableRead, Op_begin RepeatableRead] (TransactionManager_init None None)"
  shows "tm_registry tm = [(1, Active), (2, Active)]"
    "is_committed (tm_registry (fst (txn_commit hf (Some 2) tm))) 2"
  unfolding assms
  by (simp_all add: TransactionManager_init_def INITIAL_TRANSACTION_ID_def txn_begin_def txn_commit_def Let_def set_txn_def
      register_transaction_def Transaction_init_def log_append_def finish_txn_def update_state_def release_locks_def clear_locks_def
      clear_undo_records_def txn_of_def is_committed_def get_state_def)

theorem snapshot_isolation_witness:
  "\<exists>(tm0 :: txn_manager) (tm1 :: txn_manager). is_committed (tm_registry tm1) 2 \<and>
     (\<forall>r. \<not> is_visible (tm_registry tm1) \<lparr>mvcc_xmin = 2, mvcc_xmax = 0, mvcc_prev_version = r\<rparr> (create_snapshot tm0) 1) \<and>
     (\<forall>r. is_visible (tm_registry tm1) \<lparr>mvcc_xmin = 1, mvcc_xmax = 0, mvcc_prev_version = r\<rparr> (create_snapshot tm0) 1)"
proof -
  let ?hf = "\<lambda>_. 0" and ?ops = "[Op_begin RepeatableRead, Op_begin RepeatableRead]" and ?later = "[Op_commit (Some 2)]"
  define tm0 where "tm0 = fold (tm_step ?hf) ?ops (TransactionManager_init None None)"
  define tm1 where "tm1 = fold (tm_step ?hf) ?later tm0"
  note E = example_txns [OF tm0_def]
  note V = snapshot_isolation [OF tm0_def tm1_def, where txn = 1]
  have "is_committed (tm_registry tm1) 2" using E by (simp add: tm1_def)
  moreover have "\<not> is_visible (tm_registry tm1) \<lparr>mvcc_xmin = 2, mvcc_xmax = 0, mvcc_prev_version = r\<rparr> (create_snapshot tm0) 1" for r
    by (subst V) (simp_all add: E(1) is_committed_def get_state_def)
  moreover have "is_visible (tm_registry tm1) \<lparr>mvcc_xmin = 1, mvcc_xmax = 0, mvcc_prev_version = r\<rparr> (create_snapshot tm0) 1" for r
    by (subst V) (simp_all add: INVALID_TRANSACTION_ID_def)
  ultimately show ?thesis by blast
qed



end
