(* ===== verification/Recovery.thy ===== *)
theory Recovery
  imports Page_Cache Transactions
begin

text \<open>
  \<open>log_reader.hpp/.cpp\<close>, \<open>checkpoint_manager.hpp/.cpp\<close>, \<open>dirty_page_table.hpp\<close>,
  \<open>transaction_table.hpp\<close> and \<open>recovery_manager.hpp/.cpp\<close>: reading the log back, checkpoints and the
  three recovery phases. Loops that read until the log ends are \<open>partial_function\<close>s, so a loop that
  did not end would be \<open>None\<close>. The listing of a directory, which the standard library gives in no
  particular order, is a parameter: the names of the regular files, or \<open>None\<close> if there is no directory.
\<close>

section \<open>The log reader\<close>

record log_reader =
  rd_directory :: path
  rd_segment_ids :: "u64 list"
  rd_segment :: "wal_segment option"
  rd_index :: nat
  rd_offset :: u64

definition LogReader_init :: "path \<Rightarrow> log_reader" where
  "LogReader_init dir = \<lparr>rd_directory = dir, rd_segment_ids = [], rd_segment = None, rd_index = 0, rd_offset = 0\<rparr>"

text \<open>\<open>path::stem\<close> and \<open>path::extension\<close> of a file name.\<close>

definition split_extension :: "string \<Rightarrow> string \<times> string" where
  "split_extension n =
     (let ext = takeWhile (\<lambda>c. c \<noteq> CHR ''.'') (rev n) in
      case drop (length ext) (rev n) of
        [] \<Rightarrow> (n, [])
      | _ # stem \<Rightarrow> if stem = [] \<or> n = ''..'' then (n, []) else (rev stem, CHR ''.'' # rev ext))"

definition segment_id_of :: "string \<Rightarrow> u64 option" where
  "segment_id_of n = (case split_extension n of (stem, ext) \<Rightarrow> if ext = ''.wal'' then stoull stem else None)"

definition reader_initialize :: "string list option \<Rightarrow> log_reader \<Rightarrow> log_reader \<times> bool" where
  "reader_initialize entries rd =
     (case entries of
        None \<Rightarrow> (rd\<lparr>rd_segment_ids := []\<rparr>, False)
      | Some ns \<Rightarrow> let ids = sort (List.map_filter segment_id_of ns) in (rd\<lparr>rd_segment_ids := ids\<rparr>, ids \<noteq> []))"

text \<open>The segment that was open before is closed by its destructor; it is open for reading only.\<close>

definition open_segment :: "nat \<Rightarrow> os \<Rightarrow> log_reader \<Rightarrow> os \<times> log_reader \<times> bool" where
  "open_segment index s rd =
     (if index \<ge> length (rd_segment_ids rd) then (s, rd, False)
      else case segment_open_read s (WALSegment_init (rd_directory rd) (rd_segment_ids rd ! index)) of
             (s, sg, True) \<Rightarrow> (s, rd\<lparr>rd_segment := Some sg, rd_index := index, rd_offset := of_nat WAL_HEADER_SIZE\<rparr>, True)
           | (s, sg, False) \<Rightarrow> (s, rd\<lparr>rd_segment := None\<rparr>, False))"

definition seek_to_first :: "os \<Rightarrow> log_reader \<Rightarrow> os \<times> log_reader \<times> bool" where
  "seek_to_first s rd = (if rd_segment_ids rd = [] then (s, rd, False) else open_segment 0 s rd)"

text \<open>The body of the loop of \<open>read_next\<close> when at least a header is left.\<close>

definition read_record :: "u64 \<Rightarrow> wal_segment \<Rightarrow> os \<Rightarrow> log_reader \<Rightarrow> os \<times> log_reader \<times> log_record option" where
  "read_record remaining sg s rd =
     (case segment_read (unat (rd_offset rd)) LogRecord_HEADER_SIZE s sg of
        (s, sg, None) \<Rightarrow> (s, rd\<lparr>rd_segment := Some sg\<rparr>, None)
      | (s, sg, Some header_buf) \<Rightarrow>
          let payload_size = (le_word (bslice 33 4 header_buf) :: u32) in
          if remaining < of_nat LogRecord_HEADER_SIZE + ucast payload_size then (s, rd\<lparr>rd_segment := Some sg\<rparr>, None)
          else
            let full_size = of_nat LogRecord_HEADER_SIZE + payload_size in
            case segment_read (unat (rd_offset rd)) (unat full_size) s sg of
              (s, sg, None) \<Rightarrow> (s, rd\<lparr>rd_segment := Some sg\<rparr>, None)
            | (s, sg, Some full_buf) \<Rightarrow>
                let (record, parsed) = log_deserialize full_buf LogRecord_default in
                if parsed = 0 \<or> \<not> log_verify_checksum record then (s, rd\<lparr>rd_segment := Some sg\<rparr>, None)
                else (s, rd\<lparr>rd_segment := Some sg, rd_offset := rd_offset rd + ucast full_size\<rparr>, Some record))"

function read_next :: "os \<Rightarrow> log_reader \<Rightarrow> os \<times> log_reader \<times> log_record option" where
  "read_next s rd =
     (case rd_segment rd of
        None \<Rightarrow> (s, rd, None)
      | Some sg \<Rightarrow>
          let remaining = (of_nat (sg_size sg) - rd_offset rd :: u64) in
          if remaining < of_nat LogRecord_HEADER_SIZE
          then case open_segment (rd_index rd + 1) s rd of
                 (s', rd', True) \<Rightarrow> read_next s' rd'
               | (s', rd', False) \<Rightarrow> (s', rd', None)
          else read_record remaining sg s rd)"
  by pat_completeness auto
termination
proof (relation "measure (\<lambda>(s, rd). length (rd_segment_ids rd) - rd_index rd)")
qed (auto simp: open_segment_def split: if_splits prod.splits bool.splits)

declare read_next.simps [simp del]

partial_function (option) seek_loop :: "lsn \<Rightarrow> os \<Rightarrow> log_reader \<Rightarrow> (os \<times> log_reader \<times> bool) option" where
  "seek_loop l s rd =
     (case read_next s rd of
        (s, rd, None) \<Rightarrow> Some (s, rd, False)
      | (s, rd, Some r) \<Rightarrow>
          if lr_lsn r \<ge> l then Some (s, rd\<lparr>rd_offset := rd_offset rd - ucast (get_size r)\<rparr>, True)
          else seek_loop l s rd)"

definition seek_to_lsn :: "lsn \<Rightarrow> os \<Rightarrow> log_reader \<Rightarrow> (os \<times> log_reader \<times> bool) option" where
  "seek_to_lsn l s rd =
     (if rd_segment_ids rd = [] then Some (s, rd, False)
      else case seek_to_first s rd of
             (s, rd, False) \<Rightarrow> Some (s, rd, False)
           | (s, rd, True) \<Rightarrow> seek_loop l s rd)"

section \<open>Checkpoints\<close>

record checkpoint_metadata =
  cm_lsn :: lsn
  cm_timestamp :: u64

definition master_record_path :: "path \<Rightarrow> path" where
  "master_record_path db_dir = db_dir @ ''/master.klyro''"

text \<open>The result does not depend on whether the bytes were written.\<close>

definition write_master_record :: "path \<Rightarrow> checkpoint_metadata \<Rightarrow> os \<Rightarrow> os \<times> bool" where
  "write_master_record p meta s =
     (let (f, s) = take_fault s in
      if f \<noteq> None then (s, False)
      else
        let content = le_bytes 8 (cm_lsn meta) @ le_bytes 8 (cm_timestamp meta);
            (f, s) = take_fault s;
            written = (case f of None \<Rightarrow> content | Some k \<Rightarrow> take k content)
        in (s\<lparr>os_files := (os_files s)(p \<mapsto> written)\<rparr>, True))"

definition read_master_record :: "path \<Rightarrow> os \<Rightarrow> os \<times> checkpoint_metadata option" where
  "read_master_record p s =
     (let (f, s) = take_fault s in
      if f \<noteq> None then (s, None)
      else case os_files s p of
        None \<Rightarrow> (s, None)
      | Some c \<Rightarrow>
          if length c < 16 then (s, None)
          else (s, Some \<lparr>cm_lsn = le_word (bslice 0 8 c), cm_timestamp = le_word (bslice 8 8 c)\<rparr>))"

text \<open>The time stamp is an argument.\<close>

definition perform_checkpoint :: "u64 \<Rightarrow> path \<Rightarrow> wal \<Rightarrow> wal \<times> (exn + bool)" where
  "perform_checkpoint now p w =
     (case wal_append (LogRecord_state 0 LogRecordType_CheckpointBegin LSN_invalid) w of
        (w, _, Inl e) \<Rightarrow> (w, Inl e)
      | (w, _, Inr begin_lsn) \<Rightarrow>
          (case wal_append (LogRecord_physical 0 LogRecordType_CheckpointEnd begin_lsn []) w of
             (w, _, Inl e) \<Rightarrow> (w, Inl e)
           | (w, _, Inr end_lsn) \<Rightarrow>
               (case flush_up_to end_lsn w of
                  (w, Inl e) \<Rightarrow> (w, Inl e)
                | (w, Inr _) \<Rightarrow>
                    (case write_master_record p \<lparr>cm_lsn = begin_lsn, cm_timestamp = now\<rparr> (wl_os w) of
                       (s, b) \<Rightarrow> (w\<lparr>wl_os := s\<rparr>, Inr b)))))"

section \<open>The tables of the analysis\<close>

record txn_entry =
  te_txn_id :: txn_id
  te_state :: txn_state
  te_last_lsn :: lsn
  te_undo_next_lsn :: lsn

type_synonym txn_table = "(txn_id \<times> txn_entry) list"

definition tt_update :: "txn_id \<Rightarrow> txn_state \<Rightarrow> lsn \<Rightarrow> txn_table \<Rightarrow> txn_table" where
  "tt_update i st l t =
     (let e = (case map_of t i of
                 Some e \<Rightarrow> e
               | None \<Rightarrow> \<lparr>te_txn_id = 0, te_state = Active, te_last_lsn = 0, te_undo_next_lsn = 0\<rparr>);
          e = e\<lparr>te_txn_id := i, te_state := st, te_last_lsn := l\<rparr>;
          e = (if \<not> LSN_is_valid (te_undo_next_lsn e) then e\<lparr>te_undo_next_lsn := l\<rparr> else e)
      in AList.update i e t)"

definition tt_remove :: "txn_id \<Rightarrow> txn_table \<Rightarrow> txn_table" where
  "tt_remove i t = AList.delete i t"

definition tt_get :: "txn_id \<Rightarrow> txn_table \<Rightarrow> txn_entry option" where
  "tt_get i t = map_of t i"

definition get_losers :: "txn_table \<Rightarrow> txn_entry list" where
  "get_losers t = filter (\<lambda>e. te_state e \<noteq> Committed) (map snd t)"

type_synonym dirty_page_table = "(page_id \<times> lsn) list"

definition dpt_update :: "page_id \<Rightarrow> lsn \<Rightarrow> dirty_page_table \<Rightarrow> dirty_page_table" where
  "dpt_update i l t = (case map_of t i of None \<Rightarrow> AList.update i l t | Some _ \<Rightarrow> t)"

definition dpt_remove :: "page_id \<Rightarrow> dirty_page_table \<Rightarrow> dirty_page_table" where
  "dpt_remove i t = AList.delete i t"

definition get_redo_start_lsn :: "dirty_page_table \<Rightarrow> lsn" where
  "get_redo_start_lsn t = fold (\<lambda>(_, l) m. if l < m then l else m) t LSN_max"

definition dpt_contains :: "page_id \<Rightarrow> dirty_page_table \<Rightarrow> bool" where
  "dpt_contains i t \<longleftrightarrow> map_of t i \<noteq> None"

definition get_rec_lsn :: "page_id \<Rightarrow> dirty_page_table \<Rightarrow> lsn" where
  "get_rec_lsn i t = (case map_of t i of Some l \<Rightarrow> l | None \<Rightarrow> LSN_invalid)"

section \<open>The recovery manager\<close>

datatype recovery_state = NotRequired | Required | Analysis | Redo | Undo | Complete | Failed_recovery

text \<open>
  The buffer pool flushes the same log manager that recovery appends to, so a pool operation runs on
  the pool with that log manager.
\<close>

record recovery =
  rm_wal :: wal
  rm_pool :: buffer_pool
  rm_wal_dir :: path
  rm_master_path :: path
  rm_state :: recovery_state
  rm_txn_table :: txn_table
  rm_dirty_pages :: dirty_page_table
  rm_redo_start :: lsn

definition RecoveryManager_init :: "wal \<Rightarrow> buffer_pool \<Rightarrow> path \<Rightarrow> path \<Rightarrow> recovery" where
  "RecoveryManager_init w bp wal_dir db_dir = \<lparr>rm_wal = w, rm_pool = bp, rm_wal_dir = wal_dir,
     rm_master_path = master_record_path db_dir, rm_state = NotRequired, rm_txn_table = [], rm_dirty_pages = [],
     rm_redo_start = LSN_invalid\<rparr>"

definition on_pool :: "(buffer_pool \<Rightarrow> buffer_pool \<times> 'a) \<Rightarrow> recovery \<Rightarrow> recovery \<times> 'a" where
  "on_pool g rm =
     (case g ((rm_pool rm)\<lparr>bp_wal := Some (rm_wal rm)\<rparr>) of
        (bp, r) \<Rightarrow> (rm\<lparr>rm_pool := bp, rm_wal := (case bp_wal bp of Some w \<Rightarrow> w | None \<Rightarrow> rm_wal rm)\<rparr>, r))"

definition set_log_os :: "os \<Rightarrow> recovery \<Rightarrow> recovery" where
  "set_log_os s rm = rm\<lparr>rm_wal := (rm_wal rm)\<lparr>wl_os := s\<rparr>\<rparr>"

definition page_of_record :: "log_record \<Rightarrow> page_id" where
  "page_of_record r = ucast (le_word (bslice 0 4 (lr_payload r)) :: u32)"

definition is_change :: "log_record \<Rightarrow> bool" where
  "is_change r \<longleftrightarrow> lr_type r = LogRecordType_Insert \<or> lr_type r = LogRecordType_Update \<or> lr_type r = LogRecordType_Delete \<or>
     lr_type r = LogRecordType_CLR"

definition analyse_record :: "log_record \<Rightarrow> recovery \<Rightarrow> recovery" where
  "analyse_record r rm =
     (if lr_type r = LogRecordType_TxnBegin
      then rm\<lparr>rm_txn_table := tt_update (lr_txn_id r) Active (lr_lsn r) (rm_txn_table rm)\<rparr>
      else if lr_type r = LogRecordType_TxnCommit
      then rm\<lparr>rm_txn_table := tt_update (lr_txn_id r) Committed (lr_lsn r) (rm_txn_table rm)\<rparr>
      else if lr_type r = LogRecordType_TxnAbort
      then rm\<lparr>rm_txn_table := tt_update (lr_txn_id r) Aborted (lr_lsn r) (rm_txn_table rm)\<rparr>
      else if lr_type r = LogRecordType_TxnEnd
      then rm\<lparr>rm_txn_table := tt_remove (lr_txn_id r) (rm_txn_table rm)\<rparr>
      else if is_change r
      then let rm = rm\<lparr>rm_txn_table := tt_update (lr_txn_id r) Active (lr_lsn r) (rm_txn_table rm)\<rparr> in
           if unat (get_payload_size r) \<ge> 4
           then rm\<lparr>rm_dirty_pages := dpt_update (page_of_record r) (lr_lsn r) (rm_dirty_pages rm)\<rparr>
           else rm
      else rm)"

partial_function (option) analysis_loop :: "os \<Rightarrow> log_reader \<Rightarrow> recovery \<Rightarrow> (os \<times> recovery) option" where
  "analysis_loop s rd rm =
     (case read_next s rd of
        (s, rd, None) \<Rightarrow> Some (s, rm)
      | (s, rd, Some r) \<Rightarrow> analysis_loop s rd (analyse_record r rm))"

text \<open>Where the scan starts; a failed search for the checkpoint falls back to the first segment.\<close>

definition seek_or_first :: "lsn option \<Rightarrow> os \<Rightarrow> log_reader \<Rightarrow> (os \<times> log_reader) option" where
  "seek_or_first start s rd =
     (case start of
        None \<Rightarrow> (case seek_to_first s rd of (s, rd, _) \<Rightarrow> Some (s, rd))
      | Some l \<Rightarrow>
          Option.bind (seek_to_lsn l s rd) (\<lambda>(s, rd, found).
            if found then Some (s, rd) else case seek_to_first s rd of (s, rd, _) \<Rightarrow> Some (s, rd)))"

definition phase_analysis :: "(path \<Rightarrow> (path \<Rightarrow> bytes option) \<Rightarrow> string list option) \<Rightarrow> recovery \<Rightarrow> (recovery \<times> bool) option" where
  "phase_analysis ls rm =
     (let (s, checkpoint) = read_master_record (rm_master_path rm) (wl_os (rm_wal rm));
          (rd, found) = reader_initialize (ls (rm_wal_dir rm) (os_files s)) (LogReader_init (rm_wal_dir rm))
      in if \<not> found then Some (set_log_os s rm, True)
         else
           Option.bind (seek_or_first (map_option cm_lsn checkpoint) s rd) (\<lambda>(s, rd).
           Option.bind (analysis_loop s rd rm) (\<lambda>(s, rm).
             let rm = rm\<lparr>rm_redo_start := get_redo_start_lsn (rm_dirty_pages rm)\<rparr>;
                 rm = (case checkpoint of
                         Some meta \<Rightarrow> if \<not> LSN_is_valid (rm_redo_start rm) then rm\<lparr>rm_redo_start := cm_lsn meta\<rparr> else rm
                       | None \<Rightarrow> rm)
             in Some (set_log_os s rm, True))))"

text \<open>Overwriting \<open>length\<close> bytes of the page at \<open>offset\<close> and setting its LSN.\<close>

definition apply_image :: "u16 \<Rightarrow> bytes \<Rightarrow> bytes \<Rightarrow> bytes" where
  "apply_image offset img b = patch (unat offset) img b"

definition stamp_lsn :: "lsn \<Rightarrow> bytes \<Rightarrow> bytes" where
  "stamp_lsn l b = PageHeader_serialize ((PageHeader_deserialize b)\<lparr>ph_lsn := l\<rparr>) b"

definition redo_record :: "log_record \<Rightarrow> recovery \<Rightarrow> recovery \<times> (exn + unit)" where
  "redo_record r rm =
     (if unat (get_payload_size r) < 4 then (rm, Inr ())
      else
        let page = page_of_record r in
        if \<not> dpt_contains page (rm_dirty_pages rm) then (rm, Inr ())
        else if get_rec_lsn page (rm_dirty_pages rm) > lr_lsn r then (rm, Inr ())
        else case on_pool (fetch_page page) rm of
               (rm, Inl e) \<Rightarrow> (rm, Inl e)
             | (rm, Inr (Inl _)) \<Rightarrow> (rm, Inr ())
             | (rm, Inr (Inr f)) \<Rightarrow>
                 let offset = (le_word (bslice 4 2 (lr_payload r)) :: u16);
                     len = unat (le_word (bslice 6 2 (lr_payload r)) :: u16);
                     pool = (if ph_lsn (read_header (handle_get f (rm_pool rm))) \<ge> lr_lsn r then rm_pool rm
                             else if lr_type r = LogRecordType_Update \<and> unat (get_payload_size r) \<ge> 8 \<and>
                                     unat (get_payload_size r) \<ge> 8 + len
                             then handle_mark_dirty f
                                    (handle_modify f (stamp_lsn (lr_lsn r))
                                      (handle_modify f (apply_image offset (bslice 8 len (lr_payload r))) (rm_pool rm)))
                             else rm_pool rm)
                 in (rm\<lparr>rm_pool := handle_unpin f pool\<rparr>, Inr ()))"

partial_function (option) redo_loop :: "os \<Rightarrow> log_reader \<Rightarrow> recovery \<Rightarrow> (recovery \<times> (exn + unit)) option" where
  "redo_loop s rd rm =
     (case read_next s rd of
        (s, rd, None) \<Rightarrow> Some (set_log_os s rm, Inr ())
      | (s, rd, Some r) \<Rightarrow>
          if is_change r
          then (case redo_record r (set_log_os s rm) of
                  (rm, Inl e) \<Rightarrow> Some (rm, Inl e)
                | (rm, Inr _) \<Rightarrow> redo_loop (wl_os (rm_wal rm)) rd rm)
          else redo_loop s rd rm)"

definition phase_redo :: "(path \<Rightarrow> (path \<Rightarrow> bytes option) \<Rightarrow> string list option) \<Rightarrow> recovery \<Rightarrow> (recovery \<times> (exn + bool)) option" where
  "phase_redo ls rm =
     (if \<not> LSN_is_valid (rm_redo_start rm) then Some (rm, Inr True)
      else
        let s = wl_os (rm_wal rm);
            (rd, found) = reader_initialize (ls (rm_wal_dir rm) (os_files s)) (LogReader_init (rm_wal_dir rm))
        in if \<not> found then Some (rm, Inr False)
           else
             Option.bind (seek_or_first (Some (rm_redo_start rm)) s rd) (\<lambda>(s, rd).
             Option.bind (redo_loop s rd rm) (\<lambda>(rm, r).
               Some (rm, case r of Inl e \<Rightarrow> Inl e | Inr _ \<Rightarrow> Inr True))))"

text \<open>Undoing an update restores the before image and logs a compensation record.\<close>

definition undo_log_record :: "log_record \<Rightarrow> recovery \<Rightarrow> recovery \<times> (exn + unit)" where
  "undo_log_record r rm =
     (if unat (get_payload_size r) < 4 then (rm, Inr ())
      else case on_pool (fetch_page (page_of_record r)) rm of
             (rm, Inl e) \<Rightarrow> (rm, Inl e)
           | (rm, Inr (Inl _)) \<Rightarrow> (rm, Inr ())
           | (rm, Inr (Inr f)) \<Rightarrow>
               let offset = (le_word (bslice 4 2 (lr_payload r)) :: u16);
                   len = unat (le_word (bslice 6 2 (lr_payload r)) :: u16);
                   before = bslice 8 len (lr_payload r)
               in if lr_type r = LogRecordType_Update \<and> unat (get_payload_size r) \<ge> 8 + len * 2
                  then
                    let rm = rm\<lparr>rm_pool := handle_modify f (apply_image offset before) (rm_pool rm)\<rparr>;
                        clr = LogRecord_clr (lr_txn_id r) LogRecordType_CLR LSN_invalid (lr_prev_lsn r)
                                (bslice 0 8 (lr_payload r) @ before)
                    in case wal_append clr (rm_wal rm) of
                         (w, _, Inl e) \<Rightarrow> (rm\<lparr>rm_wal := w, rm_pool := handle_unpin f (rm_pool rm)\<rparr>, Inl e)
                       | (w, _, Inr l) \<Rightarrow>
                           (rm\<lparr>rm_wal := w,
                               rm_pool := handle_unpin f (handle_mark_dirty f (handle_modify f (stamp_lsn l) (rm_pool rm)))\<rparr>,
                            Inr ())
                  else (rm\<lparr>rm_pool := handle_unpin f (rm_pool rm)\<rparr>, Inr ()))"

text \<open>The priority queue: its largest element, and the queue without one occurrence of it.\<close>

definition pq_top :: "u64 list \<Rightarrow> u64" where
  "pq_top q = fold max q 0"

partial_function (option) undo_loop :: "u64 list \<Rightarrow> log_reader \<Rightarrow> recovery \<Rightarrow> (recovery \<times> (exn + unit)) option" where
  "undo_loop q rd rm =
     (if q = [] then Some (rm, Inr ())
      else
        let target = pq_top q; q = remove1 target q in
        Option.bind (seek_to_lsn target (wl_os (rm_wal rm)) rd) (\<lambda>(s, rd, found).
          let rm = set_log_os s rm in
          if \<not> found then undo_loop q rd rm
          else
            case read_next s rd of
              (s, rd, None) \<Rightarrow> undo_loop q rd (set_log_os s rm)
            | (s, rd, Some r) \<Rightarrow>
                let rm = set_log_os s rm in
                if lr_lsn r \<noteq> target then undo_loop q rd rm
                else if lr_type r = LogRecordType_Update
                then (case undo_log_record r rm of
                        (rm, Inl e) \<Rightarrow> Some (rm, Inl e)
                      | (rm, Inr _) \<Rightarrow> undo_loop (if LSN_is_valid (lr_prev_lsn r) then lr_prev_lsn r # q else q) rd rm)
                else undo_loop q rd rm))"

fun end_losers :: "txn_entry list \<Rightarrow> wal \<Rightarrow> wal \<times> (exn + unit)" where
  "end_losers [] w = wal_flush w"
| "end_losers (e # es) w =
     (case wal_append (LogRecord_state (te_txn_id e) LogRecordType_TxnEnd LSN_invalid) w of
        (w, _, Inl x) \<Rightarrow> (w, Inl x)
      | (w, _, Inr _) \<Rightarrow> end_losers es w)"

definition phase_undo :: "(path \<Rightarrow> (path \<Rightarrow> bytes option) \<Rightarrow> string list option) \<Rightarrow> recovery \<Rightarrow> (recovery \<times> (exn + bool)) option" where
  "phase_undo ls rm =
     (let losers = get_losers (rm_txn_table rm) in
      if losers = [] then Some (rm, Inr True)
      else
        let q = filter LSN_is_valid (map te_undo_next_lsn losers);
            (rd, found) = reader_initialize (ls (rm_wal_dir rm) (os_files (wl_os (rm_wal rm)))) (LogReader_init (rm_wal_dir rm))
        in if \<not> found then Some (rm, Inr False)
           else Option.bind (undo_loop q rd rm) (\<lambda>(rm, r).
             case r of
               Inl e \<Rightarrow> Some (rm, Inl e)
             | Inr _ \<Rightarrow>
                 (case end_losers losers (rm_wal rm) of
                    (w, Inl e) \<Rightarrow> Some (rm\<lparr>rm_wal := w\<rparr>, Inl e)
                  | (w, Inr _) \<Rightarrow> Some (rm\<lparr>rm_wal := w\<rparr>, Inr True))))"

text \<open>A phase that returns false ends recovery as failed; an exception leaves the phase recorded.\<close>

definition recover :: "(path \<Rightarrow> (path \<Rightarrow> bytes option) \<Rightarrow> string list option) \<Rightarrow> recovery \<Rightarrow> (recovery \<times> (exn + bool)) option" where
  "recover ls rm =
     Option.bind (phase_analysis ls (rm\<lparr>rm_state := Analysis\<rparr>)) (\<lambda>(rm, ok).
       if \<not> ok then Some (rm\<lparr>rm_state := Failed_recovery\<rparr>, Inr False)
       else Option.bind (phase_redo ls (rm\<lparr>rm_state := Redo\<rparr>)) (\<lambda>(rm, r).
         case r of
           Inl e \<Rightarrow> Some (rm, Inl e)
         | Inr False \<Rightarrow> Some (rm\<lparr>rm_state := Failed_recovery\<rparr>, Inr False)
         | Inr True \<Rightarrow>
             Option.bind (phase_undo ls (rm\<lparr>rm_state := Undo\<rparr>)) (\<lambda>(rm, r).
               case r of
                 Inl e \<Rightarrow> Some (rm, Inl e)
               | Inr False \<Rightarrow> Some (rm\<lparr>rm_state := Failed_recovery\<rparr>, Inr False)
               | Inr True \<Rightarrow> Some (rm\<lparr>rm_state := Complete\<rparr>, Inr True))))"

section \<open>No segment can be opened for reading\<close>

lemma segment_open_read_fails:
  "\<exists>s' sg'. segment_open_read s sg = (s', sg', False) \<and> (\<not> sg_open sg \<longrightarrow> os_files s' = os_files s)"
  by (auto simp: segment_open_read_def segment_close_def Let_def WAL_HEADER_SIZE_def take_fault_def split: option.splits list.splits prod.splits)

lemma open_segment_fails:
  assumes "rd_segment rd = None"
  shows "\<exists>s' rd'. open_segment i s rd = (s', rd', False) \<and> rd' = rd \<and> os_files s' = os_files s"
proof -
  obtain s' sg' where "segment_open_read s (WALSegment_init (rd_directory rd) (rd_segment_ids rd ! i)) = (s', sg', False)"
    "os_files s' = os_files s"
    using segment_open_read_fails [of s "WALSegment_init (rd_directory rd) (rd_segment_ids rd ! i)"] by (auto simp: WALSegment_init_def)
  then show ?thesis using assms by (auto simp: open_segment_def)
qed

lemma seek_to_first_fails:
  assumes "rd_segment rd = None"
  shows "\<exists>s'. seek_to_first s rd = (s', rd, False) \<and> os_files s' = os_files s"
  using open_segment_fails [OF assms, of 0 s] by (auto simp: seek_to_first_def)

lemma seek_to_lsn_fails:
  assumes "rd_segment rd = None"
  shows "\<exists>s'. seek_to_lsn l s rd = Some (s', rd, False) \<and> os_files s' = os_files s"
  using seek_to_first_fails [OF assms, of s] by (auto simp: seek_to_lsn_def)

lemma seek_or_first_fails:
  assumes "rd_segment rd = None"
  shows "\<exists>s'. seek_or_first start s rd = Some (s', rd) \<and> os_files s' = os_files s"
proof (cases start)
  case None
  then show ?thesis using seek_to_first_fails [OF assms, of s] by (auto simp: seek_or_first_def)
next
  case (Some l)
  obtain s1 where "seek_to_lsn l s rd = Some (s1, rd, False)" "os_files s1 = os_files s"
    using seek_to_lsn_fails [OF assms] by blast
  then show ?thesis using Some seek_to_first_fails [OF assms, of s1] by (auto simp: seek_or_first_def)
qed

lemma read_next_closed: "rd_segment rd = None \<Longrightarrow> read_next s rd = (s, rd, None)"
  by (simp add: read_next.simps)

lemma reader_initialize_segment: "reader_initialize es (LogReader_init dir) = (rd, ok) \<Longrightarrow> rd_segment rd = None"
  by (auto simp: reader_initialize_def LogReader_init_def Let_def split: option.splits)

lemma read_master_record_files: "read_master_record p s = (s', c) \<Longrightarrow> os_files s' = os_files s"
  by (auto simp: read_master_record_def take_fault_def Let_def split: option.splits list.splits if_splits)

definition log_read_only :: "recovery \<Rightarrow> recovery \<Rightarrow> bool" where
  "log_read_only rm rm' \<longleftrightarrow> rm_pool rm' = rm_pool rm \<and> rm_txn_table rm' = rm_txn_table rm \<and> rm_wal_dir rm' = rm_wal_dir rm \<and>
     (\<exists>s. rm_wal rm' = (rm_wal rm)\<lparr>wl_os := s\<rparr> \<and> os_files s = os_files (wl_os (rm_wal rm)))"

lemma phase_analysis_reads_nothing:
  "\<exists>rm'. phase_analysis ls rm = Some (rm', True) \<and> log_read_only rm rm' \<and>
     (snd (reader_initialize (ls (rm_wal_dir rm) (os_files (wl_os (rm_wal rm)))) (LogReader_init (rm_wal_dir rm))) \<or> rm_redo_start rm' = rm_redo_start rm)"
proof -
  obtain s c where m: "read_master_record (rm_master_path rm) (wl_os (rm_wal rm)) = (s, c)" by fastforce
  obtain rd ok where i: "reader_initialize (ls (rm_wal_dir rm) (os_files s)) (LogReader_init (rm_wal_dir rm)) = (rd, ok)" by fastforce
  note fs = read_master_record_files [OF m] and none = reader_initialize_segment [OF i]
  obtain s' where k: "seek_or_first (map_option cm_lsn c) s rd = Some (s', rd)" "os_files s' = os_files s"
    using seek_or_first_fails [OF none] by blast
  have a: "analysis_loop s' rd rm = Some (s', rm)" by (subst analysis_loop.simps) (simp add: read_next_closed none)
  show ?thesis
    using m i k a fs by (auto simp: phase_analysis_def log_read_only_def set_log_os_def Let_def split: option.splits)
qed

lemma phase_redo_reads_nothing:
  assumes "LSN_is_valid (rm_redo_start rm) \<Longrightarrow>
    snd (reader_initialize (ls (rm_wal_dir rm) (os_files (wl_os (rm_wal rm)))) (LogReader_init (rm_wal_dir rm)))"
  shows "\<exists>rm'. phase_redo ls rm = Some (rm', Inr True) \<and> log_read_only rm rm'"
proof (cases "LSN_is_valid (rm_redo_start rm)")
  case True
  let ?s = "wl_os (rm_wal rm)"
  obtain rd where i: "reader_initialize (ls (rm_wal_dir rm) (os_files ?s)) (LogReader_init (rm_wal_dir rm)) = (rd, True)"
    using assms [OF True] by (metis prod.collapse)
  note none = reader_initialize_segment [OF i]
  obtain s' where k: "seek_or_first (Some (rm_redo_start rm)) ?s rd = Some (s', rd)" "os_files s' = os_files ?s"
    using seek_or_first_fails [OF none] by blast
  have a: "redo_loop s' rd rm = Some (set_log_os s' rm, Inr ())" by (subst redo_loop.simps) (simp add: read_next_closed none)
  show ?thesis using True i k a by (auto simp: phase_redo_def log_read_only_def set_log_os_def Let_def)
next
  case False
  then show ?thesis by (auto simp: phase_redo_def log_read_only_def intro: exI [of _ "wl_os (rm_wal rm)"])
qed

section \<open>Redoing an update\<close>

text \<open>Changing one field of the decoded header changes only its bytes.\<close>

lemma stamp_lsn_patch:
  assumes "36 \<le> length b"
  shows "stamp_lsn l b = patch 12 (le_bytes 8 l) b"
proof -
  have H: "header_image (PageHeader_deserialize b) = bslice 0 36 b" using assms by (rule header_image_deserialize)
  have "header_image ((PageHeader_deserialize b)\<lparr>ph_lsn := l\<rparr>) = patch 12 (le_bytes 8 l) (header_image (PageHeader_deserialize b))"
    by (simp add: header_image_def patch_def)
  moreover have "drop 20 (take 36 b) @ drop 36 b = drop 20 b"
    using assms drop_append [of 20 "take 36 b" "drop 36 b"] by simp
  ultimately show ?thesis
    using assms unfolding stamp_lsn_def H PageHeader_serialize_patch [OF assms]
    by (auto simp: patch_def bslice_def min_def)
qed

lemma page_lsn_slice: "36 \<le> length b \<Longrightarrow> ph_lsn (PageHeader_deserialize b) = le_word (bslice 12 8 b)"
  by (simp add: PageHeader_deserialize_def le_slice)

lemma patch_commute:
  assumes "o1 + length xs \<le> o2" "o2 + length ys \<le> length b"
  shows "patch o1 xs (patch o2 ys b) = patch o2 ys (patch o1 xs b)"
  using assms by (intro nth_equalityI) (auto simp: nth_patch)

text \<open>\<open>redone\<close>: the page after redo. It depends on the page modulo its checksum only.\<close>

definition redone :: "lsn \<Rightarrow> u16 \<Rightarrow> bytes \<Rightarrow> bytes \<Rightarrow> bytes" where
  "redone l offset img b = stamp_lsn l (apply_image offset img b)"

lemma redone_body:
  assumes "36 \<le> unat offset" "unat offset + length img \<le> length b"
  shows "page_body (redone l offset img b) = patch 12 (le_bytes 8 l) (patch (unat offset) img (page_body b))"
    "length (redone l offset img b) = length b" "ph_lsn (PageHeader_deserialize (redone l offset img b)) = l"
proof -
  have len: "36 \<le> length b" using assms by simp
  then have eq: "redone l offset img b = patch 12 (le_bytes 8 l) (patch (unat offset) img b)"
    using assms by (simp add: redone_def apply_image_def stamp_lsn_patch)
  show "page_body (redone l offset img b) = patch 12 (le_bytes 8 l) (patch (unat offset) img (page_body b))"
    unfolding eq page_body_def using assms len
    by (subst patch_commute [of 12 _ 32, symmetric]) (simp_all add: patch_commute [of 32 _ "unat offset"])
  show "length (redone l offset img b) = length b" using assms len by (simp add: eq)
  show "ph_lsn (PageHeader_deserialize (redone l offset img b)) = l"
    using assms len by (simp add: page_lsn_slice eq slice_patch_same')
qed

lemma page_lsn_body:
  assumes "page_body b = page_body b'" "36 \<le> length b" "36 \<le> length b'"
  shows "ph_lsn (PageHeader_deserialize b) = ph_lsn (PageHeader_deserialize b')"
proof -
  have "bslice 12 8 (page_body b) = bslice 12 8 b" "bslice 12 8 (page_body b') = bslice 12 8 b'"
    using assms(2,3) by (simp_all add: page_body_def slice_patch_disjoint)
  then show ?thesis using assms(1) page_lsn_slice [OF assms(2)] page_lsn_slice [OF assms(3)] by metis
qed

lemma length_page_body [simp]: "36 \<le> length b \<Longrightarrow> length (page_body b) = length b"
  by (simp add: page_body_def)

lemma handle_modify_comp:
  assumes "unat f < length (bp_frames bp)"
  shows "handle_modify f h (handle_modify f g bp) = handle_modify f (h \<circ> g) bp"
    "handle_mark_dirty f (handle_modify f g bp) = handle_modify f g bp"
  using assms by (cases "frame_of bp f"; simp add: handle_modify_def handle_mark_dirty_def set_frame_def Let_def)+

lemma handle_modify_cong:
  "g (pg_data (handle_get f bp)) = h (pg_data (handle_get f bp)) \<Longrightarrow> unat f < length (bp_frames bp) \<Longrightarrow> handle_modify f g bp = handle_modify f h bp"
  by (simp add: handle_modify_def handle_mark_dirty_def handle_get_def set_frame_def Let_def)

lemma pool_wal [simp]:
  "bp_ok (bp\<lparr>bp_wal := w\<rparr>) = bp_ok bp" "pool_view (bp\<lparr>bp_wal := w\<rparr>) = pool_view bp"
  "pool_pins (bp\<lparr>bp_wal := w\<rparr>) = pool_pins bp" "mapped (bp\<lparr>bp_wal := w\<rparr>) = mapped bp" "handle_get f (bp\<lparr>bp_wal := w\<rparr>) = handle_get f bp"
  by (simp_all add: bp_ok_def core_ok_def index_ok_def pool_view_def pool_pins_def mapped_def handle_get_def fun_eq_iff split: option.splits)

lemma mapped_frame:
  assumes "bp_ok bp" "mapped bp i f"
  shows "unat f < length (bp_frames bp)" "length (pg_data (handle_get f bp)) = dk_page_size (bp_disk bp)" "36 \<le> dk_page_size (bp_disk bp)"
proof -
  have c: "core_ok bp" "index_ok bp" using assms(1) by (simp_all add: bp_ok_def)
  have i: "unat f < bp_pool_size bp" "fr_valid (frame_of bp f)" using index_okD(3) [OF c(2), of i f] assms(2) by (simp_all add: mapped_def)
  then show "unat f < length (bp_frames bp)" using core_okD(1) [OF c(1)] by simp
  show "length (pg_data (handle_get f bp)) = dk_page_size (bp_disk bp)"
    using core_okD(6) [OF c(1) i] by (simp add: handle_get_def frame_ok_def)
  show "36 \<le> dk_page_size (bp_disk bp)" using core_okD(5) [OF c(1)] by (simp add: disk_ok_def)
qed


text \<open>The payload that \<open>redo_record\<close> expects of an update.\<close>

definition update_payload :: "u32 \<Rightarrow> u16 \<Rightarrow> bytes \<Rightarrow> bytes" where
  "update_payload page offset img = le_bytes 4 page @ le_bytes 2 offset @ le_bytes 2 (of_nat (length img) :: u16) @ img"

lemma update_payload_fields:
  assumes "length img < 2 ^ 16" "lr_payload r = update_payload page offset img @ rest" "log_fits r"
  shows "page_of_record r = ucast page" "le_word (bslice 4 2 (lr_payload r)) = offset"
    "unat (le_word (bslice 6 2 (lr_payload r)) :: u16) = length img" "bslice 8 (length img) (lr_payload r) = img"
    "8 + length img \<le> unat (get_payload_size r)"
proof -
  have "unat (of_nat (length img) :: u16) = length img" using assms(1) by (intro unat_of_nat_fits) simp
  then show "page_of_record r = ucast page" "le_word (bslice 4 2 (lr_payload r)) = offset"
    "unat (le_word (bslice 6 2 (lr_payload r)) :: u16) = length img" "bslice 8 (length img) (lr_payload r) = img"
    unfolding page_of_record_def assms(2) by (simp_all add: update_payload_def bslice_def)
  show "8 + length img \<le> unat (get_payload_size r)"
    using log_fits_size(1) [OF assms(3)] by (simp add: assms(2) update_payload_def)
qed

lemma redo_record_fetched:
  assumes i: "i = page_of_record r" and big: "4 \<le> unat (get_payload_size r)"
    and dpt: "map_of (rm_dirty_pages rm) i = Some rec" "rec \<le> lr_lsn r"
    and f: "fetch_page i ((rm_pool rm)\<lparr>bp_wal := Some (rm_wal rm)\<rparr>) = (bp1, Inr (Inr f))"
  shows "\<exists>w. redo_record r rm = (rm\<lparr>rm_pool := handle_unpin f
      (if ph_lsn (read_header (handle_get f bp1)) \<ge> lr_lsn r then bp1
       else if lr_type r = LogRecordType_Update \<and> unat (get_payload_size r) \<ge> 8 \<and>
         unat (get_payload_size r) \<ge> 8 + unat (le_word (bslice 6 2 (lr_payload r)) :: u16)
       then handle_mark_dirty f (handle_modify f (stamp_lsn (lr_lsn r))
         (handle_modify f (apply_image (le_word (bslice 4 2 (lr_payload r)))
           (bslice 8 (unat (le_word (bslice 6 2 (lr_payload r)) :: u16)) (lr_payload r))) bp1))
       else bp1), rm_wal := w\<rparr>, Inr ())"
  using assms
  by (intro exI [of _ "case bp_wal bp1 of Some w \<Rightarrow> w | None \<Rightarrow> rm_wal rm"])
    (simp add: redo_record_def Let_def on_pool_def dpt_contains_def get_rec_lsn_def)


lemma redo_update_ok:
  assumes ok: "bp_ok (rm_pool rm)" "\<forall>f. pool_pins (rm_pool rm) f = 0" "healthy ((rm_pool rm)\<lparr>bp_wal := Some (rm_wal rm)\<rparr>)"
    and page: "i = ucast page" "readable (bp_disk (rm_pool rm)) i" "pool_view (rm_pool rm) i = Some b"
      "bp_free_list (rm_pool rm) \<noteq> [] \<or> candidates (bp_replacer (rm_pool rm)) \<noteq> {}"
    and r: "lr_type r = LogRecordType_Update" "lr_payload r = update_payload page offset img @ rest" "log_fits r" "length img < 2 ^ 16"
      "36 \<le> unat offset" "unat offset + length img \<le> length b"
    and lsn: "map_of (rm_dirty_pages rm) i = Some rec" "rec \<le> lr_lsn r" "ph_lsn (PageHeader_deserialize b) < lr_lsn r"
  shows "\<exists>rm' b' f. redo_record r rm = (rm', Inr ()) \<and> bp_ok (rm_pool rm') \<and> rm_dirty_pages rm' = rm_dirty_pages rm \<and>
    pool_view (rm_pool rm') i = Some b' \<and> page_body b' = page_body (redone (lr_lsn r) offset img b) \<and>
    ph_lsn (PageHeader_deserialize b') = lr_lsn r \<and> mapped (rm_pool rm') i f \<and> (\<forall>f. pool_pins (rm_pool rm') f = 0) \<and>
    (\<forall>j c. j \<noteq> i \<longrightarrow> pool_view (rm_pool rm) j = Some c \<longrightarrow> (\<exists>c'. pool_view (rm_pool rm') j = Some c' \<and> page_body c' = page_body c))"
proof -
  let ?bp = "(rm_pool rm)\<lparr>bp_wal := Some (rm_wal rm)\<rparr>"
  note P = update_payload_fields [OF r(4,2,3)]
  have ok': "bp_ok ?bp" "\<forall>f. pool_pins ?bp f = 0" "pool_view ?bp i = Some b" "pool_view ?bp = pool_view (rm_pool rm)" using ok page by simp_all
  have "mapped ?bp i 0 \<or> bp_free_list ?bp \<noteq> [] \<or> candidates (bp_replacer ?bp) \<noteq> {}" "readable (bp_disk ?bp) i" using page by auto
  then obtain bp1 f where f: "fetch_page i ?bp = (bp1, Inr (Inr f))" using fetch_page_live [OF ok'(1) ok(3)] by blast
  note F = fetch_page_ok [OF ok'(1) f]
  have ok1: "bp_ok bp1" and m: "mapped bp1 i f" and sv: "same_view ?bp bp1" using F by blast+
  define d where "d = pg_data (handle_get f bp1)"
  have v1: "pool_view bp1 i = Some d" using F(3) by (simp add: d_def)
  then have body: "page_body d = page_body b" using sv ok'(3) unfolding same_view_def by force
  note M = mapped_frame [OF ok1 m]
  have len36: "36 \<le> length d" "36 \<le> length b" using M r(5,6) by (simp_all add: d_def)
  then have len: "length d = length b" using body length_page_body by metis
  have pg: "page_ok (handle_get f bp1)" using len36(1) by (simp add: page_ok_def d_def)
  have l: "ph_lsn (read_header (handle_get f bp1)) < lr_lsn r"
    using page_lsn_body [OF body len36] lsn(3) read_header_data [OF pg] by (simp add: d_def)
  define g where "g x = (if length x = length b then redone (lr_lsn r) offset img x else x)" for x
  have gl: "length (g x) = length x" for x using redone_body(2) [OF r(5), of img x] r(6) by (simp add: g_def)
  have mod: "handle_mark_dirty f (handle_modify f (stamp_lsn (lr_lsn r)) (handle_modify f (apply_image offset img) bp1)) = handle_modify f g bp1"
    unfolding handle_modify_comp(1) [OF M(1)] handle_modify_comp(2) [OF M(1)]
    by (rule handle_modify_cong [OF _ M(1)]) (use len in \<open>simp add: g_def redone_def d_def\<close>)
  let ?bp2 = "handle_modify f g bp1" and ?bp3 = "handle_unpin f (handle_modify f g bp1)"
  note G = handle_modify_ok [OF ok1 m gl]
  have m2: "mapped ?bp2 i f" and p2: "pool_pins ?bp2 f \<noteq> 0" using G m F(2) ok'(2) by simp_all
  note U = handle_unpin_ok [OF G(1) m2 p2]
  obtain w where red: "redo_record r rm = (rm\<lparr>rm_pool := ?bp3, rm_wal := w\<rparr>, Inr ())"
    using redo_record_fetched [OF _ _ lsn(1,2) f] P r(1) l page(1) mod by fastforce
  have gd: "g d = redone (lr_lsn r) offset img d" using len by (simp add: g_def)
  have off: "unat offset + length img \<le> length d" using len r(6) by simp
  have v3: "pool_view ?bp3 i = Some (g d)" using U(2) G(2) v1 by simp
  have b3: "page_body (g d) = page_body (redone (lr_lsn r) offset img b)" "ph_lsn (PageHeader_deserialize (g d)) = lr_lsn r"
    unfolding gd redone_body(1) [OF r(5) off] redone_body(1) [OF r(5,6)] using body redone_body(3) [OF r(5) off] by simp_all
  have oth: "\<exists>c'. pool_view ?bp3 j = Some c' \<and> page_body c' = page_body c" if "j \<noteq> i" "pool_view (rm_pool rm) j = Some c" for j c
    using that U(2) G(2) sv ok'(4) unfolding same_view_def by auto
  have pins: "\<forall>h. pool_pins ?bp3 h = 0" using U(3) G(3) F(2) ok'(2) by simp
  show ?thesis
    using red U(1) v3 b3 m2 U(4) pins oth
    by (intro exI [of _ "rm\<lparr>rm_pool := ?bp3, rm_wal := w\<rparr>"] exI [of _ "g d"] exI [of _ f]) simp
qed

lemma redo_again:
  assumes ok: "bp_ok (rm_pool rm)" "\<forall>f. pool_pins (rm_pool rm) f = 0" "mapped (rm_pool rm) i f"
    and r: "i = page_of_record r" "4 \<le> unat (get_payload_size r)" "map_of (rm_dirty_pages rm) i = Some rec" "rec \<le> lr_lsn r"
    and b: "pool_view (rm_pool rm) i = Some b" "ph_lsn (PageHeader_deserialize b) \<ge> lr_lsn r"
  shows "\<exists>rm'. redo_record r rm = (rm', Inr ()) \<and> pool_view (rm_pool rm') = pool_view (rm_pool rm)"
proof -
  let ?bp = "(rm_pool rm)\<lparr>bp_wal := Some (rm_wal rm)\<rparr>"
  have ok': "bp_ok ?bp" "\<forall>f. pool_pins ?bp f = 0" "mapped ?bp i f" using ok by simp_all
  have "distinct (map fst (bp_page_table (rm_pool rm)))" using ok(1) by (simp add: bp_ok_def index_ok_def)
  then have tab: "map_of (bp_page_table ?bp) i = Some f" using ok(3) by (simp add: mapped_def)
  obtain bp1 where f: "fetch_page i ?bp = (bp1, Inr (Inr f))" using tab by (simp add: fetch_page_def)
  note F = fetch_page_ok [OF ok'(1) f] and H = fetch_hit [OF ok'(1) tab f]
  have ok1: "bp_ok bp1" and m: "mapped bp1 i f" using F by blast+
  have v: "pool_view bp1 = pool_view (rm_pool rm)" using H(2) by simp
  then have d: "pg_data (handle_get f bp1) = b" using F(3) b(1) by simp
  have pg: "page_ok (handle_get f bp1)" using mapped_frame [OF ok1 m] by (simp add: page_ok_def)
  have "ph_lsn (read_header (handle_get f bp1)) \<ge> lr_lsn r" using b(2) d read_header_data [OF pg] by simp
  then obtain w where red: "redo_record r rm = (rm\<lparr>rm_pool := handle_unpin f bp1, rm_wal := w\<rparr>, Inr ())"
    using redo_record_fetched [OF r(1,2,3,4) f] by auto
  have "pool_view (handle_unpin f bp1) = pool_view bp1" using handle_unpin_ok(2) [OF ok1 m] F(2) ok'(2) by simp
  then show ?thesis using red v by simp
qed


section \<open>Properties\<close>

text \<open>C37. Recovery never reads a record. Whatever the log directory, the master record and the
  failures of the file system are, \<open>recover\<close> returns true and reports completion, and the buffer pool,
  the log buffer and all files are as before: no segment can be opened for reading, because
  \<open>open_read\<close> compares the eight bytes of the last field it read with the size of the whole header.\<close>
theorem recover_reads_nothing:
  "\<exists>rm s. recover ls (RecoveryManager_init w bp wal_dir db_dir) = Some (rm, Inr True) \<and> rm_state rm = Complete \<and>
     rm_pool rm = bp \<and> rm_wal rm = w\<lparr>wl_os := s\<rparr> \<and> os_files s = os_files (wl_os w)"
proof -
  let ?rm = "(RecoveryManager_init w bp wal_dir db_dir)\<lparr>rm_state := Analysis\<rparr>"
  let ?ok = "snd (reader_initialize (ls wal_dir (os_files (wl_os w))) (LogReader_init wal_dir))"
  obtain rm1 where a: "phase_analysis ls ?rm = Some (rm1, True)" "log_read_only ?rm rm1" "?ok \<or> rm_redo_start rm1 = LSN_invalid"
    using phase_analysis_reads_nothing [of ls ?rm] by (auto simp: RecoveryManager_init_def)
  have r1: "rm_wal_dir rm1 = wal_dir" "os_files (wl_os (rm_wal rm1)) = os_files (wl_os w)" "rm_txn_table rm1 = []" "rm_pool rm1 = bp"
    using a(2) by (auto simp: log_read_only_def RecoveryManager_init_def)
  obtain rm2 where b: "phase_redo ls (rm1\<lparr>rm_state := Redo\<rparr>) = Some (rm2, Inr True)" "log_read_only (rm1\<lparr>rm_state := Redo\<rparr>) rm2"
    using phase_redo_reads_nothing [of "rm1\<lparr>rm_state := Redo\<rparr>" ls] a(3) r1 by (auto simp: LSN_is_valid_def LSN_invalid_def)
  have c: "phase_undo ls (rm2\<lparr>rm_state := Undo\<rparr>) = Some (rm2\<lparr>rm_state := Undo\<rparr>, Inr True)"
    using b(2) r1 by (simp add: phase_undo_def log_read_only_def get_losers_def)
  have "recover ls (RecoveryManager_init w bp wal_dir db_dir) = Some (rm2\<lparr>rm_state := Complete\<rparr>, Inr True)"
    using a(1) b(1) c by (simp add: recover_def)
  moreover have "\<exists>s. rm_wal rm2 = w\<lparr>wl_os := s\<rparr> \<and> os_files s = os_files (wl_os w)"
    using a(2) b(2) by (auto simp: log_read_only_def RecoveryManager_init_def)
  ultimately show ?thesis using b(2) r1 by (auto simp: log_read_only_def)
qed


text \<open>Redoing an update record whose page is older than the record overwrites exactly the bytes the record names
  with the bytes that follow the record's eight byte prefix, sets the page LSN to the record's LSN, and
  leaves the other pages alone; redoing the same record again changes nothing. Pages are compared
  without their checksum, and the overwritten bytes lie inside the page, behind its header.\<close>
lemma redo_update_idempotent:
  assumes "bp_ok (rm_pool rm)" "\<forall>f. pool_pins (rm_pool rm) f = 0" "healthy ((rm_pool rm)\<lparr>bp_wal := Some (rm_wal rm)\<rparr>)"
    and "i = ucast page" "readable (bp_disk (rm_pool rm)) i" "pool_view (rm_pool rm) i = Some b"
      "bp_free_list (rm_pool rm) \<noteq> [] \<or> candidates (bp_replacer (rm_pool rm)) \<noteq> {}"
    and "lr_type r = LogRecordType_Update" "lr_payload r = update_payload page offset img @ rest" "log_fits r" "length img < 2 ^ 16"
      "36 \<le> unat offset" "unat offset + length img \<le> length b"
    and "map_of (rm_dirty_pages rm) i = Some rec" "rec \<le> lr_lsn r" "ph_lsn (PageHeader_deserialize b) < lr_lsn r"
  shows "\<exists>rm' b' rm''. redo_record r rm = (rm', Inr ()) \<and> pool_view (rm_pool rm') i = Some b' \<and>
    page_body b' = page_body (patch 12 (le_bytes 8 (lr_lsn r)) (patch (unat offset) img b)) \<and>
    (\<forall>j c. j \<noteq> i \<longrightarrow> pool_view (rm_pool rm) j = Some c \<longrightarrow> (\<exists>c'. pool_view (rm_pool rm') j = Some c' \<and> page_body c' = page_body c)) \<and>
    redo_record r rm' = (rm'', Inr ()) \<and> pool_view (rm_pool rm'') = pool_view (rm_pool rm')"
proof -
  obtain rm' b' f where A: "redo_record r rm = (rm', Inr ())" "bp_ok (rm_pool rm')" "rm_dirty_pages rm' = rm_dirty_pages rm"
    "pool_view (rm_pool rm') i = Some b'" "page_body b' = page_body (redone (lr_lsn r) offset img b)"
    "ph_lsn (PageHeader_deserialize b') = lr_lsn r" "mapped (rm_pool rm') i f" "\<forall>f. pool_pins (rm_pool rm') f = 0"
    "\<forall>j c. j \<noteq> i \<longrightarrow> pool_view (rm_pool rm) j = Some c \<longrightarrow> (\<exists>c'. pool_view (rm_pool rm') j = Some c' \<and> page_body c' = page_body c)"
    using redo_update_ok [OF assms] by blast
  note P = update_payload_fields [OF assms(11,9,10)]
  have "\<exists>rm''. redo_record r rm' = (rm'', Inr ()) \<and> pool_view (rm_pool rm'') = pool_view (rm_pool rm')"
    by (rule redo_again [OF A(2,8,7), of r rec b']) (use A P assms in simp_all)
  moreover have "redone (lr_lsn r) offset img b = patch 12 (le_bytes 8 (lr_lsn r)) (patch (unat offset) img b)"
    using assms(12,13) by (simp add: redone_def apply_image_def stamp_lsn_patch)
  ultimately show ?thesis using A(1,4,5,9) by metis
qed

text \<open>A checkpoint whose two records fit the log buffer is durable and can be found again: it reports success, the log
  files hold all earlier records followed by the begin and the end record, and reading the master
  record gives the LSN of the begin record and the time stamp.\<close>
lemma checkpoint_durable:
  assumes "wal_reach dir w rs" "length rs + 3 < 2 ^ 64" "length (lb_buffer (wl_buffer w)) + 82 \<le> lb_capacity (wl_buffer w)"
  shows "\<exists>w' r1 r2. perform_checkpoint now (master_record_path db_dir) w = (w', Inr True) \<and>
    wal_bytes w' = concat (map log_image (rs @ [r1, r2])) \<and> lr_type r1 = LogRecordType_CheckpointBegin \<and>
    lr_type r2 = LogRecordType_CheckpointEnd \<and> lr_prev_lsn r2 = lr_lsn r1 \<and>
    snd (read_master_record (master_record_path db_dir) (wl_os w')) = Some \<lparr>cm_lsn = lr_lsn r1, cm_timestamp = now\<rparr>"
proof -
  let ?r1 = "LogRecord_state 0 LogRecordType_CheckpointBegin LSN_invalid"
  obtain m where m: "wal_stream w rs m" "unat (wl_flushed_lsn w) \<le> m" using wal_reach_stream [OF assms(1)] by blast
  have f1: "log_fits ?r1" "buffer_room ?r1 w"
    using assms(3) by (simp_all add: LogRecord_state_def LogRecord_default_def log_fits_def buffer_room_def)
  note ap1 = wal_append_fits [OF m(1) f1]
  define w1 where "w1 = fst (wal_append ?r1 w)"
  define l1 where "l1 = wl_next_lsn w"
  have a1: "wal_append ?r1 w = (w1, appended ?r1 w, Inr l1)" using ap1(1) assms(2) by (simp add: w1_def l1_def)
  have s1: "wal_stream w1 (rs @ [appended ?r1 w]) m" "unat (wl_flushed_lsn w1) \<le> m"
    "lb_capacity (wl_buffer w1) = lb_capacity (wl_buffer w)" "length (lb_buffer (wl_buffer w1)) = length (lb_buffer (wl_buffer w)) + 41"
    using ap1 m(2) assms(2) by (simp_all add: w1_def length_log_image appended_def LogRecord_state_def LogRecord_default_def)
  let ?r2 = "LogRecord_physical 0 LogRecordType_CheckpointEnd l1 []"
  have f2: "log_fits ?r2" "buffer_room ?r2 w1"
    using assms(3) s1(3,4) by (simp_all add: LogRecord_physical_def LogRecord_state_def LogRecord_default_def log_fits_def buffer_room_def)
  have len2: "length (rs @ [appended ?r1 w]) + 2 < 2 ^ 64" using assms(2) by simp
  note ap2 = wal_append_fits [OF s1(1) f2 len2]
  define w2 where "w2 = fst (wal_append ?r2 w1)"
  define l2 where "l2 = wl_next_lsn w1"
  have a2: "wal_append ?r2 w1 = (w2, appended ?r2 w1, Inr l2)" using ap2(1) by (simp add: w2_def l2_def)
  let ?rs = "rs @ [appended ?r1 w, appended ?r2 w1]"
  have s2: "wal_stream w2 ?rs m" "unat (wl_flushed_lsn w2) \<le> m" using ap2 s1(2) by (simp_all add: w2_def)
  have l2: "unat l2 = length rs + 2" using s1(1) by (simp add: l2_def wal_stream_def)
  obtain w3 q where f: "flush_up_to l2 w2 = (w3, q)" by (cases "flush_up_to l2 w2")
  obtain m' where m': "wal_stream w3 ?rs m'" "length rs + 2 \<le> m'" "q = Inr ()" using flush_up_to_ok [OF s2 f] l2 by auto
  have faults: "os_faults (wl_os w3) = []" using m'(1) by (simp add: wal_stream_def segments_ok_def)
  let ?p = "master_record_path db_dir" and ?c = "le_bytes 8 l1 @ le_bytes 8 now"
  let ?w = "w3\<lparr>wl_os := (wl_os w3)\<lparr>os_files := (os_files (wl_os w3))(?p \<mapsto> ?c)\<rparr>\<rparr>"
  have "perform_checkpoint now ?p w = (?w, Inr True)"
    using a1 a2 f m'(3) faults by (simp add: perform_checkpoint_def write_master_record_def take_fault_none)
  moreover have "build_path d j \<noteq> ?p" for d j
  proof
    assume "build_path d j = ?p"
    then have "last (build_path d j) = last ?p" by simp
    then show False by (simp add: build_path_def master_record_path_def)
  qed
  then have "segment_file ?w i = segment_file w3 i" for i by (simp add: segment_file_def)
  then have "wal_bytes ?w = wal_bytes w3" by (simp add: wal_bytes_def)
  then have "wal_bytes ?w = concat (map log_image ?rs)" using m'(1,2) by (simp add: wal_stream_def)
  moreover have "snd (read_master_record ?p (wl_os ?w)) = Some \<lparr>cm_lsn = l1, cm_timestamp = now\<rparr>"
    using faults by (simp add: read_master_record_def take_fault_none bslice_def)
  moreover have "lr_type (appended ?r1 w) = LogRecordType_CheckpointBegin" "lr_lsn (appended ?r1 w) = l1"
    "lr_type (appended ?r2 w1) = LogRecordType_CheckpointEnd" "lr_prev_lsn (appended ?r2 w1) = l1"
    by (simp_all add: appended_def log_calculate_checksum_def LogRecord_physical_def LogRecord_state_def l1_def)
  ultimately show ?thesis by metis
qed

end
