(* ===== verification/Sql_Types.thy ===== *)
theory Sql_Types
  imports Std_Text
begin

text \<open>
  \<open>type_id.hpp\<close>, \<open>type_info.hpp/.cpp\<close> and \<open>type_registry.hpp/.cpp\<close>: the SQL types with their numbers,
  the table of their properties, and the case-insensitive lookup of type names.
\<close>

section \<open>Type ids\<close>

datatype type_id =
    Null_t | Boolean_t | SmallInt_t | Integer_t | BigInt_t | Real_t | Double_t | Numeric_t | Char_t | VarChar_t | Text_t
  | Bytea_t | Date_t | Time_t | Timestamp_t | TimestampTZ_t | Interval_t | UUID_t | JSON_t | DICT_t | Array_t | Enum_t
  | Invalid_t

definition type_ids :: "type_id list" where
  "type_ids = [Null_t, Boolean_t, SmallInt_t, Integer_t, BigInt_t, Real_t, Double_t, Numeric_t, Char_t, VarChar_t, Text_t,
     Bytea_t, Date_t, Time_t, Timestamp_t, TimestampTZ_t, Interval_t, UUID_t, JSON_t, DICT_t, Array_t, Enum_t, Invalid_t]"

text \<open>The enumerators are numbered in the order of their declaration.\<close>

fun type_index :: "type_id \<Rightarrow> nat" where
  "type_index Null_t = 0" | "type_index Boolean_t = 1" | "type_index SmallInt_t = 2" | "type_index Integer_t = 3"
| "type_index BigInt_t = 4" | "type_index Real_t = 5" | "type_index Double_t = 6" | "type_index Numeric_t = 7"
| "type_index Char_t = 8" | "type_index VarChar_t = 9" | "type_index Text_t = 10" | "type_index Bytea_t = 11"
| "type_index Date_t = 12" | "type_index Time_t = 13" | "type_index Timestamp_t = 14" | "type_index TimestampTZ_t = 15"
| "type_index Interval_t = 16" | "type_index UUID_t = 17" | "type_index JSON_t = 18" | "type_index DICT_t = 19"
| "type_index Array_t = 20" | "type_index Enum_t = 21" | "type_index Invalid_t = 22"

definition type_code :: "type_id \<Rightarrow> u16" where
  "type_code t = of_nat (type_index t)"

text \<open>\<open>static_cast<TypeID>\<close>; \<open>None\<close> for a number that is no enumerator.\<close>

definition type_of_code :: "u16 \<Rightarrow> type_id option" where
  "type_of_code c = (if unat c < length type_ids then Some (type_ids ! unat c) else None)"

lemma type_ids_nth: "type_index t < length type_ids" "type_ids ! type_index t = t"
  by (cases t; simp add: type_ids_def)+

lemma type_of_code_code [simp]: "type_of_code (type_code t) = Some t"
proof -
  have "type_index t < 23" using type_ids_nth(1) [of t] by (simp add: type_ids_def)
  then have "unat (type_code t) = type_index t" unfolding type_code_def by (intro unat_of_nat_fits) simp
  then show ?thesis using type_ids_nth [of t] by (simp add: type_of_code_def)
qed

section \<open>Type information\<close>

record type_info =
  ti_id :: type_id
  ti_canonical_name :: string
  ti_fixed_size :: nat
  ti_is_variable_length :: bool
  ti_is_orderable :: bool
  ti_is_hashable :: bool
  ti_is_indexable :: bool
  ti_is_numeric :: bool
  ti_is_collection :: bool
  ti_is_complex :: bool

fun get_type_info :: "type_id \<Rightarrow> type_info" where
  "get_type_info Null_t = type_info.make Null_t ''NULL'' 0 False False False False False False False"
| "get_type_info Boolean_t = type_info.make Boolean_t ''BOOLEAN'' 1 False True True True False False False"
| "get_type_info SmallInt_t = type_info.make SmallInt_t ''SMALLINT'' 2 False True True True True False False"
| "get_type_info Integer_t = type_info.make Integer_t ''INTEGER'' 4 False True True True True False False"
| "get_type_info BigInt_t = type_info.make BigInt_t ''BIGINT'' 8 False True True True True False False"
| "get_type_info Real_t = type_info.make Real_t ''REAL'' 4 False True True True True False False"
| "get_type_info Double_t = type_info.make Double_t ''DOUBLE'' 8 False True True True True False False"
| "get_type_info Numeric_t = type_info.make Numeric_t ''NUMERIC'' 0 True True True True True False False"
| "get_type_info Char_t = type_info.make Char_t ''CHAR'' 0 True True True True False False False"
| "get_type_info VarChar_t = type_info.make VarChar_t ''VARCHAR'' 0 True True True True False False False"
| "get_type_info Text_t = type_info.make Text_t ''TEXT'' 0 True True True True False False False"
| "get_type_info Bytea_t = type_info.make Bytea_t ''BYTEA'' 0 True True True True False False False"
| "get_type_info Date_t = type_info.make Date_t ''DATE'' 4 False True True True False False False"
| "get_type_info Time_t = type_info.make Time_t ''TIME'' 8 False True True True False False False"
| "get_type_info Timestamp_t = type_info.make Timestamp_t ''TIMESTAMP'' 8 False True True True False False False"
| "get_type_info TimestampTZ_t = type_info.make TimestampTZ_t ''TIMESTAMPTZ'' 8 False True True True False False False"
| "get_type_info Interval_t = type_info.make Interval_t ''INTERVAL'' 16 False True True False False False False"
| "get_type_info UUID_t = type_info.make UUID_t ''UUID'' 16 False True True True False False False"
| "get_type_info JSON_t = type_info.make JSON_t ''JSON'' 0 True False False False False False True"
| "get_type_info DICT_t = type_info.make DICT_t ''DICT'' 0 True True True True False False True"
| "get_type_info Array_t = type_info.make Array_t ''ARRAY'' 0 True True True True False True True"
| "get_type_info Enum_t = type_info.make Enum_t ''ENUM'' 4 False True True True False False True"
| "get_type_info Invalid_t = type_info.make Invalid_t ''INVALID'' 0 False False False False False False False"

section \<open>Type names\<close>

definition alias_map :: "(string \<times> type_id) list" where
  "alias_map = [(''NULL'', Null_t), (''BOOLEAN'', Boolean_t), (''BOOL'', Boolean_t), (''SMALLINT'', SmallInt_t), (''INT2'', SmallInt_t),
     (''INTEGER'', Integer_t), (''INT'', Integer_t), (''INT4'', Integer_t), (''BIGINT'', BigInt_t), (''INT8'', BigInt_t),
     (''REAL'', Real_t), (''FLOAT4'', Real_t), (''DOUBLE PRECISION'', Double_t), (''DOUBLE'', Double_t), (''FLOAT8'', Double_t),
     (''NUMERIC'', Numeric_t), (''DECIMAL'', Numeric_t), (''DEC'', Numeric_t), (''CHARACTER'', Char_t), (''CHAR'', Char_t),
     (''CHARACTER VARYING'', VarChar_t), (''VARCHAR'', VarChar_t), (''TEXT'', Text_t), (''BYTEA'', Bytea_t), (''BLOB'', Bytea_t),
     (''DATE'', Date_t), (''TIME'', Time_t), (''TIMESTAMP'', Timestamp_t), (''TIMESTAMPTZ'', TimestampTZ_t), (''INTERVAL'', Interval_t),
     (''UUID'', UUID_t), (''JSON'', JSON_t), (''DICT'', DICT_t), (''DICTIONARY'', DICT_t), (''ARRAY'', Array_t)]"

text \<open>\<open>std::toupper\<close> in the default locale.\<close>

definition char_upper :: "char \<Rightarrow> char" where
  "char_upper c = (let n = (of_char c :: nat) in if 97 \<le> n \<and> n \<le> 122 then char_of (n - 32) else c)"

definition to_upper :: "string \<Rightarrow> string" where
  "to_upper s = map char_upper s"

definition lookup_type :: "string \<Rightarrow> type_id option" where
  "lookup_type name = map_of alias_map (to_upper name)"

definition is_valid_alias :: "string \<Rightarrow> bool" where
  "is_valid_alias name \<longleftrightarrow> lookup_type name \<noteq> None"

end
