(* ===== verification/Decimal_Number.thy ===== *)
theory Decimal_Number
  imports Std_Text Complex_Main "HOL-Library.Signed_Division"
begin

text \<open>
  \<open>decimal.hpp/.cpp\<close>: decimal numbers with a 64-bit coefficient and an 8-bit scale. Coefficients are
  64-bit words read as signed numbers; signed division truncates. \<open>decimal_value\<close> is the rational
  number a decimal stands for.
\<close>

type_synonym i16 = "16 word"
type_synonym i32 = "32 word"
type_synonym i64 = "64 word"
type_synonym u8 = "8 word"

section \<open>Scaling\<close>

definition INT64_MAX :: int where "INT64_MAX = 2 ^ 63 - 1"
definition INT64_MIN :: int where "INT64_MIN = - (2 ^ 63)"

definition in_int64 :: "int \<Rightarrow> bool" where
  "in_int64 x \<longleftrightarrow> INT64_MIN \<le> x \<and> x \<le> INT64_MAX"

record decimal =
  dec_coefficient :: i64
  dec_scale :: u8

definition Decimal_of_int :: "i64 \<Rightarrow> decimal" where
  "Decimal_of_int v = \<lparr>dec_coefficient = v, dec_scale = 0\<rparr>"

text \<open>The loop of \<open>scale_up\<close>; \<open>None\<close> when the multiplier would overflow.\<close>

fun scale_multiplier :: "nat \<Rightarrow> int \<Rightarrow> int option" where
  "scale_multiplier 0 m = Some m"
| "scale_multiplier (Suc n) m = (if m > INT64_MAX sdiv 10 then None else scale_multiplier n (m * 10))"

definition scale_up :: "i64 \<Rightarrow> u8 \<Rightarrow> i64 option" where
  "scale_up val diff =
     (if diff = 0 then Some val
      else case scale_multiplier (unat diff) 1 of
             None \<Rightarrow> None
           | Some m \<Rightarrow>
               if sint val > 0 \<and> sint val > INT64_MAX sdiv m then None
               else if sint val < 0 \<and> sint val < INT64_MIN sdiv m then None
               else Some (word_of_int (sint val * m)))"

section \<open>Operators\<close>

definition target_scale :: "decimal \<Rightarrow> decimal \<Rightarrow> u8" where
  "target_scale a b = max (dec_scale a) (dec_scale b)"

text \<open>The coefficient of the first decimal at the common scale.\<close>

definition rescaled :: "decimal \<Rightarrow> decimal \<Rightarrow> i64 option" where
  "rescaled a b = scale_up (dec_coefficient a) (target_scale a b - dec_scale a)"

definition decimal_eq :: "decimal \<Rightarrow> decimal \<Rightarrow> bool" where
  "decimal_eq a b = (case (rescaled a b, rescaled b a) of (Some c1, Some c2) \<Rightarrow> c1 = c2 | _ \<Rightarrow> False)"

definition decimal_less :: "decimal \<Rightarrow> decimal \<Rightarrow> bool" where
  "decimal_less a b =
     (case rescaled a b of
        None \<Rightarrow> sint (dec_coefficient a) < 0
      | Some c1 \<Rightarrow>
          (case rescaled b a of
             None \<Rightarrow> sint (dec_coefficient b) > 0
           | Some c2 \<Rightarrow> sint c1 < sint c2))"

definition decimal_add :: "decimal \<Rightarrow> decimal \<Rightarrow> exn + decimal" where
  "decimal_add a b =
     (case (rescaled a b, rescaled b a) of
        (Some c1, Some c2) \<Rightarrow>
          if (sint c2 > 0 \<and> sint c1 > INT64_MAX - sint c2) \<or> (sint c2 < 0 \<and> sint c1 < INT64_MIN - sint c2)
          then Inl (overflow_error ''Decimal overflow during addition'')
          else Inr \<lparr>dec_coefficient = c1 + c2, dec_scale = target_scale a b\<rparr>
      | _ \<Rightarrow> Inl (overflow_error ''Decimal overflow during addition''))"

definition decimal_sub :: "decimal \<Rightarrow> decimal \<Rightarrow> exn + decimal" where
  "decimal_sub a b =
     (case (rescaled a b, rescaled b a) of
        (Some c1, Some c2) \<Rightarrow>
          if (sint c2 < 0 \<and> sint c1 > INT64_MAX + sint c2) \<or> (sint c2 > 0 \<and> sint c1 < INT64_MIN + sint c2)
          then Inl (overflow_error ''Decimal overflow during subtraction'')
          else Inr \<lparr>dec_coefficient = c1 - c2, dec_scale = target_scale a b\<rparr>
      | _ \<Rightarrow> Inl (overflow_error ''Decimal overflow during subtraction''))"

definition decimal_mult :: "decimal \<Rightarrow> decimal \<Rightarrow> exn + decimal" where
  "decimal_mult a b =
     (let c1 = sint (dec_coefficient a); c2 = sint (dec_coefficient b) in
      if c1 \<noteq> 0 \<and> c2 \<noteq> 0 \<and>
         ((c1 > 0 \<and> c2 > 0 \<and> c1 > INT64_MAX sdiv c2) \<or> (c1 > 0 \<and> c2 < 0 \<and> c2 < INT64_MIN sdiv c1) \<or>
          (c1 < 0 \<and> c2 > 0 \<and> c1 < INT64_MIN sdiv c2) \<or> (c1 < 0 \<and> c2 < 0 \<and> c1 < INT64_MAX sdiv c2))
      then Inl (overflow_error ''Decimal multiply overflow'')
      else Inr \<lparr>dec_coefficient = dec_coefficient a * dec_coefficient b, dec_scale = dec_scale a + dec_scale b\<rparr>)"

text \<open>Six more decimal places; the quotient of the smallest coefficient by -1 would not fit.\<close>

definition decimal_divide :: "decimal \<Rightarrow> decimal \<Rightarrow> exn + decimal" where
  "decimal_divide a b =
     (if dec_coefficient b = 0 then Inl (invalid_argument ''Decimal division by zero'')
      else case scale_up (dec_coefficient a) 6 of
             None \<Rightarrow> Inl (overflow_error ''Decimal overflow during division scaling'')
           | Some c1 \<Rightarrow> Inr \<lparr>dec_coefficient = word_of_int (sint c1 sdiv sint (dec_coefficient b)),
               dec_scale = dec_scale a + 6 - dec_scale b\<rparr>)"

definition decimal_to_string :: "decimal \<Rightarrow> string" where
  "decimal_to_string d =
     (let c = sint (dec_coefficient d); scale = unat (dec_scale d) in
      if c = 0 then (if scale = 0 then ''0'' else ''0.'' @ replicate scale (CHR ''0''))
      else
        let s = decimal (nat \<bar>c\<bar>); sign = (if c < 0 then ''-'' else '''') in
        if scale = 0 then sign @ s
        else
          let s = (if length s \<le> scale then replicate (scale - length s + 1) (CHR ''0'') @ s else s);
              s = (if length s > scale then take (length s - scale) s @ ''.'' @ drop (length s - scale) s else s)
          in sign @ s)"

section \<open>Values\<close>

definition decimal_value :: "decimal \<Rightarrow> rat" where
  "decimal_value d = of_int (sint (dec_coefficient d)) / 10 ^ unat (dec_scale d)"

lemma sint_in_int64 [simp]: "in_int64 (sint (w :: i64))"
  using sint_greater_eq [of w] sint_less [of w] by (simp add: in_int64_def INT64_MIN_def INT64_MAX_def)

lemma sint_word_of_int64: "in_int64 x \<Longrightarrow> sint (word_of_int x :: i64) = x"
  by (simp add: sint_sbintrunc' in_int64_def INT64_MIN_def INT64_MAX_def signed_take_bit_int_eq_self)

lemma div_less_mult: "0 < m \<Longrightarrow> (a :: int) div m < v \<longleftrightarrow> a < v * m"
proof
  assume m: "0 < m" and "a div m < v"
  then have "(a div m + 1) * m \<le> v * m" by (intro mult_right_mono) auto
  moreover have "(a div m + 1) * m = (a div m) * m + m" by (simp add: distrib_right)
  then have "a < (a div m + 1) * m" using div_mult_mod_eq [of a m] pos_mod_bound [OF m, of a] by linarith
  ultimately show "a < v * m" by linarith
next
  assume m: "0 < m" and l: "a < v * m"
  show "a div m < v"
  proof (rule ccontr)
    assume "\<not> a div m < v"
    then have "v * m \<le> (a div m) * m" using m by (intro mult_right_mono) auto
    also have "\<dots> \<le> a" using div_mult_mod_eq [of a m] pos_mod_sign [OF m, of a] by linarith
    finally show False using l by linarith
  qed
qed

lemma int64_bounds: "0 < INT64_MAX" "INT64_MIN < 0" "INT64_MIN = - (INT64_MAX + 1)"
  by (simp_all add: INT64_MAX_def INT64_MIN_def)

lemma sdiv_int64:
  assumes "0 < m"
  shows "INT64_MAX sdiv m = INT64_MAX div m" "INT64_MIN sdiv m = - ((INT64_MAX + 1) div m)" "INT64_MAX sdiv (- m) = - (INT64_MAX div m)"
  using assms by (simp_all add: signed_divide_int_def INT64_MAX_def INT64_MIN_def)

lemma scale_multiplier_eq:
  "1 \<le> m \<Longrightarrow> m \<le> INT64_MAX \<Longrightarrow> scale_multiplier n m = (if m * 10 ^ n \<le> INT64_MAX then Some (m * 10 ^ n) else None)"
proof (induction n arbitrary: m)
  case (Suc n)
  have d: "INT64_MAX sdiv 10 < m \<longleftrightarrow> INT64_MAX < m * 10" by (simp add: sdiv_int64 div_less_mult)
  show ?case
  proof (cases "INT64_MAX < m * 10")
    case True
    have "m * 10 \<le> m * 10 ^ Suc n" using Suc.prems by simp
    then show ?thesis using True d by simp
  next
    case False
    then have "scale_multiplier n (m * 10) = (if m * 10 * 10 ^ n \<le> INT64_MAX then Some (m * 10 * 10 ^ n) else None)"
      using Suc.prems by (intro Suc.IH) auto
    then show ?thesis using False d by (simp add: mult.assoc)
  qed
qed simp

lemma scale_up_eq:
  "scale_up v d = (let m = 10 ^ unat d in if m \<le> INT64_MAX \<and> in_int64 (sint v * m) then Some (word_of_int (sint v * m)) else None)"
proof (cases "d = 0")
  case True
  then show ?thesis by (simp add: scale_up_def int64_bounds Let_def) (simp add: INT64_MAX_def)
next
  case False
  define m :: int where "m = 10 ^ unat d"
  have m: "0 < m" by (simp add: m_def)
  have s: "scale_multiplier (unat d) 1 = (if m \<le> INT64_MAX then Some m else None)"
    using scale_multiplier_eq [of 1 "unat d"] int64_bounds by (simp add: m_def)
  have 1: "INT64_MAX sdiv m < sint v \<longleftrightarrow> INT64_MAX < sint v * m" by (simp add: sdiv_int64 m div_less_mult)
  have 2: "sint v < INT64_MIN sdiv m \<longleftrightarrow> sint v * m < INT64_MIN"
    using div_less_mult [OF m, of "INT64_MAX + 1" "- sint v"] sdiv_int64(2) [OF m] int64_bounds(3) by auto
  have sgn: "sint v \<le> 0 \<Longrightarrow> sint v * m \<le> 0" "0 \<le> sint v \<Longrightarrow> 0 \<le> sint v * m"
    using m by (simp_all add: mult_nonpos_nonneg)
  show ?thesis
    using False s 1 2 sgn int64_bounds unfolding scale_up_def m_def [symmetric] Let_def in_int64_def by auto
qed

lemma sint_eq_iff: "sint (a :: i64) = sint b \<longleftrightarrow> a = b"
  by (auto dest: arg_cong [where f = "word_of_int :: int \<Rightarrow> i64"])

lemma sint_zero_iff: "sint (a :: i64) = 0 \<longleftrightarrow> a = 0"
  using sint_eq_iff [of a 0] by simp

lemma sint_arith:
  "in_int64 (sint a + sint b) \<Longrightarrow> sint (a + b :: i64) = sint a + sint b"
  "in_int64 (sint a - sint b) \<Longrightarrow> sint (a - b :: i64) = sint a - sint b"
  "in_int64 (sint a * sint b) \<Longrightarrow> sint (a * b :: i64) = sint a * sint b"
  using sint_word_of_int64 [of "sint a + sint b"] sint_word_of_int64 [of "sint a - sint b"] sint_word_of_int64 [of "sint a * sint b"]
  by simp_all

lemma scale_up_value: "scale_up v d = Some c \<Longrightarrow> sint c = sint v * 10 ^ unat d"
  using sint_word_of_int64 [of "sint v * 10 ^ unat d"] by (auto simp: scale_up_eq Let_def simp del: of_int_mult split: if_splits)

lemma scale_up_nonzero: "sint v \<noteq> 0 \<Longrightarrow> scale_up v d = None \<longleftrightarrow> \<not> in_int64 (sint v * 10 ^ unat d)"
proof -
  assume v: "sint v \<noteq> 0"
  define m :: int where "m = 10 ^ unat d"
  have "m \<le> INT64_MAX" if "in_int64 (sint v * m)"
  proof -
    have "m \<le> \<bar>sint v\<bar> * m" using v by (simp add: m_def)
    also have "\<dots> = \<bar>sint v * m\<bar>" by (simp add: abs_mult m_def)
    also have "\<dots> \<le> 2 ^ 63" using that by (auto simp: in_int64_def INT64_MAX_def INT64_MIN_def)
    finally have "m \<le> 2 ^ 63" .
    moreover have "m \<noteq> 2 ^ 63"
    proof
      assume e: "m = 2 ^ 63"
      show False
      proof (cases "unat d = 0")
        case False
        then have "(10 :: int) dvd m" unfolding m_def by (intro dvd_power) simp
        then have "5 dvd m" by (rule dvd_trans [rotated]) simp
        then show False by (simp add: e)
      qed (use e in \<open>simp add: m_def\<close>)
    qed
    ultimately show ?thesis by (simp add: INT64_MAX_def)
  qed
  then show ?thesis by (auto simp: scale_up_eq Let_def m_def)
qed


text \<open>The coefficient of \<open>a\<close> at the common scale of \<open>a\<close> and \<open>b\<close>, as an integer.\<close>

definition common :: "decimal \<Rightarrow> decimal \<Rightarrow> int" where
  "common a b = sint (dec_coefficient a) * 10 ^ (max (unat (dec_scale a)) (unat (dec_scale b)) - unat (dec_scale a))"

definition scalable :: "decimal \<Rightarrow> decimal \<Rightarrow> bool" where
  "scalable a b \<longleftrightarrow> (10 :: int) ^ (max (unat (dec_scale a)) (unat (dec_scale b)) - unat (dec_scale a)) \<le> INT64_MAX"

lemma scale_difference: "unat (target_scale a b - dec_scale a) = max (unat (dec_scale a)) (unat (dec_scale b)) - unat (dec_scale a)"
  "unat (target_scale a b) = max (unat (dec_scale a)) (unat (dec_scale b))"
  by (auto simp: target_scale_def max_def unat_sub word_le_nat_alt)

lemma target_scale_sym: "target_scale b a = target_scale a b"
  by (simp add: target_scale_def max.commute)

lemma rescaled_eq: "rescaled a b = (if scalable a b \<and> in_int64 (common a b) then Some (word_of_int (common a b)) else None)"
  by (simp add: rescaled_def scale_up_eq scale_difference common_def scalable_def Let_def del: of_int_mult)

lemma rescaled_Some: "rescaled a b = Some c \<Longrightarrow> sint c = common a b \<and> in_int64 (common a b) \<and> scalable a b"
  by (auto simp: rescaled_eq sint_word_of_int64 split: if_splits)

lemma rescaled_None: "rescaled a b = None \<Longrightarrow> scalable a b \<or> dec_coefficient a \<noteq> 0 \<Longrightarrow> \<not> in_int64 (common a b)"
  using scale_up_nonzero [of "dec_coefficient a" "target_scale a b - dec_scale a"] rescaled_eq [of a b]
  by (auto simp: rescaled_def scale_difference common_def sint_zero_iff split: if_splits)

lemma decimal_value_common:
  "decimal_value a = of_int (common a b) / 10 ^ max (unat (dec_scale a)) (unat (dec_scale b))"
proof -
  let ?s = "unat (dec_scale a)" and ?t = "max (unat (dec_scale a)) (unat (dec_scale b))"
  have "(10 :: rat) ^ ?t = 10 ^ ?s * 10 ^ (?t - ?s)" by (simp flip: power_add)
  then show ?thesis by (simp add: decimal_value_def common_def)
qed

lemma common_zero: "common a b = 0 \<longleftrightarrow> dec_coefficient a = 0"
  by (simp add: common_def sint_zero_iff)

text \<open>At most one of the two coefficients is scaled, so at most one can leave the range.\<close>

lemma one_in_range: "in_int64 (common a b) \<or> in_int64 (common b a)"
  by (cases "unat (dec_scale a) \<le> unat (dec_scale b)") (simp_all add: common_def max_def)

lemma common_sign: "0 < common a b \<longleftrightarrow> 0 < sint (dec_coefficient a)" "common a b < 0 \<longleftrightarrow> sint (dec_coefficient a) < 0"
  by (simp_all add: common_def zero_less_mult_iff mult_less_0_iff)

lemma compare_common:
  "decimal_value a < decimal_value b \<longleftrightarrow> common a b < common b a" "decimal_value a = decimal_value b \<longleftrightarrow> common a b = common b a"
  by (simp_all add: decimal_value_common [of a b] decimal_value_common [of b a] max.commute divide_less_cancel)

section \<open>Properties\<close>

text \<open>C39. Decimal comparison is numerical comparison: \<open>==\<close> and \<open><\<close> hold exactly if the rational values of the two decimals
  are equal or in this order, also when bringing them to the same scale overflows, provided that a
  zero coefficient is not scaled by 19 or more places.\<close>
theorem decimal_compare_exact:
  assumes "dec_coefficient a = 0 \<Longrightarrow> scalable a b" "dec_coefficient b = 0 \<Longrightarrow> scalable b a"
  shows "(decimal_eq a b \<longleftrightarrow> decimal_value a = decimal_value b) \<and> (decimal_less a b \<longleftrightarrow> decimal_value a < decimal_value b)"
proof (cases "rescaled a b")
  case None
  then have na: "\<not> in_int64 (common a b)" using assms(1) rescaled_None by blast
  then have ib: "in_int64 (common b a)" using one_in_range by blast
  show ?thesis
    using na ib common_sign [of a b] int64_bounds
    by (auto simp: decimal_eq_def decimal_less_def None compare_common in_int64_def)
next
  case A: (Some c1)
  show ?thesis
  proof (cases "rescaled b a")
    case None
    then have nb: "\<not> in_int64 (common b a)" using assms(2) rescaled_None by blast
    then show ?thesis
      using A rescaled_Some [OF A] common_sign [of b a] int64_bounds
      by (auto simp: decimal_eq_def decimal_less_def None compare_common in_int64_def)
  next
    case (Some c2)
    have "c1 = c2 \<longleftrightarrow> sint c1 = sint c2" by (simp add: sint_eq_iff)
    then show ?thesis
      using A rescaled_Some [OF A] rescaled_Some [OF Some] by (simp add: decimal_eq_def decimal_less_def Some compare_common)
  qed
qed

theorem decimal_compare_exact_witness:
  "decimal_eq \<lparr>dec_coefficient = 120, dec_scale = 1\<rparr> \<lparr>dec_coefficient = 1200, dec_scale = 2\<rparr> \<and>
   decimal_less \<lparr>dec_coefficient = 1234, dec_scale = 2\<rparr> \<lparr>dec_coefficient = 124, dec_scale = 1\<rparr>"
  using decimal_compare_exact [of "\<lparr>dec_coefficient = 120, dec_scale = 1\<rparr>" "\<lparr>dec_coefficient = 1200, dec_scale = 2\<rparr>"]
    decimal_compare_exact [of "\<lparr>dec_coefficient = 1234, dec_scale = 2\<rparr>" "\<lparr>dec_coefficient = 124, dec_scale = 1\<rparr>"]
  by (simp add: decimal_value_def)

lemma decimal_sum:
  assumes "sint c1 = common a b" "sint c2 = common b a"
  shows "in_int64 (common a b + common b a) \<Longrightarrow>
      decimal_value \<lparr>dec_coefficient = c1 + c2, dec_scale = target_scale a b\<rparr> = decimal_value a + decimal_value b"
    "in_int64 (common a b - common b a) \<Longrightarrow>
      decimal_value \<lparr>dec_coefficient = c1 - c2, dec_scale = target_scale a b\<rparr> = decimal_value a - decimal_value b"
  using assms sint_arith(1,2) [of c1 c2] decimal_value_common [of a b] decimal_value_common [of b a]
  by (simp_all add: decimal_value_def scale_difference(2) max.commute add_divide_distrib diff_divide_distrib)

lemma add_range:
  assumes "in_int64 x" "in_int64 y"
  shows "(y > 0 \<and> x > INT64_MAX - y) \<or> (y < 0 \<and> x < INT64_MIN - y) \<longleftrightarrow> \<not> in_int64 (x + y)"
    "(y < 0 \<and> x > INT64_MAX + y) \<or> (y > 0 \<and> x < INT64_MIN + y) \<longleftrightarrow> \<not> in_int64 (x - y)"
  using assms by (auto simp: in_int64_def INT64_MAX_def INT64_MIN_def)

lemma mult_range:
  assumes "x \<noteq> 0" "y \<noteq> 0"
  shows "((x > 0 \<and> y > 0 \<and> x > INT64_MAX sdiv y) \<or> (x > 0 \<and> y < 0 \<and> y < INT64_MIN sdiv x) \<or>
      (x < 0 \<and> y > 0 \<and> x < INT64_MIN sdiv y) \<or> (x < 0 \<and> y < 0 \<and> x < INT64_MAX sdiv y)) \<longleftrightarrow> \<not> in_int64 (x * y)"
proof -
  consider "x > 0" "y > 0" | "x > 0" "y < 0" | "x < 0" "y > 0" | "x < 0" "y < 0" using assms by linarith
  then show ?thesis
  proof cases
    case 1
    then have "0 < x * y" by simp
    then have "INT64_MIN \<le> x * y" using int64_bounds by linarith
    then show ?thesis using 1 div_less_mult [of y INT64_MAX x] int64_bounds by (auto simp: sdiv_int64 in_int64_def)
  next
    case 2
    then have "x * y < 0" by (simp add: mult_pos_neg)
    then show ?thesis using 2 div_less_mult [of x "INT64_MAX + 1" "- y"] int64_bounds sdiv_int64(2) [of x] by (auto simp: in_int64_def mult.commute)
  next
    case 3
    then have "x * y < 0" by (simp add: mult_neg_pos)
    then show ?thesis using 3 div_less_mult [of y "INT64_MAX + 1" "- x"] int64_bounds sdiv_int64(2) [of y] by (auto simp: in_int64_def)
  next
    case 4
    then have "0 < x * y" by (simp add: mult_neg_neg)
    then have "INT64_MIN \<le> x * y" using int64_bounds by linarith
    then show ?thesis using 4 div_less_mult [of "- y" INT64_MAX "- x"] int64_bounds sdiv_int64(3) [of "- y"] by (auto simp: in_int64_def)
  qed
qed

lemma decimal_mult_eq:
  "decimal_mult a b = (if in_int64 (sint (dec_coefficient a) * sint (dec_coefficient b))
     then Inr \<lparr>dec_coefficient = dec_coefficient a * dec_coefficient b, dec_scale = dec_scale a + dec_scale b\<rparr>
     else Inl (overflow_error ''Decimal multiply overflow''))"
proof (cases "sint (dec_coefficient a) = 0 \<or> sint (dec_coefficient b) = 0")
  case True
  then have "in_int64 (sint (dec_coefficient a) * sint (dec_coefficient b))" by (auto simp: in_int64_def INT64_MAX_def INT64_MIN_def)
  then show ?thesis using True unfolding decimal_mult_def Let_def by argo
next
  case False
  then have nz: "sint (dec_coefficient a) \<noteq> 0" "sint (dec_coefficient b) \<noteq> 0" by blast+
  show ?thesis unfolding decimal_mult_def Let_def mult_range [OF nz] using nz by argo
qed

lemma decimal_mult_value:
  assumes "decimal_mult a b = Inr d" "unat (dec_scale a) + unat (dec_scale b) < 256"
  shows "decimal_value d = decimal_value a * decimal_value b"
proof -
  have "in_int64 (sint (dec_coefficient a) * sint (dec_coefficient b))"
    using assms(1) by (simp add: decimal_mult_eq split: if_splits)
  then have "sint (dec_coefficient a * dec_coefficient b) = sint (dec_coefficient a) * sint (dec_coefficient b)" by (rule sint_arith(3))
  moreover have "unat (dec_scale a + dec_scale b) = unat (dec_scale a) + unat (dec_scale b)"
    using assms(2) by (intro unat_plus_if_fits [THEN trans]) simp_all
  moreover have "d = \<lparr>dec_coefficient = dec_coefficient a * dec_coefficient b, dec_scale = dec_scale a + dec_scale b\<rparr>"
    using assms(1) by (simp add: decimal_mult_eq split: if_splits)
  ultimately show ?thesis by (simp add: decimal_value_def power_add)
qed



end
