(* ===== verification/Sql_Value.thy ===== *)
theory Sql_Value
  imports Sql_Types Decimal_Number "HOL-Library.AList" "HOL-Library.List_Lexorder" "HOL-Library.Char_ord"
begin

text \<open>
  \<open>temporal.hpp/.cpp\<close>, \<open>uuid.hpp/.cpp\<close>, \<open>json.hpp/.cpp\<close>, \<open>value.hpp/.cpp\<close>, \<open>array.hpp/.cpp\<close>,
  \<open>dict.hpp/.cpp\<close>, \<open>type_comparator.hpp/.cpp\<close>, \<open>type_hasher.cpp\<close> and \<open>type_cast.cpp\<close>: SQL values. Floating
  point numbers are bit patterns, \<open>std::map\<close> is a list sorted by key, \<open>std::unordered_map\<close> an association
  list whose order stands for the iteration order. Arrays and dictionaries that have been moved from
  are not modelled.
\<close>

section \<open>Dates and times\<close>

record interval =
  iv_months :: i32
  iv_days :: i32
  iv_micros :: i64

definition pad_left :: "nat \<Rightarrow> string \<Rightarrow> string" where
  "pad_left n s = replicate (n - length s) (CHR ''0'') @ s"

definition days_to_ymd :: "i32 \<Rightarrow> int \<times> int \<times> int" where
  "days_to_ymd d = (2000 + sint d sdiv 365, 1, 1 + sint d smod 365)"

text \<open>Hours are truncated to 32 bits.\<close>

definition micros_to_hms :: "i64 \<Rightarrow> int \<times> int \<times> int \<times> int" where
  "micros_to_hms micros =
     (let us = sint micros smod 1000000; secs = sint micros sdiv 1000000; s = secs smod 60; mins = secs sdiv 60;
          m = mins smod 60; h = sint (word_of_int (mins sdiv 60) :: 32 word)
      in (h, m, s, us))"

definition date_to_string :: "i32 \<Rightarrow> string" where
  "date_to_string d =
     (case days_to_ymd d of (y, m, day) \<Rightarrow>
        pad_left 4 (int_to_string y) @ ''-'' @ pad_left 2 (int_to_string m) @ ''-'' @ pad_left 2 (int_to_string day))"

definition hms_to_string :: "i64 \<Rightarrow> string" where
  "hms_to_string micros =
     (case micros_to_hms micros of (h, m, s, us) \<Rightarrow>
        pad_left 2 (int_to_string h) @ '':'' @ pad_left 2 (int_to_string m) @ '':'' @ pad_left 2 (int_to_string s) @
        (if us > 0 then ''.'' @ pad_left 6 (int_to_string us) else []))"

definition time_to_string :: "i64 \<Rightarrow> string" where
  "time_to_string micros = hms_to_string micros"

definition timestamp_to_string :: "i64 \<Rightarrow> string" where
  "timestamp_to_string micros = ''TIMESTAMP('' @ int_to_string (sint micros) @ '' us)''"

definition interval_to_string :: "interval \<Rightarrow> string" where
  "interval_to_string iv =
     (if iv_months iv \<noteq> 0 then int_to_string (sint (iv_months iv)) @ '' months '' else []) @
     (if iv_days iv \<noteq> 0 then int_to_string (sint (iv_days iv)) @ '' days '' else []) @
     hms_to_string (iv_micros iv)"

definition interval_less :: "interval \<Rightarrow> interval \<Rightarrow> bool" where
  "interval_less a b =
     (if iv_months a \<noteq> iv_months b then sint (iv_months a) < sint (iv_months b)
      else if iv_days a \<noteq> iv_days b then sint (iv_days a) < sint (iv_days b)
      else sint (iv_micros a) < sint (iv_micros b))"

section \<open>UUIDs\<close>

type_synonym uuid = bytes

definition UUID_init :: uuid where "UUID_init = replicate 16 0"

text \<open>The loop of \<open>from_string\<close> at index \<open>i\<close>, with the rest of the text and the bytes so far.\<close>

fun uuid_scan :: "nat \<Rightarrow> string \<Rightarrow> bytes \<Rightarrow> bytes option" where
  "uuid_scan i [] bytes = Some bytes"
| "uuid_scan i (c # str) bytes =
     (if i = 8 \<or> i = 13 \<or> i = 18 \<or> i = 23
      then if c \<noteq> CHR ''-'' then None else uuid_scan (i + 1) str bytes
      else case hex_to_val c of
             None \<Rightarrow> None
           | Some high \<Rightarrow>
               (case str of
                  [] \<Rightarrow> None
                | c' # str' \<Rightarrow>
                    (case hex_to_val c' of
                       None \<Rightarrow> None
                     | Some low \<Rightarrow> uuid_scan (i + 2) str' (bytes @ [push_bit 4 (of_nat high) OR of_nat low]))))"

definition uuid_from_string :: "string \<Rightarrow> uuid option" where
  "uuid_from_string str =
     (if length str \<noteq> 36 then None
      else case uuid_scan 0 str [] of None \<Rightarrow> None | Some bytes \<Rightarrow> if length bytes \<noteq> 16 then None else Some bytes)"

fun uuid_print :: "nat \<Rightarrow> bytes \<Rightarrow> string" where
  "uuid_print i [] = []"
| "uuid_print i (b # bs) = (if i = 4 \<or> i = 6 \<or> i = 8 \<or> i = 10 then ''-'' else []) @ hex_byte b @ uuid_print (i + 1) bs"

definition uuid_to_string :: "uuid \<Rightarrow> string" where
  "uuid_to_string u = uuid_print 0 u"

text \<open>\<open>memcmp\<close>.\<close>

definition uuid_eq :: "uuid \<Rightarrow> uuid \<Rightarrow> bool" where "uuid_eq a b \<longleftrightarrow> a = b"
definition uuid_less :: "uuid \<Rightarrow> uuid \<Rightarrow> bool" where "uuid_less a b \<longleftrightarrow> map unat a < map unat b"

definition uuid_hash :: "(u64 \<Rightarrow> u64) \<Rightarrow> uuid \<Rightarrow> u64" where
  "uuid_hash h u = h (le_word (bslice 0 8 u)) XOR push_bit 1 (h (le_word (bslice 8 8 u)))"

section \<open>JSON\<close>

datatype json =
    J_null | J_bool bool | J_num u64 | J_str string | J_arr "json list" | J_obj "(string \<times> json) list"

fun join :: "string \<Rightarrow> string list \<Rightarrow> string" where
  "join sep [] = []"
| "join sep [s] = s"
| "join sep (s # t # ss) = s @ sep @ join sep (t # ss)"

fun json_to_string :: "json \<Rightarrow> string" where
  "json_to_string J_null = ''null''"
| "json_to_string (J_bool b) = (if b then ''true'' else ''false'')"
| "json_to_string (J_num n) = double_to_string n"
| "json_to_string (J_str s) = ''\"'' @ s @ ''\"''"
| "json_to_string (J_arr js) = ''['' @ join '','' (map json_to_string js) @ '']''"
| "json_to_string (J_obj ms) = ''{'' @ join '','' (map (\<lambda>(k, j). ''\"'' @ k @ ''\":'' @ json_to_string j) ms) @ ''}''"

text \<open>\<open>parse\<close> wraps the text into a string node.\<close>

definition json_parse :: "string \<Rightarrow> json" where "json_parse str = J_str str"

definition json_eq :: "json \<Rightarrow> json \<Rightarrow> bool" where "json_eq a b \<longleftrightarrow> json_to_string a = json_to_string b"
definition json_less :: "json \<Rightarrow> json \<Rightarrow> bool" where "json_less a b \<longleftrightarrow> json_to_string a < json_to_string b"

fun json_type :: "json \<Rightarrow> string" where
  "json_type J_null = ''null''"
| "json_type (J_bool _) = ''boolean''"
| "json_type (J_num _) = ''number''"
| "json_type (J_str _) = ''string''"
| "json_type (J_arr _) = ''array''"
| "json_type (J_obj _) = ''object''"

text \<open>The loop of \<open>resolve_path_mut\<close> on the rest of the path.\<close>

definition path_key :: "string \<Rightarrow> string" where
  "path_key r = takeWhile (\<lambda>c. c \<noteq> CHR ''.'' \<and> c \<noteq> CHR ''['') r"

definition path_index :: "string \<Rightarrow> string" where
  "path_index r = takeWhile (\<lambda>c. c \<noteq> CHR '']'') r"

function resolve_from :: "json \<Rightarrow> string \<Rightarrow> json option" where
  "resolve_from j [] = Some j"
| "resolve_from j (c # r) =
     (if c = CHR ''.''
      then case j of
             J_obj ms \<Rightarrow> (case map_of ms (path_key r) of None \<Rightarrow> None | Some j' \<Rightarrow> resolve_from j' (drop (length (path_key r)) r))
           | _ \<Rightarrow> None
      else if c = CHR ''[''
      then if CHR '']'' \<notin> set r then None
           else case j of
                  J_arr js \<Rightarrow>
                    (case stoull (path_index r) of
                       None \<Rightarrow> None
                     | Some i \<Rightarrow> if unat i \<ge> length js then None
                                 else resolve_from (js ! unat i) (drop (length (path_index r) + 1) r))
                | _ \<Rightarrow> None
      else None)"
  by pat_completeness auto
termination by (relation "measure (\<lambda>(j, r). length r)") auto

definition resolve_path :: "json \<Rightarrow> string \<Rightarrow> json option" where
  "resolve_path j path = (if path = [] \<or> path = ''$'' then Some j else resolve_from j (tl path))"

text \<open>Overwriting the node that the path resolves to; \<open>None\<close> if there is none.\<close>

function replace_from :: "json \<Rightarrow> string \<Rightarrow> json \<Rightarrow> json option" where
  "replace_from j [] v = Some v"
| "replace_from j (c # r) v =
     (if c = CHR ''.''
      then case j of
             J_obj ms \<Rightarrow>
               (case map_of ms (path_key r) of
                  None \<Rightarrow> None
                | Some j' \<Rightarrow> map_option (\<lambda>x. J_obj (AList.update (path_key r) x ms)) (replace_from j' (drop (length (path_key r)) r) v))
           | _ \<Rightarrow> None
      else if c = CHR ''[''
      then if CHR '']'' \<notin> set r then None
           else case j of
                  J_arr js \<Rightarrow>
                    (case stoull (path_index r) of
                       None \<Rightarrow> None
                     | Some i \<Rightarrow> if unat i \<ge> length js then None
                                 else map_option (\<lambda>x. J_arr (js[unat i := x]))
                                        (replace_from (js ! unat i) (drop (length (path_index r) + 1) r) v))
                | _ \<Rightarrow> None
      else None)"
  by pat_completeness auto
termination by (relation "measure (\<lambda>(j, r, v). length r)") auto

definition json_get :: "string \<Rightarrow> json \<Rightarrow> json" where
  "json_get path j = (case resolve_path j path of None \<Rightarrow> J_null | Some n \<Rightarrow> n)"

definition json_set :: "string \<Rightarrow> json \<Rightarrow> json \<Rightarrow> json" where
  "json_set path v j =
     (if path = [] \<or> path = ''$'' then v else case replace_from j (tl path) v of None \<Rightarrow> j | Some j' \<Rightarrow> j')"

definition json_remove :: "string \<Rightarrow> json \<Rightarrow> json \<times> bool" where
  "json_remove path j = (j, False)"

definition json_contains :: "string \<Rightarrow> json \<Rightarrow> bool" where
  "json_contains path j \<longleftrightarrow> resolve_path j path \<noteq> None"

definition json_array_length :: "json \<Rightarrow> nat" where
  "json_array_length j = (case j of J_arr js \<Rightarrow> length js | _ \<Rightarrow> 0)"

definition json_keys :: "json \<Rightarrow> string list" where
  "json_keys j = (case j of J_obj ms \<Rightarrow> map fst ms | _ \<Rightarrow> [])"

section \<open>Values\<close>

text \<open>
  The alternatives of the variant in their order, and the value with its type and null flag. The type
  need not match the alternative, since the string constructor takes any type.
\<close>

datatype vdata =
    V_none | V_bool bool | V_i16 i16 | V_i32 i32 | V_i64 i64 | V_float u32 | V_double u64 | V_decimal decimal | V_string string
  | V_bytes bytes | V_date i32 | V_time i64 | V_timestamp i64 | V_interval interval | V_uuid uuid | V_json json
  | V_array type_id "sql_value list" | V_dict "(string \<times> sql_value) list" | V_enum u32 string
and sql_value = Value (v_type: type_id) (v_null: bool) (v_data: vdata)

definition null_value :: "type_id \<Rightarrow> sql_value" where "null_value t = Value t True V_none"
definition bool_value :: "bool \<Rightarrow> sql_value" where "bool_value b = Value Boolean_t False (V_bool b)"
definition i16_value :: "i16 \<Rightarrow> sql_value" where "i16_value x = Value SmallInt_t False (V_i16 x)"
definition i32_value :: "i32 \<Rightarrow> sql_value" where "i32_value x = Value Integer_t False (V_i32 x)"
definition i64_value :: "i64 \<Rightarrow> sql_value" where "i64_value x = Value BigInt_t False (V_i64 x)"
definition float_value :: "u32 \<Rightarrow> sql_value" where "float_value x = Value Real_t False (V_float x)"
definition double_value :: "u64 \<Rightarrow> sql_value" where "double_value x = Value Double_t False (V_double x)"
definition decimal_sql_value :: "decimal \<Rightarrow> sql_value" where "decimal_sql_value d = Value Numeric_t False (V_decimal d)"
definition string_value :: "string \<Rightarrow> type_id \<Rightarrow> sql_value" where "string_value s t = Value t False (V_string s)"
definition bytes_value :: "bytes \<Rightarrow> sql_value" where "bytes_value b = Value Bytea_t False (V_bytes b)"
definition date_value :: "i32 \<Rightarrow> sql_value" where "date_value d = Value Date_t False (V_date d)"
definition time_value :: "i64 \<Rightarrow> sql_value" where "time_value d = Value Time_t False (V_time d)"
definition timestamp_value :: "i64 \<Rightarrow> bool \<Rightarrow> sql_value" where
  "timestamp_value d with_tz = Value (if with_tz then TimestampTZ_t else Timestamp_t) False (V_timestamp d)"
definition interval_value :: "interval \<Rightarrow> sql_value" where "interval_value d = Value Interval_t False (V_interval d)"
definition uuid_value :: "uuid \<Rightarrow> sql_value" where "uuid_value u = Value UUID_t False (V_uuid u)"
definition json_value :: "json \<Rightarrow> sql_value" where "json_value j = Value JSON_t False (V_json j)"
definition array_value :: "type_id \<Rightarrow> sql_value list \<Rightarrow> sql_value" where "array_value t vs = Value Array_t False (V_array t vs)"
definition dict_value :: "(string \<times> sql_value) list \<Rightarrow> sql_value" where "dict_value es = Value DICT_t False (V_dict es)"
definition enum_value :: "u32 \<Rightarrow> string \<Rightarrow> sql_value" where "enum_value i l = Value Enum_t False (V_enum i l)"

lemmas value_constructors = null_value_def bool_value_def i16_value_def i32_value_def i64_value_def float_value_def double_value_def
  decimal_sql_value_def string_value_def bytes_value_def date_value_def time_value_def timestamp_value_def interval_value_def
  uuid_value_def json_value_def array_value_def dict_value_def enum_value_def

fun variant_index :: "vdata \<Rightarrow> nat" where
  "variant_index V_none = 0" | "variant_index (V_bool _) = 1" | "variant_index (V_i16 _) = 2" | "variant_index (V_i32 _) = 3"
| "variant_index (V_i64 _) = 4" | "variant_index (V_float _) = 5" | "variant_index (V_double _) = 6"
| "variant_index (V_decimal _) = 7" | "variant_index (V_string _) = 8" | "variant_index (V_bytes _) = 9"
| "variant_index (V_date _) = 10" | "variant_index (V_time _) = 11" | "variant_index (V_timestamp _) = 12"
| "variant_index (V_interval _) = 13" | "variant_index (V_uuid _) = 14" | "variant_index (V_json _) = 15"
| "variant_index (V_array _ _) = 16" | "variant_index (V_dict _) = 17" | "variant_index (V_enum _ _) = 18"

text \<open>
  \<open>std::variant\<close> comparison of the alternatives other than arrays and dictionaries, which a variant
  holds by pointer and the value operators treat separately.
\<close>

fun scalar_eq :: "vdata \<Rightarrow> vdata \<Rightarrow> bool" where
  "scalar_eq V_none y \<longleftrightarrow> y = V_none"
| "scalar_eq (V_bool a) y = (case y of V_bool b \<Rightarrow> a = b | _ \<Rightarrow> False)"
| "scalar_eq (V_i16 a) y = (case y of V_i16 b \<Rightarrow> a = b | _ \<Rightarrow> False)"
| "scalar_eq (V_i32 a) y = (case y of V_i32 b \<Rightarrow> a = b | _ \<Rightarrow> False)"
| "scalar_eq (V_i64 a) y = (case y of V_i64 b \<Rightarrow> a = b | _ \<Rightarrow> False)"
| "scalar_eq (V_float a) y = (case y of V_float b \<Rightarrow> float_eq a b | _ \<Rightarrow> False)"
| "scalar_eq (V_double a) y = (case y of V_double b \<Rightarrow> double_eq a b | _ \<Rightarrow> False)"
| "scalar_eq (V_decimal a) y = (case y of V_decimal b \<Rightarrow> decimal_eq a b | _ \<Rightarrow> False)"
| "scalar_eq (V_string a) y = (case y of V_string b \<Rightarrow> a = b | _ \<Rightarrow> False)"
| "scalar_eq (V_bytes a) y = (case y of V_bytes b \<Rightarrow> a = b | _ \<Rightarrow> False)"
| "scalar_eq (V_date a) y = (case y of V_date b \<Rightarrow> a = b | _ \<Rightarrow> False)"
| "scalar_eq (V_time a) y = (case y of V_time b \<Rightarrow> a = b | _ \<Rightarrow> False)"
| "scalar_eq (V_timestamp a) y = (case y of V_timestamp b \<Rightarrow> a = b | _ \<Rightarrow> False)"
| "scalar_eq (V_interval a) y = (case y of V_interval b \<Rightarrow> a = b | _ \<Rightarrow> False)"
| "scalar_eq (V_uuid a) y = (case y of V_uuid b \<Rightarrow> uuid_eq a b | _ \<Rightarrow> False)"
| "scalar_eq (V_json a) y = (case y of V_json b \<Rightarrow> json_eq a b | _ \<Rightarrow> False)"
| "scalar_eq (V_enum i a) y = (case y of V_enum j b \<Rightarrow> i = j \<and> a = b | _ \<Rightarrow> False)"
| "scalar_eq (V_array t vs) y = False"
| "scalar_eq (V_dict es) y = False"

fun scalar_less :: "vdata \<Rightarrow> vdata \<Rightarrow> bool" where
  "scalar_less (V_bool a) y = (case y of V_bool b \<Rightarrow> \<not> a \<and> b | _ \<Rightarrow> (variant_index (V_bool a) < variant_index y))"
| "scalar_less (V_i16 a) y = (case y of V_i16 b \<Rightarrow> sint a < sint b | _ \<Rightarrow> (variant_index (V_i16 a) < variant_index y))"
| "scalar_less (V_i32 a) y = (case y of V_i32 b \<Rightarrow> sint a < sint b | _ \<Rightarrow> (variant_index (V_i32 a) < variant_index y))"
| "scalar_less (V_i64 a) y = (case y of V_i64 b \<Rightarrow> sint a < sint b | _ \<Rightarrow> (variant_index (V_i64 a) < variant_index y))"
| "scalar_less (V_float a) y = (case y of V_float b \<Rightarrow> float_less a b | _ \<Rightarrow> (variant_index (V_float a) < variant_index y))"
| "scalar_less (V_double a) y = (case y of V_double b \<Rightarrow> double_less a b | _ \<Rightarrow> (variant_index (V_double a) < variant_index y))"
| "scalar_less (V_decimal a) y = (case y of V_decimal b \<Rightarrow> decimal_less a b | _ \<Rightarrow> (variant_index (V_decimal a) < variant_index y))"
| "scalar_less (V_string a) y = (case y of V_string b \<Rightarrow> a < b | _ \<Rightarrow> (variant_index (V_string a) < variant_index y))"
| "scalar_less (V_bytes a) y = (case y of V_bytes b \<Rightarrow> map unat a < map unat b | _ \<Rightarrow> (variant_index (V_bytes a) < variant_index y))"
| "scalar_less (V_date a) y = (case y of V_date b \<Rightarrow> sint a < sint b | _ \<Rightarrow> (variant_index (V_date a) < variant_index y))"
| "scalar_less (V_time a) y = (case y of V_time b \<Rightarrow> sint a < sint b | _ \<Rightarrow> (variant_index (V_time a) < variant_index y))"
| "scalar_less (V_timestamp a) y = (case y of V_timestamp b \<Rightarrow> sint a < sint b | _ \<Rightarrow> (variant_index (V_timestamp a) < variant_index y))"
| "scalar_less (V_interval a) y = (case y of V_interval b \<Rightarrow> interval_less a b | _ \<Rightarrow> (variant_index (V_interval a) < variant_index y))"
| "scalar_less (V_uuid a) y = (case y of V_uuid b \<Rightarrow> uuid_less a b | _ \<Rightarrow> (variant_index (V_uuid a) < variant_index y))"
| "scalar_less (V_json a) y = (case y of V_json b \<Rightarrow> json_less a b | _ \<Rightarrow> (variant_index (V_json a) < variant_index y))"
| "scalar_less (V_enum i a) y = (case y of V_enum j b \<Rightarrow> i < j \<or> i = j \<and> a < b | _ \<Rightarrow> (variant_index (V_enum i a) < variant_index y))"
| "scalar_less V_none y = (variant_index V_none < variant_index y)"
| "scalar_less (V_array t vs) y = (variant_index (V_array t vs) < variant_index y)"
| "scalar_less (V_dict es) y = (variant_index (V_dict es) < variant_index y)"

text \<open>
  \<open>operator==\<close> of \<open>Value\<close>, \<open>Array\<close> and \<open>Dict\<close>. A value of array or dictionary type always holds
  one, except through the string constructor; then \<open>get\<close> throws, and the model says unequal.
\<close>

fun value_eq :: "sql_value \<Rightarrow> sql_value \<Rightarrow> bool"
  and array_eq :: "sql_value list \<Rightarrow> sql_value list \<Rightarrow> bool"
  and dict_entries_eq :: "(string \<times> sql_value) list \<Rightarrow> (string \<times> sql_value) list \<Rightarrow> bool" where
  "value_eq (Value t n d) (Value t' n' d') =
     (if n \<and> n' then True
      else if n \<or> n' then False
      else if t \<noteq> t' then False
      else case d of
             V_array et vs \<Rightarrow> (case d' of V_array et' vs' \<Rightarrow> et = et' \<and> length vs = length vs' \<and> array_eq vs vs' | _ \<Rightarrow> False)
           | V_dict es \<Rightarrow> (case d' of V_dict es' \<Rightarrow> length es = length es' \<and> dict_entries_eq es es' | _ \<Rightarrow> False)
           | _ \<Rightarrow> scalar_eq d d')"
| "array_eq [] ws = True"
| "array_eq (v # vs) ws = (case ws of [] \<Rightarrow> False | w # ws \<Rightarrow> value_eq v w \<and> array_eq vs ws)"
| "dict_entries_eq [] fs = True"
| "dict_entries_eq ((k, v) # es) fs =
     (case map_of fs k of None \<Rightarrow> False | Some w \<Rightarrow> value_eq v w \<and> dict_entries_eq es fs)"

definition value_less :: "sql_value \<Rightarrow> sql_value \<Rightarrow> bool" where
  "value_less a b =
     (if v_null a \<and> v_null b then False
      else if v_null a then True
      else if v_null b then False
      else if v_type a \<noteq> v_type b then type_index (v_type a) < type_index (v_type b)
      else if v_type a = Array_t \<or> v_type a = DICT_t then False
      else scalar_less (v_data a) (v_data b))"

fun value_to_string :: "sql_value \<Rightarrow> string" and data_to_string :: "vdata \<Rightarrow> string" where
  "value_to_string (Value t n d) = (if n then ''NULL'' else data_to_string d)"
| "data_to_string V_none = ''NULL''"
| "data_to_string (V_bool b) = (if b then ''true'' else ''false'')"
| "data_to_string (V_i16 x) = int_to_string (sint x)"
| "data_to_string (V_i32 x) = int_to_string (sint x)"
| "data_to_string (V_i64 x) = int_to_string (sint x)"
| "data_to_string (V_float x) = float_to_string x"
| "data_to_string (V_double x) = double_to_string x"
| "data_to_string (V_decimal d) = decimal_to_string d"
| "data_to_string (V_string s) = s"
| "data_to_string (V_bytes b) = CHR 0x5C # CHR ''x'' # concat (map hex_byte b)"
| "data_to_string (V_date d) = date_to_string d"
| "data_to_string (V_time d) = time_to_string d"
| "data_to_string (V_timestamp d) = timestamp_to_string d"
| "data_to_string (V_interval d) = interval_to_string d"
| "data_to_string (V_uuid u) = uuid_to_string u"
| "data_to_string (V_json j) = json_to_string j"
| "data_to_string (V_array t vs) = ''['' @ join '', '' (map value_to_string vs) @ '']''"
| "data_to_string (V_dict es) =
     (if es = [] then ''{}''
      else ''{'' @ join '', '' (map (\<lambda>(k, s). ''\"'' @ k @ ''\": '' @ s) (sort_key fst (map (\<lambda>(k, v). (k, value_to_string v)) es))) @ ''}'')"
| "data_to_string (V_enum i l) = l"

section \<open>Arrays and dictionaries\<close>

definition array_push_back :: "'a \<Rightarrow> 'a list \<Rightarrow> 'a list" where "array_push_back v vs = vs @ [v]"
definition array_append :: "'a \<Rightarrow> 'a list \<Rightarrow> 'a list" where "array_append v vs = array_push_back v vs"
definition array_prepend :: "'a \<Rightarrow> 'a list \<Rightarrow> 'a list" where "array_prepend v vs = v # vs"

definition array_at :: "nat \<Rightarrow> 'a list \<Rightarrow> exn + 'a" where
  "array_at i vs = (if i < length vs then Inr (vs ! i) else Inl (out_of_range ''vector''))"

definition array_get :: "nat \<Rightarrow> 'a list \<Rightarrow> exn + 'a" where "array_get i vs = array_at i vs"

definition array_set :: "nat \<Rightarrow> 'a \<Rightarrow> 'a list \<Rightarrow> exn + 'a list" where
  "array_set i v vs = (if i < length vs then Inr (vs[i := v]) else Inl (out_of_range ''vector''))"

definition array_pop :: "'a list \<Rightarrow> exn + 'a \<times> 'a list" where
  "array_pop vs = (if vs = [] then Inl (out_of_range ''Array is empty'') else Inr (last vs, butlast vs))"

definition array_remove :: "nat \<Rightarrow> 'a list \<Rightarrow> exn + 'a list" where
  "array_remove i vs = (if i \<ge> length vs then Inl (out_of_range ''Index out of bounds'') else Inr (take i vs @ drop (Suc i) vs))"

definition array_clear :: "'a list \<Rightarrow> 'a list" where "array_clear vs = []"

definition array_contains :: "sql_value \<Rightarrow> sql_value list \<Rightarrow> bool" where
  "array_contains v vs = list_ex (\<lambda>e. value_eq e v) vs"

definition array_slice :: "nat \<Rightarrow> nat \<Rightarrow> 'a list \<Rightarrow> 'a list" where
  "array_slice start stop vs =
     (if start \<ge> length vs then []
      else let actual_end = min stop (length vs) in if start \<ge> actual_end then [] else map (\<lambda>i. vs ! i) [start..<actual_end])"

definition dict_contains :: "string \<Rightarrow> (string \<times> 'a) list \<Rightarrow> bool" where "dict_contains k es \<longleftrightarrow> map_of es k \<noteq> None"
definition dict_get :: "string \<Rightarrow> (string \<times> 'a) list \<Rightarrow> 'a option" where "dict_get k es = map_of es k"
definition dict_set :: "string \<Rightarrow> 'a \<Rightarrow> (string \<times> 'a) list \<Rightarrow> (string \<times> 'a) list" where "dict_set k v es = AList.update k v es"

definition dict_remove :: "string \<Rightarrow> (string \<times> 'a) list \<Rightarrow> (string \<times> 'a) list \<times> bool" where
  "dict_remove k es = (AList.delete k es, dict_contains k es)"

definition dict_clear :: "(string \<times> 'a) list \<Rightarrow> (string \<times> 'a) list" where "dict_clear es = []"
definition dict_keys :: "(string \<times> 'a) list \<Rightarrow> string list" where "dict_keys es = map fst es"

section \<open>Comparison, hashing and casts\<close>

definition cmp_equal :: "sql_value \<Rightarrow> sql_value \<Rightarrow> bool" where "cmp_equal a b = value_eq a b"
definition cmp_not_equal :: "sql_value \<Rightarrow> sql_value \<Rightarrow> bool" where "cmp_not_equal a b = (\<not> cmp_equal a b)"
definition cmp_less :: "sql_value \<Rightarrow> sql_value \<Rightarrow> bool" where "cmp_less a b = value_less a b"
definition cmp_less_or_equal :: "sql_value \<Rightarrow> sql_value \<Rightarrow> bool" where "cmp_less_or_equal a b = (cmp_less a b \<or> cmp_equal a b)"
definition cmp_greater :: "sql_value \<Rightarrow> sql_value \<Rightarrow> bool" where "cmp_greater a b = (\<not> cmp_less_or_equal a b)"
definition cmp_greater_or_equal :: "sql_value \<Rightarrow> sql_value \<Rightarrow> bool" where "cmp_greater_or_equal a b = (\<not> cmp_less a b)"

text \<open>The instances of \<open>std::hash\<close>, which the standard library chooses.\<close>

record std_hash =
  sh_bool :: "bool \<Rightarrow> u64"
  sh_i16 :: "i16 \<Rightarrow> u64"
  sh_i32 :: "i32 \<Rightarrow> u64"
  sh_i64 :: "i64 \<Rightarrow> u64"
  sh_u8 :: "u8 \<Rightarrow> u64"
  sh_u64 :: "u64 \<Rightarrow> u64"
  sh_float :: "u32 \<Rightarrow> u64"
  sh_double :: "u64 \<Rightarrow> u64"
  sh_string :: "string \<Rightarrow> u64"

text \<open>A value whose type does not match its alternative makes \<open>get\<close> throw inside a \<open>noexcept\<close> function.\<close>

definition type_hash :: "std_hash \<Rightarrow> sql_value \<Rightarrow> exn + u64" where
  "type_hash h v =
     (if v_null v then Inr 0
      else case (v_type v, v_data v) of
             (Boolean_t, V_bool x) \<Rightarrow> Inr (sh_bool h x)
           | (SmallInt_t, V_i16 x) \<Rightarrow> Inr (sh_i16 h x)
           | (Integer_t, V_i32 x) \<Rightarrow> Inr (sh_i32 h x)
           | (BigInt_t, V_i64 x) \<Rightarrow> Inr (sh_i64 h x)
           | (Real_t, V_float x) \<Rightarrow> Inr (sh_float h x)
           | (Double_t, V_double x) \<Rightarrow> Inr (sh_double h x)
           | (Numeric_t, V_decimal d) \<Rightarrow> Inr (sh_i64 h (dec_coefficient d) XOR push_bit 1 (sh_u8 h (dec_scale d)))
           | (Char_t, V_string s) \<Rightarrow> Inr (sh_string h s)
           | (VarChar_t, V_string s) \<Rightarrow> Inr (sh_string h s)
           | (Text_t, V_string s) \<Rightarrow> Inr (sh_string h s)
           | (Bytea_t, V_bytes bs) \<Rightarrow>
               Inr (foldl (\<lambda>a b. a XOR (sh_u8 h b + 0x9e3779b9 + push_bit 6 a + drop_bit 2 a)) 0 bs)
           | (Date_t, V_date d) \<Rightarrow> Inr (sh_i32 h d)
           | (Time_t, V_time d) \<Rightarrow> Inr (sh_i64 h d)
           | (Timestamp_t, V_timestamp d) \<Rightarrow> Inr (sh_i64 h d)
           | (TimestampTZ_t, V_timestamp d) \<Rightarrow> Inr (sh_i64 h d)
           | (Interval_t, V_interval iv) \<Rightarrow>
               Inr (sh_i32 h (iv_months iv) XOR push_bit 1 (sh_i32 h (iv_days iv)) XOR push_bit 2 (sh_i64 h (iv_micros iv)))
           | (UUID_t, V_uuid u) \<Rightarrow> Inr (uuid_hash (sh_u64 h) u)
           | (JSON_t, V_json j) \<Rightarrow> Inr (sh_string h (json_to_string j))
           | (Array_t, V_array t vs) \<Rightarrow> Inr (sh_string h (data_to_string (V_array t vs)))
           | (DICT_t, V_dict es) \<Rightarrow> Inr (sh_string h (data_to_string (V_dict es)))
           | (Enum_t, _) \<Rightarrow> Inr 0
           | (Null_t, _) \<Rightarrow> Inr 0
           | (Invalid_t, _) \<Rightarrow> Inr 0
           | _ \<Rightarrow> Inl bad_variant_access)"

text \<open>\<open>cast\<close>; \<open>std::stod\<close>, whose result depends on the locale, is a parameter. Exceptions while parsing give \<open>None\<close>.\<close>

definition is_text :: "type_id \<Rightarrow> bool" where
  "is_text t \<longleftrightarrow> t = Text_t \<or> t = VarChar_t \<or> t = Char_t"

definition type_cast :: "(string \<Rightarrow> u64 option) \<Rightarrow> sql_value \<Rightarrow> type_id \<Rightarrow> exn + sql_value option" where
  "type_cast stod v target =
     (if v_null v then Inr (Some (null_value target))
      else if v_type v = target then Inr (Some v)
      else if target = BigInt_t \<and> v_type v = Integer_t
      then (case v_data v of V_i32 x \<Rightarrow> Inr (Some (i64_value (scast x))) | _ \<Rightarrow> Inl bad_variant_access)
      else if target = BigInt_t \<and> v_type v = SmallInt_t
      then (case v_data v of V_i16 x \<Rightarrow> Inr (Some (i64_value (scast x))) | _ \<Rightarrow> Inl bad_variant_access)
      else if target = BigInt_t \<and> v_type v = Double_t
      then (case v_data v of V_double x \<Rightarrow> Inr (Some (i64_value (double_to_int64 x))) | _ \<Rightarrow> Inl bad_variant_access)
      else if target = Integer_t \<and> v_type v = BigInt_t
      then (case v_data v of
              V_i64 x \<Rightarrow> if sint x > 2 ^ 31 - 1 \<or> sint x < - (2 ^ 31) then Inr None else Inr (Some (i32_value (scast x)))
            | _ \<Rightarrow> Inl bad_variant_access)
      else if target = Double_t \<and> v_type v = Integer_t
      then (case v_data v of V_i32 x \<Rightarrow> Inr (Some (double_value (int_to_double (sint x)))) | _ \<Rightarrow> Inl bad_variant_access)
      else if target = Double_t \<and> v_type v = BigInt_t
      then (case v_data v of V_i64 x \<Rightarrow> Inr (Some (double_value (int_to_double (sint x)))) | _ \<Rightarrow> Inl bad_variant_access)
      else if is_text (v_type v) \<and> (case v_data v of V_string _ \<Rightarrow> False | _ \<Rightarrow> True)
      then Inl bad_variant_access
      else if is_text (v_type v) \<and> target = Integer_t
      then Inr (map_option i32_value (stoi (data_to_string (v_data v))))
      else if is_text (v_type v) \<and> target = BigInt_t
      then Inr (map_option i64_value (stoll (data_to_string (v_data v))))
      else if is_text (v_type v) \<and> target = Double_t
      then Inr (map_option double_value (stod (data_to_string (v_data v))))
      else if is_text (v_type v) \<and> target = UUID_t
      then Inr (map_option uuid_value (uuid_from_string (data_to_string (v_data v))))
      else if is_text target then Inr (Some (string_value (value_to_string v) target))
      else Inr None)"

section \<open>Printing and reading a UUID\<close>

lemma hex_byte_scan:
  "i \<noteq> 8 \<Longrightarrow> i \<noteq> 13 \<Longrightarrow> i \<noteq> 18 \<Longrightarrow> i \<noteq> 23 \<Longrightarrow> uuid_scan i (hex_byte b @ str) bytes = uuid_scan (i + 2) str (bytes @ [b])"
proof -
  have lt: "unat b div 16 < 16" "unat b mod 16 < 16" using unsigned_less [of b, where 'a = nat] by simp_all
  have "push_bit 4 (of_nat (unat b div 16)) OR of_nat (unat b mod 16) = b"
  proof -
    have "b = push_bit 4 (drop_bit 4 b) OR take_bit 4 b"
      by (rule bit_word_eqI) (auto simp: bit_simps)
    moreover have "drop_bit 4 b = of_nat (unat b div 16)" "take_bit 4 b = of_nat (unat b mod 16)"
      using lt by (simp_all add: word_unat_eq_iff drop_bit_eq_div take_bit_eq_mod unat_div_distrib unat_mod_distrib unat_of_nat)
    ultimately show ?thesis by simp
  qed
  then show "i \<noteq> 8 \<Longrightarrow> i \<noteq> 13 \<Longrightarrow> i \<noteq> 18 \<Longrightarrow> i \<noteq> 23 \<Longrightarrow> uuid_scan i (hex_byte b @ str) bytes = uuid_scan (i + 2) str (bytes @ [b])"
    using lt by (simp add: hex_byte_def hex_to_val_digit)
qed

lemma uuid_roundtrip_aux:
  assumes "length u = 16"
  shows "uuid_from_string (uuid_to_string u) = Some u"
proof -
  obtain b0 b1 b2 b3 b4 b5 b6 b7 b8 b9 b10 b11 b12 b13 b14 b15 where
    u: "u = [b0, b1, b2, b3, b4, b5, b6, b7, b8, b9, b10, b11, b12, b13, b14, b15]"
    using assms by (auto simp: length_Suc_conv eval_nat_numeral)
  have len: "length (hex_byte b) = 2" for b by (simp add: hex_byte_def)
  have dash: "uuid_scan i (CHR ''-'' # str) bytes = uuid_scan (i + 1) str bytes" if "i \<in> {8, 13, 18, 23}" for i str bytes
    using that by auto
  have "uuid_scan 0 (uuid_to_string u) [] = Some u"
    unfolding u uuid_to_string_def by (simp add: hex_byte_scan hex_byte_scan [where str = "[]", simplified] dash)
  moreover have "length (uuid_to_string u) = 36" by (simp add: u uuid_to_string_def len)
  ultimately show ?thesis using assms by (simp add: uuid_from_string_def)
qed

end
