(* ===== verification/Value_Codec.thy ===== *)
theory Value_Codec
  imports Sql_Value
begin

text \<open>
  \<open>type_serializer.hpp/.cpp\<close>: the byte format of values. A null value has no bytes. Element bytes of
  arrays and dictionaries are preceded by the element's type and length; dictionaries are written in
  the order of their keys.
\<close>

definition byte_of_char :: "char \<Rightarrow> byte" where "byte_of_char c = of_nat (of_char c)"
definition char_of_byte :: "byte \<Rightarrow> char" where "char_of_byte b = char_of (unat b)"

lemma char_of_byte_of_char [simp]: "char_of_byte (byte_of_char c) = c"
proof -
  have "(of_char c :: nat) < 256" by simp
  then have "unat (byte_of_char c) = of_char c" unfolding byte_of_char_def by (intro unat_of_nat_fits) simp
  then show ?thesis by (simp add: char_of_byte_def)
qed

definition string_bytes :: "string \<Rightarrow> bytes" where "string_bytes s = map byte_of_char s"
definition bytes_string :: "bytes \<Rightarrow> string" where "bytes_string b = map char_of_byte b"

lemma bytes_string_bytes [simp]: "bytes_string (string_bytes s) = s"
  by (simp add: bytes_string_def string_bytes_def o_def)

lemma length_string_bytes [simp]: "length (string_bytes s) = length s"
  by (simp add: string_bytes_def)

section \<open>Writing\<close>

text \<open>What happens when the type does not match the alternative, or is not implemented.\<close>

definition serialize_error :: "type_id \<Rightarrow> exn" where
  "serialize_error t =
     (if t = Enum_t \<or> t = Null_t \<or> t = Invalid_t
      then runtime_error ''Serialization not fully implemented for this type in V1'' else bad_variant_access)"

definition element_bytes :: "u16 \<Rightarrow> bytes \<Rightarrow> bytes" where
  "element_bytes tid b = le_bytes 2 tid @ le_bytes 4 (of_nat (length b) :: u32) @ b"

definition key_bytes :: "string \<Rightarrow> bytes" where
  "key_bytes k = le_bytes 4 (of_nat (length k) :: u32) @ string_bytes k"

fun join_entries :: "(string \<times> u16 \<times> (exn + bytes)) list \<Rightarrow> exn + bytes" where
  "join_entries [] = Inr []"
| "join_entries ((k, tid, r) # es) =
     (case r of
        Inl e \<Rightarrow> Inl e
      | Inr b \<Rightarrow> (case join_entries es of Inl e \<Rightarrow> Inl e | Inr bs \<Rightarrow> Inr (key_bytes k @ element_bytes tid b @ bs)))"

fun serialize :: "sql_value \<Rightarrow> exn + bytes"
  and serialize_elements :: "sql_value list \<Rightarrow> exn + bytes"
  and serialize_entries :: "(string \<times> sql_value) list \<Rightarrow> (string \<times> u16 \<times> (exn + bytes)) list" where
  "serialize (Value t n d) =
     (if n then Inr []
      else case d of
             V_none \<Rightarrow> Inl (serialize_error t)
           | V_bool b \<Rightarrow> if t = Boolean_t then Inr [if b then 1 else 0] else Inl (serialize_error t)
           | V_i16 x \<Rightarrow> if t = SmallInt_t then Inr (le_bytes 2 x) else Inl (serialize_error t)
           | V_i32 x \<Rightarrow> if t = Integer_t then Inr (le_bytes 4 x) else Inl (serialize_error t)
           | V_i64 x \<Rightarrow> if t = BigInt_t then Inr (le_bytes 8 x) else Inl (serialize_error t)
           | V_float x \<Rightarrow> if t = Real_t then Inr (le_bytes 4 x) else Inl (serialize_error t)
           | V_double x \<Rightarrow> if t = Double_t then Inr (le_bytes 8 x) else Inl (serialize_error t)
           | V_decimal x \<Rightarrow> if t = Numeric_t then Inr (le_bytes 8 (dec_coefficient x) @ [dec_scale x]) else Inl (serialize_error t)
           | V_string s \<Rightarrow> if is_text t then Inr (string_bytes s) else Inl (serialize_error t)
           | V_bytes b \<Rightarrow> if t = Bytea_t then Inr b else Inl (serialize_error t)
           | V_date x \<Rightarrow> if t = Date_t then Inr (le_bytes 4 x) else Inl (serialize_error t)
           | V_time x \<Rightarrow> if t = Time_t then Inr (le_bytes 8 x) else Inl (serialize_error t)
           | V_timestamp x \<Rightarrow> if t = Timestamp_t \<or> t = TimestampTZ_t then Inr (le_bytes 8 x) else Inl (serialize_error t)
           | V_interval x \<Rightarrow>
               if t = Interval_t then Inr (le_bytes 4 (iv_months x) @ le_bytes 4 (iv_days x) @ le_bytes 8 (iv_micros x))
               else Inl (serialize_error t)
           | V_uuid u \<Rightarrow> if t = UUID_t then Inr u else Inl (serialize_error t)
           | V_json j \<Rightarrow> if t = JSON_t then Inr (string_bytes (json_to_string j)) else Inl (serialize_error t)
           | V_array et vs \<Rightarrow>
               if t = Array_t
               then (case serialize_elements vs of Inl e \<Rightarrow> Inl e | Inr bs \<Rightarrow> Inr (le_bytes 4 (of_nat (length vs) :: u32) @ bs))
               else Inl (serialize_error t)
           | V_dict es \<Rightarrow>
               if t = DICT_t
               then (case join_entries (sort_key fst (serialize_entries es)) of
                       Inl e \<Rightarrow> Inl e
                     | Inr bs \<Rightarrow> Inr (le_bytes 4 (of_nat (length es) :: u32) @ bs))
               else Inl (serialize_error t)
           | V_enum i l \<Rightarrow> Inl (serialize_error t))"
| "serialize_elements [] = Inr []"
| "serialize_elements (v # vs) =
     (case serialize v of
        Inl e \<Rightarrow> Inl e
      | Inr b \<Rightarrow> (case serialize_elements vs of Inl e \<Rightarrow> Inl e | Inr bs \<Rightarrow> Inr (element_bytes (type_code (v_type v)) b @ bs)))"
| "serialize_entries [] = []"
| "serialize_entries ((k, v) # es) = (k, type_code (v_type v), serialize v) # serialize_entries es"

section \<open>Reading\<close>

definition too_small :: "string \<Rightarrow> exn + 'a" where
  "too_small what = Inl (runtime_error (''Buffer too small'' @ what))"

definition read_fixed :: "nat \<Rightarrow> bytes \<Rightarrow> (bytes \<Rightarrow> sql_value) \<Rightarrow> exn + sql_value" where
  "read_fixed n b f = (if length b < n then too_small [] else Inr (f b))"

function deserialize :: "bytes \<Rightarrow> type_id \<Rightarrow> exn + sql_value"
  and read_elements :: "nat \<Rightarrow> bytes \<Rightarrow> exn + sql_value list"
  and read_entries :: "nat \<Rightarrow> bytes \<Rightarrow> (string \<times> sql_value) list \<Rightarrow> exn + (string \<times> sql_value) list" where
  "deserialize b t =
     (case t of
        Boolean_t \<Rightarrow> read_fixed 1 b (\<lambda>b. bool_value (b ! 0 \<noteq> 0))
      | SmallInt_t \<Rightarrow> read_fixed 2 b (\<lambda>b. i16_value (le_word (take 2 b)))
      | Integer_t \<Rightarrow> read_fixed 4 b (\<lambda>b. i32_value (le_word (take 4 b)))
      | BigInt_t \<Rightarrow> read_fixed 8 b (\<lambda>b. i64_value (le_word (take 8 b)))
      | Real_t \<Rightarrow> read_fixed 4 b (\<lambda>b. float_value (le_word (take 4 b)))
      | Double_t \<Rightarrow> read_fixed 8 b (\<lambda>b. double_value (le_word (take 8 b)))
      | Numeric_t \<Rightarrow> read_fixed 9 b (\<lambda>b. decimal_sql_value \<lparr>dec_coefficient = le_word (take 8 b), dec_scale = b ! 8\<rparr>)
      | Char_t \<Rightarrow> Inr (string_value (bytes_string b) t)
      | VarChar_t \<Rightarrow> Inr (string_value (bytes_string b) t)
      | Text_t \<Rightarrow> Inr (string_value (bytes_string b) t)
      | Bytea_t \<Rightarrow> Inr (bytes_value b)
      | Date_t \<Rightarrow> read_fixed 4 b (\<lambda>b. date_value (le_word (take 4 b)))
      | Time_t \<Rightarrow> read_fixed 8 b (\<lambda>b. time_value (le_word (take 8 b)))
      | Timestamp_t \<Rightarrow> read_fixed 8 b (\<lambda>b. timestamp_value (le_word (take 8 b)) False)
      | TimestampTZ_t \<Rightarrow> read_fixed 8 b (\<lambda>b. timestamp_value (le_word (take 8 b)) False)
      | Interval_t \<Rightarrow>
          read_fixed 16 b (\<lambda>b. interval_value \<lparr>iv_months = le_word (take 4 b), iv_days = le_word (bslice 4 4 b),
            iv_micros = le_word (bslice 8 8 b)\<rparr>)
      | UUID_t \<Rightarrow> read_fixed 16 b (\<lambda>b. uuid_value (take 16 b))
      | JSON_t \<Rightarrow> Inr (json_value (json_parse (bytes_string b)))
      | Array_t \<Rightarrow>
          if length b < 4 then too_small '' for Array''
          else (case read_elements (unat (le_word (take 4 b) :: u32)) (drop 4 b) of
                  Inl e \<Rightarrow> Inl e
                | Inr vs \<Rightarrow> Inr (array_value Invalid_t vs))
      | DICT_t \<Rightarrow>
          if length b < 4 then too_small '' for Dict''
          else (case read_entries (unat (le_word (take 4 b) :: u32)) (drop 4 b) [] of
                  Inl e \<Rightarrow> Inl e
                | Inr es \<Rightarrow> Inr (dict_value es))
      | _ \<Rightarrow> Inl (runtime_error ''Deserialization not fully implemented for this type in V1''))"
| "read_elements 0 r = Inr []"
| "read_elements (Suc n) r =
     (if length r < 2 then too_small '' for Array elem type''
      else if length r < 6 then too_small '' for Array element size''
      else
        let tid = (le_word (take 2 r) :: u16); elem_size = unat (le_word (bslice 2 4 r) :: u32) in
        if length r < 6 + elem_size then too_small '' for Array element''
        else case type_of_code tid of
               None \<Rightarrow> Inl (runtime_error ''Deserialization not fully implemented for this type in V1'')
             | Some t \<Rightarrow>
                 (case deserialize (bslice 6 elem_size r) t of
                    Inl e \<Rightarrow> Inl e
                  | Inr v \<Rightarrow>
                      (case read_elements n (drop (6 + elem_size) r) of Inl e \<Rightarrow> Inl e | Inr vs \<Rightarrow> Inr (v # vs))))"
| "read_entries 0 r es = Inr es"
| "read_entries (Suc n) r es =
     (if length r < 4 then too_small '' for Dict key size''
      else
        let k_size = unat (le_word (take 4 r) :: u32) in
        if length r < 4 + k_size then too_small '' for Dict key''
        else
          let k = bytes_string (bslice 4 k_size r); q = drop (4 + k_size) r in
          if length q < 2 then too_small '' for Dict elem type''
          else if length q < 6 then too_small '' for Dict element size''
          else
            let tid = (le_word (take 2 q) :: u16); elem_size = unat (le_word (bslice 2 4 q) :: u32) in
            if length q < 6 + elem_size then too_small '' for Dict element''
            else case type_of_code tid of
                   None \<Rightarrow> Inl (runtime_error ''Deserialization not fully implemented for this type in V1'')
                 | Some t \<Rightarrow>
                     (case deserialize (bslice 6 elem_size q) t of
                        Inl e \<Rightarrow> Inl e
                      | Inr v \<Rightarrow> read_entries n (drop (6 + elem_size) q) (dict_set k v es)))"
  by pat_completeness auto
termination
  by (relation "measure (\<lambda>x. case x of Inl (b, t) \<Rightarrow> 2 * length b + 1 | Inr (Inl (n, r)) \<Rightarrow> 2 * length r | Inr (Inr (n, r, es)) \<Rightarrow> 2 * length r)")
    auto

declare serialize.simps [simp del] deserialize.simps [simp del]

section \<open>Reading what was written\<close>

lemma serialize_entries_map: "serialize_entries es = map (\<lambda>(k, v). (k, type_code (v_type v), serialize v)) es"
  by (induction es) auto

text \<open>
  Values whose type matches their contents and is implemented, whose elements are not null, and
  whose element counts and sizes fit 32 bits.
\<close>

definition fits32 :: "'a list \<Rightarrow> bool" where "fits32 xs \<longleftrightarrow> length xs < 2 ^ 32"

fun storable :: "sql_value \<Rightarrow> bool" where
  "storable (Value t n d) \<longleftrightarrow> \<not> n \<and>
     (case d of
        V_none \<Rightarrow> False
      | V_bool _ \<Rightarrow> t = Boolean_t
      | V_i16 _ \<Rightarrow> t = SmallInt_t
      | V_i32 _ \<Rightarrow> t = Integer_t
      | V_i64 _ \<Rightarrow> t = BigInt_t
      | V_float _ \<Rightarrow> t = Real_t
      | V_double _ \<Rightarrow> t = Double_t
      | V_decimal _ \<Rightarrow> t = Numeric_t
      | V_string _ \<Rightarrow> is_text t
      | V_bytes _ \<Rightarrow> t = Bytea_t
      | V_date _ \<Rightarrow> t = Date_t
      | V_time _ \<Rightarrow> t = Time_t
      | V_timestamp _ \<Rightarrow> t = Timestamp_t \<or> t = TimestampTZ_t
      | V_interval _ \<Rightarrow> t = Interval_t
      | V_uuid u \<Rightarrow> t = UUID_t \<and> length u = 16
      | V_json _ \<Rightarrow> t = JSON_t
      | V_array _ vs \<Rightarrow> t = Array_t \<and> fits32 vs \<and>
          (\<forall>v\<in>set vs. storable v \<and> (case serialize v of Inr b \<Rightarrow> fits32 b | Inl _ \<Rightarrow> False))
      | V_dict es \<Rightarrow> t = DICT_t \<and> fits32 es \<and> distinct (map fst es) \<and>
          (\<forall>e\<in>set es. fits32 (fst e) \<and> storable (snd e) \<and> (case serialize (snd e) of Inr b \<Rightarrow> fits32 b | Inl _ \<Rightarrow> False))
      | V_enum _ _ \<Rightarrow> False)"

text \<open>
  What reading a stored value gives: time zones and element types of arrays are lost, JSON has become
  its text, and dictionaries are in key order.
\<close>

fun restored :: "sql_value \<Rightarrow> sql_value" where
  "restored (Value t n d) = Value (if t = TimestampTZ_t then Timestamp_t else t) n
     (case d of
        V_array _ vs \<Rightarrow> V_array Invalid_t (map restored vs)
      | V_dict es \<Rightarrow> V_dict (sort_key fst (map (\<lambda>(k, v). (k, restored v)) es))
      | V_json j \<Rightarrow> V_json (J_str (json_to_string j))
      | _ \<Rightarrow> d)"

lemma unat_length32: "fits32 xs \<Longrightarrow> unat (of_nat (length xs) :: u32) = length xs"
  unfolding fits32_def by (intro unat_of_nat_fits) simp

lemma element_fields:
  assumes "fits32 b"
  shows "le_word (take 2 (element_bytes tid b @ r)) = tid" "unat (le_word (bslice 2 4 (element_bytes tid b @ r)) :: u32) = length b"
    "bslice 6 (length b) (element_bytes tid b @ r) = b" "drop (6 + length b) (element_bytes tid b @ r) = r"
    "length (element_bytes tid b @ r) = 6 + length b + length r"
  using unat_length32 [OF assms] by (simp_all add: element_bytes_def bslice_def)

lemma key_fields:
  assumes "fits32 k"
  shows "unat (le_word (take 4 (key_bytes k @ r)) :: u32) = length k" "bslice 4 (length k) (key_bytes k @ r) = string_bytes k"
    "drop (4 + length k) (key_bytes k @ r) = r" "length (key_bytes k @ r) = 4 + length k + length r"
  using unat_length32 [OF assms] by (simp_all add: key_bytes_def bslice_def)

definition codec :: "sql_value \<Rightarrow> bool" where
  "codec v \<longleftrightarrow> (\<exists>b. serialize v = Inr b \<and> fits32 b \<and> deserialize b (v_type v) = Inr (restored v))"

lemma read_elements_written:
  assumes "\<And>v. v \<in> set vs \<Longrightarrow> codec v"
  shows "\<exists>bs. serialize_elements vs = Inr bs \<and> read_elements (length vs) bs = Inr (map restored vs)"
  using assms
proof (induction vs)
  case Nil
  then show ?case by (simp add: serialize.simps deserialize.simps)
next
  case (Cons v vs)
  obtain b where b: "serialize v = Inr b" "fits32 b" "deserialize b (v_type v) = Inr (restored v)" using Cons.prems [of v] by (auto simp: codec_def)
  obtain bs where bs: "serialize_elements vs = Inr bs" "read_elements (length vs) bs = Inr (map restored vs)" using Cons by auto
  define q where "q = element_bytes (type_code (v_type v)) b @ bs"
  note F = element_fields [OF b(2), of "type_code (v_type v)" bs, folded q_def]
  have "read_elements (Suc (length vs)) q = Inr (restored v # map restored vs)"
    by (simp add: F b(3) bs(2) Let_def)
  then show ?case using b(1) bs(1) by (simp add: q_def)
qed

lemma read_entries_written:
  assumes "\<And>k v. (k, v) \<in> set es \<Longrightarrow> fits32 k \<and> codec v"
  shows "\<exists>bs. join_entries (map (\<lambda>(k, v). (k, type_code (v_type v), serialize v)) es) = Inr bs \<and>
    (\<forall>acc. read_entries (length es) bs acc = Inr (fold (\<lambda>(k, v). dict_set k (restored v)) es acc))"
  using assms
proof (induction es)
  case Nil
  then show ?case by (simp add: deserialize.simps)
next
  case (Cons e es)
  obtain k v where e: "e = (k, v)" by (cases e)
  have k: "fits32 k" using Cons.prems e by auto
  obtain b where b: "serialize v = Inr b" "fits32 b" "deserialize b (v_type v) = Inr (restored v)"
    using Cons.prems [of k v] e by (auto simp: codec_def)
  obtain bs where bs: "join_entries (map (\<lambda>(k, v). (k, type_code (v_type v), serialize v)) es) = Inr bs"
    "\<And>acc. read_entries (length es) bs acc = Inr (fold (\<lambda>(k, v). dict_set k (restored v)) es acc)" using Cons by auto
  define q where "q = element_bytes (type_code (v_type v)) b @ bs"
  define r where "r = key_bytes k @ q"
  note F = element_fields [OF b(2), of "type_code (v_type v)" bs, folded q_def]
  note K = key_fields [OF k, of q, folded r_def]
  have "read_entries (Suc (length es)) r acc =
    Inr (fold (\<lambda>(k, v). dict_set k (restored v)) es (dict_set k (restored v) acc))" for acc
    by (simp add: K F b(3) bs(2) Let_def)
  then show ?case using b(1) bs(1) e by (simp add: r_def q_def)
qed

text \<open>Storing distinct keys one after the other keeps their order.\<close>

lemma fold_dict_set:
  assumes "distinct (map fst es)" "set (map fst es) \<inter> set (map fst acc) = {}"
  shows "fold (\<lambda>(k, v). dict_set k (f v)) es acc = acc @ map (\<lambda>(k, v). (k, f v)) es"
  using assms
proof (induction es arbitrary: acc)
  case (Cons e es)
  obtain k v where e: "e = (k, v)" by (cases e)
  have "AList.update k x al = al @ [(k, x)]" if "k \<notin> set (map fst al)" for x :: 'b and al
    using that by (induction al) auto
  then have "dict_set k (f v) acc = acc @ [(k, f v)]" using Cons.prems e by (auto simp: dict_set_def)
  then show ?case using Cons e by auto
qed simp

lemma sort_key_map: "(\<And>x. f (g x) = f' x) \<Longrightarrow> sort_key f (map g xs) = map g (sort_key f' xs)"
proof (induction xs)
  case (Cons x xs)
  have "insort_key f (g x) (map g ys) = map g (insort_key f' x ys)" for ys using Cons.prems by (induction ys) auto
  then show ?case using Cons by simp
qed simp


lemma distinct_sort_key: "distinct (map f xs) \<Longrightarrow> distinct (map f (sort_key f xs))"
  by (metis distinct_map distinct_sort inj_on_subset set_sort order_refl)

lemma storable_roundtrip: "storable v \<Longrightarrow> \<exists>b. serialize v = Inr b \<and> deserialize b (v_type v) = Inr (restored v)"
proof (induction v rule: storable.induct)
  case (1 t n d)
  show ?case
  proof (cases d)
    case (V_array et vs)
    have el: "codec v" if "v \<in> set vs" for v
      using "1.IH"(1) [OF V_array that] "1.prems" that V_array by (auto simp: codec_def split: sum.splits)
    obtain bs where bs: "serialize_elements vs = Inr bs" "read_elements (length vs) bs = Inr (map restored vs)"
      using read_elements_written [of vs] el by blast
    have t: "t = Array_t" "\<not> n" "fits32 vs" using "1.prems" V_array by simp_all
    have "serialize (Value t n d) = Inr (le_bytes 4 (of_nat (length vs) :: u32) @ bs)" using bs t V_array by (simp add: serialize.simps)
    moreover have "deserialize (le_bytes 4 (of_nat (length vs) :: u32) @ bs) Array_t = Inr (array_value Invalid_t (map restored vs))"
      using bs unat_length32 [OF t(3)] by (simp add: deserialize.simps)
    ultimately show ?thesis using t V_array by (simp add: array_value_def)
  next
    case (V_dict es)
    let ?L = "sort_key fst es"
    have en: "fits32 k \<and> codec v" if "(k, v) \<in> set ?L" for k v
    proof -
      have m: "(k, v) \<in> set es" using that by simp
      have "\<forall>e\<in>set es. fits32 (fst e) \<and> storable (snd e) \<and> (case serialize (snd e) of Inr b \<Rightarrow> fits32 b | Inl _ \<Rightarrow> False)"
        using "1.prems" V_dict by simp
      from bspec [OF this m] show ?thesis using "1.IH"(2) [OF V_dict m] by (auto simp: codec_def split: sum.splits)
    qed
    obtain bs where bs: "join_entries (map (\<lambda>(k, v). (k, type_code (v_type v), serialize v)) ?L) = Inr bs"
      "\<And>acc. read_entries (length ?L) bs acc = Inr (fold (\<lambda>(k, v). dict_set k (restored v)) ?L acc)"
      using read_entries_written [of ?L] en by blast
    have t: "t = DICT_t" "\<not> n" "fits32 es" "distinct (map fst es)" using "1.prems" V_dict by simp_all
    have "sort_key fst (serialize_entries es) = map (\<lambda>(k, v). (k, type_code (v_type v), serialize v)) ?L"
      unfolding serialize_entries_map by (rule sort_key_map) auto
    then have "serialize (Value t n d) = Inr (le_bytes 4 (of_nat (length es) :: u32) @ bs)" using bs(1) t V_dict by (simp add: serialize.simps)
    moreover have "fold (\<lambda>(k, v). dict_set k (restored v)) ?L [] = map (\<lambda>(k, v). (k, restored v)) ?L"
      using fold_dict_set [of ?L "[]" restored] distinct_sort_key [OF t(4)] by simp
    then have "deserialize (le_bytes 4 (of_nat (length es) :: u32) @ bs) DICT_t = Inr (dict_value (map (\<lambda>(k, v). (k, restored v)) ?L))"
      using bs(2) unat_length32 [OF t(3)] by (simp add: deserialize.simps)
    moreover have "sort_key fst (map (\<lambda>(k, v). (k, restored v)) es) = map (\<lambda>(k, v). (k, restored v)) ?L"
      by (rule sort_key_map) auto
    ultimately show ?thesis using t V_dict by (simp add: dict_value_def)
  next
    case (V_string s)
    then show ?thesis using "1.prems" by (cases t) (auto simp: serialize.simps deserialize.simps is_text_def string_value_def)
  next
    case (V_decimal x)
    then show ?thesis using "1.prems" by (cases x) (simp add: serialize.simps deserialize.simps read_fixed_def decimal_sql_value_def nth_append)
  next
    case (V_bool b)
    then show ?thesis using "1.prems" by (simp add: serialize.simps deserialize.simps read_fixed_def bool_value_def)
  qed (use "1.prems" in \<open>auto simp: serialize.simps deserialize.simps read_fixed_def value_constructors json_parse_def bslice_def\<close>)
qed

section \<open>Properties\<close>

text \<open>C38. Reading a stored value gives the value back, up to what the format leaves out: for a value of an
  implemented type with non-null elements, \<open>serialize\<close> succeeds and \<open>deserialize\<close> with the value's type
  gives the same contents, where a time stamp has lost its time zone, an array its element type, a JSON
  value has become a string node holding its text, and a dictionary is in key order.\<close>
theorem value_roundtrip:
  assumes "storable v"
  shows "\<exists>b. serialize v = Inr b \<and> deserialize b (v_type v) = Inr (restored v)"
  using assms by (rule storable_roundtrip)

theorem value_roundtrip_witness:
  "\<exists>b. serialize (dict_value [(''k'', array_value Integer_t [i32_value 7, bool_value True])]) = Inr b \<and>
     deserialize b DICT_t = Inr (dict_value [(''k'', array_value Invalid_t [i32_value 7, bool_value True])])"
proof -
  have "storable (dict_value [(''k'', array_value Integer_t [i32_value 7, bool_value True])])"
    by (simp add: value_constructors fits32_def serialize.simps element_bytes_def)
  from value_roundtrip [OF this] show ?thesis by (simp add: value_constructors)
qed

end
