(* ===== verification/Tuple_Record.thy ===== *)
theory Tuple_Record
  imports Value_Codec Transactions
begin

text \<open>
  Rows of a table: \<open>tuple_layout.hpp/.cpp\<close>, \<open>record.hpp\<close>, \<open>record_header.hpp\<close>,
  \<open>record_serializer.cpp\<close>, \<open>record_view.hpp/.cpp\<close>, \<open>record_deserializer.cpp\<close> and
  \<open>value_view.hpp\<close>. A stored record is the 40 byte header, the bitmap of null fields if there is a
  null, the fixed-size fields, the offsets of the variable-size fields and their data. The padding
  bytes of the header struct, whose contents the language leaves open, are a parameter. Spans read
  past the end of a record contain only the bytes that are there.
\<close>

section \<open>Layouts\<close>

record column =
  col_type :: type_id
  col_offset :: u32
  col_fixed_length :: u32

record tuple_layout =
  tl_columns :: "column list"
  tl_fixed_size :: u32
  tl_variable_count :: u32

definition TupleLayout_init :: tuple_layout where
  "TupleLayout_init = \<lparr>tl_columns = [], tl_fixed_size = 0, tl_variable_count = 0\<rparr>"

definition add_column :: "type_id \<Rightarrow> tuple_layout \<Rightarrow> tuple_layout" where
  "add_column t L =
     (let info = get_type_info t in
      if ti_is_variable_length info
      then L\<lparr>tl_variable_count := tl_variable_count L + 1,
             tl_columns := tl_columns L @ [\<lparr>col_type = t, col_offset = 0, col_fixed_length = 0\<rparr>]\<rparr>
      else (let len = of_nat (ti_fixed_size info) in
            L\<lparr>tl_fixed_size := tl_fixed_size L + len,
              tl_columns := tl_columns L @ [\<lparr>col_type = t, col_offset = tl_fixed_size L, col_fixed_length = len\<rparr>]\<rparr>))"

definition column_count :: "tuple_layout \<Rightarrow> nat" where "column_count L = length (tl_columns L)"

definition tl_column :: "tuple_layout \<Rightarrow> nat \<Rightarrow> exn + column" where
  "tl_column L i = (if i < column_count L then Inr (tl_columns L ! i) else Inl (out_of_range ''vector''))"

section \<open>Records in memory\<close>

type_synonym row = "sql_value list"

definition record_field :: "row \<Rightarrow> nat \<Rightarrow> exn + sql_value" where
  "record_field r i = (if i < length r then Inr (r ! i) else Inl (out_of_range ''vector''))"

definition record_eq :: "row \<Rightarrow> row \<Rightarrow> bool" where
  "record_eq a b = (if length a \<noteq> length b then False else list_all (\<lambda>(x, y). value_eq x y) (zip a b))"

section \<open>The record header\<close>

record record_header =
  rh_size :: u32
  rh_flags :: u16
  rh_mvcc :: mvcc_header

definition MVCCHeader_init :: mvcc_header where
  "MVCCHeader_init = \<lparr>mvcc_xmin = INVALID_TRANSACTION_ID, mvcc_xmax = INVALID_TRANSACTION_ID, mvcc_prev_version = invalid_rid\<rparr>"

definition RecordHeader_init :: record_header where
  "RecordHeader_init = \<lparr>rh_size = 0, rh_flags = 0, rh_mvcc = MVCCHeader_init\<rparr>"

definition REC_DELETED :: u16 where "REC_DELETED = push_bit 0 1"
definition REC_HAS_NULLS :: u16 where "REC_HAS_NULLS = push_bit 1 1"
definition REC_HAS_VARLEN :: u16 where "REC_HAS_VARLEN = push_bit 2 1"

definition rh_is_deleted :: "record_header \<Rightarrow> bool" where "rh_is_deleted h \<longleftrightarrow> rh_flags h AND REC_DELETED \<noteq> 0"
definition rh_has_nulls :: "record_header \<Rightarrow> bool" where "rh_has_nulls h \<longleftrightarrow> rh_flags h AND REC_HAS_NULLS \<noteq> 0"
definition rh_has_varlen :: "record_header \<Rightarrow> bool" where "rh_has_varlen h \<longleftrightarrow> rh_flags h AND REC_HAS_VARLEN \<noteq> 0"

definition set_flag :: "u16 \<Rightarrow> bool \<Rightarrow> record_header \<Rightarrow> record_header" where
  "set_flag m v h = h\<lparr>rh_flags := (if v then rh_flags h OR m else rh_flags h AND NOT m)\<rparr>"

definition rh_set_deleted :: "bool \<Rightarrow> record_header \<Rightarrow> record_header" where "rh_set_deleted = set_flag REC_DELETED"
definition rh_set_has_nulls :: "bool \<Rightarrow> record_header \<Rightarrow> record_header" where "rh_set_has_nulls = set_flag REC_HAS_NULLS"
definition rh_set_has_varlen :: "bool \<Rightarrow> record_header \<Rightarrow> record_header" where "rh_set_has_varlen = set_flag REC_HAS_VARLEN"

text \<open>The struct in memory: two bytes of padding before the version data and four at the end.\<close>

definition sizeof_RecordHeader :: nat where "sizeof_RecordHeader = 40"

type_synonym padding = "u16 \<times> u32"

definition header_bytes :: "padding \<Rightarrow> record_header \<Rightarrow> bytes" where
  "header_bytes pad h = le_bytes 4 (rh_size h) @ le_bytes 2 (rh_flags h) @ le_bytes 2 (fst pad) @
     le_bytes 8 (mvcc_xmin (rh_mvcc h)) @ le_bytes 8 (mvcc_xmax (rh_mvcc h)) @
     le_bytes 8 (rid_page (mvcc_prev_version (rh_mvcc h))) @ le_bytes 4 (rid_slot (mvcc_prev_version (rh_mvcc h))) @
     le_bytes 4 (snd pad)"

definition record_mvcc :: "bytes \<Rightarrow> mvcc_header" where
  "record_mvcc b = \<lparr>mvcc_xmin = get64 b 8, mvcc_xmax = get64 b 16,
     mvcc_prev_version = \<lparr>rid_page = get64 b 24, rid_slot = get32 b 32\<rparr>\<rparr>"

definition set_mvcc :: "mvcc_header \<Rightarrow> bytes \<Rightarrow> bytes" where
  "set_mvcc m b = put32 32 (rid_slot (mvcc_prev_version m)) (put64 24 (rid_page (mvcc_prev_version m))
     (put64 16 (mvcc_xmax m) (put64 8 (mvcc_xmin m) b)))"

definition set_xmax :: "txn_id \<Rightarrow> bytes \<Rightarrow> bytes" where
  "set_xmax x b = put64 16 x b"

section \<open>Writing a record\<close>

definition null_bitmap :: "row \<Rightarrow> bytes" where
  "null_bitmap r = fold (\<lambda>i b. if v_null (r ! i) then b[i div 8 := b ! (i div 8) OR push_bit (i mod 8) 1] else b)
     [0..<length r] (replicate ((length r + 7) div 8) 0)"

fun write_fixed :: "nat \<Rightarrow> (column \<times> sql_value) list \<Rightarrow> bytes \<Rightarrow> exn + bytes" where
  "write_fixed area [] buffer = Inr buffer"
| "write_fixed area ((c, v) # rest) buffer =
     (if 0 < col_fixed_length c \<and> \<not> v_null v then
        (case serialize v of
           Inl e \<Rightarrow> Inl e
         | Inr b \<Rightarrow>
             if length b \<noteq> unat (col_fixed_length c) then Inl (runtime_error ''Fixed length serialization mismatch'')
             else write_fixed area rest (patch (area + unat (col_offset c)) b buffer))
      else write_fixed area rest buffer)"

definition is_active_var :: "column \<times> sql_value \<Rightarrow> bool" where
  "is_active_var = (\<lambda>(c, v). col_fixed_length c = 0 \<and> \<not> v_null v)"

fun write_var_fields :: "nat \<Rightarrow> (column \<times> sql_value) list \<Rightarrow> u32 \<Rightarrow> u32 \<Rightarrow> bytes \<Rightarrow> exn + bytes" where
  "write_var_fields array [] var_idx current buffer = Inr buffer"
| "write_var_fields array (cv # rest) var_idx current buffer =
     (if is_active_var cv then
        (let buffer1 = patch (array + unat (var_idx * 4)) (le_bytes 4 current) buffer in
         case serialize (snd cv) of
           Inl e \<Rightarrow> Inl e
         | Inr b \<Rightarrow> write_var_fields array rest (var_idx + 1) (current + of_nat (length b)) (buffer1 @ b))
      else write_var_fields array rest var_idx current buffer)"

definition write_variable :: "(column \<times> sql_value) list \<Rightarrow> bytes \<Rightarrow> exn + bytes" where
  "write_variable cvs buffer =
     (let active_var_fields = of_nat (length (filter is_active_var cvs)) :: u32 in
      write_var_fields (length buffer) cvs 0 0 (buffer @ replicate (unat (active_var_fields * 4)) 0))"

definition record_serialize :: "padding \<Rightarrow> row \<Rightarrow> tuple_layout \<Rightarrow> exn + bytes" where
  "record_serialize pad r L =
     (if length r \<noteq> column_count L then Inl (invalid_argument ''Record field count does not match layout'')
      else let has_nulls = list_ex v_null r;
               has_varlen = 0 < tl_variable_count L;
               cvs = zip (tl_columns L) r;
               buffer = replicate sizeof_RecordHeader 0 @ (if has_nulls then null_bitmap r else []);
               fixed_area_start = length buffer
           in case write_fixed fixed_area_start cvs (buffer @ replicate (unat (tl_fixed_size L)) 0) of
                Inl e \<Rightarrow> Inl e
              | Inr buffer1 \<Rightarrow>
                  (case (if has_varlen then write_variable cvs buffer1 else Inr buffer1) of
                     Inl e \<Rightarrow> Inl e
                   | Inr buffer2 \<Rightarrow>
                       let header = rh_set_has_varlen has_varlen (rh_set_has_nulls has_nulls
                             (RecordHeader_init\<lparr>rh_size := of_nat (length buffer2)\<rparr>))
                       in Inr (patch 0 (header_bytes pad header) buffer2)))"

section \<open>Reading a record\<close>

record record_view =
  rv_bytes :: bytes
  rv_layout :: tuple_layout
  rv_fixed_data_offset :: nat
  rv_var_offset_array :: nat
  rv_var_data_offset :: nat
  rv_has_nulls :: bool

definition RecordView_init :: "bytes \<Rightarrow> tuple_layout \<Rightarrow> exn + record_view" where
  "RecordView_init b L =
     (if length b < sizeof_RecordHeader then Inl (runtime_error ''RecordView span too small for header'')
      else let flags = get16 b 4;
               has_nulls = (flags AND REC_HAS_NULLS \<noteq> 0);
               has_varlen = (flags AND REC_HAS_VARLEN \<noteq> 0);
               null_bitmap_bytes = (if has_nulls then (column_count L + 7) div 8 else 0);
               fixed_data = sizeof_RecordHeader + null_bitmap_bytes;
               var_offsets = fixed_data + unat (tl_fixed_size L)
           in Inr \<lparr>rv_bytes = b, rv_layout = L, rv_fixed_data_offset = fixed_data, rv_var_offset_array = var_offsets,
                   rv_var_data_offset = (if has_varlen then var_offsets + unat (tl_variable_count L) * 4 else var_offsets),
                   rv_has_nulls = has_nulls\<rparr>)"

definition rv_is_null :: "record_view \<Rightarrow> nat \<Rightarrow> bool" where
  "rv_is_null v i = (if \<not> rv_has_nulls v then False
     else (le_word (bslice (sizeof_RecordHeader + i div 8) 1 (rv_bytes v)) :: byte) AND push_bit (i mod 8) 1 \<noteq> 0)"

definition is_active_at :: "record_view \<Rightarrow> nat \<Rightarrow> bool" where
  "is_active_at v i \<longleftrightarrow> col_fixed_length (tl_columns (rv_layout v) ! i) = 0 \<and> \<not> rv_is_null v i"

fun find_next_offset :: "record_view \<Rightarrow> nat list \<Rightarrow> u32 \<Rightarrow> u32 \<Rightarrow> u32" where
  "find_next_offset v [] next_var_idx next_offset = next_offset"
| "find_next_offset v (i # is) next_var_idx next_offset =
     (if is_active_at v i then get32 (rv_bytes v) (rv_var_offset_array v + unat (next_var_idx * 4))
      else if col_fixed_length (tl_columns (rv_layout v) ! i) = 0 then find_next_offset v is (next_var_idx + 1) next_offset
      else find_next_offset v is next_var_idx next_offset)"

definition var_span :: "record_view \<Rightarrow> nat \<Rightarrow> bytes" where
  "var_span v i =
     (let var_idx = of_nat (length (filter (is_active_at v) [0..<i])) :: u32;
          current_offset = get32 (rv_bytes v) (rv_var_offset_array v + unat (var_idx * 4));
          next_offset = find_next_offset v [Suc i..<column_count (rv_layout v)] (var_idx + 1)
            (of_nat (length (rv_bytes v)) - of_nat (rv_var_data_offset v));
          len = next_offset - current_offset
      in bslice (rv_var_data_offset v + unat current_offset) (unat len) (rv_bytes v))"

definition fixed_span :: "record_view \<Rightarrow> column \<Rightarrow> bytes" where
  "fixed_span v c = bslice (rv_fixed_data_offset v + unat (col_offset c)) (unat (col_fixed_length c)) (rv_bytes v)"

definition rv_field :: "record_view \<Rightarrow> nat \<Rightarrow> exn + sql_value" where
  "rv_field v i =
     (case tl_column (rv_layout v) i of
        Inl e \<Rightarrow> Inl e
      | Inr c \<Rightarrow>
          if rv_is_null v i then Inr (null_value (col_type c))
          else if 0 < col_fixed_length c then deserialize (fixed_span v c) (col_type c)
          else deserialize (var_span v i) (col_type c))"

record value_view =
  vv_type :: type_id
  vv_is_null :: bool
  vv_str :: string
  vv_bytes :: bytes

definition ValueView_null :: value_view where
  "ValueView_null = \<lparr>vv_type = Null_t, vv_is_null = True, vv_str = [], vv_bytes = []\<rparr>"

definition ValueView_string :: "string \<Rightarrow> type_id \<Rightarrow> value_view" where
  "ValueView_string s t = \<lparr>vv_type = t, vv_is_null = False, vv_str = s, vv_bytes = []\<rparr>"

definition ValueView_bytes :: "bytes \<Rightarrow> type_id \<Rightarrow> value_view" where
  "ValueView_bytes b t = \<lparr>vv_type = t, vv_is_null = False, vv_str = [], vv_bytes = b\<rparr>"

definition rv_field_view :: "record_view \<Rightarrow> nat \<Rightarrow> exn + value_view" where
  "rv_field_view v i =
     (if rv_is_null v i then Inr ValueView_null
      else case tl_column (rv_layout v) i of
        Inl e \<Rightarrow> Inl e
      | Inr c \<Rightarrow>
          if 0 < col_fixed_length c then Inr (ValueView_bytes (fixed_span v c) (col_type c))
          else if is_text (col_type c) then Inr (ValueView_string (bytes_string (var_span v i)) (col_type c))
          else Inr (ValueView_bytes (var_span v i) (col_type c)))"

fun read_fields :: "record_view \<Rightarrow> nat list \<Rightarrow> exn + row" where
  "read_fields v [] = Inr []"
| "read_fields v (i # is) =
     (case rv_field v i of
        Inl e \<Rightarrow> Inl e
      | Inr x \<Rightarrow> (case read_fields v is of Inl e \<Rightarrow> Inl e | Inr xs \<Rightarrow> Inr (x # xs)))"

definition record_deserialize :: "bytes \<Rightarrow> tuple_layout \<Rightarrow> exn + row" where
  "record_deserialize b L =
     (case RecordView_init b L of
        Inl e \<Rightarrow> Inl e
      | Inr v \<Rightarrow> read_fields v [0..<column_count L])"

section \<open>The layout of a list of types\<close>

definition layout_of :: "type_id list \<Rightarrow> tuple_layout" where
  "layout_of ts = fold add_column ts TupleLayout_init"

definition fsize :: "type_id \<Rightarrow> nat" where "fsize t = ti_fixed_size (get_type_info t)"
definition is_var :: "type_id \<Rightarrow> bool" where "is_var t \<longleftrightarrow> ti_is_variable_length (get_type_info t)"

lemma fsize_bounds: "is_var t \<Longrightarrow> fsize t = 0" "fsize t \<le> 16"
  by (cases t; simp add: fsize_def is_var_def type_info.defs)+

fun cols_from :: "nat \<Rightarrow> type_id list \<Rightarrow> column list" where
  "cols_from off [] = []"
| "cols_from off (t # ts) =
     \<lparr>col_type = t, col_offset = (if is_var t then 0 else of_nat off), col_fixed_length = of_nat (fsize t)\<rparr> # cols_from (off + fsize t) ts"

lemma length_cols_from [simp]: "length (cols_from off ts) = length ts"
  by (induction ts arbitrary: off) simp_all

lemma nth_cols_from: "i < length ts \<Longrightarrow> cols_from off ts ! i =
  \<lparr>col_type = ts ! i, col_offset = (if is_var (ts ! i) then 0 else of_nat (off + sum_list (map fsize (take i ts)))), col_fixed_length = of_nat (fsize (ts ! i))\<rparr>"
proof (induction ts arbitrary: off i)
  case (Cons t ts)
  then show ?case by (cases i) (simp_all add: ac_simps)
qed simp

lemma add_columns:
  assumes "tl_fixed_size L = of_nat off" "tl_variable_count L = of_nat n"
  shows "fold add_column ts L = \<lparr>tl_columns = tl_columns L @ cols_from off ts,
    tl_fixed_size = of_nat (off + sum_list (map fsize ts)), tl_variable_count = of_nat (n + length (filter is_var ts))\<rparr>"
  using assms
proof (induction ts arbitrary: L off n)
  case Nil
  then show ?case by simp
next
  case (Cons t ts)
  have "tl_fixed_size (add_column t L) = of_nat (off + fsize t)" "tl_variable_count (add_column t L) = of_nat (if is_var t then Suc n else n)"
    using Cons.prems fsize_bounds(1) [of t] by (auto simp: add_column_def Let_def is_var_def fsize_def)
  from Cons.IH [OF this] show ?case
    using Cons.prems fsize_bounds(1) [of t] by (auto simp: add_column_def Let_def is_var_def fsize_def)
qed

lemma layout_of_fields:
  "tl_columns (layout_of ts) = cols_from 0 ts" "tl_fixed_size (layout_of ts) = of_nat (sum_list (map fsize ts))"
  "tl_variable_count (layout_of ts) = of_nat (length (filter is_var ts))" "column_count (layout_of ts) = length ts"
  unfolding layout_of_def column_count_def by (simp_all add: add_columns [where off = 0 and n = 0] TupleLayout_init_def)

lemma sum_fsize_le: "sum_list (map fsize ts) \<le> 16 * length ts"
  by (induction ts) (auto intro: order.trans [OF add_mono [OF fsize_bounds(2)]])

section \<open>Fields that fit their column\<close>

definition field_bytes :: "sql_value \<Rightarrow> bytes" where
  "field_bytes v = (case serialize v of Inl _ \<Rightarrow> [] | Inr b \<Rightarrow> b)"

definition fits_column :: "type_id \<Rightarrow> sql_value \<Rightarrow> bool" where
  "fits_column t v \<longleftrightarrow> (if v_null v then 0 < fsize t else storable v \<and> v_type v = t)"

definition restored_field :: "type_id \<Rightarrow> sql_value \<Rightarrow> sql_value" where
  "restored_field t v = (if v_null v then null_value t else restored v)"

definition fixed_bytes :: "type_id \<Rightarrow> sql_value \<Rightarrow> bytes" where
  "fixed_bytes t v = (if fsize t = 0 then [] else if v_null v then replicate (fsize t) 0 else field_bytes v)"

lemma storable_bytes:
  assumes "storable v"
  shows "serialize v = Inr (field_bytes v)" "deserialize (field_bytes v) (v_type v) = Inr (restored v)"
  using storable_roundtrip [OF assms] by (auto simp: field_bytes_def)

lemma storable_size:
  assumes "storable v"
  shows "if fsize (v_type v) = 0 then is_var (v_type v) else length (field_bytes v) = fsize (v_type v)"
proof (cases v)
  case (Value t n d)
  with assms show ?thesis
    by (cases d; cases t) (simp_all add: field_bytes_def serialize.simps fsize_def is_var_def type_info.defs is_text_def)
qed

lemma fits_var: "fits_column t v \<Longrightarrow> fsize t = 0 \<Longrightarrow> \<not> v_null v \<and> storable v \<and> v_type v = t \<and> is_var t"
  unfolding fits_column_def using storable_size [of v] by (auto split: if_splits)

lemma length_fixed_bytes: "fits_column t v \<Longrightarrow> length (fixed_bytes t v) = fsize t"
  unfolding fits_column_def fixed_bytes_def using storable_size [of v] by (auto split: if_splits)

lemma unat_fsize: "unat (of_nat (fsize t) :: u32) = fsize t"
  by (rule unat_of_nat_fits) (use fsize_bounds(2) [of t] in simp)

lemma col_len_pos: "0 < (of_nat (fsize t) :: u32) \<longleftrightarrow> 0 < fsize t" "unat (of_nat (fsize t) :: u32) = fsize t"
  "(of_nat (fsize t) :: u32) = 0 \<longleftrightarrow> fsize t = 0"
  unfolding word_less_nat_alt word_unat_eq_iff [of _ 0] unat_fsize unat_0 by (rule refl)+

section \<open>What the writer produces\<close>

lemma write_fixed_bytes:
  assumes "list_all2 fits_column ts r" "length done_bytes = off" "off + sum_list (map fsize ts) < 2 ^ 32"
  shows "write_fixed (length A) (zip (cols_from off ts) r) (A @ done_bytes @ replicate (sum_list (map fsize ts)) 0) =
    Inr (A @ done_bytes @ concat (map2 fixed_bytes ts r))"
  using assms
proof (induction ts arbitrary: r off done_bytes)
  case Nil
  then show ?case by simp
next
  case (Cons t ts)
  obtain v r' where r: "r = v # r'" "fits_column t v" "list_all2 fits_column ts r'" using Cons.prems(1) by (auto simp: list_all2_Cons1)
  let ?buf = "A @ done_bytes @ replicate (fsize t + sum_list (map fsize ts)) 0"
  have step: "write_fixed (length A) (zip (cols_from (off + fsize t) ts) r') (A @ (done_bytes @ fixed_bytes t v) @ replicate (sum_list (map fsize ts)) 0) =
    Inr (A @ (done_bytes @ fixed_bytes t v) @ concat (map2 fixed_bytes ts r'))"
    by (rule Cons.IH) (use r(3) Cons.prems(2,3) length_fixed_bytes [OF r(2)] in simp_all)
  show ?case
  proof (cases "0 < fsize t \<and> \<not> v_null v")
    case False
    then have "fixed_bytes t v = replicate (fsize t) 0" by (auto simp: fixed_bytes_def)
    then show ?thesis using step False r(1) by (auto simp: col_len_pos replicate_add)
  next
    case True
    then have v: "storable v" "v_type v = t" using r(2) by (auto simp: fits_column_def)
    have s: "serialize v = Inr (field_bytes v)" "length (field_bytes v) = fsize t" using storable_bytes(1) storable_size v True by auto
    have nv: "\<not> is_var t" using True fsize_bounds(1) by auto
    have u: "unat (of_nat off :: u32) = off" using Cons.prems(3) by (intro unat_of_nat_fits) simp
    have "patch (length A + off) (field_bytes v) ?buf = A @ (done_bytes @ field_bytes v) @ replicate (sum_list (map fsize ts)) 0"
      using Cons.prems(2) s(2) by (simp add: patch_def replicate_add)
    then show ?thesis using step True r(1) s nv u by (simp add: col_len_pos fixed_bytes_def)
  qed
qed

fun var_offsets :: "nat \<Rightarrow> bytes list \<Rightarrow> bytes" where
  "var_offsets k [] = []"
| "var_offsets k (d # ds) = le_bytes 4 (of_nat k :: u32) @ var_offsets (k + length d) ds"

definition var_data :: "type_id list \<Rightarrow> row \<Rightarrow> bytes list" where
  "var_data ts r = map (field_bytes \<circ> snd) (filter (\<lambda>(t, v). fsize t = 0) (zip ts r))"

lemma length_var_offsets [simp]: "length (var_offsets k ds) = 4 * length ds"
  by (induction ds arbitrary: k) simp_all

lemma active_fits: "fits_column t v \<Longrightarrow> is_active_var (\<lparr>col_type = t, col_offset = x, col_fixed_length = of_nat (fsize t)\<rparr>, v) \<longleftrightarrow> fsize t = 0"
  using fits_var [of t v] by (auto simp: is_active_var_def col_len_pos)

lemma write_var_fields_bytes:
  assumes "list_all2 fits_column ts r" "length O' = 4 * k" "k + length (var_data ts r) < 2 ^ 30"
  shows "write_var_fields (length A) (zip (cols_from off ts) r) (of_nat k) (of_nat (length D)) (A @ O' @ replicate (4 * length (var_data ts r)) 0 @ D) =
    Inr (A @ O' @ var_offsets (length D) (var_data ts r) @ D @ concat (var_data ts r))"
  using assms
proof (induction ts arbitrary: r off O' k D)
  case Nil
  then show ?case by (simp add: var_data_def)
next
  case (Cons t ts)
  obtain v r' where r: "r = v # r'" "fits_column t v" "list_all2 fits_column ts r'" using Cons.prems(1) by (auto simp: list_all2_Cons1)
  show ?case
  proof (cases "fsize t = 0")
    case False
    then have "var_data (t # ts) r = var_data ts r'" using r(1) by (simp add: var_data_def)
    then show ?thesis using Cons.IH [OF r(3) Cons.prems(2)] Cons.prems(3) r(1) False active_fits [OF r(2)] by simp
  next
    case True
    then have s: "serialize v = Inr (field_bytes v)" using fits_var [OF r(2)] storable_bytes(1) by auto
    have vd: "var_data (t # ts) r = field_bytes v # var_data ts r'" using True r(1) by (simp add: var_data_def)
    have u: "unat (of_nat k * 4 :: u32) = 4 * k"
      using Cons.prems(3) by (simp add: unat_word_ariths unat_of_nat)
    let ?R = "replicate (4 * length (var_data ts r')) (0 :: byte)"
    have p: "patch (length A + 4 * k) (le_bytes 4 (of_nat (length D) :: u32)) (A @ O' @ replicate (4 + 4 * length (var_data ts r')) 0 @ D) =
      A @ (O' @ le_bytes 4 (of_nat (length D) :: u32)) @ ?R @ D"
      using Cons.prems(2) by (simp add: patch_def replicate_add)
    have "write_var_fields (length A) (zip (cols_from (off + fsize t) ts) r') (of_nat (Suc k)) (of_nat (length (D @ field_bytes v)))
        (A @ (O' @ le_bytes 4 (of_nat (length D) :: u32)) @ ?R @ (D @ field_bytes v)) =
      Inr (A @ (O' @ le_bytes 4 (of_nat (length D) :: u32)) @ var_offsets (length (D @ field_bytes v)) (var_data ts r') @ (D @ field_bytes v) @ concat (var_data ts r'))"
      by (rule Cons.IH) (use r(3) Cons.prems(2,3) vd in simp_all)
    then show ?thesis using vd r(1) s True active_fits [OF r(2)] p u by (simp add: ac_simps)
  qed
qed

lemma active_count:
  assumes "list_all2 fits_column ts r"
  shows "length (filter is_active_var (zip (cols_from off ts) r)) = length (var_data ts r)" "length (var_data ts r) = length (filter is_var ts)"
proof -
  show "length (filter is_active_var (zip (cols_from off ts) r)) = length (var_data ts r)"
    using assms by (induction ts r arbitrary: off rule: list_all2_induct) (auto simp: var_data_def active_fits)
  show "length (var_data ts r) = length (filter is_var ts)"
    using assms by (induction ts r rule: list_all2_induct) (auto simp: var_data_def dest: fits_var fsize_bounds(1))
qed

definition bitmap_of :: "row \<Rightarrow> bytes" where
  "bitmap_of r = (if list_ex v_null r then null_bitmap r else [])"

definition record_flags :: "type_id list \<Rightarrow> row \<Rightarrow> u16" where
  "record_flags ts r = (if list_ex v_null r then 2 else 0) OR (if list_ex is_var ts then 4 else 0)"

definition record_body :: "type_id list \<Rightarrow> row \<Rightarrow> bytes" where
  "record_body ts r = bitmap_of r @ concat (map2 fixed_bytes ts r) @ var_offsets 0 (var_data ts r) @ concat (var_data ts r)"

lemma record_serialize_bytes:
  assumes fit: "list_all2 fits_column ts r" and n: "length ts < 2 ^ 28"
  shows "record_serialize pad r (layout_of ts) =
    Inr (header_bytes pad \<lparr>rh_size = of_nat (40 + length (record_body ts r)), rh_flags = record_flags ts r, rh_mvcc = MVCCHeader_init\<rparr> @ record_body ts r)"
proof -
  let ?A = "replicate 40 0 @ bitmap_of r"
  let ?F = "concat (map2 fixed_bytes ts r)"
  have len: "length r = length ts" using fit by (simp add: list_all2_lengthD)
  have sum: "sum_list (map fsize ts) < 2 ^ 32" using sum_fsize_le [of ts] n by simp
  have fs: "unat (of_nat (sum_list (map fsize ts)) :: u32) = sum_list (map fsize ts)" using sum by (intro unat_of_nat_fits) simp
  have f: "write_fixed (length ?A) (zip (cols_from 0 ts) r) (?A @ replicate (sum_list (map fsize ts)) 0) = Inr (?A @ ?F)"
    using write_fixed_bytes [OF fit, of "[]" 0 ?A] sum by simp
  have vl: "length (filter is_var ts) < 2 ^ 28" using n length_filter_le [of is_var ts] by linarith
  have va: "0 < (of_nat (length (filter is_var ts)) :: u32) \<longleftrightarrow> list_ex is_var ts"
  proof -
    have "unat (of_nat (length (filter is_var ts)) :: u32) = length (filter is_var ts)" using vl by (intro unat_of_nat_fits) simp
    then show ?thesis by (simp add: word_less_nat_alt list_ex_iff filter_empty_conv)
  qed
  have v: "(if list_ex is_var ts then write_variable (zip (cols_from 0 ts) r) (?A @ ?F) else Inr (?A @ ?F)) =
      Inr (?A @ ?F @ var_offsets 0 (var_data ts r) @ concat (var_data ts r))"
  proof (cases "list_ex is_var ts")
    case True
    have "unat (of_nat (length (var_data ts r)) * 4 :: u32) = 4 * length (var_data ts r)"
      using vl active_count(2) [OF fit] by (simp add: unat_word_ariths unat_of_nat)
    then show ?thesis
      using True write_var_fields_bytes [OF fit, of "[]" 0 "?A @ ?F" 0 "[]"] vl active_count [OF fit]
      by (simp add: write_variable_def Let_def)
  next
    case False
    then have "var_data ts r = []" using active_count(2) [OF fit] by (simp add: list_ex_iff filter_empty_conv)
    then show ?thesis using False by simp
  qed
  have fl: "rh_set_has_varlen b (rh_set_has_nulls a (RecordHeader_init\<lparr>rh_size := x\<rparr>)) =
      \<lparr>rh_size = x, rh_flags = (if a then 2 else 0) OR (if b then 4 else 0), rh_mvcc = MVCCHeader_init\<rparr>" for x a b
    by (auto simp: rh_set_has_varlen_def rh_set_has_nulls_def set_flag_def RecordHeader_init_def REC_HAS_NULLS_def REC_HAS_VARLEN_def)
  have hb: "length (header_bytes pad h) = 40" for h by (simp add: header_bytes_def)
  have pt: "patch 0 (header_bytes pad h) (replicate 40 0 @ X) = header_bytes pad h @ X" for h X
    by (simp add: patch_def hb)
  define P where "P = ?A @ ?F"
  define X where "X = bitmap_of r @ ?F @ var_offsets 0 (var_data ts r) @ concat (var_data ts r)"
  have "record_serialize pad r (layout_of ts) =
      (case (if list_ex is_var ts then write_variable (zip (cols_from 0 ts) r) P else Inr P) of
         Inl e \<Rightarrow> Inl e
       | Inr b \<Rightarrow> Inr (patch 0 (header_bytes pad \<lparr>rh_size = of_nat (length b), rh_flags = record_flags ts r, rh_mvcc = MVCCHeader_init\<rparr>) b))"
    using f [folded P_def] len va fs
    by (simp add: record_serialize_def layout_of_fields Let_def sizeof_RecordHeader_def bitmap_of_def [symmetric] fl record_flags_def split: sum.split del: append_assoc)
  also have "\<dots> = Inr (patch 0 (header_bytes pad \<lparr>rh_size = of_nat (40 + length X), rh_flags = record_flags ts r, rh_mvcc = MVCCHeader_init\<rparr>) (replicate 40 0 @ X))"
    using v [folded P_def] by (simp add: P_def X_def)
  finally show ?thesis by (simp only: pt record_body_def [of ts r, folded X_def])
qed

section \<open>What the reader finds\<close>

lemma bitmap_step:
  fixes B :: bytes
  assumes "k div 8 < length B" "i div 8 < length B"
  shows "bit (B[k div 8 := B ! (k div 8) OR push_bit (k mod 8) 1] ! (i div 8)) (i mod 8) \<longleftrightarrow> bit (B ! (i div 8)) (i mod 8) \<or> i = k"
proof (cases "i div 8 = k div 8")
  case True
  then have "i = k \<longleftrightarrow> i mod 8 = k mod 8" by (metis div_mult_mod_eq)
  moreover have "bit (push_bit (k mod 8) 1 :: byte) (i mod 8) \<longleftrightarrow> i mod 8 = k mod 8" by (auto simp: bit_simps)
  ultimately show ?thesis using True assms by (simp add: bit_or_iff)
next
  case False
  then show ?thesis using assms by auto
qed

lemma bitmap_fold:
  fixes B :: bytes and P :: "nat \<Rightarrow> bool"
  assumes "\<forall>i\<in>set ks. i div 8 < length B"
  defines "B' \<equiv> fold (\<lambda>i b. if P i then b[i div 8 := b ! (i div 8) OR push_bit (i mod 8) 1] else b) ks B"
  shows "length B' = length B \<and> (\<forall>i. i div 8 < length B \<longrightarrow> bit (B' ! (i div 8)) (i mod 8) \<longleftrightarrow> bit (B ! (i div 8)) (i mod 8) \<or> i \<in> set ks \<and> P i)"
  using assms(1) unfolding B'_def
proof (induction ks arbitrary: B)
  case Nil
  then show ?case by simp
next
  case (Cons k ks)
  let ?B = "B[k div 8 := B ! (k div 8) OR push_bit (k mod 8) 1]"
  have step: "\<And>i. i div 8 < length B \<Longrightarrow> bit (?B ! (i div 8)) (i mod 8) \<longleftrightarrow> bit (B ! (i div 8)) (i mod 8) \<or> i = k"
    by (rule bitmap_step) (use Cons.prems in auto)
  show ?case
  proof (cases "P k")
    case True
    have "\<forall>i\<in>set ks. i div 8 < length ?B" using Cons.prems by simp
    from Cons.IH [OF this] show ?thesis using True step by auto
  next
    case False
    have "\<forall>i\<in>set ks. i div 8 < length B" using Cons.prems by simp
    from Cons.IH [OF this] show ?thesis using False by auto
  qed
qed

lemma null_bitmap_bits:
  "length (null_bitmap r) = (length r + 7) div 8"
  "i < length r \<Longrightarrow> bit (null_bitmap r ! (i div 8)) (i mod 8) \<longleftrightarrow> v_null (r ! i)"
proof -
  have lt: "k div 8 < (length r + 7) div 8" if "k < length r" for k using that by linarith
  have "\<forall>k\<in>set [0..<length r]. k div 8 < length (replicate ((length r + 7) div 8) (0 :: byte))" using lt by simp
  note f = bitmap_fold [OF this, of "\<lambda>i. v_null (r ! i)", folded null_bitmap_def]
  show "length (null_bitmap r) = (length r + 7) div 8" using f by simp
  show "bit (null_bitmap r ! (i div 8)) (i mod 8) \<longleftrightarrow> v_null (r ! i)" if "i < length r" using f lt [OF that] that by auto
qed

definition view_of :: "type_id list \<Rightarrow> row \<Rightarrow> bytes \<Rightarrow> record_view" where
  "view_of ts r b =
     (let fx = 40 + length (bitmap_of r) in
      \<lparr>rv_bytes = b, rv_layout = layout_of ts, rv_fixed_data_offset = fx,
       rv_var_offset_array = fx + sum_list (map fsize ts),
       rv_var_data_offset = fx + sum_list (map fsize ts) + 4 * length (var_data ts r), rv_has_nulls = list_ex v_null r\<rparr>)"

definition stored_as :: "type_id list \<Rightarrow> row \<Rightarrow> bytes \<Rightarrow> bool" where
  "stored_as ts r b \<longleftrightarrow> list_all2 fits_column ts r \<and> length ts < 2 ^ 28 \<and> 40 \<le> length b \<and> drop 40 b = record_body ts r \<and>
     get16 b 4 = record_flags ts r \<and> length b < 2 ^ 32"

lemma stored_asD:
  assumes "stored_as ts r b"
  shows "list_all2 fits_column ts r" "length ts < 2 ^ 28" "40 \<le> length b" "drop 40 b = record_body ts r"
    "get16 b 4 = record_flags ts r" "length b < 2 ^ 32" "length r = length ts" "i < length ts \<Longrightarrow> fits_column (ts ! i) (r ! i)"
  using assms unfolding stored_as_def by (auto simp: list_all2_lengthD list_all2_nthD)

lemma stored_slice: "stored_as ts r b \<Longrightarrow> bslice (40 + off) n b = bslice off n (record_body ts r)"
  using stored_asD(4) [of ts r b] by (simp add: bslice_def drop_drop [symmetric] add.commute del: drop_drop)

lemma stored_sum: "stored_as ts r b \<Longrightarrow> unat (of_nat (sum_list (map fsize ts)) :: u32) = sum_list (map fsize ts)"
  by (rule unat_of_nat_fits) (use sum_fsize_le [of ts] stored_asD(2) [of ts r b] in simp)

lemma length_fixed_part: "list_all2 fits_column ts r \<Longrightarrow> length (concat (map2 fixed_bytes ts r)) = sum_list (map fsize ts)"
  by (induction ts r rule: list_all2_induct) (simp_all add: length_fixed_bytes)

lemma stored_vars:
  assumes "stored_as ts r b"
  shows "length (var_data ts r) = length (filter is_var ts)" "length (filter is_var ts) < 2 ^ 28"
  using active_count(2) [OF stored_asD(1) [OF assms]] stored_asD(2) [OF assms] length_filter_le [of is_var ts] by linarith+

lemma flag_tests: "(record_flags ts r AND REC_HAS_NULLS \<noteq> 0) = list_ex v_null r" "(record_flags ts r AND REC_HAS_VARLEN \<noteq> 0) = list_ex is_var ts"
  by (auto simp: record_flags_def REC_HAS_NULLS_def REC_HAS_VARLEN_def)

lemma length_bitmap_of: "length (bitmap_of r) = (if list_ex v_null r then (length r + 7) div 8 else 0)"
  by (simp add: bitmap_of_def null_bitmap_bits)

lemma stored_view:
  assumes S: "stored_as ts r b"
  shows "RecordView_init b (layout_of ts) = Inr (view_of ts r b)"
proof -
  have v: "unat (of_nat (length (filter is_var ts)) :: u32) = length (filter is_var ts)"
    by (rule unat_of_nat_fits) (use stored_vars(2) [OF S] in simp)
  have n: "\<not> list_ex is_var ts \<Longrightarrow> filter is_var ts = []" by (simp add: list_ex_iff filter_empty_conv)
  have "\<not> length b < sizeof_RecordHeader" using stored_asD(3) [OF S] by (simp add: sizeof_RecordHeader_def)
  then show ?thesis
    using n unfolding RecordView_init_def Let_def stored_asD(5) [OF S] flag_tests view_of_def stored_vars(1) [OF S] layout_of_fields v stored_sum [OF S]
      length_bitmap_of stored_asD(7) [OF S] by (simp add: sizeof_RecordHeader_def)
qed

lemma stored_is_null:
  assumes S: "stored_as ts r b" and i: "i < length ts"
  shows "rv_is_null (view_of ts r b) i \<longleftrightarrow> v_null (r ! i)"
proof (cases "list_ex v_null r")
  case True
  have d: "i div 8 < length (null_bitmap r)" using i stored_asD(7) [OF S] null_bitmap_bits(1) [of r] by linarith
  have "bslice (40 + i div 8) 1 b = [null_bitmap r ! (i div 8)]"
    unfolding stored_slice [OF S] using d True
    by (simp add: record_body_def bitmap_of_def bslice_def Cons_nth_drop_Suc [symmetric])
  then show ?thesis
    using True i stored_asD(7) [OF S] null_bitmap_bits(2) [of i r]
    by (simp add: rv_is_null_def view_of_def Let_def sizeof_RecordHeader_def bit_iff_and_push_bit_not_eq_0)
next
  case False
  then have "\<not> v_null (r ! i)" using i stored_asD(7) [OF S] by (auto simp: list_ex_length)
  then show ?thesis using False by (simp add: rv_is_null_def view_of_def Let_def)
qed

lemma stored_column: "i < length ts \<Longrightarrow> tl_columns (rv_layout (view_of ts r b)) ! i =
  \<lparr>col_type = ts ! i, col_offset = (if is_var (ts ! i) then 0 else of_nat (sum_list (map fsize (take i ts)))), col_fixed_length = of_nat (fsize (ts ! i))\<rparr>"
  by (simp add: view_of_def Let_def layout_of_fields nth_cols_from)

lemma stored_active: "stored_as ts r b \<Longrightarrow> i < length ts \<Longrightarrow> is_active_at (view_of ts r b) i \<longleftrightarrow> fsize (ts ! i) = 0"
  using stored_asD(8) [of ts r b i] fits_var [of "ts ! i" "r ! i"] by (auto simp: is_active_at_def stored_column col_len_pos stored_is_null)


lemma concat_at: "i < length xs \<Longrightarrow> bslice (sum_list (map length (take i xs))) (length (xs ! i)) (concat xs) = xs ! i"
proof (induction xs arbitrary: i)
  case (Cons x xs)
  then show ?case by (cases i) (simp_all add: bslice_def)
qed simp

lemma sum_prefix_le: "i < length xs \<Longrightarrow> sum_list (map f (take i xs)) + f (xs ! i) \<le> (sum_list (map f xs) :: nat)"
proof (induction xs arbitrary: i)
  case (Cons x xs)
  then show ?case by (cases i) auto
qed simp

lemma stored_fixed:
  assumes S: "stored_as ts r b" and i: "i < length ts" and f: "0 < fsize (ts ! i)" and nn: "\<not> v_null (r ! i)"
  shows "fixed_span (view_of ts r b) (tl_columns (rv_layout (view_of ts r b)) ! i) = field_bytes (r ! i)"
proof -
  let ?F = "map2 fixed_bytes ts r" and ?k = "length (bitmap_of r)"
  have il: "i < length ?F" using i stored_asD(7) [OF S] by simp
  have at: "?F ! i = field_bytes (r ! i)" using i stored_asD(7) [OF S] f nn by (simp add: fixed_bytes_def)
  have len: "map length ?F = map fsize ts"
    using stored_asD(1) [OF S] by (induction ts r rule: list_all2_induct) (simp_all add: length_fixed_bytes)
  have off: "sum_list (map length (take i ?F)) = sum_list (map fsize (take i ts))" using len by (metis take_map)
  have fl: "length (?F ! i) = fsize (ts ! i)" using len il i by (metis nth_map)
  have le: "sum_list (map fsize (take i ts)) + fsize (ts ! i) \<le> sum_list (map fsize ts)"
    using i by (rule sum_prefix_le)
  have u: "unat (of_nat (sum_list (map fsize (take i ts))) :: u32) = sum_list (map fsize (take i ts))"
    by (rule unat_of_nat_fits) (use le sum_fsize_le [of ts] stored_asD(2) [OF S] in simp)
  have "bslice (?k + sum_list (map fsize (take i ts))) (fsize (ts ! i)) (record_body ts r) = bslice (sum_list (map fsize (take i ts))) (fsize (ts ! i)) (concat ?F)"
    using le length_fixed_part [OF stored_asD(1) [OF S]] by (simp add: record_body_def slice_append_shift slice_append_left)
  also have "\<dots> = field_bytes (r ! i)" using concat_at [OF il] fl at by (simp only: off)
  finally show ?thesis
    using f fsize_bounds(1) [of "ts ! i"] stored_slice [OF S, of "?k + sum_list (map fsize (take i ts))" "fsize (ts ! i)"]
    unfolding fixed_span_def stored_column [OF i]
    by (cases "is_var (ts ! i)") (simp_all add: u unat_fsize view_of_def Let_def add.assoc)
qed

lemma var_offsets_at: "k < length ds \<Longrightarrow> bslice (4 * k) 4 (var_offsets n ds) = le_bytes 4 (of_nat (n + sum_list (map length (take k ds))) :: u32)"
proof (induction ds arbitrary: n k)
  case (Cons d ds)
  then show ?case
    by (cases k) (simp_all add: slice_append_left slice_append_shift add.assoc)
qed simp

lemma stored_offset:
  assumes S: "stored_as ts r b" and k: "k < length (var_data ts r)"
  shows "get32 b (rv_var_offset_array (view_of ts r b) + unat (of_nat k * 4 :: u32)) = of_nat (sum_list (map length (take k (var_data ts r))))"
proof -
  let ?k = "length (bitmap_of r) + sum_list (map fsize ts)"
  have u: "unat (of_nat k * 4 :: u32) = 4 * k"
    using k stored_vars [OF S] by (simp add: unat_word_ariths unat_of_nat)
  have "bslice (?k + 4 * k) 4 (record_body ts r) = bslice (4 * k) 4 (var_offsets 0 (var_data ts r))"
    using k length_fixed_part [OF stored_asD(1) [OF S]] by (simp add: record_body_def slice_append_shift slice_append_left)
  then show ?thesis
    using stored_slice [OF S, of "?k + 4 * k" 4] var_offsets_at [OF k, of 0]
    by (simp add: get32_def view_of_def Let_def u add.assoc)
qed


lemma var_data_Cons: "var_data (t # ts) (v # r) = (if fsize t = 0 then [field_bytes v] else []) @ var_data ts r"
  by (simp add: var_data_def)

lemma var_data_at:
  assumes "list_all2 fits_column ts r" "i < length ts" "fsize (ts ! i) = 0"
  defines "k \<equiv> length (filter (\<lambda>t. fsize t = 0) (take i ts))"
  shows "k < length (var_data ts r)" "var_data ts r ! k = field_bytes (r ! i)"
proof -
  have "k < length (var_data ts r) \<and> var_data ts r ! k = field_bytes (r ! i)"
    using assms(1-3) unfolding k_def
  proof (induction ts r arbitrary: i rule: list_all2_induct)
    case Nil
    then show ?case by simp
  next
    case (Cons t ts v r)
    then show ?case by (cases i) (auto simp: var_data_Cons)
  qed
  then show "k < length (var_data ts r)" "var_data ts r ! k = field_bytes (r ! i)" by auto
qed

lemma filter_upt_take: "i \<le> length ts \<Longrightarrow> length (filter (\<lambda>j. P (ts ! j)) [0..<i]) = length (filter P (take i ts))"
  by (induction i) (auto simp: take_Suc_conv_app_nth)

lemma find_next_offset_eq:
  assumes S: "stored_as ts r b" and m: "m \<le> length ts"
  shows "find_next_offset (view_of ts r b) [m..<length ts] x d =
    (if \<exists>j\<in>{m..<length ts}. fsize (ts ! j) = 0 then get32 b (rv_var_offset_array (view_of ts r b) + unat (x * 4)) else d)"
  using m
proof (induction "length ts - m" arbitrary: m)
  case 0
  then show ?case by simp
next
  case (Suc n)
  then have m: "m < length ts" by simp
  have c: "(col_fixed_length (tl_columns (rv_layout (view_of ts r b)) ! m) = 0) = (fsize (ts ! m) = 0)"
    by (simp add: stored_column [OF m] col_len_pos)
  have atLeastLessThan_insert: "{m..<length ts} = insert m {Suc m..<length ts}" using m by auto
  have ex: "(\<exists>j\<in>{m..<length ts}. fsize (ts ! j) = 0) \<longleftrightarrow> fsize (ts ! m) = 0 \<or> (\<exists>j\<in>{Suc m..<length ts}. fsize (ts ! j) = 0)"
    using atLeastLessThan_insert by simp
  have rb: "rv_bytes (view_of ts r b) = b" by (simp add: view_of_def Let_def)
  have IH: "find_next_offset (view_of ts r b) [Suc m..<length ts] x d =
    (if \<exists>j\<in>{Suc m..<length ts}. fsize (ts ! j) = 0 then get32 b (rv_var_offset_array (view_of ts r b) + unat (x * 4)) else d)"
    by (rule Suc.hyps(1)) (use Suc.hyps(2) m in auto)
  show ?case
    unfolding upt_conv_Cons [OF m] find_next_offset.simps stored_active [OF S m] c ex IH rb by auto
qed

lemma var_data_drop:
  assumes "list_all2 fits_column ts r" "i < length ts" "fsize (ts ! i) = 0"
  defines "k \<equiv> length (filter (\<lambda>t. fsize t = 0) (take i ts))"
  shows "(\<exists>j\<in>{Suc i..<length ts}. fsize (ts ! j) = 0) \<longleftrightarrow> Suc k < length (var_data ts r)"
proof -
  have "length (var_data ts r) = length (filter (\<lambda>t. fsize t = 0) ts)"
    using assms(1) by (induction ts r rule: list_all2_induct) (auto simp: var_data_def)
  also have "\<dots> = length (filter (\<lambda>t. fsize t = 0) (take i ts @ ts ! i # drop (Suc i) ts))" using id_take_nth_drop [OF assms(2)] by simp
  finally have "length (var_data ts r) = Suc k + length (filter (\<lambda>t. fsize t = 0) (drop (Suc i) ts))" using assms(3) by (simp add: k_def)
  moreover have "(\<exists>j\<in>{Suc i..<length ts}. fsize (ts ! j) = 0) \<longleftrightarrow> filter (\<lambda>t. fsize t = 0) (drop (Suc i) ts) \<noteq> []"
  proof
    assume "\<exists>j\<in>{Suc i..<length ts}. fsize (ts ! j) = 0"
    then obtain j where j: "Suc i \<le> j" "j < length ts" "fsize (ts ! j) = 0" by auto
    then have "ts ! j \<in> set (drop (Suc i) ts)" by (auto simp: in_set_conv_nth intro!: exI [of _ "j - Suc i"])
    then show "filter (\<lambda>t. fsize t = 0) (drop (Suc i) ts) \<noteq> []" using j by (auto simp: filter_empty_conv)
  next
    assume "filter (\<lambda>t. fsize t = 0) (drop (Suc i) ts) \<noteq> []"
    then obtain j where "j < length ts - Suc i" "fsize (ts ! (Suc i + j)) = 0" by (auto simp: filter_empty_conv in_set_conv_nth)
    then show "\<exists>j\<in>{Suc i..<length ts}. fsize (ts ! j) = 0" by (intro bexI [of _ "Suc i + j"]) auto
  qed
  ultimately show ?thesis by (auto simp: neq_Nil_conv)
qed


lemma stored_var:
  assumes S: "stored_as ts r b" and i: "i < length ts" and z: "fsize (ts ! i) = 0"
  shows "var_span (view_of ts r b) i = field_bytes (r ! i)"
proof -
  define V where "V = view_of ts r b"
  define D where "D = var_data ts r"
  define k where "k = length (filter (\<lambda>t. fsize t = 0) (take i ts))"
  define s where "s = (\<lambda>j. sum_list (map length (take j D)))"
  note fit = stored_asD(1) [OF S]
  have k: "k < length D" "D ! k = field_bytes (r ! i)" using var_data_at [OF fit i z] by (simp_all add: k_def D_def)
  have s_Suc: "s (Suc k) = s k + length (D ! k)" using k(1) by (simp add: s_def take_Suc_conv_app_nth)
  have tot: "s (Suc k) \<le> length (concat D)"
    using sum_prefix_le [OF k(1), of length] s_Suc by (simp add: s_def length_concat)
  have lb: "length b = rv_var_data_offset V + length (concat D)"
  proof -
    have "length b = 40 + length (record_body ts r)" using stored_asD(3,4) [OF S] by (metis le_add_diff_inverse length_drop)
    then show ?thesis using length_fixed_part [OF fit] by (simp add: record_body_def V_def view_of_def Let_def D_def)
  qed
  have small: "length (concat D) < 2 ^ 32" using lb stored_asD(6) [OF S] by simp
  have u: "unat (of_nat (s k) :: u32) = s k" using small tot s_Suc by (intro unat_of_nat_fits) simp
  have f: "filter (is_active_at V) [0..<i] = filter (\<lambda>j. fsize (ts ! j) = 0) [0..<i]"
    by (rule filter_cong) (use i stored_active [OF S] in \<open>auto simp: V_def\<close>)
  have cnt: "length (filter (is_active_at V) [0..<i]) = k"
    unfolding f using filter_upt_take [of i ts "\<lambda>t. fsize t = 0"] i by (simp add: k_def)
  have cur: "get32 b (rv_var_offset_array V + unat (of_nat k * 4 :: u32)) = of_nat (s k)"
    using stored_offset [OF S, of k] k(1) by (simp add: V_def D_def s_def)
  have nxt: "find_next_offset V [Suc i..<length ts] (of_nat k + 1) (of_nat (length b) - of_nat (rv_var_data_offset V)) = (of_nat (s (Suc k)) :: u32)"
  proof (cases "Suc k < length D")
    case True
    then show ?thesis
      using find_next_offset_eq [OF S Suc_leI [OF i]] var_data_drop [OF fit i z] stored_offset [OF S, of "Suc k"]
      by (simp add: V_def D_def s_def k_def [symmetric] add.commute)
  next
    case False
    then have "s (Suc k) = length (concat D)" using k(1) by (simp add: s_def length_concat)
    then show ?thesis
      using False find_next_offset_eq [OF S Suc_leI [OF i]] var_data_drop [OF fit i z] lb
      by (simp add: V_def D_def k_def [symmetric])
  qed
  have rb: "rv_bytes V = b" "column_count (rv_layout V) = length ts" by (simp_all add: V_def view_of_def Let_def layout_of_fields)
  have ln: "unat (of_nat (s (Suc k)) - of_nat (s k) :: u32) = length (D ! k)"
  proof -
    have "of_nat (s (Suc k)) - of_nat (s k) = (of_nat (length (D ! k)) :: u32)" by (simp add: s_Suc)
    moreover have "length (D ! k) < 2 ^ 32" using small tot s_Suc by simp
    ultimately show ?thesis by (simp add: unat_of_nat)
  qed
  have "var_span V i = bslice (rv_var_data_offset V + s k) (length (D ! k)) b"
    unfolding var_span_def Let_def rb cnt cur nxt ln u ..
  also have "\<dots> = bslice (s k) (length (D ! k)) (concat D)"
  proof -
    obtain P where P: "b = P @ concat D" "length P = rv_var_data_offset V"
    proof
      show "b = (take 40 b @ bitmap_of r @ concat (map2 fixed_bytes ts r) @ var_offsets 0 D) @ concat D"
        using append_take_drop_id [of 40 b] stored_asD(4) [OF S] by (simp add: record_body_def D_def)
      then show "length (take 40 b @ bitmap_of r @ concat (map2 fixed_bytes ts r) @ var_offsets 0 D) = rv_var_data_offset V"
        using lb by (metis add_right_cancel length_append)
    qed
    show ?thesis unfolding P(1) by (simp add: slice_append_shift P(2))
  qed
  also have "\<dots> = D ! k" using concat_at [OF k(1)] by (simp add: s_def)
  finally show ?thesis using k(2) by (simp add: V_def)
qed

lemma stored_field:
  assumes S: "stored_as ts r b" and i: "i < length ts"
  shows "rv_field (view_of ts r b) i = Inr (restored_field (ts ! i) (r ! i))"
proof -
  let ?V = "view_of ts r b"
  have c: "tl_column (rv_layout ?V) i = Inr (tl_columns (rv_layout ?V) ! i)"
    using i by (simp add: tl_column_def view_of_def Let_def layout_of_fields)
  have t: "col_type (tl_columns (rv_layout ?V) ! i) = ts ! i" "(0 < col_fixed_length (tl_columns (rv_layout ?V) ! i)) = (0 < fsize (ts ! i))"
    by (simp_all add: stored_column [OF i] col_len_pos)
  show ?thesis
  proof (cases "v_null (r ! i)")
    case True
    then show ?thesis unfolding rv_field_def c using stored_is_null [OF S i] t by (simp add: restored_field_def)
  next
    case False
    then have v: "storable (r ! i)" "v_type (r ! i) = ts ! i" using stored_asD(8) [OF S i] by (auto simp: fits_column_def)
    have "deserialize (field_bytes (r ! i)) (ts ! i) = Inr (restored (r ! i))" using storable_bytes(2) [OF v(1)] v(2) by simp
    then show ?thesis
      unfolding rv_field_def c using False stored_is_null [OF S i] t stored_fixed [OF S i] stored_var [OF S i]
      by (cases "fsize (ts ! i) = 0") (simp_all add: restored_field_def)
  qed
qed

lemma read_fields_all: "\<forall>i\<in>set is. rv_field v i = Inr (f i) \<Longrightarrow> read_fields v is = Inr (map f is)"
  by (induction "is") auto

lemma stored_reads:
  assumes S: "stored_as ts r b"
  shows "record_deserialize b (layout_of ts) = Inr (map2 restored_field ts r)"
proof -
  have "read_fields (view_of ts r b) [0..<length ts] = Inr (map (\<lambda>i. restored_field (ts ! i) (r ! i)) [0..<length ts])"
    by (rule read_fields_all) (use stored_field [OF S] in auto)
  moreover have "map (\<lambda>i. restored_field (ts ! i) (r ! i)) [0..<length ts] = map2 restored_field ts r"
    by (rule nth_equalityI) (use stored_asD(7) [OF S] in auto)
  ultimately show ?thesis by (simp add: record_deserialize_def stored_view [OF S] layout_of_fields)
qed


lemma length_header_bytes [simp]: "length (header_bytes pad h) = 40"
  by (simp add: header_bytes_def)

lemma header_bytes_fields:
  "get16 (header_bytes pad h @ X) 4 = rh_flags h" "record_mvcc (header_bytes pad h @ X) = rh_mvcc h"
  by (simp_all add: get16_def get32_def get64_def header_bytes_def record_mvcc_def bslice_def)

lemma serialized_stored:
  assumes "list_all2 fits_column ts r" "length ts < 2 ^ 28" "record_serialize pad r (layout_of ts) = Inr b" "length b < 2 ^ 32"
  shows "stored_as ts r b" "record_mvcc b = MVCCHeader_init" "40 \<le> length b"
  using assms record_serialize_bytes [OF assms(1,2), of pad] by (auto simp: stored_as_def header_bytes_fields)

lemma stored_set_mvcc:
  assumes "stored_as ts r b"
  shows "stored_as ts r (set_mvcc m b)" "record_mvcc (set_mvcc m b) = m" "length (set_mvcc m b) = length b"
proof -
  have len: "40 \<le> length b" using stored_asD(3) [OF assms] .
  then show l: "length (set_mvcc m b) = length b" by (simp add: set_mvcc_def put32_def put64_def)
  have "drop 40 (set_mvcc m b) = drop 40 b" using len by (simp add: set_mvcc_def put32_def put64_def drop_patch)
  moreover have "get16 (set_mvcc m b) 4 = get16 b 4" using len by (simp add: set_mvcc_def put32_def put64_def get16_def slice_patch_disjoint)
  ultimately show "stored_as ts r (set_mvcc m b)" using assms l by (simp add: stored_as_def)
  show "record_mvcc (set_mvcc m b) = m"
    using len by (simp add: set_mvcc_def put32_def put64_def record_mvcc_def get64_def get32_def slice_patch_disjoint slice_patch_same')
qed

lemma set_xmax_fields:
  assumes "40 \<le> length b"
  shows "record_mvcc (set_xmax x b) = (record_mvcc b)\<lparr>mvcc_xmax := x\<rparr>" "length (set_xmax x b) = length b"
  using assms by (simp_all add: set_xmax_def put64_def record_mvcc_def get64_def get32_def slice_patch_disjoint slice_patch_same')

lemma stored_set_xmax: "stored_as ts r b \<Longrightarrow> stored_as ts r (set_xmax x b)"
  unfolding stored_as_def by (auto simp: set_xmax_def put64_def drop_patch get16_def slice_patch_disjoint)

section \<open>Properties\<close>




text \<open>C19. A null in a column of variable size shifts the fields around it: the writer stores no offset for it but the
  reader counts one, so the text stored beside a null text comes back without its first four bytes.\<close>
theorem null_text_shifts:
  assumes "4 \<le> length s" "length s < 2 ^ 31"
  shows "\<exists>b. record_serialize pad [string_value s Text_t, null_value Text_t] (layout_of [Text_t, Text_t]) = Inr b \<and>
    record_deserialize b (layout_of [Text_t, Text_t]) = Inr [string_value (drop 4 s) Text_t, null_value Text_t]"
proof -
  define S where "S = string_bytes s"
  have lS: "length S = length s" by (simp add: S_def)
  define L where "L = layout_of [Text_t, Text_t]"
  have fs: "fsize Text_t = 0" "is_var Text_t" by (simp_all add: fsize_def is_var_def type_info.defs)
  have L: "tl_columns L = [\<lparr>col_type = Text_t, col_offset = 0, col_fixed_length = 0\<rparr>, \<lparr>col_type = Text_t, col_offset = 0, col_fixed_length = 0\<rparr>]"
    "tl_fixed_size L = 0" "tl_variable_count L = 2" "column_count L = 2"
    unfolding L_def layout_of_fields by (simp_all add: fs)
  have bm: "null_bitmap [string_value s Text_t, null_value Text_t] = [2]"
    by (simp add: null_bitmap_def value_constructors upt_rec)
  define h where "h = \<lparr>rh_size = of_nat (45 + length S), rh_flags = 6, rh_mvcc = MVCCHeader_init\<rparr>"
  define b where "b = header_bytes pad h @ [2] @ le_bytes 4 (0 :: u32) @ S"
  have z: "le_bytes 4 (0 :: u32) = [0, 0, 0, 0]" by (simp add: eval_nat_numeral)
  have wr: "write_variable (zip (tl_columns L) [string_value s Text_t, null_value Text_t]) (replicate 40 0 @ [2]) =
      Inr (replicate 40 0 @ [2] @ [0, 0, 0, 0] @ S)"
    by (simp add: write_variable_def L is_active_var_def value_constructors serialize.simps is_text_def S_def [symmetric] patch_def eval_nat_numeral z [unfolded eval_nat_numeral])
  have fl: "rh_set_has_varlen True (rh_set_has_nulls True (RecordHeader_init\<lparr>rh_size := of_nat (45 + length S)\<rparr>)) = h"
    by (simp add: rh_set_has_varlen_def rh_set_has_nulls_def set_flag_def RecordHeader_init_def REC_HAS_NULLS_def REC_HAS_VARLEN_def h_def)
  have nn: "list_ex v_null [string_value s Text_t, null_value Text_t]" by (simp add: value_constructors)
  have wf: "write_fixed n (zip (tl_columns L) [string_value s Text_t, null_value Text_t]) X = Inr X" for n X by (simp add: L)
  have pt: "patch 0 (header_bytes pad h) (replicate 40 0 @ X) = header_bytes pad h @ X" for X by (simp add: patch_def)
  have ser: "record_serialize pad [string_value s Text_t, null_value Text_t] L = Inr b"
    using fl pt nn by (simp add: record_serialize_def L(2-4) Let_def bm sizeof_RecordHeader_def wf wr [simplified] b_def z)
  define V where "V = \<lparr>rv_bytes = b, rv_layout = L, rv_fixed_data_offset = 41, rv_var_offset_array = 41, rv_var_data_offset = 49, rv_has_nulls = True\<rparr>"
  have V: "RecordView_init b L = Inr V"
  proof -
    have "get16 b 4 = 6" by (simp add: b_def header_bytes_fields h_def)
    then show ?thesis by (simp add: RecordView_init_def b_def [symmetric] Let_def REC_HAS_NULLS_def REC_HAS_VARLEN_def L V_def sizeof_RecordHeader_def) (simp add: b_def)
  qed
  have nul: "rv_is_null V i \<longleftrightarrow> i = 1" if "i < 2" for i
  proof -
    have "bslice 40 1 b = [2]" by (simp add: b_def slice_append_shift bslice_def)
    then show ?thesis using that by (cases i) (auto simp: rv_is_null_def V_def sizeof_RecordHeader_def less_Suc_eq)
  qed
  have o0: "get32 b 41 = 0" by (simp add: b_def get32_def bslice_def)
  have lb: "length b = 45 + length S" by (simp add: b_def)
  have nx: "unat (of_nat (length b) - of_nat 49 :: u32) = length S - 4"
  proof -
    have "(of_nat (length b) - of_nat 49 :: u32) = of_nat (length S - 4)" using assms(1) lS by (simp add: lb of_nat_diff)
    moreover have "length S - 4 < 2 ^ LENGTH(32)" using assms(2) lS by simp
    ultimately show ?thesis by (simp only: unat_of_nat_fits)
  qed
  have act: "\<not> is_active_at V 1" "col_fixed_length (tl_columns (rv_layout V) ! 1) = 0" using nul by (simp_all add: is_active_at_def V_def L)
  have "var_span V 0 = bslice 49 (length S - 4) b"
    using act nx o0 by (simp add: var_span_def Let_def V_def L upt_rec)
  also have "\<dots> = drop 4 S" by (simp add: b_def bslice_def)
  finally have vs: "var_span V 0 = drop 4 S" .
  have f0: "rv_field V 0 = Inr (string_value (drop 4 s) Text_t)"
    using nul [of 0] vs by (simp add: rv_field_def V_def [symmetric]) (simp add: V_def tl_column_def L deserialize.simps is_text_def S_def drop_map [symmetric] string_bytes_def bytes_string_def o_def)
  have f1: "rv_field V 1 = Inr (null_value Text_t)"
    using nul [of 1] by (simp add: rv_field_def tl_column_def) (simp add: V_def L)
  have "record_deserialize b L = Inr [string_value (drop 4 s) Text_t, null_value Text_t]"
    using f0 f1 by (simp add: record_deserialize_def V L upt_rec)
  then show ?thesis using ser by (auto simp: L_def)
qed


theorem null_text_shifts_witness:
  "\<exists>b. record_serialize (0, 0) [string_value ''abcdefgh'' Text_t, null_value Text_t] (layout_of [Text_t, Text_t]) = Inr b \<and>
     record_deserialize b (layout_of [Text_t, Text_t]) = Inr [string_value ''efgh'' Text_t, null_value Text_t]"
  using null_text_shifts [of "''abcdefgh''" "(0, 0)"] by simp

end
