(* ===== verification/Table_Heap.thy ===== *)
theory Table_Heap
  imports Tuple_Record Page_Cache
begin

text \<open>
  \<open>table_heap.hpp/.cpp\<close>: rows with versions in a chain of table pages. A \<open>TablePage\<close> object is the frame
  it pins; its destructor is the \<open>handle_unpin\<close> at the end of each scope. The log manager of a heap, if
  one is set, is the log of its buffer pool. The transaction of a \<open>TransactionContext\<close> is passed in and
  out. Following page links or versions may not end when they form a cycle, so the two loops are
  \<open>partial_function (option)\<close>.
\<close>

section \<open>State\<close>

record table_heap =
  th_first_page_id :: page_id
  th_wal :: bool

definition TableHeap_init :: "page_id \<Rightarrow> table_heap" where
  "TableHeap_init i = \<lparr>th_first_page_id = i, th_wal = False\<rparr>"

definition set_wal_manager :: "bool \<Rightarrow> table_heap \<Rightarrow> table_heap" where
  "set_wal_manager w h = h\<lparr>th_wal := w\<rparr>"

text \<open>Running an operation of \<open>TablePage\<close> on a pinned frame.\<close>

definition page_at :: "frame_id \<Rightarrow> buffer_pool \<Rightarrow> table_page" where
  "page_at f bp = \<lparr>tp_page = fr_page (frame_of bp f), tp_frame_dirty = fr_dirty (frame_of bp f)\<rparr>"

definition put_page :: "frame_id \<Rightarrow> table_page \<Rightarrow> buffer_pool \<Rightarrow> buffer_pool" where
  "put_page f t bp = set_frame f ((frame_of bp f)\<lparr>fr_page := tp_page t, fr_dirty := tp_frame_dirty t\<rparr>) bp"

section \<open>Operations\<close>

definition heap_create :: "buffer_pool \<Rightarrow> buffer_pool \<times> table_heap outcome" where
  "heap_create bp =
     (case pool_allocate_page bp of
        (bp, Inl e) \<Rightarrow> (bp, Inl e)
      | (bp, Inr (Inl s)) \<Rightarrow> (bp, Inr (Inl s))
      | (bp, Inr (Inr f)) \<Rightarrow>
          let bp = put_page f (tp_init (page_at f bp)) bp
          in (handle_unpin f bp, Inr (Inr (TableHeap_init (tp_page_id (page_at f bp))))))"

text \<open>The log record of a change: only the page id, cut to 32 bits.\<close>

definition log_change :: "table_heap \<Rightarrow> log_record_type \<Rightarrow> frame_id \<Rightarrow> buffer_pool \<Rightarrow> transaction \<Rightarrow> buffer_pool \<times> transaction \<times> (exn + unit)" where
  "log_change h ty f bp tx =
     (case (if th_wal h then bp_wal bp else None) of
        None \<Rightarrow> (bp, tx, Inr ())
      | Some w \<Rightarrow>
          let payload = le_bytes 4 (ucast (tp_page_id (page_at f bp)) :: u32);
              log_rec = LogRecord_clr (tx_id tx) ty (tx_last_lsn tx) LSN_invalid payload
          in case wal_append log_rec w of
               (w, _, Inl e) \<Rightarrow> (bp\<lparr>bp_wal := Some w\<rparr>, tx, Inl e)
             | (w, _, Inr l) \<Rightarrow>
                 let bp = bp\<lparr>bp_wal := Some w\<rparr>
                 in (put_page f (set_lsn (page_at f bp) l) bp, tx\<lparr>tx_last_lsn := l\<rparr>, Inr ()))"

text \<open>The scan of \<open>insert\<close> over the existing pages: the new record id, or the last page of the chain.\<close>

definition try_insert :: "bytes \<Rightarrow> table_page \<Rightarrow> table_page \<times> record_id result" where
  "try_insert b t = tp_insert (if free_space (tp_data t) < length b + sizeof_Slot then tp_compact t else t) b"

partial_function (option) find_space ::
    "bytes \<Rightarrow> page_id \<Rightarrow> page_id \<Rightarrow> buffer_pool \<Rightarrow> (buffer_pool \<times> (page_id + record_id) outcome) option" where
  "find_space b current_id last_id bp =
     (if \<not> is_valid_id current_id then Some (bp, Inr (Inr (Inl last_id)))
      else case fetch_page current_id bp of
        (bp, Inl e) \<Rightarrow> Some (bp, Inl e)
      | (bp, Inr (Inl s)) \<Rightarrow> Some (bp, Inr (Inl s))
      | (bp, Inr (Inr f)) \<Rightarrow>
          (case try_insert b (page_at f bp) of
             (t, Inr rid) \<Rightarrow> Some (handle_unpin f (put_page f t bp), Inr (Inr (Inr rid)))
           | (t, Inl _) \<Rightarrow> find_space b (next_page_id t) current_id (handle_unpin f (put_page f t bp))))"

text \<open>The second half of \<open>insert\<close>: a new page at the end of the chain.\<close>

definition link_last :: "page_id \<Rightarrow> page_id \<Rightarrow> buffer_pool \<Rightarrow> buffer_pool \<times> (exn + unit)" where
  "link_last last_id new_id bp =
     (if \<not> is_valid_id last_id then (bp, Inr ())
      else case fetch_page last_id bp of
        (bp, Inl e) \<Rightarrow> (bp, Inl e)
      | (bp, Inr (Inl _)) \<Rightarrow> (bp, Inr ())
      | (bp, Inr (Inr f)) \<Rightarrow> (handle_unpin f (put_page f (set_next_page_id (page_at f bp) new_id) bp), Inr ()))"

definition extend_heap :: "table_heap \<Rightarrow> bytes \<Rightarrow> page_id \<Rightarrow> buffer_pool \<Rightarrow> transaction \<Rightarrow> buffer_pool \<times> transaction \<times> record_id outcome" where
  "extend_heap h b last_id bp tx =
     (case pool_allocate_page bp of
        (bp, Inl e) \<Rightarrow> (bp, tx, Inl e)
      | (bp, Inr (Inl s)) \<Rightarrow> (bp, tx, Inr (Inl s))
      | (bp, Inr (Inr f)) \<Rightarrow>
          let t = set_prev_page_id (tp_init (page_at f bp)) last_id in
          case tp_insert t b of
            (t, Inl s) \<Rightarrow> (handle_unpin f (put_page f t bp), tx, Inr (Inl s))
          | (t, Inr rid) \<Rightarrow>
              (case log_change h LogRecordType_Insert f (put_page f t bp) tx of
                 (bp, tx, Inl e) \<Rightarrow> (handle_unpin f bp, tx, Inl e)
               | (bp, tx, Inr _) \<Rightarrow>
                   let tx = add_undo_record \<lparr>ur_op = Undo_Insert, ur_table = 0, ur_record = rid\<rparr> tx in
                   case link_last last_id (tp_page_id t) bp of
                     (bp, Inl e) \<Rightarrow> (handle_unpin f bp, tx, Inl e)
                   | (bp, Inr _) \<Rightarrow> (handle_unpin f bp, tx, Inr (Inr rid))))"

definition stamp_version :: "txn_id \<Rightarrow> record_id \<Rightarrow> bytes \<Rightarrow> bytes" where
  "stamp_version x prev b =
     (if length b \<ge> sizeof_RecordHeader
      then set_mvcc \<lparr>mvcc_xmin = x, mvcc_xmax = INVALID_TRANSACTION_ID, mvcc_prev_version = prev\<rparr> b else b)"

definition heap_insert :: "padding \<Rightarrow> table_heap \<Rightarrow> row \<Rightarrow> tuple_layout \<Rightarrow> buffer_pool \<Rightarrow> transaction \<Rightarrow>
    (buffer_pool \<times> transaction \<times> record_id outcome) option" where
  "heap_insert pad h r L bp tx =
     (case record_serialize pad r L of
        Inl e \<Rightarrow> Some (bp, tx, Inl e)
      | Inr b \<Rightarrow>
          let b = stamp_version (tx_id tx) invalid_rid b in
          case find_space b (th_first_page_id h) invalid_value bp of
            None \<Rightarrow> None
          | Some (bp, Inl e) \<Rightarrow> Some (bp, tx, Inl e)
          | Some (bp, Inr (Inl s)) \<Rightarrow> Some (bp, tx, Inr (Inl s))
          | Some (bp, Inr (Inr (Inr rid))) \<Rightarrow> Some (bp, tx, Inr (Inr rid))
          | Some (bp, Inr (Inr (Inl last_id))) \<Rightarrow> Some (extend_heap h b last_id bp tx))"

definition lift_exn :: "exn + 'a \<Rightarrow> 'a outcome" where
  "lift_exn x = (case x of Inl e \<Rightarrow> Inl e | Inr a \<Rightarrow> Inr (Inr a))"

definition get_physical :: "record_id \<Rightarrow> tuple_layout \<Rightarrow> buffer_pool \<Rightarrow> buffer_pool \<times> row outcome" where
  "get_physical rid L bp =
     (case fetch_page (rid_page rid) bp of
        (bp, Inl e) \<Rightarrow> (bp, Inl e)
      | (bp, Inr (Inl s)) \<Rightarrow> (bp, Inr (Inl s))
      | (bp, Inr (Inr f)) \<Rightarrow>
          (case tp_get (page_at f bp) rid of
             Inl s \<Rightarrow> (handle_unpin f bp, Inr (Inl s))
           | Inr b \<Rightarrow> (handle_unpin f bp, lift_exn (record_deserialize b L))))"

partial_function (option) heap_get ::
    "tuple_layout \<Rightarrow> registry \<Rightarrow> snapshot \<Rightarrow> txn_id \<Rightarrow> record_id \<Rightarrow> buffer_pool \<Rightarrow> (buffer_pool \<times> row outcome) option" where
  "heap_get L reg snap x current_id bp =
     (if \<not> rid_is_valid current_id then Some (bp, Inr (Inl NotFound))
      else case fetch_page (rid_page current_id) bp of
        (bp, Inl e) \<Rightarrow> Some (bp, Inl e)
      | (bp, Inr (Inl s)) \<Rightarrow> Some (bp, Inr (Inl s))
      | (bp, Inr (Inr f)) \<Rightarrow>
          (case tp_get (page_at f bp) current_id of
             Inl s \<Rightarrow> Some (handle_unpin f bp, Inr (Inl s))
           | Inr b \<Rightarrow>
               if length b \<ge> sizeof_RecordHeader then
                 (if is_visible reg (record_mvcc b) snap x then Some (handle_unpin f bp, lift_exn (record_deserialize b L))
                  else heap_get L reg snap x (mvcc_prev_version (record_mvcc b)) (handle_unpin f bp))
               else Some (handle_unpin f bp, Inr (Inl InternalError))))"

text \<open>The first half of \<open>update\<close>, and all of \<open>erase\<close>: mark the version as deleted and log it.\<close>

definition mark_deleted :: "table_heap \<Rightarrow> log_record_type \<Rightarrow> record_id \<Rightarrow> frame_id \<Rightarrow> buffer_pool \<Rightarrow> transaction \<Rightarrow>
    buffer_pool \<times> transaction \<times> unit outcome" where
  "mark_deleted h ty rid f bp tx =
     (case tp_get (page_at f bp) rid of
        Inl s \<Rightarrow> (bp, tx, Inr (Inl s))
      | Inr old_bytes \<Rightarrow>
          if length old_bytes < sizeof_RecordHeader then (bp, tx, Inr (Inl InternalError))
          else let xmax = mvcc_xmax (record_mvcc old_bytes) in
            if xmax \<noteq> INVALID_TRANSACTION_ID \<and> xmax \<noteq> tx_id tx then (bp, tx, Inr (Inl TransactionAborted))
            else case tp_update (page_at f bp) rid (set_xmax (tx_id tx) old_bytes) of
                   (t, Inl s) \<Rightarrow> (put_page f t bp, tx, Inr (Inl s))
                 | (t, Inr _) \<Rightarrow>
                     (case log_change h ty f (put_page f t bp) tx of
                        (bp, tx, Inl e) \<Rightarrow> (bp, tx, Inl e)
                      | (bp, tx, Inr _) \<Rightarrow>
                          (bp, add_undo_record \<lparr>ur_op = Undo_Delete, ur_table = 0, ur_record = rid\<rparr> tx, Inr (Inr ()))))"

definition heap_erase :: "table_heap \<Rightarrow> record_id \<Rightarrow> buffer_pool \<Rightarrow> transaction \<Rightarrow> buffer_pool \<times> transaction \<times> unit outcome" where
  "heap_erase h rid bp tx =
     (case fetch_page (rid_page rid) bp of
        (bp, Inl e) \<Rightarrow> (bp, tx, Inl e)
      | (bp, Inr (Inl s)) \<Rightarrow> (bp, tx, Inr (Inl s))
      | (bp, Inr (Inr f)) \<Rightarrow>
          (case mark_deleted h LogRecordType_Delete rid f bp tx of
             (bp, tx, r) \<Rightarrow> (handle_unpin f bp, tx, r)))"

text \<open>The insertion loop of \<open>update\<close>, which neither compacts nor adds pages.\<close>

partial_function (option) place_version ::
    "table_heap \<Rightarrow> bytes \<Rightarrow> page_id \<Rightarrow> buffer_pool \<Rightarrow> transaction \<Rightarrow> (buffer_pool \<times> transaction \<times> unit outcome) option" where
  "place_version h b current_id bp tx =
     (if \<not> is_valid_id current_id then Some (bp, tx, Inr (Inl InternalError))
      else case fetch_page current_id bp of
        (bp, Inl e) \<Rightarrow> Some (bp, tx, Inl e)
      | (bp, Inr (Inl s)) \<Rightarrow> Some (bp, tx, Inr (Inl s))
      | (bp, Inr (Inr f)) \<Rightarrow>
          (case tp_insert (page_at f bp) b of
             (t, Inr rid) \<Rightarrow>
               (case log_change h LogRecordType_Insert f (put_page f t bp) tx of
                  (bp, tx, Inl e) \<Rightarrow> Some (handle_unpin f bp, tx, Inl e)
                | (bp, tx, Inr _) \<Rightarrow>
                    Some (handle_unpin f bp, add_undo_record \<lparr>ur_op = Undo_Insert, ur_table = 0, ur_record = rid\<rparr> tx, Inr (Inr ())))
           | (t, Inl _) \<Rightarrow> place_version h b (next_page_id t) (handle_unpin f (put_page f t bp)) tx))"

definition heap_update :: "padding \<Rightarrow> table_heap \<Rightarrow> record_id \<Rightarrow> row \<Rightarrow> tuple_layout \<Rightarrow> buffer_pool \<Rightarrow> transaction \<Rightarrow>
    (buffer_pool \<times> transaction \<times> unit outcome) option" where
  "heap_update pad h rid r L bp tx =
     (case fetch_page (rid_page rid) bp of
        (bp, Inl e) \<Rightarrow> Some (bp, tx, Inl e)
      | (bp, Inr (Inl s)) \<Rightarrow> Some (bp, tx, Inr (Inl s))
      | (bp, Inr (Inr f)) \<Rightarrow>
          (case mark_deleted h LogRecordType_Update rid f bp tx of
             (bp, tx, Inl e) \<Rightarrow> Some (handle_unpin f bp, tx, Inl e)
           | (bp, tx, Inr (Inl s)) \<Rightarrow> Some (handle_unpin f bp, tx, Inr (Inl s))
           | (bp, tx, Inr (Inr _)) \<Rightarrow>
               (case record_serialize pad r L of
                  Inl e \<Rightarrow> Some (handle_unpin f bp, tx, Inl e)
                | Inr b \<Rightarrow>
                    (case place_version h (stamp_version (tx_id tx) rid b) (th_first_page_id h) bp tx of
                       None \<Rightarrow> None
                     | Some (bp, tx, res) \<Rightarrow> Some (handle_unpin f bp, tx, res)))))"

section \<open>Table pages up to their checksum\<close>

lemma page_body_drop:
  assumes "page_body b' = page_body b" "80 \<le> length b"
  shows "length b' = length b" "drop 36 b' = drop 36 b"
proof -
  have l: "length (page_body b) = length b" using assms(2) by (simp add: page_body_def)
  have "36 \<le> length b'"
  proof (rule ccontr)
    assume "\<not> 36 \<le> length b'"
    then have "length (page_body b') \<le> 36" by (simp add: page_body_def patch_def)
    then show False using assms l by simp
  qed
  moreover from this have l': "length (page_body b') = length b'" by (simp add: page_body_def)
  ultimately show len: "length b' = length b" using l assms(1) by simp
  have "drop 36 (page_body b) = drop 36 b" "drop 36 (page_body b') = drop 36 b'"
    using assms(2) len by (simp_all add: page_body_def drop_patch)
  then show "drop 36 b' = drop 36 b" using assms(1) by simp
qed

lemma slice_drop: "k \<le> off \<Longrightarrow> bslice off n d = bslice (off - k) n (drop k d)"
  by (simp add: bslice_def)

text \<open>The overlay lies behind the page header, and the slots and records behind the two links.\<close>

lemma overlay_drop:
  assumes "drop 36 d' = drop 36 d"
  shows "hdr_next d' = hdr_next d" "hdr_prev d' = hdr_prev d"
  using assms slice_drop [of 36 _ 8 d] slice_drop [of 36 _ 8 d'] by (simp_all add: field_defs get64_def)

lemma slots_drop:
  assumes "drop 52 d' = drop 52 d"
  shows "slot_count d' = slot_count d" "lower_bound d' = lower_bound d"
    "upper_bound d' = upper_bound d" "live_count d' = live_count d" "slot_at d' i = slot_at d i" "slot_ext d' = slot_ext d"
proof -
  have s: "bslice off n d' = bslice off n d" if "52 \<le> off" for off n
    using assms slice_drop [OF that, of n d] slice_drop [OF that, of n d'] by simp
  show f: "slot_count d' = slot_count d" "lower_bound d' = lower_bound d"
    "upper_bound d' = upper_bound d" "live_count d' = live_count d" "\<And>i. slot_at d' i = slot_at d i"
    by (simp_all add: field_defs slot_at_def get16_def get32_def s)
  then show "slot_ext d' = slot_ext d" by (simp add: slot_ext_def fun_eq_iff)
qed

lemma tp_inv_slots:
  assumes "drop 52 d' = drop 52 d" "length d' = length d" "tp_inv d"
  shows "tp_inv d'" "tp_abs d' = tp_abs d"
proof -
  note o = slots_drop [OF assms(1)]
  show "tp_inv d'" using assms(2,3) by (simp add: tp_inv_def o)
  show "tp_abs d' = tp_abs d"
  proof
    fix i
    show "tp_abs d' i = tp_abs d i"
    proof (cases "slot_ext d i")
      case (Some e)
      obtain off len where e: "e = (off, len)" by fastforce
      have "unat (upper_bound d) \<le> off" using assms(3) layoutD(1) [of _ _ "slot_ext d" i off len] Some e by (auto simp: tp_inv_def)
      then have "52 \<le> off - 4" using tp_inv_bounds(4) [OF assms(3)] by simp
      from slice_drop [OF this, of len d] slice_drop [OF this, of len d'] show ?thesis
        using assms(1) Some e by (simp add: tp_abs_def o ext_bytes_def)
    qed (simp add: tp_abs_def o)
  qed
qed

lemma tp_inv_drop:
  assumes "drop 36 d' = drop 36 d" "length d' = length d" "tp_inv d"
  shows "tp_inv d'" "tp_abs d' = tp_abs d"
proof -
  have "drop 52 d' = drop 52 d" using arg_cong [OF assms(1), of "drop 16"] by simp
  from tp_inv_slots [OF this assms(2,3)] show "tp_inv d'" "tp_abs d' = tp_abs d" .
qed

lemma put_links:
  assumes "tp_ok t"
  shows "tp_ok (set_next_page_id t i)" "tp_abs (tp_data (set_next_page_id t i)) = tp_abs (tp_data t)"
    "next_page_id (set_next_page_id t i) = i"
    "tp_ok (set_prev_page_id t i)" "tp_abs (tp_data (set_prev_page_id t i)) = tp_abs (tp_data t)"
    "next_page_id (set_prev_page_id t i) = next_page_id t"
proof -
  have inv: "tp_inv (tp_data t)" and l: "80 \<le> length (tp_data t)" using assms tp_inv_bounds(1) by (auto simp: tp_ok_def)
  have d: "tp_data (with_data t x) = x" for x by (simp add: tp_data_def with_data_def)
  have e: "drop 52 (put64 36 i (tp_data t)) = drop 52 (tp_data t)" "drop 52 (put64 44 i (tp_data t)) = drop 52 (tp_data t)"
    using l by (simp_all add: put64_def drop_patch)
  show "tp_ok (set_next_page_id t i)" "tp_abs (tp_data (set_next_page_id t i)) = tp_abs (tp_data t)"
    "tp_ok (set_prev_page_id t i)" "tp_abs (tp_data (set_prev_page_id t i)) = tp_abs (tp_data t)"
    using tp_inv_slots [OF e(1) _ inv] tp_inv_slots [OF e(2) _ inv] l by (simp_all add: tp_ok_def set_next_page_id_def set_prev_page_id_def d)
  show "next_page_id (set_next_page_id t i) = i" "next_page_id (set_prev_page_id t i) = next_page_id t"
    using l by (simp_all add: next_page_id_def set_next_page_id_def set_prev_page_id_def d field_defs) (simp_all add: put_patch get_patch_other)
qed

lemma links_take:
  assumes "take 52 d' = take 52 d"
  shows "hdr_next d' = hdr_next d" "hdr_prev d' = hdr_prev d"
proof -
  have *: "bslice off 8 (take 52 x) = bslice off 8 x" if "off + 8 \<le> 52" for off and x :: bytes
    using that by (simp add: bslice_def drop_take)
  have "bslice 36 8 d' = bslice 36 8 d" "bslice 44 8 d' = bslice 44 8 d"
    using assms * [of 36 d] * [of 36 d'] * [of 44 d] * [of 44 d'] by simp_all
  then show "hdr_next d' = hdr_next d" "hdr_prev d' = hdr_prev d" by (simp_all add: field_defs get64_def)
qed

text \<open>What the operations of a page leave alone.\<close>

definition same_page :: "table_page \<Rightarrow> table_page \<Rightarrow> bool" where
  "same_page t t' \<longleftrightarrow> tp_page_id t' = tp_page_id t \<and> length (tp_data t') = length (tp_data t) \<and> (tp_frame_dirty t' \<or> t' = t)"

definition same_links :: "table_page \<Rightarrow> table_page \<Rightarrow> bool" where
  "same_links t t' \<longleftrightarrow> same_page t t' \<and> next_page_id t' = next_page_id t"

lemma tp_compact_frame: "tp_ok t \<Longrightarrow> same_links t (tp_compact t)"
  using compact_data_ok [of "tp_data t"] links_take [of "compact_data (tp_data t)" "tp_data t"]
  by (simp add: same_links_def same_page_def tp_ok_def tp_compact_def next_page_id_def) (simp add: with_data_def)

lemma tp_insert_frame:
  assumes "tp_ok t" "tp_insert t b = (t', r)"
  shows "same_links t t'"
proof (cases r)
  case (Inl e)
  then show ?thesis using tp_insert_fails [of t b t'] assms(2)
    by (auto simp: same_links_def same_page_def next_page_id_def tp_insert_def get_mut_def split: prod.splits sum.splits status.splits)
next
  case (Inr rid)
  then obtain d k where d: "insert_data (tp_data t) b = (d, Inr k)" and t': "t' = with_data t d"
    using assms(2) by (auto simp: tp_insert_def split: prod.splits sum.splits status.splits)
  note i = insert_data_ok [OF assms(1) [unfolded tp_ok_def] d]
  show ?thesis using links_take(1) [OF i(5)] i(4) by (simp add: t' same_links_def same_page_def next_page_id_def) (simp add: with_data_def)
qed

lemma tp_update_frame:
  assumes "tp_ok t" "tp_update t r b = (t', x)"
  shows "same_links t t'"
proof (cases x)
  case (Inl e)
  then show ?thesis using tp_update_fails [of t r b t'] assms(2)
    by (auto simp: same_links_def same_page_def next_page_id_def tp_update_def Let_def get_mut_def split: if_splits)
next
  case (Inr u)
  let ?d = "tp_data t" and ?k = "unat (rid_slot r)"
  let ?s = "slot_at ?d ?k"
  have inv: "tp_inv ?d" using assms(1) by (simp add: tp_ok_def)
  have k: "rid_page r = tp_page_id t" "?k < unat (slot_count ?d)" "is_live ?s"
    using assms(2) Inr by (auto simp: tp_update_def Let_def word_le_nat_alt not_le split: if_splits)
  then have ek: "slot_ext ?d ?k = Some (unat (s_offset ?s), unat (s_length ?s))" by (simp add: slot_ext_def)
  have up: "upper_bound (put32 60 v ?d) = v" for v
    using tp_inv_bounds(1) [OF inv] by (simp add: fields_put_header)
  have "\<exists>d. t' = with_data t d \<and> length d = length ?d \<and> take 52 d = take 52 ?d"
  proof (cases "length b \<le> unat (s_length ?s)")
    case True
    then have "t' = with_data t (put32 (72 + 12 * ?k) (of_nat (length b)) (patch (unat (s_offset ?s) - 4) b ?d))"
      using assms(2) Inr k by (auto simp: tp_update_def Let_def rec_at_def split: if_splits)
    then show ?thesis using overwrite_effect [OF inv ek True refl] by blast
  next
    case False
    then have "length b \<le> free_space ?d" and "t' = with_data t (place ?k b ?d)"
      using assms(2) Inr k by (auto simp: tp_update_def Let_def place_def up split: if_splits)
    then show ?thesis using move_effect [OF inv] ek by blast
  qed
  then obtain d where "t' = with_data t d" "length d = length ?d" "take 52 d = take 52 ?d" by blast
  then show ?thesis using links_take(1) [of d ?d] by (simp add: same_links_def same_page_def next_page_id_def) (simp add: with_data_def)
qed


lemma same_links_trans: "same_links t t' \<Longrightarrow> same_links t' t'' \<Longrightarrow> same_links t t''"
  by (auto simp: same_links_def same_page_def)

lemma tp_insert_abs:
  assumes "tp_ok t" "tp_insert t b = (t', r)"
  shows "tp_ok t'" "r = Inl e \<Longrightarrow> tp_abs (tp_data t') = tp_abs (tp_data t)"
    "r = Inr rid \<Longrightarrow> rid_page rid = tp_page_id t \<and> tp_abs (tp_data t) (unat (rid_slot rid)) = None \<and>
       tp_abs (tp_data t') = (tp_abs (tp_data t))(unat (rid_slot rid) \<mapsto> b)"
proof -
  show "tp_ok t'" using tp.ins_ok [OF assms(1)] tp.ins_fail [OF assms(1)] assms(2) by (cases r) auto
  show "tp_abs (tp_data t') = tp_abs (tp_data t)" if "r = Inl e" using tp_insert_fails [OF assms(2) [unfolded that]] by simp
  show "rid_page rid = tp_page_id t \<and> tp_abs (tp_data t) (unat (rid_slot rid)) = None \<and>
       tp_abs (tp_data t') = (tp_abs (tp_data t))(unat (rid_slot rid) \<mapsto> b)" if r: "r = Inr rid"
  proof -
    obtain d k where d: "insert_data (tp_data t) b = (d, Inr k)" and t': "t' = with_data t d"
      and rid: "rid = \<lparr>rid_page = tp_page_id t, rid_slot = k\<rparr>"
      using assms(2) r by (auto simp: tp_insert_def split: prod.splits sum.splits status.splits)
    show ?thesis using insert_data_ok [OF assms(1) [unfolded tp_ok_def] d] by (simp add: t' rid)
  qed
qed

lemma try_insert_ok:
  assumes "tp_ok t" "try_insert b t = (t', r)"
  shows "tp_ok t'" "same_links t t'" "r = Inl e \<Longrightarrow> tp_abs (tp_data t') = tp_abs (tp_data t)"
    "r = Inr rid \<Longrightarrow> rid_page rid = tp_page_id t \<and> tp_abs (tp_data t) (unat (rid_slot rid)) = None \<and>
       tp_abs (tp_data t') = (tp_abs (tp_data t))(unat (rid_slot rid) \<mapsto> b)"
proof -
  define t0 where "t0 = (if free_space (tp_data t) < length b + sizeof_Slot then tp_compact t else t)"
  have ins: "tp_insert t0 b = (t', r)" using assms(2) by (simp add: try_insert_def t0_def)
  have l0: "same_links t t0" "tp_ok t0" "tp_abs (tp_data t0) = tp_abs (tp_data t)"
    using assms(1) compact_data_ok [of "tp_data t"] tp_compact_frame [OF assms(1)]
    by (auto simp: t0_def same_links_def same_page_def tp_ok_def tp_compact_def)
  show "same_links t t'" using same_links_trans [OF l0(1) tp_insert_frame [OF l0(2) ins]] .
  show "tp_ok t'" "r = Inl e \<Longrightarrow> tp_abs (tp_data t') = tp_abs (tp_data t)"
    "r = Inr rid \<Longrightarrow> rid_page rid = tp_page_id t \<and> tp_abs (tp_data t) (unat (rid_slot rid)) = None \<and>
       tp_abs (tp_data t') = (tp_abs (tp_data t))(unat (rid_slot rid) \<mapsto> b)"
    using tp_insert_abs [OF l0(2) ins] l0 by (simp_all add: same_links_def same_page_def)
qed

section \<open>Pages in the pool\<close>

lemma put_page_ok:
  assumes ok: "bp_ok bp" and m: "mapped bp i f" and s: "same_page (page_at f bp) t"
  shows "bp_ok (put_page f t bp)" "pool_view (put_page f t bp) = (pool_view bp)(i \<mapsto> tp_data t)"
    "pool_pins (put_page f t bp) = pool_pins bp" "mapped (put_page f t bp) = mapped bp" "page_at f (put_page f t bp) = t"
    "\<And>g. g \<noteq> f \<Longrightarrow> page_at g (put_page f t bp) = page_at g bp"
proof -
  have idx: "index_ok bp" and core: "core_ok bp" using ok by (simp_all add: bp_ok_def)
  have F: "unat f < bp_pool_size bp" "fr_valid (frame_of bp f)" "fr_page_id (frame_of bp f) = i"
    using index_okD(3) [OF idx, of i f] m by (simp_all add: mapped_def)
  have lf: "unat f < length (bp_frames bp)" using F(1) core_okD(1) [OF core] by simp
  show "page_at f (put_page f t bp) = t" using lf by (simp add: page_at_def put_page_def set_frame_def)
  show "page_at g (put_page f t bp) = page_at g bp" if "g \<noteq> f" for g
    using that by (simp add: page_at_def put_page_def set_frame_def word_unat_eq_iff)
  have "frame_ok (bp_disk bp) (frame_of bp f)" using core_okD(6) [OF core F(1,2)] .
  then have "frame_ok (bp_disk bp) ((frame_of bp f)\<lparr>fr_page := tp_page t, fr_dirty := tp_frame_dirty t\<rparr>)"
    using s by (auto simp: frame_ok_def same_page_def tp_page_id_def page_at_def tp_data_def)
  note S = set_frame_ok [OF ok m _ _ _ this, folded put_page_def]
  show "bp_ok (put_page f t bp)" "pool_view (put_page f t bp) = (pool_view bp)(i \<mapsto> tp_data t)"
    "pool_pins (put_page f t bp) = pool_pins bp" "mapped (put_page f t bp) = mapped bp"
    using S F by (simp_all add: tp_data_def)
qed

text \<open>Fetching a page, running an operation on it and letting it go.\<close>

lemma page_step_ok:
  assumes ok: "bp_ok bp" and pins: "\<And>g. pool_pins bp g + 1 \<noteq> 0" and f: "fetch_page i bp = (bp1, Inr (Inr f))"
    and s: "same_page (page_at f bp1) t"
  shows "bp_ok (handle_unpin f (put_page f t bp1))" "pool_pins (handle_unpin f (put_page f t bp1)) = pool_pins bp"
    "pool_view (handle_unpin f (put_page f t bp1)) i = Some (tp_data t)"
    "j \<noteq> i \<Longrightarrow> pool_view bp j = Some b \<Longrightarrow> \<exists>b'. pool_view (handle_unpin f (put_page f t bp1)) j = Some b' \<and> page_body b' = page_body b"
    "pool_view bp i = Some b \<Longrightarrow> page_body (tp_data (page_at f bp1)) = page_body b" "tp_page_id (page_at f bp1) = i"
proof -
  note k = fetch_page_ok(1,2) [OF ok f] and h = fetch_page_ok(3) [OF ok f refl]
  have ok1: "bp_ok bp1" and m: "mapped bp1 i f" using k h by blast+
  note p = put_page_ok [OF ok1 m s]
  have pf: "pool_pins (put_page f t bp1) f \<noteq> 0" using p(3) k(2) pins by simp
  note u = handle_unpin_ok [OF p(1) _ pf, of i, unfolded p(4), OF m]
  show "bp_ok (handle_unpin f (put_page f t bp1))" "pool_view (handle_unpin f (put_page f t bp1)) i = Some (tp_data t)"
    using u(1,2) p(2) by simp_all
  show "pool_pins (handle_unpin f (put_page f t bp1)) = pool_pins bp" using u(3) p(3) k(2) by (simp add: fun_eq_iff)
  show "\<exists>b'. pool_view (handle_unpin f (put_page f t bp1)) j = Some b' \<and> page_body b' = page_body b" if "j \<noteq> i" "pool_view bp j = Some b"
    using that k(1) u(2) p(2) by (simp add: same_view_def)
  show "page_body (tp_data (page_at f bp1)) = page_body b" if "pool_view bp i = Some b"
    using that k(1) h unfolding same_view_def page_at_def tp_data_def handle_get_def by (metis option.inject table_page.select_convs(1))
  have "unat f < bp_pool_size bp1" "fr_valid (frame_of bp1 f)" "fr_page_id (frame_of bp1 f) = i"
    using index_okD(3) [of bp1 i f] m ok1 by (simp_all add: mapped_def bp_ok_def)
  then show "tp_page_id (page_at f bp1) = i"
    using core_okD(6) [of bp1 f] ok1 by (simp add: bp_ok_def frame_ok_def tp_page_id_def page_at_def)
qed


section \<open>Records of the heap\<close>

text \<open>
  How a step of the heap changes the pages in \<open>U\<close>: each table page stays one, its records change by \<open>g\<close>
  and its link to the next page by \<open>nx\<close>.
\<close>

definition records_step :: "page_id set \<Rightarrow> (page_id \<Rightarrow> (nat \<rightharpoonup> bytes) \<Rightarrow> (nat \<rightharpoonup> bytes)) \<Rightarrow> (page_id \<Rightarrow> page_id \<Rightarrow> page_id) \<Rightarrow>
    buffer_pool \<Rightarrow> buffer_pool \<Rightarrow> bool" where
  "records_step U g nx bp bp' \<longleftrightarrow>
     (\<forall>i\<in>U. \<forall>d. pool_view bp i = Some d \<longrightarrow> tp_inv d \<longrightarrow>
        (\<exists>d'. pool_view bp' i = Some d' \<and> tp_inv d' \<and> length d' = length d \<and> tp_abs d' = g i (tp_abs d) \<and> hdr_next d' = nx i (hdr_next d)))"

abbreviation same_records :: "page_id set \<Rightarrow> buffer_pool \<Rightarrow> buffer_pool \<Rightarrow> bool" where
  "same_records U \<equiv> records_step U (\<lambda>i m. m) (\<lambda>i n. n)"

definition add_record :: "record_id \<Rightarrow> bytes \<Rightarrow> page_id \<Rightarrow> (nat \<rightharpoonup> bytes) \<Rightarrow> (nat \<rightharpoonup> bytes)" where
  "add_record rid b i m = (if i = rid_page rid then m(unat (rid_slot rid) \<mapsto> b) else m)"

lemma records_stepD:
  assumes "records_step U g nx bp bp'" "i \<in> U" "pool_view bp i = Some d" "tp_inv d"
  obtains d' where "pool_view bp' i = Some d'" "tp_inv d'" "length d' = length d" "tp_abs d' = g i (tp_abs d)" "hdr_next d' = nx i (hdr_next d)"
  using assms unfolding records_step_def by blast

lemma records_step_trans:
  assumes "records_step U g nx bp bp1" "records_step U g' nx' bp1 bp2"
  shows "records_step U (\<lambda>i m. g' i (g i m)) (\<lambda>i n. nx' i (nx i n)) bp bp2"
  unfolding records_step_def
proof (intro ballI allI impI)
  fix i d assume a: "i \<in> U" "pool_view bp i = Some d" "tp_inv d"
  obtain d1 where d1: "pool_view bp1 i = Some d1" "tp_inv d1" "length d1 = length d" "tp_abs d1 = g i (tp_abs d)" "hdr_next d1 = nx i (hdr_next d)"
    using records_stepD [OF assms(1) a] by blast
  obtain d2 where d2: "pool_view bp2 i = Some d2" "tp_inv d2" "length d2 = length d1" "tp_abs d2 = g' i (tp_abs d1)" "hdr_next d2 = nx' i (hdr_next d1)"
    using records_stepD [OF assms(2) a(1) d1(1,2)] by blast
  show "\<exists>d'. pool_view bp2 i = Some d' \<and> tp_inv d' \<and> length d' = length d \<and> tp_abs d' = g' i (g i (tp_abs d)) \<and> hdr_next d' = nx' i (nx i (hdr_next d))"
    using d1 d2 by simp
qed

lemma table_page_body:
  assumes "page_body b' = page_body b" "tp_inv b"
  shows "tp_inv b'" "tp_abs b' = tp_abs b" "length b' = length b" "hdr_next b' = hdr_next b"
  using page_body_drop [OF assms(1) tp_inv_bounds(1) [OF assms(2)]] tp_inv_drop [of b' b] overlay_drop(1) [of b' b] assms(2) by auto

lemma same_view_records: "same_view bp bp' \<Longrightarrow> same_records U bp bp'"
  unfolding records_step_def same_view_def using table_page_body by metis

lemma page_step_records:
  assumes ok: "bp_ok bp" and pins: "\<And>g. pool_pins bp g + 1 \<noteq> 0" and f: "fetch_page i bp = (bp1, Inr (Inr f))"
    and s: "same_page (page_at f bp1) t"
    and op: "tp_ok (page_at f bp1) \<Longrightarrow> tp_ok t \<and> tp_abs (tp_data t) = G (tp_abs (tp_data (page_at f bp1))) \<and>
      next_page_id t = N (next_page_id (page_at f bp1))"
  shows "records_step U (\<lambda>j. if j = i then G else (\<lambda>m. m)) (\<lambda>j. if j = i then N else (\<lambda>n. n)) bp (handle_unpin f (put_page f t bp1))"
  unfolding records_step_def
proof (intro ballI allI impI)
  fix j d assume a: "j \<in> U" "pool_view bp j = Some d" "tp_inv d"
  note P = page_step_ok [OF ok pins f s]
  show "\<exists>d'. pool_view (handle_unpin f (put_page f t bp1)) j = Some d' \<and> tp_inv d' \<and> length d' = length d \<and>
    tp_abs d' = (if j = i then G else (\<lambda>m. m)) (tp_abs d) \<and> hdr_next d' = (if j = i then N else (\<lambda>n. n)) (hdr_next d)"
  proof (cases "j = i")
    case True
    have "page_body (tp_data (page_at f bp1)) = page_body d" using P(5) a(2) True by simp
    note B = table_page_body [OF this a(3)]
    have "tp_ok (page_at f bp1)" using B(1) by (simp add: tp_ok_def)
    note O = op [OF this]
    have "tp_inv (tp_data t)" "tp_abs (tp_data t) = G (tp_abs d)" "hdr_next (tp_data t) = N (hdr_next d)"
      using O B(2,4) by (simp_all add: tp_ok_def next_page_id_def)
    moreover have "length (tp_data t) = length d" using B(3) s by (simp add: same_page_def)
    ultimately show ?thesis using True P(3) by simp
  next
    case False
    then obtain b' where "pool_view (handle_unpin f (put_page f t bp1)) j = Some b'" "page_body b' = page_body d"
      using P(4) a(2) by blast
    from table_page_body [OF this(2) a(3)] this(1) show ?thesis using False by simp
  qed
qed

text \<open>The pages of a heap in the order of their links.\<close>

fun chained :: "buffer_pool \<Rightarrow> page_id \<Rightarrow> page_id list \<Rightarrow> bool" where
  "chained bp i [] \<longleftrightarrow> \<not> is_valid_id i"
| "chained bp i (j # js) \<longleftrightarrow> is_valid_id i \<and> i = j \<and> (\<exists>d. pool_view bp i = Some d \<and> tp_inv d \<and> chained bp (hdr_next d) js)"

lemma chained_step:
  assumes "chained bp i js" "set js \<subseteq> U" "records_step U g (\<lambda>i n. n) bp bp'"
  shows "chained bp' i js"
  using assms(1,2)
proof (induction js arbitrary: i)
  case (Cons j js)
  then obtain d where d: "is_valid_id i" "i = j" "pool_view bp i = Some d" "tp_inv d" "chained bp (hdr_next d) js" by auto
  obtain d' where "pool_view bp' i = Some d'" "tp_inv d'" "hdr_next d' = hdr_next d"
    using records_stepD [OF assms(3) _ d(3,4)] d(2) Cons.prems(2) by auto
  then show ?case using d Cons by auto
qed simp


text \<open>
  Pages that may be handed out: pages in \<open>U\<close> are in use, and no frame holds a page that was never
  allocated.
\<close>

definition below :: "nat \<Rightarrow> buffer_pool \<Rightarrow> bool" where
  "below n bp \<longleftrightarrow> (\<forall>fr\<in>set (bp_frames bp). fr_valid fr \<longrightarrow> unat (fr_page_id fr) < n)"

definition pool_room :: "page_id set \<Rightarrow> buffer_pool \<Rightarrow> bool" where
  "pool_room U bp \<longleftrightarrow> alloc_inv (bp_disk bp) U \<and> below (unat (dh_next_page_id (dk_header (bp_disk bp)))) bp \<and>
     80 \<le> dk_page_size (bp_disk bp) \<and> dk_page_size (bp_disk bp) + 4 < 2 ^ 32"

definition same_alloc :: "nat \<Rightarrow> buffer_pool \<Rightarrow> buffer_pool \<Rightarrow> bool" where
  "same_alloc n bp bp' \<longleftrightarrow> (below n bp \<longrightarrow> below n bp') \<and> dk_header (bp_disk bp') = dk_header (bp_disk bp) \<and> dk_free (bp_disk bp') = dk_free (bp_disk bp) \<and>
     dk_config (bp_disk bp') = dk_config (bp_disk bp)"

lemma same_alloc_refl [simp]: "same_alloc n bp bp"
  by (simp add: same_alloc_def)

lemma same_alloc_trans: "same_alloc n bp bp1 \<Longrightarrow> same_alloc n bp1 bp2 \<Longrightarrow> same_alloc n bp bp2"
  by (simp add: same_alloc_def)

lemma pool_room_same:
  assumes "pool_room U bp" "same_alloc (unat (dh_next_page_id (dk_header (bp_disk bp)))) bp bp'"
  shows "pool_room U bp'"
  using assms by (simp add: pool_room_def same_alloc_def alloc_inv_def)

lemma same_alloc_fields:
  "bp_frames bp' = bp_frames bp \<Longrightarrow> bp_disk bp' = bp_disk bp \<Longrightarrow> same_alloc n bp bp'"
  by (simp add: same_alloc_def below_def)

lemma same_alloc_set_frame:
  assumes "fr_valid fr \<Longrightarrow> fr_page_id fr \<noteq> fr_page_id (frame_of bp f) \<or> \<not> fr_valid (frame_of bp f) \<Longrightarrow> unat (fr_page_id fr) < n"
  shows "same_alloc n bp (set_frame f fr bp)"
proof (cases "unat f < length (bp_frames bp)")
  case True
  show ?thesis
    unfolding same_alloc_def below_def set_frame_def
  proof (intro conjI impI ballI)
    fix x assume b: "\<forall>fr\<in>set (bp_frames bp). fr_valid fr \<longrightarrow> unat (fr_page_id fr) < n"
      and x: "x \<in> set (bp_frames (bp\<lparr>bp_frames := (bp_frames bp)[unat f := fr]\<rparr>))" "fr_valid x"
    have "x = fr \<or> x \<in> set (bp_frames bp)" using x(1) set_update_subset_insert [of "bp_frames bp" "unat f" fr] by auto
    then show "unat (fr_page_id x) < n"
      using assms b x(2) nth_mem [OF True] by metis
  qed simp_all
next
  case False
  then show ?thesis by (simp add: set_frame_def same_alloc_def below_def list_update_beyond)
qed

lemma write_page_alloc:
  assumes "write_page d p = (d', p', r)"
  shows "dk_header d' = dk_header d" "dk_free d' = dk_free d" "dk_config d' = dk_config d" "pg_id p' = pg_id p"
  using assms by (auto simp: write_page_def on_file_def Let_def stamp_checksum_def zero_checksum_def split: if_splits sum.splits prod.splits)

lemma read_page_alloc:
  assumes "read_page d i = (d', r)"
  shows "dk_header d' = dk_header d" "dk_free d' = dk_free d" "dk_config d' = dk_config d"
  using assms by (auto simp: read_page_def on_file_def Let_def split: if_splits sum.splits prod.splits)

lemma write_back_alloc:
  assumes "write_back f bp = (bp', r)"
  shows "same_alloc n bp bp'"
proof -
  obtain bp1 x where fl: "flush_log_for (frame_of bp f) bp = (bp1, x)" by fastforce
  have s1: "same_alloc n bp bp1" by (rule same_alloc_fields) (use flush_log_for_eq [OF fl] in \<open>metis buffer_pool.select_convs buffer_pool.surjective buffer_pool.update_convs(7)\<close>)+
  show ?thesis
  proof (cases x)
    case (Inl e)
    then show ?thesis using assms fl s1 by (simp add: write_back_def)
  next
    case (Inr u)
    obtain d p y where w: "write_page (bp_disk bp1) (fr_page (frame_of bp1 f)) = (d, p, y)" by (metis prod_cases3)
    let ?bp2 = "set_frame f ((frame_of bp1 f)\<lparr>fr_page := p\<rparr>) (bp1\<lparr>bp_disk := d\<rparr>)"
    have s2: "same_alloc n bp1 (bp1\<lparr>bp_disk := d\<rparr>)" using write_page_alloc [OF w] by (simp add: same_alloc_def below_def)
    have s3: "same_alloc n (bp1\<lparr>bp_disk := d\<rparr>) ?bp2" by (rule same_alloc_set_frame) simp
    have "same_alloc n (bp\<lparr>bp_flushes := k\<rparr>) (set_frame f ((frame_of bp f)\<lparr>fr_dirty := b\<rparr>) (bp\<lparr>bp_flushes := k\<rparr>))" for bp k b
      by (rule same_alloc_set_frame) simp
    moreover have "same_alloc n bp (bp\<lparr>bp_flushes := k\<rparr>)" for bp k by (rule same_alloc_fields) simp_all
    ultimately have s4: "same_alloc n ?bp2 (set_frame f ((frame_of ?bp2 f)\<lparr>fr_dirty := b\<rparr>) (?bp2\<lparr>bp_flushes := k\<rparr>))" for b k
      using same_alloc_trans by blast
    have "bp' = ?bp2 \<or> bp' = set_frame f ((frame_of ?bp2 f)\<lparr>fr_dirty := False\<rparr>) (?bp2\<lparr>bp_flushes := bp_flushes ?bp2 + 1\<rparr>)"
      using assms fl Inr w by (cases y) (auto simp: write_back_def Let_def)
    then show ?thesis using s1 s2 s3 s4 same_alloc_trans by blast
  qed
qed

lemma unpin_page_alloc: "same_alloc n bp (unpin_page f bp)"
  by (simp add: unpin_page_def on_replacer_def same_alloc_def below_def)

lemma set_pin_alloc: "same_alloc n bp (set_frame f (frame_pin (frame_of bp f)) bp)" "same_alloc n bp (set_frame f (frame_unpin (frame_of bp f)) bp)"
  by (rule same_alloc_set_frame; simp add: frame_pin_def frame_unpin_def)+

lemma handle_unpin_alloc: "same_alloc n bp (handle_unpin f bp)"
  unfolding handle_unpin_def by (rule same_alloc_trans [OF set_pin_alloc(2) unpin_page_alloc])

lemma fetch_cleanup_alloc: "same_alloc n bp (fetch_cleanup i f bp)"
proof -
  have "same_alloc n bp (unpin_page f (set_frame f (frame_unpin (frame_of bp f)) bp))" by (rule same_alloc_trans [OF set_pin_alloc(2) unpin_page_alloc])
  then show ?thesis unfolding fetch_cleanup_def Let_def by (rule same_alloc_trans) (simp add: same_alloc_fields)
qed

lemma load_frame_alloc:
  assumes i: "unat i < n" and l: "load_frame i f bp = (bp', r)"
  shows "same_alloc n bp bp'"
proof -
  define wb where "wb = (if fr_valid (frame_of bp f) \<and> fr_dirty (frame_of bp f) then write_back f bp else (bp, Inr (Inr ())))"
  obtain bp1 x where w: "wb = (bp1, x)" by fastforce
  have s1: "same_alloc n bp bp1" using w write_back_alloc [of f bp bp1 x] by (auto simp: wb_def split: if_splits)
  note L = l [unfolded load_frame_def Let_def, folded wb_def, unfolded w, simplified]
  show ?thesis
  proof (cases x)
    case (Inl e)
    then show ?thesis using L s1 by simp
  next
    case x: (Inr y)
    show ?thesis
    proof (cases y)
      case (Inl e)
      then show ?thesis using L x s1 same_alloc_trans [OF s1 fetch_cleanup_alloc] by auto
    next
      case (Inr u)
      obtain d z where rd: "read_page (bp_disk bp1) i = (d, z)" by fastforce
      have s2: "same_alloc n bp1 (bp1\<lparr>bp_disk := d\<rparr>)" using read_page_alloc [OF rd] by (simp add: same_alloc_def below_def)
      have s3: "same_alloc n (bp1\<lparr>bp_disk := d\<rparr>) (set_frame f ((frame_of bp1 f)\<lparr>fr_page := p, fr_page_id := i, fr_valid := True, fr_dirty := False\<rparr>) (bp1\<lparr>bp_disk := d\<rparr>))" for p
        by (rule same_alloc_set_frame) (simp add: i)
      have s4: "same_alloc n q (on_replacer g q)" for q g by (rule same_alloc_fields) (simp_all add: on_replacer_def)
      show ?thesis
        using L x Inr rd same_alloc_trans [OF same_alloc_trans [OF s1 s2] fetch_cleanup_alloc]
          same_alloc_trans [OF same_alloc_trans [OF same_alloc_trans [OF s1 s2] s3] s4]
        by (auto split: sum.splits)
    qed
  qed
qed

lemma fetch_page_alloc:
  assumes i: "unat i < n" and l: "fetch_page i bp = (bp', r)"
  shows "same_alloc n bp bp'"
proof (cases "map_of (bp_page_table bp) i")
  case (Some f)
  have "same_alloc n (bp\<lparr>bp_hits := k\<rparr>) (set_frame f (frame_pin (frame_of bp f)) (bp\<lparr>bp_hits := k\<rparr>))" for k
    using set_pin_alloc(1) [of n "bp\<lparr>bp_hits := k\<rparr>" f] by simp
  moreover have "same_alloc n bp (bp\<lparr>bp_hits := k\<rparr>)" for k by (rule same_alloc_fields) simp_all
  moreover have "same_alloc n q (on_replacer g q)" for q g by (rule same_alloc_fields) (simp_all add: on_replacer_def)
  ultimately show ?thesis using l Some unfolding fetch_page_def by simp (metis same_alloc_trans)
next
  case None
  obtain bp1 x where ff: "find_frame (bp\<lparr>bp_misses := bp_misses bp + 1\<rparr>) = (bp1, x)" by fastforce
  have s1: "same_alloc n bp bp1"
    using ff by (intro same_alloc_fields) (auto simp: find_frame_def split: list.splits option.splits prod.splits)
  have s2: "same_alloc n bp1 (claim_frame i f bp1)" for f
  proof -
    have a: "same_alloc n bp1 (bp1\<lparr>bp_page_table := t\<rparr>)" for t by (rule same_alloc_fields) simp_all
    have b: "same_alloc n (bp1\<lparr>bp_page_table := t\<rparr>) (set_frame f (frame_pin (frame_of bp1 f)) (bp1\<lparr>bp_page_table := t\<rparr>))" for t
      using set_pin_alloc(1) [of n "bp1\<lparr>bp_page_table := t\<rparr>" f] by simp
    have c: "same_alloc n q ((on_replacer g q)\<lparr>bp_page_table := t\<rparr>)" for q g t by (rule same_alloc_fields) (simp_all add: on_replacer_def)
    show ?thesis unfolding claim_frame_def Let_def by (rule same_alloc_trans [OF a same_alloc_trans [OF b c]])
  qed
  show ?thesis
  proof (cases x)
    case None
    then show ?thesis using l \<open>map_of (bp_page_table bp) i = None\<close> ff s1 by (simp add: fetch_page_def)
  next
    case (Some f)
    then have "load_frame i f (claim_frame i f bp1) = (bp', r)" using l None ff by (simp add: fetch_page_def)
    from load_frame_alloc [OF i this] show ?thesis using s1 s2 same_alloc_trans by blast
  qed
qed

lemma put_page_alloc: "same_alloc n bp (put_page f t bp)"
  unfolding put_page_def by (rule same_alloc_set_frame) simp

lemma page_step_alloc:
  assumes "unat i < n" "fetch_page i bp = (bp1, r)"
  shows "same_alloc n bp (handle_unpin f (put_page f t bp1))"
  by (rule same_alloc_trans [OF fetch_page_alloc [OF assms] same_alloc_trans [OF put_page_alloc handle_unpin_alloc]])

section \<open>Allocating a page\<close>

lemma pool_allocate_disk:
  assumes ok: "bp_ok bp" and rm: "pool_room U bp" and al: "allocate_page (bp_disk bp) = (d, r)"
  shows "bp_ok (bp\<lparr>bp_disk := d\<rparr>)" "pool_pins (bp\<lparr>bp_disk := d\<rparr>) = pool_pins bp"
    "j \<in> U \<Longrightarrow> pool_view bp j = Some b \<Longrightarrow> pool_view (bp\<lparr>bp_disk := d\<rparr>) j = Some b"
    "r = Inr i \<Longrightarrow> i \<noteq> 0 \<and> i \<notin> U \<and> pool_room (insert i U) (bp\<lparr>bp_disk := d\<rparr>)"
proof -
  let ?bp = "bp\<lparr>bp_disk := d\<rparr>" and ?n = "dh_next_page_id (dk_header (bp_disk bp))"
  have core: "core_ok bp" and idx: "index_ok bp" using ok by (simp_all add: bp_ok_def)
  note D = core_okD [OF core]
  have ai: "alloc_inv (bp_disk bp) U" and bl: "below (unat ?n) bp" using rm by (simp_all add: pool_room_def)
  note A = allocate_page_effect [OF D(5) ai al]
  have ne: "fr_page_id (frame_of bp f) \<noteq> ?n" if "unat f < bp_pool_size bp" "fr_valid (frame_of bp f)" for f
    using bl that D(1) by (auto simp: below_def)
  have "frame_ok d (frame_of bp f)" if "unat f < bp_pool_size bp" "fr_valid (frame_of bp f)" for f
    using D(6) [OF that] A(3) [OF ne [OF that]] addressable_cong [of d "bp_disk bp"] A(2)
    by (auto simp: frame_ok_def)
  then have c': "core_ok ?bp" using D A(1) by (intro core_okI) auto
  show "bp_ok ?bp" using c' idx by (simp add: bp_ok_def index_ok_def)
  show "pool_pins ?bp = pool_pins bp" by (simp add: fun_eq_iff pool_pins_def)
  show "pool_view ?bp j = Some b" if "j \<in> U" "pool_view bp j = Some b"
  proof -
    have "j \<noteq> ?n" using that(1) ai by (auto simp: alloc_inv_def)
    then show ?thesis using that(2) A(3) [of j b] by (auto simp: pool_view_def split: option.splits)
  qed
  show "i \<noteq> 0 \<and> i \<notin> U \<and> pool_room (insert i U) ?bp" if "r = Inr i"
    using A(4) [OF that] A(6) [OF that] A(2) bl rm by (fastforce simp: pool_room_def below_def)
qed

lemma pool_room_fetch:
  assumes "pool_room U bp" "i \<in> U" "fetch_page i bp = (bp1, r)"
  shows "pool_room U bp1" "pool_room U (handle_unpin f (put_page f t bp1))"
proof -
  have i: "unat i < unat (dh_next_page_id (dk_header (bp_disk bp)))" using assms(1,2) by (simp add: pool_room_def alloc_inv_def)
  show "pool_room U bp1" by (rule pool_room_same [OF assms(1) fetch_page_alloc [OF i assms(3)]])
  show "pool_room U (handle_unpin f (put_page f t bp1))" by (rule pool_room_same [OF assms(1) page_step_alloc [OF i assms(3)]])
qed

section \<open>The scan of \<open>insert\<close>\<close>

definition found_space :: "bytes \<Rightarrow> page_id set \<Rightarrow> page_id list \<Rightarrow> page_id \<Rightarrow> buffer_pool \<Rightarrow> buffer_pool \<Rightarrow> (page_id + record_id) result \<Rightarrow> bool" where
  "found_space b U js last_id bp bp' r \<longleftrightarrow> bp_ok bp' \<and> pool_pins bp' = pool_pins bp \<and> (pool_room U bp \<longrightarrow> pool_room U bp') \<and>
     (case r of
        Inl s \<Rightarrow> same_records U bp bp'
      | Inr (Inl l) \<Rightarrow> same_records U bp bp' \<and> l = last (last_id # js)
      | Inr (Inr rid) \<Rightarrow> records_step U (add_record rid b) (\<lambda>i n. n) bp bp' \<and> rid_page rid \<in> set js \<and>
          (\<forall>d. pool_view bp (rid_page rid) = Some d \<longrightarrow> tp_abs d (unat (rid_slot rid)) = None) \<and>
          (\<exists>d'. pool_view bp' (rid_page rid) = Some d' \<and> tp_inv d' \<and> tp_abs d' (unat (rid_slot rid)) = Some b))"

lemma find_space_ok:
  assumes "bp_ok bp" "\<And>g. pool_pins bp g + 1 \<noteq> 0" "chained bp cur js" "set js \<subseteq> U"
  shows "\<exists>bp' x. find_space b cur last_id bp = Some (bp', x) \<and> (\<forall>r. x = Inr r \<longrightarrow> found_space b U js last_id bp bp' r)"
  using assms
proof (induction js arbitrary: cur last_id bp)
  case Nil
  then have "find_space b cur last_id bp = Some (bp, Inr (Inr (Inl last_id)))" by (subst find_space.simps) simp
  then show ?case using Nil same_view_records [OF same_view_refl] by (auto simp: found_space_def)
next
  case (Cons j js)
  obtain d where d: "is_valid_id cur" "cur = j" "pool_view bp cur = Some d" "tp_inv d" "chained bp (hdr_next d) js" using Cons.prems(3) by auto
  obtain bp1 x where f: "fetch_page cur bp = (bp1, x)" by fastforce
  have cu: "cur \<in> U" using d(2) Cons.prems(4) by simp
  consider (exn) e where "x = Inl e" | (fail) e where "x = Inr (Inl e)" | (held) f where "x = Inr (Inr f)" by (metis sum.exhaust)
  then show ?case
  proof cases
    case exn
    then have "find_space b cur last_id bp = Some (bp1, Inl e)" using d(1) f by (subst find_space.simps) simp
    then show ?thesis by simp
  next
    case fail
    then have "find_space b cur last_id bp = Some (bp1, Inr (Inl e))" using d(1) f by (subst find_space.simps) simp
    moreover have "found_space b U (j # js) last_id bp bp1 (Inl e)"
      using fetch_page_ok(1,2) [OF Cons.prems(1) f [unfolded fail]] same_view_records [of bp bp1 U] pool_room_fetch(1) [OF _ cu f] by (simp add: found_space_def)
    ultimately show ?thesis by auto
  next
    case (held f')
    note F = f [unfolded held]
    obtain t r where t: "try_insert b (page_at f' bp1) = (t, r)" by fastforce
    have "same_page (page_at f' bp1) (page_at f' bp1)" by (simp add: same_page_def)
    note P0 = page_step_ok [OF Cons.prems(1,2) F this]
    have "page_body (tp_data (page_at f' bp1)) = page_body d" using P0(5) d(3) by simp
    note B = table_page_body [OF this d(4)]
    have tok: "tp_ok (page_at f' bp1)" using B(1) by (simp add: tp_ok_def)
    note T = try_insert_ok [OF tok t]
    have sp: "same_page (page_at f' bp1) t" and nx: "next_page_id t = next_page_id (page_at f' bp1)" using T(2) by (simp_all add: same_links_def)
    let ?bp2 = "handle_unpin f' (put_page f' t bp1)"
    note P = page_step_ok [OF Cons.prems(1,2) F sp]
    show ?thesis
    proof (cases r)
      case (Inr rid)
      note R = T(4) [OF Inr]
      have rp: "rid_page rid = cur" using R P0(6) by simp
      have e: "find_space b cur last_id bp = Some (?bp2, Inr (Inr (Inr rid)))"
        using d(1) F t Inr by (subst find_space.simps) simp
      have "records_step U (\<lambda>j. if j = cur then \<lambda>m. m(unat (rid_slot rid) \<mapsto> b) else (\<lambda>m. m)) (\<lambda>j. if j = cur then \<lambda>n. n else (\<lambda>n. n)) bp ?bp2"
        by (rule page_step_records [OF Cons.prems(1,2) F sp]) (use T(1) R nx in simp_all)
      moreover have "(\<lambda>j. if j = cur then \<lambda>m. m(unat (rid_slot rid) \<mapsto> b) else (\<lambda>m. m)) = add_record rid b"
        by (auto simp: fun_eq_iff add_record_def rp)
      ultimately have st: "records_step U (add_record rid b) (\<lambda>i n. n) bp ?bp2" by simp
      have "found_space b U (j # js) last_id bp ?bp2 (Inr (Inr rid))"
        using P(1,2,3) st rp d(2,3) R B(2) T(1) pool_room_fetch(2) [OF _ cu f] by (simp add: found_space_def tp_ok_def)
      then show ?thesis using e by auto
    next
      case (Inl e)
      have st: "same_records U bp ?bp2"
        using page_step_records [OF Cons.prems(1,2) F sp, where G = "\<lambda>m. m" and N = "\<lambda>n. n" and U = U] T(1) T(3) [OF Inl] nx by simp
      have e: "find_space b cur last_id bp = find_space b (next_page_id t) cur ?bp2"
        using d(1) F t Inl by (subst find_space.simps) simp
      have n: "next_page_id t = hdr_next d" using nx B(4) by (simp add: next_page_id_def)
      have U: "set js \<subseteq> U" using Cons.prems(4) by simp
      have ch: "chained ?bp2 (hdr_next d) js" by (rule chained_step [OF d(5) U st])
      have pins: "pool_pins ?bp2 g + 1 \<noteq> 0" for g using P(2) Cons.prems(2) by simp
      obtain bp' x where x: "find_space b (hdr_next d) cur ?bp2 = Some (bp', x)" "\<And>r. x = Inr r \<Longrightarrow> found_space b U js cur ?bp2 bp' r"
        using Cons.IH [OF P(1) pins ch U] by blast
      have "found_space b U (j # js) last_id bp bp' r" if "x = Inr r" for r
      proof -
        note X = x(2) [OF that, unfolded found_space_def]
        note tr = records_step_trans [OF st]
        show ?thesis
        proof (cases r)
          case (Inl s)
          then show ?thesis using X tr [of "\<lambda>i m. m" "\<lambda>i n. n" bp'] P(2) pool_room_fetch(2) [OF _ cu f] by (simp add: found_space_def)
        next
          case (Inr y)
          show ?thesis
          proof (cases y)
            case (Inl l)
            then show ?thesis using X Inr tr [of "\<lambda>i m. m" "\<lambda>i n. n" bp'] P(2) d(2) pool_room_fetch(2) [OF _ cu f] by (simp add: found_space_def)
          next
            case rid: (Inr rid)
            have "tp_abs d0 (unat (rid_slot rid)) = None" if d0: "pool_view bp (rid_page rid) = Some d0" for d0
            proof -
              obtain dd where dd: "chained bp (hdr_next d) js" "rid_page rid \<in> set js" using d(5) X Inr rid by simp
              have "tp_inv d0" using dd d0
              proof (induction js arbitrary: d)
                case (Cons k ks)
                then show ?case by (cases "rid_page rid = k") auto
              qed simp
              then obtain d1 where "pool_view ?bp2 (rid_page rid) = Some d1" "tp_abs d1 = tp_abs d0"
                using records_stepD [OF st _ d0] dd(2) U by blast
              then show ?thesis using X Inr rid by simp
            qed
            then show ?thesis using X Inr rid tr [of "add_record rid b" "\<lambda>i n. n" bp'] P(2) pool_room_fetch(2) [OF _ cu f] by (simp add: found_space_def)
          qed
        qed
      qed
      then show ?thesis using e n x(1) by auto
    qed
  qed
qed


section \<open>Reading a version\<close>

lemma fetched_page:
  assumes ok: "bp_ok bp" and pins: "\<And>g. pool_pins bp g + 1 \<noteq> 0" and f: "fetch_page i bp = (bp1, Inr (Inr f))"
    and d: "pool_view bp i = Some d" "tp_inv d"
  shows "tp_ok (page_at f bp1)" "tp_page_id (page_at f bp1) = i" "tp_abs (tp_data (page_at f bp1)) = tp_abs d" "mapped bp1 i f" "bp_ok bp1"
    "next_page_id (page_at f bp1) = hdr_next d" "length (tp_data (page_at f bp1)) = length d" "pool_view bp1 i = Some (tp_data (page_at f bp1))"
proof -
  have "same_page (page_at f bp1) (page_at f bp1)" by (simp add: same_page_def)
  note P = page_step_ok [OF ok pins f this]
  note B = table_page_body [OF P(5) [OF d(1)] d(2)]
  show "tp_ok (page_at f bp1)" "tp_page_id (page_at f bp1) = i" "tp_abs (tp_data (page_at f bp1)) = tp_abs d"
    "next_page_id (page_at f bp1) = hdr_next d" "length (tp_data (page_at f bp1)) = length d"
    using B P(6) by (simp_all add: tp_ok_def next_page_id_def)
  show "mapped bp1 i f" "bp_ok bp1" using fetch_page_ok(1,3) [OF ok f] by auto
  show "pool_view bp1 i = Some (tp_data (page_at f bp1))"
    using fetch_page_ok(3) [OF ok f refl] by (simp add: tp_data_def page_at_def handle_get_def)
qed

lemma tp_get_abs:
  assumes "tp_ok t" "rid_page rid = tp_page_id t"
  shows "tp_get t rid = (case tp_abs (tp_data t) (unat (rid_slot rid)) of Some b \<Rightarrow> Inr b | None \<Rightarrow> Inl NotFound)"
  using tp_get_view [OF assms(1), of rid] assms(2) by (simp add: tp_view_def)

lemma heap_get_visible:
  assumes "bp_ok bp" "\<And>g. pool_pins bp g + 1 \<noteq> 0" "fetch_page (rid_page rid) bp = (bp1, Inr (Inr f))"
    and "pool_view bp (rid_page rid) = Some d" "tp_inv d" "tp_abs d (unat (rid_slot rid)) = Some b"
    and "rid_is_valid rid" "40 \<le> length b" "is_visible reg (record_mvcc b) snap x"
  shows "heap_get L reg snap x rid bp = Some (handle_unpin f bp1, lift_exn (record_deserialize b L))"
proof -
  note F = fetched_page [OF assms(1-5)]
  have "tp_get (page_at f bp1) rid = Inr b" using tp_get_abs [OF F(1)] F(2,3) assms(6) by simp
  then show ?thesis using assms(3,7-9) by (subst heap_get.simps) (simp add: sizeof_RecordHeader_def)
qed

text \<open>A record id that a page handed out is valid.\<close>

lemma record_valid:
  assumes "is_valid_id i" "tp_inv d" "tp_abs d (unat k) \<noteq> None"
  shows "rid_is_valid \<lparr>rid_page = i, rid_slot = k\<rparr>"
proof -
  have "unat k < unat (slot_count d)" using assms(3) by (auto simp: tp_abs_def slot_ext_def split: if_splits)
  then have "unat k < 2 ^ 32 - 1" using tp_inv_bounds [OF assms(2)] by linarith
  then have "k \<noteq> INVALID_SLOT" using unat_minus_one_full [where 'a = 32] by (auto simp: INVALID_SLOT_def)
  then show ?thesis using assms(1) by (simp add: rid_is_valid_def is_valid_id_def)
qed


section \<open>Deleting a version\<close>

lemma tp_update_in_place:
  assumes ok: "tp_ok t" and rid: "rid_page rid = tp_page_id t" and b: "tp_abs (tp_data t) (unat (rid_slot rid)) = Some b" "length b' = length b"
  obtains t' where "tp_update t rid b' = (t', Inr ())" "tp_ok t'" "tp_abs (tp_data t') = (tp_abs (tp_data t))(unat (rid_slot rid) \<mapsto> b')"
    "same_links t t'"
proof -
  let ?d = "tp_data t" and ?k = "unat (rid_slot rid)"
  let ?s = "slot_at ?d ?k"
  have inv: "tp_inv ?d" using ok by (simp add: tp_ok_def)
  have k: "?k < unat (slot_count ?d)" "is_live ?s" and ek: "slot_ext ?d ?k = Some (unat (s_offset ?s), unat (s_length ?s))"
    using b(1) by (auto simp: tp_abs_def slot_ext_def split: if_splits)
  have lay: "layout (unat (upper_bound ?d)) (length ?d + 4) (slot_ext ?d)" using inv by (simp add: tp_inv_def)
  have "length b = unat (s_length ?s)"
    using b(1) ek layoutD [OF lay ek] tp_inv_bounds(4) [OF inv] by (auto simp: tp_abs_def ext_bytes_def)
  then have le: "length b' \<le> unat (s_length ?s)" using b(2) by simp
  define t' where "t' = with_data t (put32 (72 + 12 * ?k) (of_nat (length b')) (patch (unat (s_offset ?s) - 4) b' ?d))"
  have u: "tp_update t rid b' = (t', Inr ())"
    using rid k le by (simp add: tp_update_def Let_def rec_at_def t'_def word_le_nat_alt)
  show thesis
    using that [OF u] overwrite_effect [OF inv ek le refl] tp_update_frame [OF ok u] by (simp add: t'_def tp_ok_def)
qed

lemma set_lsn_page:
  assumes "80 \<le> length (tp_data t)"
  shows "drop 36 (tp_data (set_lsn t l)) = drop 36 (tp_data t)" "same_page t (set_lsn t l)"
proof -
  have ok: "page_ok (tp_page t)" using assms by (simp add: page_ok_def tp_data_def)
  have d: "tp_data (set_lsn t l) = PageHeader_serialize ((read_header (tp_page t))\<lparr>ph_lsn := l\<rparr>) (tp_data t)"
    by (simp add: set_lsn_def tp_data_def write_header_data [OF ok])
  show "drop 36 (tp_data (set_lsn t l)) = drop 36 (tp_data t)" using assms by (simp add: d drop_PageHeader_serialize)
  show "same_page t (set_lsn t l)" using assms by (simp add: same_page_def d) (simp add: set_lsn_def get_mut_def tp_page_id_def)
qed

lemma wal_field [simp]:
  "bp_ok (bp\<lparr>bp_wal := w\<rparr>) = bp_ok bp" "pool_view (bp\<lparr>bp_wal := w\<rparr>) = pool_view bp" "pool_pins (bp\<lparr>bp_wal := w\<rparr>) = pool_pins bp"
  "mapped (bp\<lparr>bp_wal := w\<rparr>) = mapped bp" "page_at f (bp\<lparr>bp_wal := w\<rparr>) = page_at f bp"
  by (simp_all add: bp_ok_def core_ok_def index_ok_def pool_view_def pool_pins_def mapped_def page_at_def fun_eq_iff split: option.splits)

text \<open>Logging changes only the page header and the transaction's last LSN.\<close>

lemma log_change_ok:
  assumes ok: "bp_ok bp" and m: "mapped bp i f" and t: "80 \<le> length (tp_data (page_at f bp))"
    and l: "log_change h ty f bp tx = (bp', tx', r)"
  shows "bp_ok bp'" "mapped bp' = mapped bp" "pool_pins bp' = pool_pins bp"
    "drop 36 (tp_data (page_at f bp')) = drop 36 (tp_data (page_at f bp))" "same_page (page_at f bp) (page_at f bp')"
    "\<And>j. j \<noteq> i \<Longrightarrow> pool_view bp' j = pool_view bp j" "pool_view bp' i = Some (tp_data (page_at f bp'))"
    "tx_id tx' = tx_id tx" "tx_undo_records tx' = tx_undo_records tx"
proof -
  have v: "pool_view bp i = Some (tp_data (page_at f bp))"
    using pool_view_held [of bp f i] index_okD(3) [of bp i f] m ok by (simp add: bp_ok_def mapped_def tp_data_def page_at_def)
  have refl: "same_page (page_at f bp) (page_at f bp)" by (simp add: same_page_def)
  have "bp_ok bp' \<and> mapped bp' = mapped bp \<and> pool_pins bp' = pool_pins bp \<and>
    drop 36 (tp_data (page_at f bp')) = drop 36 (tp_data (page_at f bp)) \<and> same_page (page_at f bp) (page_at f bp') \<and>
    (\<forall>j. j \<noteq> i \<longrightarrow> pool_view bp' j = pool_view bp j) \<and> pool_view bp' i = Some (tp_data (page_at f bp')) \<and>
    tx_id tx' = tx_id tx \<and> tx_undo_records tx' = tx_undo_records tx"
  proof (cases "if th_wal h then bp_wal bp else None")
    case None
    then show ?thesis using l ok v refl by (auto simp: log_change_def)
  next
    case (Some w)
    obtain w' q x where a: "wal_append (LogRecord_clr (tx_id tx) ty (tx_last_lsn tx) LSN_invalid (le_bytes 4 (ucast (tp_page_id (page_at f bp)) :: u32))) w = (w', q, x)"
      by (cases "wal_append (LogRecord_clr (tx_id tx) ty (tx_last_lsn tx) LSN_invalid (le_bytes 4 (ucast (tp_page_id (page_at f bp)) :: u32))) w") auto
    show ?thesis
    proof (cases x)
      case (Inl e)
      then show ?thesis using l Some a ok v refl by (auto simp: log_change_def Let_def)
    next
      case (Inr n)
      let ?b = "bp\<lparr>bp_wal := Some w'\<rparr>"
      have e: "bp' = put_page f (set_lsn (page_at f ?b) n) ?b" "tx' = tx\<lparr>tx_last_lsn := n\<rparr>"
        using l Some a Inr by (auto simp: log_change_def Let_def)
      have s: "same_page (page_at f ?b) (set_lsn (page_at f ?b) n)" using set_lsn_page(2) t by simp
      note P = put_page_ok [of ?b i f, OF _ _ s]
      show ?thesis using P ok m e s set_lsn_page(1) [OF t, of n] by simp
    qed
  qed
  then show "bp_ok bp'" "mapped bp' = mapped bp" "pool_pins bp' = pool_pins bp"
    "drop 36 (tp_data (page_at f bp')) = drop 36 (tp_data (page_at f bp))" "same_page (page_at f bp) (page_at f bp')"
    "\<And>j. j \<noteq> i \<Longrightarrow> pool_view bp' j = pool_view bp j" "pool_view bp' i = Some (tp_data (page_at f bp'))"
    "tx_id tx' = tx_id tx" "tx_undo_records tx' = tx_undo_records tx" by blast+
qed


text \<open>Holding a page while only that page changes, and letting it go.\<close>

definition held_step :: "page_id \<Rightarrow> frame_id \<Rightarrow> buffer_pool \<Rightarrow> buffer_pool \<Rightarrow> bool" where
  "held_step i f bp bp' \<longleftrightarrow> bp_ok bp' \<and> mapped bp' i f \<and> pool_pins bp' = pool_pins bp \<and>
     (\<forall>j. j \<noteq> i \<longrightarrow> pool_view bp' j = pool_view bp j) \<and> pool_view bp' i = Some (tp_data (page_at f bp')) \<and>
     tp_page_id (page_at f bp') = tp_page_id (page_at f bp) \<and> length (tp_data (page_at f bp')) = length (tp_data (page_at f bp))"

lemma held_step_trans: "held_step i f bp bp1 \<Longrightarrow> held_step i f bp1 bp2 \<Longrightarrow> held_step i f bp bp2"
  by (simp add: held_step_def)

lemma held_step_put: "bp_ok bp \<Longrightarrow> mapped bp i f \<Longrightarrow> same_page (page_at f bp) t \<Longrightarrow> held_step i f bp (put_page f t bp)"
  using put_page_ok [of bp i f t] by (simp add: held_step_def same_page_def)

lemma held_step_log:
  assumes "bp_ok bp" "mapped bp i f" "80 \<le> length (tp_data (page_at f bp))" "log_change h ty f bp tx = (bp', tx', r)"
  shows "held_step i f bp bp'"
  using log_change_ok [OF assms] assms(2) by (simp add: held_step_def same_page_def)

lemma release_step:
  assumes ok: "bp_ok bp" and pins: "\<And>g. pool_pins bp g + 1 \<noteq> 0" and f: "fetch_page i bp = (bp1, Inr (Inr f))" and h: "held_step i f bp1 bp2"
    and op: "tp_ok (page_at f bp1) \<Longrightarrow> tp_ok (page_at f bp2) \<and> tp_abs (tp_data (page_at f bp2)) = G (tp_abs (tp_data (page_at f bp1))) \<and>
      next_page_id (page_at f bp2) = N (next_page_id (page_at f bp1))"
  shows "bp_ok (handle_unpin f bp2)" "pool_pins (handle_unpin f bp2) = pool_pins bp"
    "records_step U (\<lambda>j. if j = i then G else (\<lambda>m. m)) (\<lambda>j. if j = i then N else (\<lambda>n. n)) bp (handle_unpin f bp2)"
    "pool_view (handle_unpin f bp2) i = Some (tp_data (page_at f bp2))"
proof -
  note k = fetch_page_ok(1,2) [OF ok f]
  have H: "bp_ok bp2" "mapped bp2 i f" "pool_pins bp2 = pool_pins bp1" "\<And>j. j \<noteq> i \<Longrightarrow> pool_view bp2 j = pool_view bp1 j"
    "pool_view bp2 i = Some (tp_data (page_at f bp2))" "length (tp_data (page_at f bp2)) = length (tp_data (page_at f bp1))"
    using h by (simp_all add: held_step_def)
  have pf: "pool_pins bp2 f \<noteq> 0" using H(3) k(2) pins by simp
  note u = handle_unpin_ok [OF H(1,2) pf]
  show "bp_ok (handle_unpin f bp2)" by (rule u(1))
  show "pool_pins (handle_unpin f bp2) = pool_pins bp" using u(3) H(3) k(2) by (simp add: fun_eq_iff)
  show "pool_view (handle_unpin f bp2) i = Some (tp_data (page_at f bp2))" using u(2) H(5) by simp
  show "records_step U (\<lambda>j. if j = i then G else (\<lambda>m. m)) (\<lambda>j. if j = i then N else (\<lambda>n. n)) bp (handle_unpin f bp2)"
    unfolding records_step_def
  proof (intro ballI allI impI)
    fix j d assume a: "j \<in> U" "pool_view bp j = Some d" "tp_inv d"
    show "\<exists>d'. pool_view (handle_unpin f bp2) j = Some d' \<and> tp_inv d' \<and> length d' = length d \<and>
      tp_abs d' = (if j = i then G else (\<lambda>m. m)) (tp_abs d) \<and> hdr_next d' = (if j = i then N else (\<lambda>n. n)) (hdr_next d)"
    proof (cases "j = i")
      case True
      note F = fetched_page [OF ok pins f a(2) [unfolded True] a(3)]
      note O = op [OF F(1)]
      have "tp_inv (tp_data (page_at f bp2))" "tp_abs (tp_data (page_at f bp2)) = G (tp_abs d)" "hdr_next (tp_data (page_at f bp2)) = N (hdr_next d)"
        using O F(3,6) by (simp_all add: tp_ok_def next_page_id_def)
      then show ?thesis using True u(2) H(5,6) F(7) by simp
    next
      case False
      obtain b' where b': "pool_view bp1 j = Some b'" "page_body b' = page_body d" using k(1) a(2) by (auto simp: same_view_def)
      from table_page_body [OF b'(2) a(3)] show ?thesis using False u(2) H(4) b'(1) by simp
    qed
  qed
qed

lemma mark_deleted_conflict:
  assumes "tp_ok (page_at f bp)" "tp_page_id (page_at f bp) = rid_page rid" "tp_abs (tp_data (page_at f bp)) (unat (rid_slot rid)) = Some b" "40 \<le> length b"
    and "mvcc_xmax (record_mvcc b) \<noteq> INVALID_TRANSACTION_ID" "mvcc_xmax (record_mvcc b) \<noteq> tx_id tx"
  shows "mark_deleted h ty rid f bp tx = (bp, tx, Inr (Inl TransactionAborted))"
  using tp_get_abs [OF assms(1), of rid] assms by (simp add: mark_deleted_def sizeof_RecordHeader_def)

lemma mark_deleted_ok:
  assumes ok: "bp_ok bp" and m: "mapped bp (rid_page rid) f" and t: "tp_ok (page_at f bp)" "tp_page_id (page_at f bp) = rid_page rid"
    and b: "tp_abs (tp_data (page_at f bp)) (unat (rid_slot rid)) = Some b" "40 \<le> length b"
    and free: "mvcc_xmax (record_mvcc b) = INVALID_TRANSACTION_ID \<or> mvcc_xmax (record_mvcc b) = tx_id tx"
    and e: "mark_deleted h ty rid f bp tx = (bp', tx', r)"
  shows "held_step (rid_page rid) f bp bp'" "tp_ok (page_at f bp')" "next_page_id (page_at f bp') = next_page_id (page_at f bp)"
    "tp_abs (tp_data (page_at f bp')) = (tp_abs (tp_data (page_at f bp)))(unat (rid_slot rid) \<mapsto> set_xmax (tx_id tx) b)"
    "tx_id tx' = tx_id tx" "r = Inr x \<Longrightarrow> x = Inr () \<and> tx_undo_records tx' = tx_undo_records tx @ [\<lparr>ur_op = Undo_Delete, ur_table = 0, ur_record = rid\<rparr>]"
proof -
  have get: "tp_get (page_at f bp) rid = Inr b" using tp_get_abs [OF t(1)] t(2) b(1) by simp
  have len: "length (set_xmax (tx_id tx) b) = length b" using set_xmax_fields(2) [OF b(2)] .
  obtain t' where u: "tp_update (page_at f bp) rid (set_xmax (tx_id tx) b) = (t', Inr ())" "tp_ok t'"
    "tp_abs (tp_data t') = (tp_abs (tp_data (page_at f bp)))(unat (rid_slot rid) \<mapsto> set_xmax (tx_id tx) b)" "same_links (page_at f bp) t'"
    using tp_update_in_place [OF t(1) t(2) [symmetric] b(1) len] by blast
  let ?bp1 = "put_page f t' bp"
  have sp: "same_page (page_at f bp) t'" using u(4) by (simp add: same_links_def)
  note P = put_page_ok [OF ok m sp]
  obtain bp2 tx2 x2 where l: "log_change h ty f ?bp1 tx = (bp2, tx2, x2)" by (metis prod_cases3)
  have big: "80 \<le> length (tp_data (page_at f ?bp1))" using u(2) tp_inv_bounds(1) [of "tp_data t'"] P(5) by (simp add: tp_ok_def)
  have m1: "mapped ?bp1 (rid_page rid) f" using P(4) m by simp
  note L = log_change_ok [OF P(1) m1 big l]
  have E: "bp' = bp2" "tx_id tx' = tx_id tx2" "(\<exists>e. r = Inl e) \<or> r = Inr (Inr ()) \<and> tx' = add_undo_record \<lparr>ur_op = Undo_Delete, ur_table = 0, ur_record = rid\<rparr> tx2"
    using e get b(2) free u(1) l by (auto simp: mark_deleted_def sizeof_RecordHeader_def Let_def add_undo_record_def split: sum.splits)
  show "held_step (rid_page rid) f bp bp'"
    using held_step_trans [OF held_step_put [OF ok m sp] held_step_log [OF P(1) m1 big l]] E(1) by simp
  have D: "tp_inv (tp_data (page_at f bp'))" "tp_abs (tp_data (page_at f bp')) = tp_abs (tp_data t')" "hdr_next (tp_data (page_at f bp')) = hdr_next (tp_data t')"
    using tp_inv_drop [OF L(4)] overlay_drop(1) [OF L(4)] L(5) P(5) u(2) E(1) by (simp_all add: same_page_def tp_ok_def)
  show "tp_ok (page_at f bp')" using D(1) by (simp add: tp_ok_def)
  show "next_page_id (page_at f bp') = next_page_id (page_at f bp)" using D(3) u(4) by (simp add: same_links_def next_page_id_def)
  show "tp_abs (tp_data (page_at f bp')) = (tp_abs (tp_data (page_at f bp)))(unat (rid_slot rid) \<mapsto> set_xmax (tx_id tx) b)" using D(2) u(3) by simp
  show "tx_id tx' = tx_id tx" using E(2) L(8) by simp
  show "x = Inr () \<and> tx_undo_records tx' = tx_undo_records tx @ [\<lparr>ur_op = Undo_Delete, ur_table = 0, ur_record = rid\<rparr>]" if "r = Inr x"
    using E(3) that L(9) by (auto simp: add_undo_record_def)
qed

lemma heap_erase_ok:
  assumes ok: "bp_ok bp" and pins: "\<And>g. pool_pins bp g + 1 \<noteq> 0" and f: "fetch_page (rid_page rid) bp = (bp1, Inr (Inr f))"
    and d: "pool_view bp (rid_page rid) = Some d" "tp_inv d" and b: "tp_abs d (unat (rid_slot rid)) = Some b" "40 \<le> length b"
    and e: "heap_erase h rid bp tx = (bp', tx', r)"
  shows "mvcc_xmax (record_mvcc b) \<noteq> INVALID_TRANSACTION_ID \<Longrightarrow> mvcc_xmax (record_mvcc b) \<noteq> tx_id tx \<Longrightarrow>
      r = Inr (Inl TransactionAborted) \<and> tx' = tx \<and> bp_ok bp' \<and> pool_pins bp' = pool_pins bp \<and> same_records U bp bp'"
    "mvcc_xmax (record_mvcc b) = INVALID_TRANSACTION_ID \<or> mvcc_xmax (record_mvcc b) = tx_id tx \<Longrightarrow>
      bp_ok bp' \<and> pool_pins bp' = pool_pins bp \<and> records_step U (add_record rid (set_xmax (tx_id tx) b)) (\<lambda>i n. n) bp bp' \<and>
      (\<forall>x. r = Inr x \<longrightarrow> x = Inr () \<and> tx_undo_records tx' = tx_undo_records tx @ [\<lparr>ur_op = Undo_Delete, ur_table = 0, ur_record = rid\<rparr>])"
proof -
  note F = fetched_page [OF ok pins f d]
  have b1: "tp_abs (tp_data (page_at f bp1)) (unat (rid_slot rid)) = Some b" using F(3) b(1) by simp
  obtain bp2 tx2 r2 where md: "mark_deleted h LogRecordType_Delete rid f bp1 tx = (bp2, tx2, r2)" by (metis prod_cases3)
  have E: "bp' = handle_unpin f bp2" "tx' = tx2" "r = r2" using e f md by (simp_all add: heap_erase_def)
  show "r = Inr (Inl TransactionAborted) \<and> tx' = tx \<and> bp_ok bp' \<and> pool_pins bp' = pool_pins bp \<and> same_records U bp bp'"
    if "mvcc_xmax (record_mvcc b) \<noteq> INVALID_TRANSACTION_ID" "mvcc_xmax (record_mvcc b) \<noteq> tx_id tx"
  proof -
    have q: "bp2 = bp1" "tx2 = tx" "r2 = Inr (Inl TransactionAborted)"
      using mark_deleted_conflict [OF F(1,2) b1 b(2) that] md by simp_all
    have "held_step (rid_page rid) f bp1 bp1" using F(4,5,8) by (simp add: held_step_def)
    from release_step(1,2) [OF ok pins f this, where G = "\<lambda>m. m" and N = "\<lambda>n. n"]
      release_step(3) [OF ok pins f this, where G = "\<lambda>m. m" and N = "\<lambda>n. n" and U = U] show ?thesis using E q by simp
  qed
  show "bp_ok bp' \<and> pool_pins bp' = pool_pins bp \<and> records_step U (add_record rid (set_xmax (tx_id tx) b)) (\<lambda>i n. n) bp bp' \<and>
      (\<forall>x. r = Inr x \<longrightarrow> x = Inr () \<and> tx_undo_records tx' = tx_undo_records tx @ [\<lparr>ur_op = Undo_Delete, ur_table = 0, ur_record = rid\<rparr>])"
    if free: "mvcc_xmax (record_mvcc b) = INVALID_TRANSACTION_ID \<or> mvcc_xmax (record_mvcc b) = tx_id tx"
  proof -
    note M = mark_deleted_ok [OF F(5,4,1,2) b1 b(2) free md]
    have a: "(\<lambda>j. if j = rid_page rid then (\<lambda>m. m(unat (rid_slot rid) \<mapsto> set_xmax (tx_id tx) b)) else (\<lambda>m. m)) = add_record rid (set_xmax (tx_id tx) b)"
      by (auto simp: fun_eq_iff add_record_def)
    have R: "bp_ok bp' \<and> pool_pins bp' = pool_pins bp \<and> records_step U (add_record rid (set_xmax (tx_id tx) b)) (\<lambda>i n. n) bp bp'"
      using release_step(1,2) [OF ok pins f M(1), where G = "\<lambda>m. m(unat (rid_slot rid) \<mapsto> set_xmax (tx_id tx) b)" and N = "\<lambda>n. n"]
        release_step(3) [OF ok pins f M(1), where G = "\<lambda>m. m(unat (rid_slot rid) \<mapsto> set_xmax (tx_id tx) b)" and N = "\<lambda>n. n" and U = U] M(2-4) E(1)
      unfolding a by simp
    then show ?thesis using M(6) E by blast
  qed
qed


section \<open>Adding a page\<close>

lemma mapped_page: "bp_ok bp \<Longrightarrow> mapped bp i f \<Longrightarrow> mapped bp j f \<Longrightarrow> i = j"
  using index_okD(3) [of bp i f] index_okD(3) [of bp j f] by (simp add: bp_ok_def mapped_def)

lemma mapped_length:
  assumes "bp_ok bp" "mapped bp i f"
  shows "length (tp_data (page_at f bp)) = dk_page_size (bp_disk bp)" "tp_page_id (page_at f bp) = i"
    "pool_view bp i = Some (tp_data (page_at f bp))"
proof -
  have c: "core_ok bp" using assms(1) by (simp add: bp_ok_def)
  have F: "unat f < bp_pool_size bp" "fr_valid (frame_of bp f)" "fr_page_id (frame_of bp f) = i"
    using index_okD(3) [of bp i f] assms by (simp_all add: bp_ok_def mapped_def)
  show "length (tp_data (page_at f bp)) = dk_page_size (bp_disk bp)" "tp_page_id (page_at f bp) = i"
    using core_okD(6) [OF c F(1,2)] F(3) by (simp_all add: frame_ok_def tp_data_def tp_page_id_def page_at_def)
  show "pool_view bp i = Some (tp_data (page_at f bp))" using pool_view_held [OF c F] by (simp add: tp_data_def page_at_def)
qed

lemma link_last_ok:
  assumes ok: "bp_ok bp" and pins: "\<And>g. pool_pins bp g + 1 \<noteq> 0" and l: "link_last l new bp = (bp', Inr ())"
    and d: "is_valid_id l \<Longrightarrow> l \<in> U \<and> (\<exists>d. pool_view bp l = Some d \<and> tp_inv d)"
    and m: "mapped bp i f" "pool_pins bp f \<noteq> 0" "i \<noteq> l"
  shows "bp_ok bp'" "pool_pins bp' = pool_pins bp" "mapped bp' i f" "pool_room U bp \<Longrightarrow> pool_room U bp'"
    "same_records V bp bp' \<or> records_step V (\<lambda>j m. m) (\<lambda>j. if j = l then \<lambda>n. new else (\<lambda>n. n)) bp bp'"
proof -
  have "bp_ok bp' \<and> pool_pins bp' = pool_pins bp \<and> mapped bp' i f \<and> (pool_room U bp \<longrightarrow> pool_room U bp') \<and>
    (same_records V bp bp' \<or> records_step V (\<lambda>j m. m) (\<lambda>j. if j = l then \<lambda>n. new else (\<lambda>n. n)) bp bp')"
  proof (cases "is_valid_id l")
    case False
    then show ?thesis using l ok m same_view_records [OF same_view_refl] by (simp add: link_last_def)
  next
    case True
    obtain dl where dl: "l \<in> U" "pool_view bp l = Some dl" "tp_inv dl" using d [OF True] by blast
    obtain bp1 x where f: "fetch_page l bp = (bp1, x)" by fastforce
    consider (exn) e where "x = Inl e" | (fail) e where "x = Inr (Inl e)" | (held) g where "x = Inr (Inr g)" by (metis sum.exhaust)
    then show ?thesis
    proof cases
      case exn
      then show ?thesis using l True f by (simp add: link_last_def)
    next
      case fail
      then have "bp' = bp1" using l True f by (simp add: link_last_def)
      then show ?thesis
        using fetch_page_ok(1,2) [OF ok f [unfolded fail]] fetch_page_ok(4) [OF ok f [unfolded fail] m(1,2)] same_view_records [of bp bp1 V]
          pool_room_fetch(1) [OF _ dl(1) f] by simp
    next
      case (held g)
      note F = f [unfolded held]
      note G = fetched_page [OF ok pins F dl(2,3)]
      let ?t = "set_next_page_id (page_at g bp1) new"
      have bp': "bp' = handle_unpin g (put_page g ?t bp1)" using l True F by (simp add: link_last_def)
      note L = put_links(1-3) [OF G(1), of new]
      have sp: "same_page (page_at g bp1) ?t"
        using tp_inv_bounds(1) [of "tp_data (page_at g bp1)"] G(1)
        by (simp add: tp_ok_def same_page_def set_next_page_id_def) (simp add: with_data_def tp_data_def tp_page_id_def)
      note P = page_step_ok [OF ok pins F sp]
      have rs: "records_step V (\<lambda>j. if j = l then \<lambda>m. m else (\<lambda>m. m)) (\<lambda>j. if j = l then \<lambda>n. new else (\<lambda>n. n)) bp bp'"
        unfolding bp' by (rule page_step_records [OF ok pins F sp]) (use L in simp)
      have mi: "mapped bp1 i f" using fetch_page_ok(4) [OF ok F m(1,2)] by simp
      have pg: "pool_pins (put_page g ?t bp1) g \<noteq> 0"
        using put_page_ok(3) [OF G(5,4) sp] fetch_page_ok(2) [OF ok F] pins by simp
      have "mapped bp' i f" unfolding bp'
        using handle_unpin_ok(4) [OF put_page_ok(1) [OF G(5,4) sp] _ pg, of l] put_page_ok(4) [OF G(5,4) sp] G(4) mi by simp
      then show ?thesis using P(1,2) rs pool_room_fetch(2) [OF _ dl(1) f, of g ?t] by (simp add: bp' if_distrib cong: if_cong)
    qed
  qed
  then show "bp_ok bp'" "pool_pins bp' = pool_pins bp" "mapped bp' i f" "pool_room U bp \<Longrightarrow> pool_room U bp'"
    "same_records V bp bp' \<or> records_step V (\<lambda>j m. m) (\<lambda>j. if j = l then \<lambda>n. new else (\<lambda>n. n)) bp bp'" by blast+
qed

lemma pool_allocate_page_ok:
  assumes ok: "bp_ok bp" and rm: "pool_room U bp" and a: "pool_allocate_page bp = (bp1, Inr r)"
  shows "bp_ok bp1" "same_records U bp bp1" "r = Inl s \<Longrightarrow> pool_pins bp1 = pool_pins bp"
    "r = Inr f \<Longrightarrow> tp_page_id (page_at f bp1) \<notin> U \<and> is_valid_id (tp_page_id (page_at f bp1)) \<and> mapped bp1 (tp_page_id (page_at f bp1)) f \<and>
       pool_pins bp1 = (pool_pins bp)(f := pool_pins bp f + 1) \<and> pool_room (insert (tp_page_id (page_at f bp1)) U) bp1"
proof -
  obtain d x where al: "allocate_page (bp_disk bp) = (d, x)" by fastforce
  let ?bp = "bp\<lparr>bp_disk := d\<rparr>"
  note A = pool_allocate_disk [OF ok rm al]
  have same: "same_records U bp ?bp" unfolding records_step_def using A(3) by blast
  have "bp_ok bp1 \<and> same_records U bp bp1 \<and> (\<forall>s. r = Inl s \<longrightarrow> pool_pins bp1 = pool_pins bp) \<and>
    (\<forall>f. r = Inr f \<longrightarrow> tp_page_id (page_at f bp1) \<notin> U \<and> is_valid_id (tp_page_id (page_at f bp1)) \<and> mapped bp1 (tp_page_id (page_at f bp1)) f \<and>
       pool_pins bp1 = (pool_pins bp)(f := pool_pins bp f + 1) \<and> pool_room (insert (tp_page_id (page_at f bp1)) U) bp1)"
  proof (cases x)
    case (Inl e)
    then have "bp1 = ?bp" "r = Inl e" using a al by (simp_all add: pool_allocate_page_def)
    then show ?thesis using A(1,2) same by simp
  next
    case (Inr i)
    then have f: "fetch_page i ?bp = (bp1, Inr r)" using a al by (simp add: pool_allocate_page_def)
    note N = A(4) [OF Inr]
    have "unat i < unat (dh_next_page_id (dk_header d))" using N by (auto simp: pool_room_def alloc_inv_def)
    moreover have "unat (dh_next_page_id (dk_header d)) < 2 ^ 64" using unsigned_less [of "dh_next_page_id (dk_header d)"] by simp
    ultimately have iv: "is_valid_id i" by (intro is_valid_id_less) simp
    note F = fetch_page_ok [OF A(1) f]
    have st: "same_records U bp bp1" using records_step_trans [OF same same_view_records] F(1) by blast
    have pr: "pool_room (insert i U) bp1" by (rule pool_room_fetch(1) [OF _ _ f]) (use N in simp_all)
    have "tp_page_id (page_at f bp1) = i" if "r = Inr f" for f
      by (rule mapped_length(2)) (use F(1) F(3) [OF that] in simp_all)
    then show ?thesis using F N iv st pr A(2) by (cases r) simp_all
  qed
  then show "bp_ok bp1" "same_records U bp bp1" "r = Inl s \<Longrightarrow> pool_pins bp1 = pool_pins bp"
    "r = Inr f \<Longrightarrow> tp_page_id (page_at f bp1) \<notin> U \<and> is_valid_id (tp_page_id (page_at f bp1)) \<and> mapped bp1 (tp_page_id (page_at f bp1)) f \<and>
       pool_pins bp1 = (pool_pins bp)(f := pool_pins bp f + 1) \<and> pool_room (insert (tp_page_id (page_at f bp1)) U) bp1" by blast+
qed

lemma chained_link:
  assumes "chained bp i js" "set js \<subseteq> U" "js \<noteq> []" "records_step U g (\<lambda>j. if j = last js then \<lambda>n. new else (\<lambda>n. n)) bp bp'"
    and "is_valid_id new" "pool_view bp' new = Some dn" "tp_inv dn" "\<not> is_valid_id (hdr_next dn)"
  shows "chained bp' i (js @ [new])"
proof -
  define l where "l = last js"
  note st = assms(4) [folded l_def]
  have "\<exists>d. pool_view bp l = Some d \<and> \<not> is_valid_id (hdr_next d)" using assms(1,3) unfolding l_def
  proof (induction js arbitrary: i)
    case (Cons j js)
    then show ?case by (cases js) auto
  qed simp
  then obtain dl where dl: "pool_view bp l = Some dl" "\<not> is_valid_id (hdr_next dl)" by blast
  from assms(1-3) l_def show ?thesis
  proof (induction js arbitrary: i)
    case (Cons j js)
    then obtain d where d: "is_valid_id i" "i = j" "pool_view bp i = Some d" "tp_inv d" "chained bp (hdr_next d) js" by auto
    have iU: "i \<in> U" using d(2) Cons.prems(2) by simp
    obtain d' where "pool_view bp' i = Some d'" "tp_inv d'" "hdr_next d' = (if i = l then \<lambda>n. new else (\<lambda>n. n)) (hdr_next d)"
      by (rule records_stepD [OF st iU d(3,4)])
    then have d': "pool_view bp' i = Some d'" "tp_inv d'" "hdr_next d' = (if i = l then new else hdr_next d)" by simp_all
    show ?case
    proof (cases js)
      case Nil
      then have "i = l" using Cons.prems(4) d(2) by simp
      then show ?thesis using Nil d d' assms(5-8) by simp
    next
      case js: (Cons k ks)
      have "is_valid_id (hdr_next d)" using d(5) js by auto
      then have "i \<noteq> l" using d(3) dl by auto
      moreover have "chained bp' (hdr_next d) (js @ [new])" using Cons.IH [OF d(5)] Cons.prems(2,4) js by auto
      ultimately show ?thesis using d d' by simp
    qed
  qed simp
qed

definition extended :: "bytes \<Rightarrow> page_id set \<Rightarrow> page_id \<Rightarrow> page_id list \<Rightarrow> buffer_pool \<Rightarrow> buffer_pool \<Rightarrow> record_id result \<Rightarrow> bool" where
  "extended b U first js bp bp' r \<longleftrightarrow> bp_ok bp' \<and> pool_pins bp' = pool_pins bp \<and> (\<exists>nx. records_step U (\<lambda>i m. m) nx bp bp') \<and>
     (case r of
        Inl s \<Rightarrow> chained bp' first js
      | Inr rid \<Rightarrow> rid_page rid \<notin> U \<and> pool_room (insert (rid_page rid) U) bp' \<and> (chained bp' first js \<or> chained bp' first (js @ [rid_page rid])) \<and>
          (\<exists>d'. pool_view bp' (rid_page rid) = Some d' \<and> tp_inv d' \<and> tp_abs d' = [unat (rid_slot rid) \<mapsto> b]))"

lemma records_step_sub: "records_step V g nx bp bp' \<Longrightarrow> U \<subseteq> V \<Longrightarrow> records_step U g nx bp bp'"
  unfolding records_step_def by blast

lemma chained_last: "chained bp i js \<Longrightarrow> js \<noteq> [] \<Longrightarrow> last js \<in> set js \<and> (\<exists>d. pool_view bp (last js) = Some d \<and> tp_inv d)"
proof (induction js arbitrary: i)
  case (Cons j js)
  then show ?case by (cases js) auto
qed simp

lemma chained_view: "pool_view bp' = pool_view bp \<Longrightarrow> chained bp' i js = chained bp i js"
  by (induction js arbitrary: i) auto

lemma records_view: "pool_view bp' = pool_view bp1 \<Longrightarrow> records_step U g nx bp bp' = records_step U g nx bp bp1"
  by (simp add: records_step_def)

lemma tp_init_frame:
  assumes "80 \<le> length (tp_data t)" "length (tp_data t) + 4 < 2 ^ 32"
  shows "tp_ok (tp_init t)" "next_page_id (tp_init t) = invalid_value" "same_page t (tp_init t)"
proof -
  show "tp_ok (tp_init t)" using tp_init_ok [OF assms] by (simp add: tp_ok_def)
  show "same_page t (tp_init t)"
    using tp_init_ok(3) [OF assms] by (simp add: same_page_def) (simp add: tp_init_def Let_def with_data_def tp_page_id_def)
  have g: "get64 (put64 36 v d) 36 = v" if "80 \<le> length d" for v d using that by simp
  show "next_page_id (tp_init t) = invalid_value"
    using assms g [unfolded put_patch] by (simp add: next_page_id_def tp_init_def Let_def field_defs tp_data_def with_data_def) (simp add: put_patch get_patch_other)
qed

lemma same_page_trans: "same_page t t' \<Longrightarrow> same_page t' t'' \<Longrightarrow> same_page t t''"
  by (auto simp: same_page_def)

lemma fresh_page:
  assumes t: "80 \<le> length (tp_data t)" "length (tp_data t) + 4 < 2 ^ 32" and i: "tp_insert (set_prev_page_id (tp_init t) l) b = (t', r)"
  shows "same_page t t'" "tp_ok t'" "next_page_id t' = invalid_value"
    "r = Inr rid \<Longrightarrow> rid_page rid = tp_page_id t \<and> tp_abs (tp_data t') = [unat (rid_slot rid) \<mapsto> b]"
proof -
  let ?t = "set_prev_page_id (tp_init t) l"
  note I = tp_init_frame [OF t] tp_init_ok [OF t]
  note P = put_links(4-6) [OF I(1), of l]
  have s: "same_page (tp_init t) ?t"
    using I(6) t by (simp add: same_page_def set_prev_page_id_def) (simp add: with_data_def tp_data_def tp_page_id_def)
  have l: "same_links ?t t'" by (rule tp_insert_frame [OF P(1) i])
  show "same_page t t'" using I(3) s l same_page_trans by (auto simp: same_links_def)
  show "tp_ok t'" by (rule tp_insert_abs(1) [OF P(1) i])
  show "next_page_id t' = invalid_value" using l P(3) I(2) by (simp add: same_links_def)
  show "rid_page rid = tp_page_id t \<and> tp_abs (tp_data t') = [unat (rid_slot rid) \<mapsto> b]" if "r = Inr rid"
    using tp_insert_abs(3) [OF P(1) i that] P(2) I(5) s I(3) by (simp add: same_page_def)
qed

lemma held_records:
  assumes "held_step i f bp bp'" "i \<notin> U"
  shows "same_records U bp bp'"
  using assms unfolding records_step_def held_step_def by metis

lemma held_unpin:
  assumes "bp_ok bp" "mapped bp i f" "pool_pins bp = p(f := p f + 1)" "p f + 1 \<noteq> 0"
  shows "bp_ok (handle_unpin f bp)" "pool_pins (handle_unpin f bp) = p" "pool_view (handle_unpin f bp) = pool_view bp"
  using handle_unpin_ok [OF assms(1,2)] assms(3,4) by (auto simp: fun_eq_iff)

lemma log_change_alloc:
  assumes "log_change h ty f bp tx = (bp', tx', r)"
  shows "same_alloc n bp bp'"
proof -
  have "same_alloc n bp (bp\<lparr>bp_wal := w\<rparr>)" for w by (rule same_alloc_fields) simp_all
  then show ?thesis
    using assms same_alloc_trans [OF _ put_page_alloc] unfolding log_change_def Let_def
    by (auto split: option.splits prod.splits sum.splits if_splits)
qed

lemma extend_heap_ok:
  assumes ok: "bp_ok bp" and pins: "\<And>g. pool_pins bp g + 1 \<noteq> 0" "\<And>g. pool_pins bp g + 2 \<noteq> 0" and rm: "pool_room U bp"
    and ch: "chained bp first js" "set js \<subseteq> U" and e: "extend_heap h b (last (invalid_value # js)) bp tx = (bp', tx', Inr r)"
  shows "extended b U first js bp bp' r"
proof -
  let ?l = "last (invalid_value # js)"
  obtain bp1 x where al: "pool_allocate_page bp = (bp1, x)" by fastforce
  consider (exn) e where "x = Inl e" | (fail) s where "x = Inr (Inl s)" | (held) f where "x = Inr (Inr f)" by (metis sum.exhaust)
  then show ?thesis
  proof cases
    case exn
    then show ?thesis using e al by (simp add: extend_heap_def)
  next
    case fail
    then have r: "bp' = bp1" "r = Inl s" using e al by (simp_all add: extend_heap_def)
    note A = pool_allocate_page_ok [OF ok rm al [unfolded fail]]
    show ?thesis using A(1,2) A(3) [OF refl] r chained_step [OF ch A(2)] by (auto simp: extended_def)
  next
    case (held f)
    note A = pool_allocate_page_ok [OF ok rm al [unfolded held]]
    define i where "i = tp_page_id (page_at f bp1)"
    have N: "i \<notin> U" "is_valid_id i" "mapped bp1 i f" "pool_pins bp1 = (pool_pins bp)(f := pool_pins bp f + 1)" "pool_room (insert i U) bp1"
      using A(4) [OF refl] by (simp_all add: i_def)
    obtain t y where ti: "tp_insert (set_prev_page_id (tp_init (page_at f bp1)) ?l) b = (t, y)" by fastforce
    have sz: "80 \<le> length (tp_data (page_at f bp1))" "length (tp_data (page_at f bp1)) + 4 < 2 ^ 32"
      using N(5) mapped_length(1) [OF A(1) N(3)] by (simp_all add: pool_room_def)
    note T = fresh_page [OF sz ti]
    have h2: "held_step i f bp1 (put_page f t bp1)" by (rule held_step_put [OF A(1) N(3) T(1)])
    have pa: "page_at f (put_page f t bp1) = t" by (rule put_page_ok(5) [OF A(1) N(3) T(1)])
    have pf: "pool_pins bp f + 1 \<noteq> 0" by (rule pins(1))
    have fin: "bp_ok (handle_unpin f q)" "pool_pins (handle_unpin f q) = pool_pins bp" "pool_view (handle_unpin f q) = pool_view q"
      if "bp_ok q" "mapped q i f" "pool_pins q = pool_pins bp1" for q
      using held_unpin [OF that(1,2) that(3) [unfolded N(4)] pf] .
    show ?thesis
    proof (cases y)
      case (Inl s)
      let ?q = "put_page f t bp1"
      have r: "bp' = handle_unpin f ?q" "r = Inl s" using e al held ti Inl by (simp_all add: extend_heap_def Let_def)
      have Q: "bp_ok ?q" "mapped ?q i f" "pool_pins ?q = pool_pins bp1" using h2 by (simp_all add: held_step_def)
      have st: "same_records U bp bp'"
        using records_step_trans [OF A(2) held_records [OF h2 N(1)]] records_view [OF fin(3) [OF Q]] by (simp add: r)
      show ?thesis using fin(1,2) [OF Q] st chained_step [OF ch st] r by (auto simp: extended_def)
    next
      case (Inr rid)
      obtain bp3 tx3 z where lg: "log_change h LogRecordType_Insert f (put_page f t bp1) tx = (bp3, tx3, z)" by (metis prod_cases3)
      have Q2: "bp_ok (put_page f t bp1)" "mapped (put_page f t bp1) i f" using h2 by (simp_all add: held_step_def)
      have l2: "80 \<le> length (tp_data (page_at f (put_page f t bp1)))" using T(2) tp_inv_bounds(1) pa by (simp add: tp_ok_def)
      note L = log_change_ok [OF Q2 l2 lg]
      have h3: "held_step i f bp1 bp3" by (rule held_step_trans [OF h2 held_step_log [OF Q2 l2 lg]])
      have z: "z = Inr ()" using e al held ti Inr lg by (cases z) (simp_all add: extend_heap_def Let_def)
      obtain bp4 w where ll: "link_last ?l (tp_page_id t) bp3 = (bp4, w)" by fastforce
      have ti': "tp_page_id t = i" using T(1) by (simp add: same_page_def i_def)
      have w: "w = Inr ()" "bp' = handle_unpin f bp4" "r = Inr rid"
        using e al held ti Inr lg z ll by (cases w; simp add: extend_heap_def Let_def)+
      have B: "bp_ok bp3" "mapped bp3 i f" "pool_pins bp3 = pool_pins bp1" "pool_view bp3 i = Some (tp_data (page_at f bp3))"
        using h3 by (simp_all add: held_step_def)
      have D: "tp_inv (tp_data (page_at f bp3))" "tp_abs (tp_data (page_at f bp3)) = [unat (rid_slot rid) \<mapsto> b]"
          "hdr_next (tp_data (page_at f bp3)) = invalid_value"
        using tp_inv_drop [OF L(4)] overlay_drop(1) [OF L(4)] L(5) T(2,3) T(4) [OF Inr] pa by (simp_all add: same_page_def tp_ok_def next_page_id_def)
      have st3: "same_records U bp bp3" using records_step_trans [OF A(2) held_records [OF h3 N(1)]] by simp
      have ch3: "chained bp3 first js" by (rule chained_step [OF ch st3])
      have pins3: "pool_pins bp3 g + 1 \<noteq> 0" for g using pins [of g] pins [of f] B(3) N(4) by (simp add: add.assoc)
      have pf3: "pool_pins bp3 f \<noteq> 0" using pf B(3) N(4) by simp
      have lU: "?l \<in> insert i U \<and> (\<exists>d. pool_view bp3 ?l = Some d \<and> tp_inv d)" "?l \<in> U" if "is_valid_id ?l"
      proof -
        have ne: "js \<noteq> []" using that by (auto simp: is_valid_id_def)
        then show "?l \<in> U" using chained_last [OF ch3 ne] ch(2) by auto
        then show "?l \<in> insert i U \<and> (\<exists>d. pool_view bp3 ?l = Some d \<and> tp_inv d)" using chained_last [OF ch3 ne] ne by simp
      qed
      have il: "i \<noteq> ?l" using lU(2) N(1,2) by auto
      have rm3: "pool_room (insert i U) bp3"
        by (rule pool_room_same [OF N(5)]) (rule same_alloc_trans [OF put_page_alloc log_change_alloc [OF lg]])
      note K = link_last_ok(1-4) [OF B(1) pins3 ll [unfolded w ti'] lU(1) B(2) pf3 il]
      note K5 = link_last_ok(5) [OF B(1) pins3 ll [unfolded w ti'] lU(1) B(2) pf3 il, where V = "insert i U"]
      note Fin = fin [OF K(1,3)] 
      have F: "bp_ok bp'" "pool_pins bp' = pool_pins bp" "pool_view bp' = pool_view bp4" using Fin K(2) B(3) w(2) by simp_all
      have rp: "rid_page rid = i" using T(4) [OF Inr] by (simp add: i_def)
      have rm': "pool_room (insert i U) bp'" using K(4) rm3 pool_room_same [OF _ handle_unpin_alloc] w(2) by blast
      have sub: "records_step U (\<lambda>i m. m) nx bp bp'" if "records_step (insert i U) (\<lambda>i m. m) nx bp3 bp4" for nx
        using records_step_trans [OF st3 records_step_sub [OF that subset_insertI]] records_view [OF F(3)] by simp
      have new: "\<exists>d'. pool_view bp' i = Some d' \<and> tp_inv d' \<and> tp_abs d' = [unat (rid_slot rid) \<mapsto> b] \<and> hdr_next d' = nx i invalid_value"
        if s: "records_step (insert i U) (\<lambda>i m. m) nx bp3 bp4" for nx
      proof -
        obtain d' where "pool_view bp4 i = Some d'" "tp_inv d'" "tp_abs d' = tp_abs (tp_data (page_at f bp3))"
          "hdr_next d' = nx i (hdr_next (tp_data (page_at f bp3)))" by (rule records_stepD [OF s insertI1 B(4) D(1)])
        then show ?thesis using F(3) D(2,3) by auto
      qed
      from K5 have "(\<exists>nx. records_step U (\<lambda>i m. m) nx bp bp') \<and> (chained bp' first js \<or> chained bp' first (js @ [i])) \<and>
        (\<exists>d'. pool_view bp' i = Some d' \<and> tp_inv d' \<and> tp_abs d' = [unat (rid_slot rid) \<mapsto> b])"
      proof
        assume s: "same_records (insert i U) bp3 bp4"
        have "chained bp' first js" using chained_step [OF ch sub [OF s]] .
        then show ?thesis using sub [OF s] new [OF s] by blast
      next
        assume s: "records_step (insert i U) (\<lambda>j m. m) (\<lambda>j. if j = ?l then \<lambda>n. i else (\<lambda>n. n)) bp3 bp4"
        have "chained bp' first js \<or> chained bp' first (js @ [i])"
        proof (cases "js = []")
          case True
          then show ?thesis using ch(1) by simp
        next
          case False
          then have ls: "?l = last js" by simp
          obtain dn where dn: "pool_view bp' i = Some dn" "tp_inv dn" "hdr_next dn = invalid_value" using new [OF s] il by auto
          show ?thesis
            using chained_link [OF ch False sub [OF s, unfolded ls] N(2) dn(1,2)] dn(3) by (simp add: is_valid_id_def)
        qed
        then show ?thesis using sub [OF s] new [OF s] by blast
      qed
      then show ?thesis using F(1,2) N(1) rm' rp w(3) by (simp add: extended_def)
    qed
  qed
qed

section \<open>The abstract heap\<close>

text \<open>
  The heap as a map from record ids to records, over the set \<open>P\<close> of its pages. \<open>U\<close> is the set of all pages in use, the
  pages of other users included.
\<close>

definition heap_abs :: "page_id set \<Rightarrow> buffer_pool \<Rightarrow> record_id \<Rightarrow> bytes option" where
  "heap_abs P bp rid =
     (if rid_page rid \<in> P then case pool_view bp (rid_page rid) of None \<Rightarrow> None | Some d \<Rightarrow> tp_abs d (unat (rid_slot rid)) else None)"

definition heap_ok :: "table_heap \<Rightarrow> page_id set \<Rightarrow> page_id set \<Rightarrow> page_id list \<Rightarrow> buffer_pool \<Rightarrow> bool" where
  "heap_ok h U P js bp \<longleftrightarrow> bp_ok bp \<and> pool_room U bp \<and> (\<forall>g. pool_pins bp g + 1 \<noteq> 0 \<and> pool_pins bp g + 2 \<noteq> 0) \<and>
     chained bp (th_first_page_id h) js \<and> set js \<subseteq> P \<and> P \<subseteq> U \<and> (\<forall>i\<in>P. \<exists>d. pool_view bp i = Some d \<and> tp_inv d)"

lemma heap_okD:
  assumes "heap_ok h U P js bp"
  shows "bp_ok bp" "pool_room U bp" "\<And>g. pool_pins bp g + 1 \<noteq> 0" "\<And>g. pool_pins bp g + 2 \<noteq> 0" "chained bp (th_first_page_id h) js" "set js \<subseteq> P" "P \<subseteq> U"
    "\<And>i. i \<in> P \<Longrightarrow> \<exists>d. pool_view bp i = Some d \<and> tp_inv d"
  using assms by (simp_all add: heap_ok_def)

lemma heap_page_step:
  assumes "heap_ok h U P js bp" "records_step U g nx bp bp'" "i \<in> P"
  shows "\<exists>d d'. pool_view bp i = Some d \<and> pool_view bp' i = Some d' \<and> tp_inv d' \<and> tp_abs d' = g i (tp_abs d)"
proof -
  obtain d where d: "pool_view bp i = Some d" "tp_inv d" using heap_okD(8) [OF assms(1,3)] by blast
  have "i \<in> U" using heap_okD(7) [OF assms(1)] assms(3) by blast
  then show ?thesis using records_stepD [OF assms(2) _ d] d(1) by metis
qed

lemma rid_eq: "q = r \<longleftrightarrow> rid_page q = rid_page r \<and> unat (rid_slot q) = unat (rid_slot (r :: record_id))"
  by (auto simp: word_unat_eq_iff [symmetric])

lemma record_step_abs:
  assumes ok: "heap_ok h U P js bp" and st: "records_step U (add_record rid b) nx bp bp'" and p: "rid_page rid \<in> P"
  shows "heap_abs P bp' = (heap_abs P bp)(rid \<mapsto> b)" "\<forall>i\<in>P. \<exists>d. pool_view bp' i = Some d \<and> tp_inv d"
proof -
  note * = heap_page_step [OF ok st]
  show "\<forall>i\<in>P. \<exists>d. pool_view bp' i = Some d \<and> tp_inv d" using * by blast
  show "heap_abs P bp' = (heap_abs P bp)(rid \<mapsto> b)"
  proof
    fix q :: record_id
    show "heap_abs P bp' q = ((heap_abs P bp)(rid \<mapsto> b)) q"
      using * [of "rid_page q"] p rid_eq [of q rid] by (cases "rid_page q \<in> P") (auto simp: heap_abs_def add_record_def)
  qed
qed

lemma same_records_abs:
  assumes ok: "heap_ok h U P js bp" and st: "records_step U (\<lambda>i m. m) nx bp bp'"
  shows "heap_abs P bp' = heap_abs P bp" "\<forall>i\<in>P. \<exists>d. pool_view bp' i = Some d \<and> tp_inv d"
proof -
  note * = heap_page_step [OF ok st]
  show "\<forall>i\<in>P. \<exists>d. pool_view bp' i = Some d \<and> tp_inv d" using * by blast
  show "heap_abs P bp' = heap_abs P bp" using * by (force simp: fun_eq_iff heap_abs_def)
qed

lemma heap_insert_existing:
  assumes ok: "heap_ok h U P js bp" and f: "found_space b U js invalid_value bp bp' (Inr (Inr rid))"
  shows "heap_abs P bp rid = None" "heap_abs (insert (rid_page rid) P) bp' = (heap_abs P bp)(rid \<mapsto> b)"
    "heap_ok h (insert (rid_page rid) U) (insert (rid_page rid) P) js bp'"
proof -
  note F = f [unfolded found_space_def]
  have p: "rid_page rid \<in> P" "rid_page rid \<in> U" using F heap_okD(6,7) [OF ok] by auto
  have st: "records_step U (add_record rid b) (\<lambda>i n. n) bp bp'" using F by simp
  note S = record_step_abs [OF ok st p(1)]
  show "heap_abs P bp rid = None" using F by (auto simp: heap_abs_def split: option.split)
  show "heap_abs (insert (rid_page rid) P) bp' = (heap_abs P bp)(rid \<mapsto> b)" using S(1) insert_absorb [OF p(1)] by simp
  have "set js \<subseteq> U" using heap_okD(6,7) [OF ok] by blast
  then have "chained bp' (th_first_page_id h) js" by (rule chained_step [OF heap_okD(5) [OF ok] _ st])
  then show "heap_ok h (insert (rid_page rid) U) (insert (rid_page rid) P) js bp'"
    using F S(2) ok insert_absorb [OF p(1)] insert_absorb [OF p(2)] by (simp add: heap_ok_def)
qed

lemma heap_insert_extended:
  assumes ok: "heap_ok h U P js bp" and f: "extended b U (th_first_page_id h) js bp bp' (Inr rid)"
  shows "heap_abs P bp rid = None" "heap_abs (insert (rid_page rid) P) bp' = (heap_abs P bp)(rid \<mapsto> b)"
    "heap_ok h (insert (rid_page rid) U) (insert (rid_page rid) P) js bp' \<or> heap_ok h (insert (rid_page rid) U) (insert (rid_page rid) P) (js @ [rid_page rid]) bp'"
proof -
  obtain nx d where F: "bp_ok bp'" "pool_pins bp' = pool_pins bp" "records_step U (\<lambda>i m. m) nx bp bp'" "rid_page rid \<notin> U"
    "pool_room (insert (rid_page rid) U) bp'" "chained bp' (th_first_page_id h) js \<or> chained bp' (th_first_page_id h) (js @ [rid_page rid])"
    "pool_view bp' (rid_page rid) = Some d" "tp_inv d" "tp_abs d = [unat (rid_slot rid) \<mapsto> b]"
    using f by (auto simp: extended_def)
  have p: "rid_page rid \<notin> P" using F(4) heap_okD(7) [OF ok] by blast
  note S = same_records_abs [OF ok F(3)]
  show "heap_abs P bp rid = None" using p by (simp add: heap_abs_def)
  show "heap_abs (insert (rid_page rid) P) bp' = (heap_abs P bp)(rid \<mapsto> b)"
  proof
    fix q :: record_id
    show "heap_abs (insert (rid_page rid) P) bp' q = ((heap_abs P bp)(rid \<mapsto> b)) q"
      using F(7,9) p rid_eq [of q rid] fun_cong [OF S(1), of q] by (auto simp: heap_abs_def)
  qed
  show "heap_ok h (insert (rid_page rid) U) (insert (rid_page rid) P) js bp' \<or> heap_ok h (insert (rid_page rid) U) (insert (rid_page rid) P) (js @ [rid_page rid]) bp'"
    using F S(2) ok by (auto simp: heap_ok_def)
qed

text \<open>What an insertion leaves behind.\<close>

definition inserted :: "padding \<Rightarrow> table_heap \<Rightarrow> row \<Rightarrow> tuple_layout \<Rightarrow> txn_id \<Rightarrow> page_id set \<Rightarrow> page_id set \<Rightarrow> page_id list \<Rightarrow>
    buffer_pool \<Rightarrow> buffer_pool \<Rightarrow> record_id result \<Rightarrow> bool" where
  "inserted pad h r L x U P js bp bp' res \<longleftrightarrow>
     (case res of
        Inl s \<Rightarrow> bp_ok bp' \<and> pool_pins bp' = pool_pins bp \<and> chained bp' (th_first_page_id h) js \<and> heap_abs P bp' = heap_abs P bp
      | Inr rid \<Rightarrow> heap_abs P bp rid = None \<and>
          (\<exists>b. record_serialize pad r L = Inr b \<and> heap_abs (insert (rid_page rid) P) bp' = (heap_abs P bp)(rid \<mapsto> stamp_version x invalid_rid b)) \<and>
          (\<exists>js'. (js' = js \<or> js' = js @ [rid_page rid]) \<and> heap_ok h (insert (rid_page rid) U) (insert (rid_page rid) P) js' bp'))"

lemma heap_insert_inserted:
  assumes ok: "heap_ok h U P js bp"
  shows "\<exists>bp' tx' x. heap_insert pad h r L bp tx = Some (bp', tx', x) \<and> (\<forall>res. x = Inr res \<longrightarrow> inserted pad h r L (tx_id tx) U P js bp bp' res)"
proof (cases "record_serialize pad r L")
  case (Inl e)
  then show ?thesis by (simp add: heap_insert_def)
next
  case (Inr b0)
  define b where "b = stamp_version (tx_id tx) invalid_rid b0"
  have jU: "set js \<subseteq> U" using heap_okD(6,7) [OF ok] by blast
  obtain bp1 x where fs: "find_space b (th_first_page_id h) invalid_value bp = Some (bp1, x)"
    and F: "\<And>r. x = Inr r \<Longrightarrow> found_space b U js invalid_value bp bp1 r"
    using find_space_ok [OF heap_okD(1,3,5) [OF ok] jU] by metis
  have hi: "heap_insert pad h r L bp tx =
    (case x of Inl e \<Rightarrow> Some (bp1, tx, Inl e) | Inr (Inl s) \<Rightarrow> Some (bp1, tx, Inr (Inl s)) | Inr (Inr (Inr rid)) \<Rightarrow> Some (bp1, tx, Inr (Inr rid))
     | Inr (Inr (Inl l)) \<Rightarrow> Some (extend_heap h b l bp1 tx))"
    using Inr fs by (simp add: heap_insert_def Let_def b_def [symmetric] split: sum.split)
  consider (exn) e where "x = Inl e" | (fail) s where "x = Inr (Inl s)" | (found) rid where "x = Inr (Inr (Inr rid))" | (full) l where "x = Inr (Inr (Inl l))"
    by (metis sum.exhaust)
  then show ?thesis
  proof cases
    case exn
    then show ?thesis using hi by simp
  next
    case fail
    have G: "bp_ok bp1" "pool_pins bp1 = pool_pins bp" "same_records U bp bp1" using F [OF fail] by (simp_all add: found_space_def)
    have "inserted pad h r L (tx_id tx) U P js bp bp1 (Inl s)"
      using G same_records_abs(1) [OF ok G(3)] chained_step [OF heap_okD(5) [OF ok] jU G(3)] by (simp add: inserted_def)
    then show ?thesis using hi fail by simp
  next
    case found
    note G = heap_insert_existing [OF ok F [OF found]]
    have "inserted pad h r L (tx_id tx) U P js bp bp1 (Inr rid)" using G Inr by (auto simp: inserted_def b_def)
    then show ?thesis using hi found by simp
  next
    case full
    have G: "bp_ok bp1" "pool_pins bp1 = pool_pins bp" "same_records U bp bp1" "pool_room U bp1" "l = last (invalid_value # js)"
      using F [OF full] heap_okD(2) [OF ok] by (simp_all add: found_space_def)
    note A = same_records_abs [OF ok G(3)]
    have ch: "chained bp1 (th_first_page_id h) js" by (rule chained_step [OF heap_okD(5) [OF ok] jU G(3)])
    have ok1: "heap_ok h U P js bp1" using G ch A(2) ok by (simp add: heap_ok_def)
    obtain bp' tx' y where ex: "extend_heap h b l bp1 tx = (bp', tx', y)" by (metis prod_cases3)
    have "inserted pad h r L (tx_id tx) U P js bp bp' res" if "y = Inr res" for res
    proof -
      have E: "extended b U (th_first_page_id h) js bp1 bp' res"
        by (rule extend_heap_ok [OF heap_okD(1,3,4,2,5) [OF ok1] jU ex [unfolded G(5) that]])
      show ?thesis
      proof (cases res)
        case (Inl s)
        obtain nx where "records_step U (\<lambda>i m. m) nx bp1 bp'" using E by (auto simp: extended_def)
        from same_records_abs(1) [OF ok1 this] show ?thesis using E Inl A(1) G(2) by (simp add: inserted_def extended_def)
      next
        case rid: (Inr rid)
        note X = heap_insert_extended [OF ok1 E [unfolded rid]]
        show ?thesis using X(1,2,3) A(1) Inr by (auto simp: inserted_def rid b_def)
      qed
    qed
    then show ?thesis using hi full ex by simp
  qed
qed

section \<open>Insertions, reads and deletions together\<close>

lemma heap_record:
  assumes "heap_ok h U P js bp" "heap_abs P bp rid = Some b"
  obtains d where "rid_page rid \<in> P" "pool_view bp (rid_page rid) = Some d" "tp_inv d" "tp_abs d (unat (rid_slot rid)) = Some b" "rid_is_valid rid"
proof -
  have p: "rid_page rid \<in> P" using assms(2) by (simp add: heap_abs_def split: if_splits)
  then obtain d where d: "pool_view bp (rid_page rid) = Some d" "tp_inv d" using heap_okD(8) [OF assms(1)] by blast
  have a: "tp_abs d (unat (rid_slot rid)) = Some b" using assms(2) p d(1) by (simp add: heap_abs_def)
  have u: "rid_page rid \<in> U" using heap_okD(7) [OF assms(1)] p by blast
  have "unat (rid_page rid) < unat (dh_next_page_id (dk_header (bp_disk bp)))"
    using heap_okD(2) [OF assms(1)] u by (simp add: pool_room_def alloc_inv_def)
  moreover have "unat (dh_next_page_id (dk_header (bp_disk bp))) < 2 ^ 64" using unsigned_less [of "dh_next_page_id (dk_header (bp_disk bp))"] by simp
  ultimately have "is_valid_id (rid_page rid)" by (intro is_valid_id_less) simp
  then have "rid_is_valid rid" using record_valid [OF _ d(2), of "rid_page rid" "rid_slot rid"] a by (simp add: rid_is_valid_def)
  with p d a that show ?thesis by blast
qed

lemma heap_record_length:
  assumes "heap_ok h U P js bp" "heap_abs P bp rid = Some b"
  shows "length b < 2 ^ 32"
proof -
  obtain d where d: "tp_inv d" "tp_abs d (unat (rid_slot rid)) = Some b" by (rule heap_record [OF assms])
  then have "length b \<le> length d" by (auto simp: tp_abs_def ext_bytes_def bslice_def)
  then show ?thesis using tp_inv_bounds(2) [OF d(1)] by simp
qed

lemma heap_get_hidden:
  assumes "bp_ok bp" "\<And>g. pool_pins bp g + 1 \<noteq> 0" "fetch_page (rid_page rid) bp = (bp1, Inr (Inr f))"
    and "pool_view bp (rid_page rid) = Some d" "tp_inv d" "tp_abs d (unat (rid_slot rid)) = Some b"
    and "rid_is_valid rid" "40 \<le> length b" "\<not> is_visible reg (record_mvcc b) snap x"
  shows "heap_get L reg snap x rid bp = heap_get L reg snap x (mvcc_prev_version (record_mvcc b)) (handle_unpin f bp1)"
proof -
  note F = fetched_page [OF assms(1-5)]
  have "tp_get (page_at f bp1) rid = Inr b" using tp_get_abs [OF F(1)] F(2,3) assms(6) by simp
  then show ?thesis using assms(3,7-9) by (subst heap_get.simps) (simp add: sizeof_RecordHeader_def)
qed

lemma heap_get_invalid: "heap_get L reg snap x invalid_rid bp = Some (bp, Inr (Inl NotFound))"
  by (subst heap_get.simps) (simp add: invalid_rid_def rid_is_valid_def)

lemma heap_step_ok:
  assumes ok: "heap_ok h U P js bp" and b: "bp_ok bp'" "pool_pins bp' = pool_pins bp" "pool_room U bp'" and st: "records_step U g (\<lambda>i n. n) bp bp'"
  shows "heap_ok h U P js bp'"
proof -
  have "set js \<subseteq> U" using heap_okD(6,7) [OF ok] by blast
  then have "chained bp' (th_first_page_id h) js" by (rule chained_step [OF heap_okD(5) [OF ok] _ st])
  moreover have "\<forall>i\<in>P. \<exists>d. pool_view bp' i = Some d \<and> tp_inv d" using heap_page_step [OF ok st] by blast
  ultimately show ?thesis using ok b by (simp add: heap_ok_def)
qed

lemma heap_erase_room:
  assumes rm: "pool_room U bp" "rid_page rid \<in> U" and e: "heap_erase h rid bp tx = (bp', tx', r)"
  shows "pool_room U bp'"
proof -
  obtain bp1 x where f: "fetch_page (rid_page rid) bp = (bp1, x)" by fastforce
  have r1: "pool_room U bp1" by (rule pool_room_fetch(1) [OF rm f])
  have md: "same_alloc n q (fst (mark_deleted h ty rid g q tx))" for n q g ty
    using same_alloc_trans [OF put_page_alloc log_change_alloc] put_page_alloc unfolding mark_deleted_def Let_def
    by (auto split: sum.split prod.split)
  have "pool_room U (handle_unpin g (fst (mark_deleted h ty rid g bp1 tx)))" for g ty
    by (rule pool_room_same [OF r1 same_alloc_trans [OF md handle_unpin_alloc]])
  then show ?thesis using e f r1 by (auto simp: heap_erase_def split: sum.splits prod.splits) (metis fst_conv)+
qed

lemma heap_create_ok:
  assumes ok: "bp_ok bp" and rm: "pool_room U bp" and pins: "\<And>g. pool_pins bp g + 1 \<noteq> 0" "\<And>g. pool_pins bp g + 2 \<noteq> 0"
    and c: "heap_create bp = (bp', Inr (Inr h))"
  shows "th_first_page_id h \<notin> U" "heap_ok h (insert (th_first_page_id h) U) {th_first_page_id h} [th_first_page_id h] bp'"
    "heap_abs {th_first_page_id h} bp' = Map.empty" "same_records U bp bp'"
proof -
  obtain bp1 x where al: "pool_allocate_page bp = (bp1, x)" by fastforce
  obtain f where f: "x = Inr (Inr f)" using c al by (auto simp: heap_create_def split: sum.splits)
  note A = pool_allocate_page_ok [OF ok rm al [unfolded f]]
  define i where "i = tp_page_id (page_at f bp1)"
  define t where "t = tp_init (page_at f bp1)"
  have N: "i \<notin> U" "is_valid_id i" "mapped bp1 i f" "pool_pins bp1 = (pool_pins bp)(f := pool_pins bp f + 1)" "pool_room (insert i U) bp1"
    using A(4) [OF refl] by (simp_all add: i_def)
  have sz: "80 \<le> length (tp_data (page_at f bp1))" "length (tp_data (page_at f bp1)) + 4 < 2 ^ 32"
    using N(5) mapped_length(1) [OF A(1) N(3)] by (simp_all add: pool_room_def)
  note T = tp_init_frame [OF sz, folded t_def] tp_init_ok [OF sz, folded t_def]
  note P = put_page_ok [OF A(1) N(3) T(3)]
  have bp': "bp' = handle_unpin f (put_page f t bp1)" and h: "h = TableHeap_init i"
    using c al f P(5) T(3) by (simp_all add: heap_create_def Let_def t_def [symmetric] same_page_def i_def)
  have m: "mapped (put_page f t bp1) i f" "pool_pins (put_page f t bp1) = (pool_pins bp)(f := pool_pins bp f + 1)" using P(3,4) N by simp_all
  note Q = held_unpin [OF P(1) m pins(1), folded bp']
  have v: "pool_view bp' i = Some (tp_data t)" using Q(3) P(2) by simp
  have fi: "th_first_page_id h = i" by (simp add: h TableHeap_init_def)
  have rm': "pool_room (insert i U) bp'" unfolding bp' by (rule pool_room_same [OF N(5) same_alloc_trans [OF put_page_alloc handle_unpin_alloc]])
  show "th_first_page_id h \<notin> U" using fi N(1) by simp
  have "\<not> is_valid_id (hdr_next (tp_data t))" using T(2) by (simp add: next_page_id_def is_valid_id_def)
  then show "heap_ok h (insert (th_first_page_id h) U) {th_first_page_id h} [th_first_page_id h] bp'"
    using Q(1,2) rm' pins v T(4) N(2) by (simp add: heap_ok_def fi)
  show "heap_abs {th_first_page_id h} bp' = Map.empty" using v T(5) by (simp add: fun_eq_iff heap_abs_def fi)
  have "same_records U bp1 bp'"
    using N(1) P(2) Q(3) unfolding records_step_def by (metis fun_upd_other)
  then show "same_records U bp bp'" using records_step_trans [OF A(2)] by simp
qed

section \<open>Properties\<close>

text \<open>C3. Inserting into a heap refines adding an entry to the map from record ids to records. The scan over the page chain
  ends; on success the id was free, it denotes the serialized row stamped with the inserting
  transaction, no other record of any page of the heap changes, and the heap is in order again, on the same chain or
  on one longer by the page of the record. On an error status no record changes.\<close>
theorem heap_insert_refines:
  assumes "heap_ok h U P js bp"
  shows "\<exists>bp' tx' x. heap_insert pad h r L bp tx = Some (bp', tx', x) \<and>
    (\<forall>s. x = Inr (Inl s) \<longrightarrow> heap_abs P bp' = heap_abs P bp) \<and>
    (\<forall>rid. x = Inr (Inr rid) \<longrightarrow> heap_abs P bp rid = None \<and>
       (\<exists>b. record_serialize pad r L = Inr b \<and>
          heap_abs (insert (rid_page rid) P) bp' = (heap_abs P bp)(rid \<mapsto> stamp_version (tx_id tx) invalid_rid b)) \<and>
       (\<exists>js'. (js' = js \<or> js' = js @ [rid_page rid]) \<and> heap_ok h (insert (rid_page rid) U) (insert (rid_page rid) P) js' bp'))"
  using heap_insert_inserted [OF assms, of pad r L tx] by (fastforce simp: inserted_def)

text \<open>C4. A stored row is seen by the transactions that should see it. After transaction \<open>tx\<close> inserted a row that fits the
  columns, a read of the new id by transaction \<open>y\<close> whose page fetch succeeds returns the row if \<open>y\<close> is \<open>tx\<close>, or
  if \<open>tx\<close> committed and was not active in the snapshot of \<open>y\<close>; otherwise it returns \<open>NotFound\<close>.\<close>
theorem heap_insert_get:
  assumes ok: "heap_ok h U P js bp" and row: "list_all2 fits_column ts r" "length ts < 2 ^ 28"
    and ins: "heap_insert pad h r (layout_of ts) bp tx = Some (bp', tx', Inr (Inr rid))"
    and get: "fetch_page (rid_page rid) bp' = (bp1, Inr (Inr f))"
  shows "heap_get (layout_of ts) reg snap y rid bp' =
    Some (handle_unpin f bp1, Inr (if y = tx_id tx \<or> \<not> is_active snap (tx_id tx) \<and> is_committed reg (tx_id tx)
      then Inr (map2 restored_field ts r) else Inl NotFound))"
proof -
  have I: "inserted pad h r (layout_of ts) (tx_id tx) U P js bp bp' (Inr rid)"
    using heap_insert_inserted [OF ok, of pad r "layout_of ts" tx] ins by auto
  then obtain b js' where b: "record_serialize pad r (layout_of ts) = Inr b"
    and a: "heap_abs (insert (rid_page rid) P) bp' = (heap_abs P bp)(rid \<mapsto> stamp_version (tx_id tx) invalid_rid b)"
    and ok': "heap_ok h (insert (rid_page rid) U) (insert (rid_page rid) P) js' bp'" by (auto simp: inserted_def)
  define v where "v = stamp_version (tx_id tx) invalid_rid b"
  have av: "heap_abs (insert (rid_page rid) P) bp' rid = Some v" using a by (simp add: v_def)
  obtain d where d: "pool_view bp' (rid_page rid) = Some d" "tp_inv d" "tp_abs d (unat (rid_slot rid)) = Some v" "rid_is_valid rid"
    by (rule heap_record [OF ok' av])
  have lb: "40 \<le> length b" using record_serialize_bytes [OF row, of pad] b by auto
  have lv: "length v = length b" using lb by (simp add: v_def stamp_version_def sizeof_RecordHeader_def set_mvcc_def put32_def put64_def)
  have "length b < 2 ^ 32" using heap_record_length [OF ok' av] lv by simp
  note S = stored_set_mvcc [OF serialized_stored(1) [OF row b this]]
  define m where "m = \<lparr>mvcc_xmin = tx_id tx, mvcc_xmax = INVALID_TRANSACTION_ID, mvcc_prev_version = invalid_rid\<rparr>"
  have v: "v = set_mvcc m b" using lb by (simp add: v_def stamp_version_def sizeof_RecordHeader_def m_def)
  have mv: "record_mvcc v = m" and rd: "record_deserialize v (layout_of ts) = Inr (map2 restored_field ts r)"
    using S(2) stored_reads [OF S(1)] by (simp_all add: v)
  have vis: "is_visible reg m snap y \<longleftrightarrow> y = tx_id tx \<or> \<not> is_active snap (tx_id tx) \<and> is_committed reg (tx_id tx)"
    by (auto simp: is_visible_def m_def Let_def)
  have lv': "40 \<le> length v" using lb lv by simp
  note G = heap_okD(1,3) [OF ok'] get d
  show ?thesis
  proof (cases "is_visible reg m snap y")
    case True
    then show ?thesis
      using heap_get_visible [OF G lv', of reg snap y "layout_of ts"] vis mv rd by (simp add: lift_exn_def)
  next
    case False
    then show ?thesis
      using heap_get_hidden [OF G lv', of reg snap y "layout_of ts"] vis mv heap_get_invalid by (simp add: m_def)
  qed
qed

text \<open>C5. Deleting a record marks its version. If no other transaction marked it before, the record keeps its data, its
  deleter becomes the calling transaction, one undo record is added and no other record of the heap
  changes. If another transaction did, the call returns \<open>TransactionAborted\<close> and nothing changes, whether or not
  that transaction itself was rolled back. The heap stays in order.\<close>
theorem heap_erase_outcome:
  assumes ok: "heap_ok h U P js bp" and b: "heap_abs P bp rid = Some b" "40 \<le> length b"
    and f: "fetch_page (rid_page rid) bp = (bp1, Inr (Inr f))" and e: "heap_erase h rid bp tx = (bp', tx', Inr r)"
  shows "heap_ok h U P js bp' \<and>
    (if mvcc_xmax (record_mvcc b) = INVALID_TRANSACTION_ID \<or> mvcc_xmax (record_mvcc b) = tx_id tx
     then r = Inr () \<and> heap_abs P bp' = (heap_abs P bp)(rid \<mapsto> set_xmax (tx_id tx) b) \<and>
       tx_undo_records tx' = tx_undo_records tx @ [\<lparr>ur_op = Undo_Delete, ur_table = 0, ur_record = rid\<rparr>]
     else r = Inl TransactionAborted \<and> tx' = tx \<and> heap_abs P bp' = heap_abs P bp)"
proof -
  obtain d where d: "rid_page rid \<in> P" "pool_view bp (rid_page rid) = Some d" "tp_inv d" "tp_abs d (unat (rid_slot rid)) = Some b"
    by (rule heap_record [OF ok b(1)])
  have u: "rid_page rid \<in> U" using heap_okD(7) [OF ok] d(1) by blast
  note E = heap_erase_ok [OF heap_okD(1,3) [OF ok] f d(2-4) b(2) e, where U = U]
  have rm: "pool_room U bp'" by (rule heap_erase_room [OF heap_okD(2) [OF ok] u e])
  show ?thesis
  proof (cases "mvcc_xmax (record_mvcc b) = INVALID_TRANSACTION_ID \<or> mvcc_xmax (record_mvcc b) = tx_id tx")
    case True
    have st: "records_step U (add_record rid (set_xmax (tx_id tx) b)) (\<lambda>i n. n) bp bp'" using E(2) [OF True] by simp
    have "heap_ok h U P js bp'" using heap_step_ok [OF ok _ _ rm st] E(2) [OF True] by simp
    then show ?thesis using E(2) [OF True] record_step_abs(1) [OF ok st d(1)] True by simp
  next
    case False
    then have c: "r = Inl TransactionAborted" "tx' = tx" "bp_ok bp'" "pool_pins bp' = pool_pins bp" "same_records U bp bp'" using E(1) by simp_all
    show ?thesis using heap_step_ok [OF ok c(3,4) rm c(5)] same_records_abs(1) [OF ok c(5)] c(1,2) False by simp
  qed
qed

text \<open>A new heap is empty: \<open>TableHeap::create\<close> takes a page that is not in use, makes it a chain of one page without
  records, and keeps the records of every page in use.\<close>
lemma heap_create_empty:
  assumes "bp_ok bp" "pool_room U bp" "\<forall>g. pool_pins bp g = 0" "heap_create bp = (bp', Inr (Inr h))"
  shows "th_first_page_id h \<notin> U \<and> heap_ok h (insert (th_first_page_id h) U) {th_first_page_id h} [th_first_page_id h] bp' \<and>
    heap_abs {th_first_page_id h} bp' = Map.empty \<and> same_records U bp bp'"
  using heap_create_ok [OF assms(1,2) _ _ assms(4)] assms(3) by simp

section \<open>Examples\<close>

text \<open>A pool of one frame, which holds page 1 with an empty table page.\<close>

definition example_heap :: table_heap where
  "example_heap = \<lparr>th_first_page_id = 1, th_wal = False\<rparr>"

definition heap_pool :: buffer_pool where
  "heap_pool = \<lparr>bp_pool_size = 1,
     bp_frames = [\<lparr>fr_page_id = 1, fr_valid = True, fr_dirty = True, fr_pin_count = 0,
       fr_page = tp_page (tp_init \<lparr>tp_page = new_page 1 200, tp_frame_dirty = False\<rparr>)\<rparr>],
     bp_replacer = ClockReplacer_init 1, bp_page_table = [(1, 0)], bp_free_list = [],
     bp_disk = (example_disk 2)\<lparr>dk_config := default_config\<lparr>page_size := 200\<rparr>\<rparr>,
     bp_wal = None, bp_hits = 0, bp_misses = 0, bp_evictions = 0, bp_flushes = 0\<rparr>"

definition example_txn :: transaction where
  "example_txn = Transaction_init 7 RepeatableRead"

lemma heap_pool_ok:
  "heap_ok example_heap {1} {1} [1] heap_pool" "heap_abs {1} heap_pool = Map.empty" "pool_view heap_pool 1 = Some d \<Longrightarrow> free_space d = 132"
  "pool_pins heap_pool g = 0" "bp_page_table heap_pool = [(1, 0)]" "dk_open (bp_disk heap_pool)" "dk_free (bp_disk heap_pool) = []"
proof -
  let ?t = "\<lparr>tp_page = new_page 1 200, tp_frame_dirty = False\<rparr>"
  have l: "length (tp_data ?t) = 200" by (simp add: tp_data_def new_page_def)
  then have sz: "80 \<le> length (tp_data ?t)" "length (tp_data ?t) + 4 < 2 ^ 32" by simp_all
  note I = tp_init_frame [OF sz] tp_init_ok [OF sz]
  define p where "p = tp_page (tp_init ?t)"
  have p: "pg_id p = 1" "length (pg_data p) = 200" "pg_data p = tp_data (tp_init ?t)"
    using I(3,6) l by (simp_all add: p_def same_page_def tp_page_id_def tp_data_def new_page_def)
  have v1: "is_valid_id (1 :: page_id)" by (rule is_valid_id_less) simp
  have fr: "frame_of heap_pool f = \<lparr>fr_page_id = 1, fr_valid = True, fr_dirty = True, fr_pin_count = 0, fr_page = p\<rparr>" if "unat f < 1" for f
    using that by (simp add: heap_pool_def p_def)
  have sel: "bp_pool_size heap_pool = 1" "length (bp_frames heap_pool) = 1" "bp_replacer heap_pool = ClockReplacer_init 1" "bp_page_table heap_pool = [(1, 0)]"
    "bp_free_list heap_pool = []" "bp_disk heap_pool = (example_disk 2)\<lparr>dk_config := default_config\<lparr>page_size := 200\<rparr>\<rparr>"
    by (simp_all add: heap_pool_def)
  have dk: "disk_ok (bp_disk heap_pool)" "dk_page_size (bp_disk heap_pool) = 200" by (simp_all add: sel disk_ok_def example_disk_def)
  have f0: "unat f < 1 \<Longrightarrow> f = 0" for f :: frame_id by (simp add: unat_eq_0)
  have core: "core_ok heap_pool"
    using fr p dk v1 clock_ok_init [of 1] f0 by (intro core_okI) (auto simp: sel frame_ok_def addressable_def ClockReplacer_init_def)
  have idx: "index_ok heap_pool" using fr [of 0] candidates_init [of 1] f0 by (intro index_okI) (auto simp: sel)
  have ok: "bp_ok heap_pool" using core idx by (simp add: bp_ok_def)
  have view: "pool_view heap_pool 1 = Some (tp_data (tp_init ?t))" using pool_view_held [OF core, of 0 1] fr [of 0] p(3) by (simp add: sel)
  have pins: "pool_pins heap_pool g = 0" for g using fr [of g] by (auto simp: pool_pins_def sel)
  have room: "pool_room {1} heap_pool"
    using dk(2) by (auto simp: pool_room_def alloc_inv_def below_def sel example_disk_def) (simp add: heap_pool_def)
  show "heap_ok example_heap {1} {1} [1] heap_pool"
    using ok pins room view v1 I(2,4) by (simp add: heap_ok_def example_heap_def next_page_id_def) (simp add: is_valid_id_def)
  show "heap_abs {1} heap_pool = Map.empty" using view I(5) by (simp add: heap_abs_def fun_eq_iff)
  show "pool_pins heap_pool g = 0" "bp_page_table heap_pool = [(1, 0)]" "dk_open (bp_disk heap_pool)" "dk_free (bp_disk heap_pool) = []"
    using pins dk(1) by (simp_all add: sel disk_ok_def) (simp_all add: example_disk_def)
  show "free_space d = 132" if "pool_view heap_pool 1 = Some d" using that view I(7) l by simp
qed

lemma fetch_cached: "bp_ok bp \<Longrightarrow> mapped bp i f \<Longrightarrow> \<exists>bp'. fetch_page i bp = (bp', Inr (Inr f))"
  using index_okD(1) [of bp] by (auto simp: bp_ok_def mapped_def fetch_page_def)

lemma heap_pool_insert:
  obtains bp' rid bp1 f where "heap_insert (0, 0) example_heap [i32_value 7] (layout_of [Integer_t]) heap_pool example_txn = Some (bp', example_txn, Inr (Inr rid))"
    "fetch_page (rid_page rid) bp' = (bp1, Inr (Inr f))" "rid_page rid = 1"
proof -
  have fit: "list_all2 fits_column [Integer_t] [i32_value 7]" by (simp add: fits_column_def value_constructors fsize_def type_info.defs is_text_def)
  have len: "length (record_body [Integer_t] [i32_value 7]) = 4"
    by (simp add: record_body_def bitmap_of_def var_data_def fixed_bytes_def field_bytes_def value_constructors fsize_def type_info.defs serialize.simps)
  obtain b0 where b0: "record_serialize (0, 0) [i32_value 7] (layout_of [Integer_t]) = Inr b0" "length b0 = 44"
    using record_serialize_bytes [OF fit, of "(0, 0)"] len by simp
  define b where "b = stamp_version (tx_id example_txn) invalid_rid b0"
  have lb: "length b = 44" using b0(2) by (simp add: b_def stamp_version_def sizeof_RecordHeader_def set_mvcc_def put32_def put64_def)
  note H = heap_okD [OF heap_pool_ok(1)]
  have m: "mapped heap_pool 1 0" by (simp add: mapped_def heap_pool_def)
  obtain bp1 where f: "fetch_page 1 heap_pool = (bp1, Inr (Inr 0))" using fetch_cached [OF H(1) m] by blast
  obtain d where d: "pool_view heap_pool 1 = Some d" "tp_inv d" using H(8) by blast
  note F = fetched_page [OF H(1,3) f d]
  have "same_page (page_at 0 bp1) (page_at 0 bp1)" by (simp add: same_page_def)
  from page_step_ok(5) [OF H(1,3) f this d(1)] tp_inv_bounds(1) [OF d(2)] have "drop 36 (tp_data (page_at 0 bp1)) = drop 36 d"
    by (rule page_body_drop)
  from arg_cong [OF this, of "drop 16"] have "drop 52 (tp_data (page_at 0 bp1)) = drop 52 d" by simp
  from slots_drop(2,3) [OF this] have fs: "free_space (tp_data (page_at 0 bp1)) = 132"
    using heap_pool_ok(3) [OF d(1)] by (simp only: free_space_def)
  obtain t x where ti: "tp_insert (page_at 0 bp1) b = (t, x)" by fastforce
  have tr: "try_insert b (page_at 0 bp1) = (t, x)" using ti fs lb by (simp add: try_insert_def sizeof_defs)
  have "insert_need (tp_data (page_at 0 bp1)) b \<le> free_space (tp_data (page_at 0 bp1))" using fs lb by (simp add: insert_need_def)
  then obtain d' k where "insert_data (tp_data (page_at 0 bp1)) b = (d', Inr k)" using insert_data_succeeds_iff [of "tp_data (page_at 0 bp1)" b] F(1) by (auto simp: tp_ok_def)
  then obtain rid where x: "x = Inr rid" using ti by (auto simp: tp_insert_def)
  note T = try_insert_ok [OF F(1) tr]
  have rp: "rid_page rid = 1" using T(4) [OF x] F(2) by simp
  let ?bp' = "handle_unpin 0 (put_page 0 t bp1)"
  have sp: "same_page (page_at 0 bp1) t" using T(2) by (simp add: same_links_def)
  have v1: "is_valid_id (1 :: page_id)" by (rule is_valid_id_less) simp
  have "find_space b 1 invalid_value heap_pool = Some (?bp', Inr (Inr (Inr rid)))" using v1 f tr x by (subst find_space.simps) simp
  then have hi: "heap_insert (0, 0) example_heap [i32_value 7] (layout_of [Integer_t]) heap_pool example_txn = Some (?bp', example_txn, Inr (Inr rid))"
    using b0(1) by (simp add: heap_insert_def Let_def b_def [symmetric] example_heap_def)
  have p: "pool_pins (put_page 0 t bp1) 0 \<noteq> 0" using put_page_ok(3) [OF F(5,4) sp] fetch_page_ok(2) [OF H(1) f] H(3) by simp
  have mp: "mapped (put_page 0 t bp1) 1 0" using put_page_ok(4) [OF F(5,4) sp] F(4) by simp
  have "bp_ok ?bp'" "mapped ?bp' 1 0" using handle_unpin_ok(1,4) [OF put_page_ok(1) [OF F(5,4) sp] mp p] mp by simp_all
  then obtain bp2 where "fetch_page 1 ?bp' = (bp2, Inr (Inr 0))" using fetch_cached by blast
  with hi rp show ?thesis using that by simp
qed

theorem heap_insert_refines_witness:
  "\<exists>bp' rid b. heap_insert (0, 0) example_heap [i32_value 7] (layout_of [Integer_t]) heap_pool example_txn = Some (bp', example_txn, Inr (Inr rid)) \<and>
     record_serialize (0, 0) [i32_value 7] (layout_of [Integer_t]) = Inr b \<and>
     heap_abs (insert (rid_page rid) {1}) bp' = [rid \<mapsto> stamp_version (tx_id example_txn) invalid_rid b]"
proof -
  obtain bp' rid where i: "heap_insert (0, 0) example_heap [i32_value 7] (layout_of [Integer_t]) heap_pool example_txn = Some (bp', example_txn, Inr (Inr rid))"
    by (rule heap_pool_insert)
  then show ?thesis
    using heap_insert_refines [OF heap_pool_ok(1), of "(0, 0)" "[i32_value 7]" "layout_of [Integer_t]" example_txn] heap_pool_ok(2) by auto
qed

theorem heap_insert_get_witness:
  "\<exists>bp' rid bp1. heap_insert (0, 0) example_heap [i32_value 7] (layout_of [Integer_t]) heap_pool example_txn = Some (bp', example_txn, Inr (Inr rid)) \<and>
     heap_get (layout_of [Integer_t]) [(7, Active)] \<lparr>sn_xmin = 7, sn_xmax = 9, sn_active_txns = [7, 8]\<rparr> 7 rid bp' = Some (bp1, Inr (Inr [i32_value 7])) \<and>
     heap_get (layout_of [Integer_t]) [(7, Active)] \<lparr>sn_xmin = 7, sn_xmax = 9, sn_active_txns = [7, 8]\<rparr> 8 rid bp' = Some (bp1, Inr (Inl NotFound))"
proof -
  obtain bp' rid bp1 f where i: "heap_insert (0, 0) example_heap [i32_value 7] (layout_of [Integer_t]) heap_pool example_txn = Some (bp', example_txn, Inr (Inr rid))"
    "fetch_page (rid_page rid) bp' = (bp1, Inr (Inr f))" by (rule heap_pool_insert)
  have fit: "list_all2 fits_column [Integer_t] [i32_value 7]" by (simp add: fits_column_def value_constructors fsize_def type_info.defs is_text_def)
  have r: "map2 restored_field [Integer_t] [i32_value 7] = [i32_value 7]" by (simp add: restored_field_def value_constructors)
  have t: "tx_id example_txn = 7" "\<not> is_committed [(7, Active)] 7" by (simp_all add: example_txn_def Transaction_init_def is_committed_def get_state_def)
  note G = heap_insert_get [OF heap_pool_ok(1) fit _ i, where reg = "[(7, Active)]" and snap = "\<lparr>sn_xmin = 7, sn_xmax = 9, sn_active_txns = [7, 8]\<rparr>", unfolded r t]
  show ?thesis using i(1) G [where y = 7] G [where y = 8] t by auto
qed

lemma heap_erase_unlogged:
  assumes "\<not> th_wal h" "fetch_page (rid_page rid) bp = (bp1, Inr (Inr f))"
  shows "\<exists>bp' tx' r. heap_erase h rid bp tx = (bp', tx', Inr r)"
  using assms by (auto simp: heap_erase_def mark_deleted_def log_change_def Let_def split: prod.split sum.split)

theorem heap_erase_outcome_witness:
  "\<exists>bp rid b bp' tx'. heap_abs {1} bp rid = Some b \<and> heap_erase example_heap rid bp example_txn = (bp', tx', Inr (Inr ())) \<and>
     heap_abs {1} bp' = (heap_abs {1} bp)(rid \<mapsto> set_xmax 7 b)"
proof -
  obtain bp rid bp1 f where i: "heap_insert (0, 0) example_heap [i32_value 7] (layout_of [Integer_t]) heap_pool example_txn = Some (bp, example_txn, Inr (Inr rid))"
    "fetch_page (rid_page rid) bp = (bp1, Inr (Inr f))" "rid_page rid = 1" by (rule heap_pool_insert)
  have fit: "list_all2 fits_column [Integer_t] [i32_value 7]" by (simp add: fits_column_def value_constructors fsize_def type_info.defs is_text_def)
  have "inserted (0, 0) example_heap [i32_value 7] (layout_of [Integer_t]) 7 {1} {1} [1] heap_pool bp (Inr rid)"
    using heap_insert_inserted [OF heap_pool_ok(1), of "(0, 0)" "[i32_value 7]" "layout_of [Integer_t]" example_txn] i(1)
    by (auto simp: example_txn_def Transaction_init_def)
  then obtain b0 js where b: "record_serialize (0, 0) [i32_value 7] (layout_of [Integer_t]) = Inr b0"
    "heap_abs {1} bp = [rid \<mapsto> stamp_version 7 invalid_rid b0]" and ok: "heap_ok example_heap {1} {1} js bp"
    using i(3) heap_pool_ok(2) by (auto simp: inserted_def)
  define b where "b = stamp_version 7 invalid_rid b0"
  have lb: "40 \<le> length b0" using record_serialize_bytes [OF fit, of "(0, 0)"] b(1) by auto
  have bb: "40 \<le> length b" "mvcc_xmax (record_mvcc b) = INVALID_TRANSACTION_ID"
    using lb by (simp_all add: b_def stamp_version_def sizeof_RecordHeader_def set_mvcc_def put32_def put64_def record_mvcc_def get64_def slice_patch_disjoint slice_patch_same')
  have a: "heap_abs {1} bp rid = Some b" using b(2) by (simp add: b_def)
  obtain bp' tx' r where e: "heap_erase example_heap rid bp example_txn = (bp', tx', Inr r)"
    using heap_erase_unlogged [of example_heap rid bp bp1 f example_txn] i(2) by (auto simp: example_heap_def)
  have t: "tx_id example_txn = 7" by (simp add: example_txn_def Transaction_init_def)
  have "r = Inr ()" "heap_abs {1} bp' = (heap_abs {1} bp)(rid \<mapsto> set_xmax 7 b)"
    using heap_erase_outcome [OF ok a bb(1) i(2) e] bb(2) t by simp_all
  then show ?thesis using a e by blast
qed

end
