(* ===== verification/Catalog.thy ===== *)
theory Catalog
  imports Table_Heap
begin

text \<open>
  \<open>catalog/\<close>: schemas, tables with their columns, and indexes by name and id, on top of the buffer
  pool. A \<open>std::unordered_map\<close> is an association list; no operation depends on the order in which it is
  traversed. The mutex makes every operation atomic, so an operation is a function on the catalog and the
  pool. Ids are counted in 32 bits and kept in 64, and a 64-bit id is cut to the 32-bit key of its map, as
  in the code. \<open>drop_schema\<close>, \<open>drop_index\<close>, \<open>find_index\<close> and \<open>find_indexes_for_table\<close> are declared in
  \<open>catalog.hpp\<close> but have no body.
\<close>

section \<open>Columns\<close>

type_synonym schema_id = u32
type_synonym column_id = u32
type_synonym table_id = u64
type_synonym index_id = u64

record type_parameters =
  par_length :: "u32 option"
  par_precision :: "u32 option"
  par_scale :: "u32 option"

record default_value =
  dv_has_value :: bool
  dv_value :: sql_value

definition DefaultValue_init :: default_value where
  "DefaultValue_init = \<lparr>dv_has_value = False, dv_value = null_value Null_t\<rparr>"

definition DefaultValue_of :: "sql_value \<Rightarrow> default_value" where
  "DefaultValue_of v = \<lparr>dv_has_value = True, dv_value = v\<rparr>"

definition default_value_get :: "default_value \<Rightarrow> exn + sql_value" where
  "default_value_get d = (if \<not> dv_has_value d then Inl (runtime_error ''No default value present'') else Inr (dv_value d))"

record cat_column =
  cc_id :: column_id
  cc_name :: string
  cc_type :: type_id
  cc_ordinal :: u32
  cc_nullable :: bool
  cc_params :: type_parameters
  cc_default :: default_value

definition Column_init :: "column_id \<Rightarrow> string \<Rightarrow> type_id \<Rightarrow> u32 \<Rightarrow> bool \<Rightarrow> cat_column" where
  "Column_init i n t ordinal nullable = \<lparr>cc_id = i, cc_name = n, cc_type = t, cc_ordinal = ordinal, cc_nullable = nullable,
     cc_params = \<lparr>par_length = None, par_precision = None, par_scale = None\<rparr>, cc_default = DefaultValue_init\<rparr>"

section \<open>Table schemas\<close>

record table_schema =
  ts_columns :: "cat_column list"
  ts_id_to_index :: "(column_id \<times> u32) list"
  ts_name_to_index :: "(string \<times> u32) list"

definition TableSchema_init :: table_schema where
  "TableSchema_init = \<lparr>ts_columns = [], ts_id_to_index = [], ts_name_to_index = []\<rparr>"

definition rebuild_indexes :: "table_schema \<Rightarrow> table_schema" where
  "rebuild_indexes s =
     fold (\<lambda>i s. s\<lparr>ts_id_to_index := AList.update (cc_id (ts_columns s ! i)) (of_nat i) (ts_id_to_index s),
                   ts_name_to_index := AList.update (cc_name (ts_columns s ! i)) (of_nat i) (ts_name_to_index s)\<rparr>)
       [0..<length (ts_columns s)] (s\<lparr>ts_id_to_index := [], ts_name_to_index := []\<rparr>)"

definition TableSchema_of :: "cat_column list \<Rightarrow> table_schema" where
  "TableSchema_of cols = rebuild_indexes (TableSchema_init\<lparr>ts_columns := cols\<rparr>)"

definition duplicate_name :: "string \<Rightarrow> exn" where
  "duplicate_name n = runtime_error (''Duplicate column name: '' @ n)"

definition ts_add_column :: "cat_column \<Rightarrow> table_schema \<Rightarrow> exn + table_schema" where
  "ts_add_column col s =
     (if map_of (ts_name_to_index s) (cc_name col) \<noteq> None then Inl (duplicate_name (cc_name col))
      else if map_of (ts_id_to_index s) (cc_id col) \<noteq> None then Inl (runtime_error ''Duplicate column ID'')
      else let idx = of_nat (length (ts_columns s)) in
        Inr \<lparr>ts_columns = ts_columns s @ [col], ts_id_to_index = AList.update (cc_id col) idx (ts_id_to_index s),
             ts_name_to_index = AList.update (cc_name col) idx (ts_name_to_index s)\<rparr>)"

definition column_by_ordinal :: "table_schema \<Rightarrow> u32 \<Rightarrow> exn + cat_column" where
  "column_by_ordinal s ordinal =
     (if length (ts_columns s) \<le> unat ordinal then Inl (out_of_range ''Column ordinal out of range'') else Inr (ts_columns s ! unat ordinal))"

definition column_by_id :: "table_schema \<Rightarrow> column_id \<Rightarrow> exn + cat_column" where
  "column_by_id s i =
     (case map_of (ts_id_to_index s) i of None \<Rightarrow> Inl (out_of_range ''Column ID not found'') | Some k \<Rightarrow> Inr (ts_columns s ! unat k))"

definition column_by_name :: "table_schema \<Rightarrow> string \<Rightarrow> exn + cat_column" where
  "column_by_name s n =
     (case map_of (ts_name_to_index s) n of None \<Rightarrow> Inl (out_of_range (''Column name not found: '' @ n)) | Some k \<Rightarrow> Inr (ts_columns s ! unat k))"

definition get_column_id :: "table_schema \<Rightarrow> string \<Rightarrow> column_id" where
  "get_column_id s n = (case map_of (ts_name_to_index s) n of None \<Rightarrow> 0 | Some k \<Rightarrow> cc_id (ts_columns s ! unat k))"

section \<open>Constraints\<close>

datatype foreign_key_action = FK_NoAction | FK_Restrict | FK_Cascade | FK_SetNull | FK_SetDefault

datatype constraint_data =
    PrimaryKeyConstraint "column_id list" index_id
  | UniqueConstraint "column_id list" index_id
  | ForeignKeyConstraint "column_id list" table_id "column_id list" foreign_key_action foreign_key_action
  | CheckConstraint string

record constraint =
  cn_id :: u32
  cn_table_id :: table_id
  cn_name :: string
  cn_data :: constraint_data

datatype constraint_type = CT_PrimaryKey | CT_Unique | CT_ForeignKey | CT_Check

definition constraint_type_of :: "constraint \<Rightarrow> constraint_type" where
  "constraint_type_of c =
     (case cn_data c of PrimaryKeyConstraint _ _ \<Rightarrow> CT_PrimaryKey | UniqueConstraint _ _ \<Rightarrow> CT_Unique
      | ForeignKeyConstraint _ _ _ _ _ \<Rightarrow> CT_ForeignKey | CheckConstraint _ \<Rightarrow> CT_Check)"

section \<open>The catalog\<close>

record schema_metadata =
  sm_schema_id :: schema_id
  sm_name :: string

record table_metadata =
  tm_table_id :: table_id
  tm_schema_id :: schema_id
  tm_name :: string
  tm_schema :: table_schema
  tm_version :: u32
  tm_first_page_id :: page_id

record index_metadata =
  im_index_id :: index_id
  im_schema_id :: schema_id
  im_table_id :: table_id
  im_name :: string
  im_indexed_columns :: "column_id list"
  im_root_page_id :: page_id
  im_tree_height :: u32
  im_is_unique :: bool
  im_is_primary_key :: bool

record catalog =
  cg_root :: page_id
  cg_next_schema_id :: u32
  cg_next_table_id :: u32
  cg_next_column_id :: u32
  cg_next_index_id :: u32
  cg_next_constraint_id :: u32
  cg_schemas :: "(u32 \<times> schema_metadata) list"
  cg_schema_names :: "(string \<times> schema_id) list"
  cg_tables :: "(u32 \<times> table_metadata) list"
  cg_table_names :: "(u32 \<times> (string \<times> table_id) list) list"
  cg_indexes :: "(u32 \<times> index_metadata) list"
  cg_table_indexes :: "(u32 \<times> index_id list) list"

definition Catalog_init :: catalog where
  "Catalog_init = \<lparr>cg_root = invalid_value, cg_next_schema_id = 1, cg_next_table_id = 1, cg_next_column_id = 1, cg_next_index_id = 1,
     cg_next_constraint_id = 1, cg_schemas = [], cg_schema_names = [], cg_tables = [], cg_table_names = [], cg_indexes = [],
     cg_table_indexes = []\<rparr>"

text \<open>\<open>m[k]\<close> of a map whose values default to an empty list.\<close>

definition at_key :: "('k \<times> 'a list) list \<Rightarrow> 'k \<Rightarrow> 'a list" where
  "at_key m k = (case map_of m k of None \<Rightarrow> [] | Some xs \<Rightarrow> xs)"

text \<open>\<open>CatalogSerializer\<close>: only the five counters go to the root page.\<close>

definition put_counters :: "catalog \<Rightarrow> bytes \<Rightarrow> bytes" where
  "put_counters c d =
     put32 (PageHeader_SIZE + 16) (cg_next_constraint_id c) (put32 (PageHeader_SIZE + 12) (cg_next_index_id c)
       (put32 (PageHeader_SIZE + 8) (cg_next_column_id c) (put32 (PageHeader_SIZE + 4) (cg_next_table_id c)
         (put32 PageHeader_SIZE (cg_next_schema_id c) d))))"

definition catalog_save :: "catalog \<Rightarrow> buffer_pool \<Rightarrow> buffer_pool \<times> unit outcome" where
  "catalog_save c bp =
     (case fetch_page (cg_root c) bp of
        (bp, Inl e) \<Rightarrow> (bp, Inl e)
      | (bp, Inr (Inl s)) \<Rightarrow> (bp, Inr (Inl s))
      | (bp, Inr (Inr f)) \<Rightarrow> (handle_unpin f (handle_mark_dirty f (handle_modify f (put_counters c) bp)), Inr (Inr ())))"

definition get_counters :: "bytes \<Rightarrow> catalog \<Rightarrow> catalog" where
  "get_counters d c = c\<lparr>cg_next_schema_id := get32 d PageHeader_SIZE, cg_next_table_id := get32 d (PageHeader_SIZE + 4),
     cg_next_column_id := get32 d (PageHeader_SIZE + 8), cg_next_index_id := get32 d (PageHeader_SIZE + 12),
     cg_next_constraint_id := get32 d (PageHeader_SIZE + 16)\<rparr>"

definition serializer_load :: "catalog \<Rightarrow> buffer_pool \<Rightarrow> buffer_pool \<times> catalog outcome" where
  "serializer_load c bp =
     (case fetch_page (cg_root c) bp of
        (bp, Inl e) \<Rightarrow> (bp, Inl e)
      | (bp, Inr (Inl s)) \<Rightarrow> (bp, Inr (Inl s))
      | (bp, Inr (Inr f)) \<Rightarrow> (handle_unpin f bp, Inr (Inr (get_counters (pg_data (handle_get f bp)) c))))"

definition rebuild_caches :: "catalog \<Rightarrow> catalog" where
  "rebuild_caches c =
     c\<lparr>cg_schema_names := fold (\<lambda>(_, s) m. AList.update (sm_name s) (sm_schema_id s) m) (cg_schemas c) [],
       cg_table_names := fold (\<lambda>(_, t) m. AList.update (tm_schema_id t) (AList.update (tm_name t) (tm_table_id t) (at_key m (tm_schema_id t))) m)
         (cg_tables c) [],
       cg_table_indexes := fold (\<lambda>(_, i) m. AList.update (ucast (im_table_id i)) (at_key m (ucast (im_table_id i)) @ [im_index_id i]) m)
         (cg_indexes c) []\<rparr>"

definition catalog_load :: "page_id \<Rightarrow> catalog \<Rightarrow> buffer_pool \<Rightarrow> catalog \<times> buffer_pool \<times> unit outcome" where
  "catalog_load rt c bp =
     (let c = c\<lparr>cg_root := rt\<rparr> in
      case serializer_load c bp of
        (bp, Inl e) \<Rightarrow> (c, bp, Inl e)
      | (bp, Inr (Inl s)) \<Rightarrow> (c, bp, Inr (Inl s))
      | (bp, Inr (Inr c)) \<Rightarrow> (rebuild_caches c, bp, Inr (Inr ())))"

text \<open>The last step of an operation that changed the catalog: write it, then return the value.\<close>

definition persisted :: "'a \<Rightarrow> catalog \<Rightarrow> buffer_pool \<Rightarrow> catalog \<times> buffer_pool \<times> 'a outcome" where
  "persisted v c bp =
     (case catalog_save c bp of
        (bp, Inl e) \<Rightarrow> (c, bp, Inl e)
      | (bp, Inr (Inl s)) \<Rightarrow> (c, bp, Inr (Inl s))
      | (bp, Inr (Inr _)) \<Rightarrow> (c, bp, Inr (Inr v)))"

definition catalog_flush :: "catalog \<Rightarrow> buffer_pool \<Rightarrow> catalog \<times> buffer_pool \<times> unit outcome" where
  "catalog_flush c bp = persisted () c bp"

definition new_schema :: "string \<Rightarrow> catalog \<Rightarrow> catalog" where
  "new_schema n c =
     (let i = cg_next_schema_id c in
      c\<lparr>cg_next_schema_id := i + 1, cg_schemas := AList.update i \<lparr>sm_schema_id = i, sm_name = n\<rparr> (cg_schemas c),
        cg_schema_names := AList.update n i (cg_schema_names c)\<rparr>)"

text \<open>\<open>init_new\<close> has the root as an out-parameter, written as soon as the page is allocated. The handle of the
  root stays pinned until the function returns.\<close>

definition init_new :: "page_id \<Rightarrow> catalog \<Rightarrow> buffer_pool \<Rightarrow> page_id \<times> catalog \<times> buffer_pool \<times> unit outcome" where
  "init_new out c bp =
     (case pool_allocate_page bp of
        (bp, Inl e) \<Rightarrow> (out, c, bp, Inl e)
      | (bp, Inr (Inl s)) \<Rightarrow> (out, c, bp, Inr (Inl s))
      | (bp, Inr (Inr f)) \<Rightarrow>
          let rt = pg_id (handle_get f bp) in
          case persisted () (new_schema ''main'' (c\<lparr>cg_root := rt\<rparr>)) bp of (c, bp, r) \<Rightarrow> (rt, c, handle_unpin f bp, r))"

definition create_schema :: "string \<Rightarrow> catalog \<Rightarrow> buffer_pool \<Rightarrow> catalog \<times> buffer_pool \<times> schema_id outcome" where
  "create_schema n c bp =
     (if map_of (cg_schema_names c) n \<noteq> None then (c, bp, Inr (Inl AlreadyExists))
      else persisted (cg_next_schema_id c) (new_schema n c) bp)"

text \<open>\<open>unordered_map::at\<close> throws when the key is absent.\<close>

definition find_schema :: "string \<Rightarrow> catalog \<Rightarrow> schema_metadata outcome" where
  "find_schema n c =
     (case map_of (cg_schema_names c) n of
        None \<Rightarrow> Inr (Inl NotFound)
      | Some i \<Rightarrow> (case map_of (cg_schemas c) i of None \<Rightarrow> Inl (out_of_range ''_Map_base::at'') | Some m \<Rightarrow> Inr (Inr m)))"

text \<open>The columns of a new table get fresh ids; the counter moves even if a later column is a duplicate.\<close>

definition fresh_column :: "column_id \<Rightarrow> cat_column \<Rightarrow> cat_column" where
  "fresh_column i col =
     (let new_col = (Column_init i (cc_name col) (cc_type col) (cc_ordinal col) (cc_nullable col))\<lparr>cc_params := cc_params col\<rparr>
      in if dv_has_value (cc_default col) then new_col\<lparr>cc_default := cc_default col\<rparr> else new_col)"

fun assign_columns :: "cat_column list \<Rightarrow> column_id \<Rightarrow> table_schema \<Rightarrow> column_id \<times> (exn + table_schema)" where
  "assign_columns [] next s = (next, Inr s)"
| "assign_columns (col # cols) next s =
     (case ts_add_column (fresh_column next col) s of
        Inl e \<Rightarrow> (next + 1, Inl e)
      | Inr s \<Rightarrow> assign_columns cols (next + 1) s)"

definition create_table :: "schema_id \<Rightarrow> string \<Rightarrow> table_schema \<Rightarrow> catalog \<Rightarrow> buffer_pool \<Rightarrow> catalog \<times> buffer_pool \<times> table_id outcome" where
  "create_table schema table_name cols c bp =
     (if map_of (cg_schemas c) schema = None then (c, bp, Inr (Inl NotFound))
      else let schema_tables = at_key (cg_table_names c) schema;
               c = c\<lparr>cg_table_names := AList.update schema schema_tables (cg_table_names c)\<rparr> in
        if map_of schema_tables table_name \<noteq> None then (c, bp, Inr (Inl AlreadyExists))
        else case assign_columns (ts_columns cols) (cg_next_column_id c) TableSchema_init of
          (next, Inl e) \<Rightarrow> (c\<lparr>cg_next_column_id := next\<rparr>, bp, Inl e)
        | (next, Inr final_schema) \<Rightarrow>
            let key = cg_next_table_id c; i = ucast key;
                c = c\<lparr>cg_next_column_id := next, cg_next_table_id := key + 1\<rparr> in
            case heap_create bp of
              (bp, Inl e) \<Rightarrow> (c, bp, Inl e)
            | (bp, Inr (Inl s)) \<Rightarrow> (c, bp, Inr (Inl s))
            | (bp, Inr (Inr h)) \<Rightarrow>
                let tm = \<lparr>tm_table_id = i, tm_schema_id = schema, tm_name = table_name, tm_schema = final_schema, tm_version = 1,
                          tm_first_page_id = th_first_page_id h\<rparr>
                in persisted i (c\<lparr>cg_tables := AList.update key tm (cg_tables c),
                                  cg_table_names := AList.update schema (AList.update table_name i schema_tables) (cg_table_names c)\<rparr>) bp)"

definition drop_table :: "table_id \<Rightarrow> catalog \<Rightarrow> buffer_pool \<Rightarrow> catalog \<times> buffer_pool \<times> unit outcome" where
  "drop_table i c bp =
     (let key = ucast i in
      case map_of (cg_tables c) key of
        None \<Rightarrow> (c, bp, Inr (Inl NotFound))
      | Some tm \<Rightarrow>
          let c = (case map_of (cg_table_indexes c) key of
                     None \<Rightarrow> c
                   | Some is \<Rightarrow> c\<lparr>cg_indexes := fold (\<lambda>j. AList.delete (ucast j)) is (cg_indexes c),
                                  cg_table_indexes := AList.delete key (cg_table_indexes c)\<rparr>);
              c = c\<lparr>cg_table_names := AList.update (tm_schema_id tm) (AList.delete (tm_name tm) (at_key (cg_table_names c) (tm_schema_id tm)))
                      (cg_table_names c),
                    cg_tables := AList.delete key (cg_tables c)\<rparr>
          in persisted () c bp)"

definition find_table_by_id :: "table_id \<Rightarrow> catalog \<Rightarrow> table_metadata result" where
  "find_table_by_id i c = (case map_of (cg_tables c) (ucast i) of None \<Rightarrow> Inl NotFound | Some tm \<Rightarrow> Inr tm)"

definition find_table :: "schema_id \<Rightarrow> string \<Rightarrow> catalog \<Rightarrow> table_metadata outcome" where
  "find_table schema table_name c =
     (case map_of (cg_table_names c) schema of
        None \<Rightarrow> Inr (Inl NotFound)
      | Some names \<Rightarrow>
          (case map_of names table_name of
             None \<Rightarrow> Inr (Inl NotFound)
           | Some i \<Rightarrow> (case map_of (cg_tables c) (ucast i) of None \<Rightarrow> Inl (out_of_range ''_Map_base::at'') | Some tm \<Rightarrow> Inr (Inr tm))))"

text \<open>The types of the key columns; \<open>column_by_id\<close> may throw.\<close>

fun key_types :: "table_schema \<Rightarrow> column_id list \<Rightarrow> exn + type_id list" where
  "key_types s [] = Inr []"
| "key_types s (cid # cids) =
     (case column_by_id s cid of
        Inl e \<Rightarrow> Inl e
      | Inr col \<Rightarrow> (case key_types s cids of Inl e \<Rightarrow> Inl e | Inr ts \<Rightarrow> Inr (cc_type col # ts)))"

definition create_index :: "table_id \<Rightarrow> string \<Rightarrow> column_id list \<Rightarrow> bool \<Rightarrow> catalog \<Rightarrow> buffer_pool \<Rightarrow> catalog \<times> buffer_pool \<times> index_id outcome" where
  "create_index table index_name columns uniq c bp =
     (case map_of (cg_tables c) (ucast table) of
        None \<Rightarrow> (c, bp, Inr (Inl NotFound))
      | Some tm \<Rightarrow>
          if list_ex (\<lambda>(_, idx). im_schema_id idx = tm_schema_id tm \<and> im_name idx = index_name) (cg_indexes c)
          then (c, bp, Inr (Inl AlreadyExists))
          else let key = cg_next_index_id c; i = ucast key; c = c\<lparr>cg_next_index_id := key + 1\<rparr> in
            case key_types (tm_schema tm) columns of
              Inl e \<Rightarrow> (c, bp, Inl e)
            | Inr _ \<Rightarrow>
                let im = \<lparr>im_index_id = i, im_schema_id = tm_schema_id tm, im_table_id = table, im_name = index_name,
                          im_indexed_columns = columns, im_root_page_id = invalid_value, im_tree_height = 0, im_is_unique = uniq,
                          im_is_primary_key = False\<rparr>
                in persisted i (c\<lparr>cg_indexes := AList.update key im (cg_indexes c),
                                  cg_table_indexes := AList.update (ucast table) (at_key (cg_table_indexes c) (ucast table) @ [i]) (cg_table_indexes c)\<rparr>) bp)"

definition catalog_validate :: "catalog \<Rightarrow> unit result" where
  "catalog_validate c =
     (if list_ex (\<lambda>(_, idx).
           case map_of (cg_tables c) (ucast (im_table_id idx)) of
             None \<Rightarrow> True
           | Some tm \<Rightarrow> list_ex (\<lambda>cid. case column_by_id (tm_schema tm) cid of Inl _ \<Rightarrow> True | Inr _ \<Rightarrow> False) (im_indexed_columns idx)) (cg_indexes c)
      then Inl Corruption else Inr ())"

section \<open>Coherence of the maps\<close>

named_theorems alist_simps \<open>lookups in an association list after an update or a deletion\<close>

lemma map_of_update [alist_simps]: "map_of (AList.update k v m) = (map_of m)(k \<mapsto> v)"
  by (rule update_conv')

lemma map_of_delete [alist_simps]: "map_of (AList.delete k m) = (map_of m)(k := None)"
  by (rule delete_conv')

lemma at_key_update [alist_simps]: "at_key (AList.update k v m) k' = (if k' = k then v else at_key m k')"
  by (simp add: at_key_def update_conv')

lemma at_key_delete [alist_simps]: "at_key (AList.delete k m) k' = (if k' = k then [] else at_key m k')"
  by (simp add: at_key_def delete_conv')

lemma at_key_Some: "map_of m k = Some xs \<Longrightarrow> at_key m k = xs"
  by (simp add: at_key_def)

lemma map_of_deletes [alist_simps]:
  "map_of (fold (\<lambda>j. AList.delete (f j)) js m) k = (if k \<in> f ` set js then None else map_of m k)"
  by (induction js arbitrary: m) (auto simp: delete_conv')

lemma distinct_deletes: "distinct (map fst m) \<Longrightarrow> distinct (map fst (fold (\<lambda>j. AList.delete (f j)) js m))"
  by (induction js arbitrary: m) (auto intro: distinct_delete)

text \<open>An id is its key: the 32-bit counter survives the way through 64 bits.\<close>

lemma ucast_key [simp]: "ucast (ucast (k :: u32) :: u64) = k"
  by (simp add: ucast_up_ucast_id is_up)

definition ts_ok :: "table_schema \<Rightarrow> bool" where
  "ts_ok s \<longleftrightarrow> length (ts_columns s) < 2 ^ 32 \<and>
     (\<forall>k<length (ts_columns s). map_of (ts_id_to_index s) (cc_id (ts_columns s ! k)) = Some (of_nat k) \<and>
        map_of (ts_name_to_index s) (cc_name (ts_columns s ! k)) = Some (of_nat k)) \<and>
     (\<forall>i k. map_of (ts_id_to_index s) i = Some k \<longrightarrow> unat k < length (ts_columns s) \<and> cc_id (ts_columns s ! unat k) = i) \<and>
     (\<forall>n k. map_of (ts_name_to_index s) n = Some k \<longrightarrow> unat k < length (ts_columns s) \<and> cc_name (ts_columns s ! unat k) = n)"

definition schemas_ok :: "catalog \<Rightarrow> bool" where
  "schemas_ok c \<longleftrightarrow>
     (\<forall>k s. map_of (cg_schemas c) k = Some s \<longrightarrow> sm_schema_id s = k \<and> k < cg_next_schema_id c \<and> map_of (cg_schema_names c) (sm_name s) = Some k) \<and>
     (\<forall>n k. map_of (cg_schema_names c) n = Some k \<longrightarrow> (\<exists>s. map_of (cg_schemas c) k = Some s \<and> sm_name s = n))"

definition tables_ok :: "catalog \<Rightarrow> bool" where
  "tables_ok c \<longleftrightarrow>
     (\<forall>k t. map_of (cg_tables c) k = Some t \<longrightarrow> tm_table_id t = ucast k \<and> k < cg_next_table_id c \<and>
        map_of (at_key (cg_table_names c) (tm_schema_id t)) (tm_name t) = Some (ucast k) \<and>
        map_of (cg_schemas c) (tm_schema_id t) \<noteq> None \<and> ts_ok (tm_schema t)) \<and>
     (\<forall>s n i. map_of (at_key (cg_table_names c) s) n = Some i \<longrightarrow>
        (\<exists>t. map_of (cg_tables c) (ucast i) = Some t \<and> tm_schema_id t = s \<and> tm_name t = n))"

definition indexes_ok :: "catalog \<Rightarrow> bool" where
  "indexes_ok c \<longleftrightarrow>
     (\<forall>k x. map_of (cg_indexes c) k = Some x \<longrightarrow> im_index_id x = ucast k \<and> k < cg_next_index_id c \<and>
        ucast k \<in> set (at_key (cg_table_indexes c) (ucast (im_table_id x))) \<and>
        (\<exists>t. map_of (cg_tables c) (ucast (im_table_id x)) = Some t \<and> tm_schema_id t = im_schema_id x \<and>
           (\<forall>cid\<in>set (im_indexed_columns x). map_of (ts_id_to_index (tm_schema t)) cid \<noteq> None))) \<and>
     (\<forall>k j. j \<in> set (at_key (cg_table_indexes c) k) \<longrightarrow>
        (\<exists>x. map_of (cg_indexes c) (ucast j) = Some x \<and> ucast (im_table_id x) = k \<and> im_index_id x = j)) \<and>
     (\<forall>k k' x x'. map_of (cg_indexes c) k = Some x \<longrightarrow> map_of (cg_indexes c) k' = Some x' \<longrightarrow>
        im_schema_id x = im_schema_id x' \<longrightarrow> im_name x = im_name x' \<longrightarrow> k = k')"

definition keys_ok :: "catalog \<Rightarrow> bool" where
  "keys_ok c \<longleftrightarrow> distinct (map fst (cg_schemas c)) \<and> distinct (map fst (cg_tables c)) \<and> distinct (map fst (cg_indexes c))"

definition cat_ok :: "catalog \<Rightarrow> bool" where
  "cat_ok c \<longleftrightarrow> keys_ok c \<and> schemas_ok c \<and> tables_ok c \<and> indexes_ok c"

lemma cat_ok_init: "cat_ok Catalog_init"
  by (simp add: cat_ok_def keys_ok_def schemas_ok_def tables_ok_def indexes_ok_def Catalog_init_def at_key_def)

lemma schemas_okD:
  assumes "schemas_ok c"
  shows "map_of (cg_schemas c) k = Some s \<Longrightarrow> sm_schema_id s = k \<and> k < cg_next_schema_id c \<and> map_of (cg_schema_names c) (sm_name s) = Some k"
    "map_of (cg_schema_names c) n = Some k \<Longrightarrow> \<exists>s. map_of (cg_schemas c) k = Some s \<and> sm_name s = n"
  using assms by (simp_all add: schemas_ok_def)

lemma tables_okD:
  assumes "tables_ok c"
  shows "map_of (cg_tables c) k = Some t \<Longrightarrow> tm_table_id t = ucast k \<and> k < cg_next_table_id c \<and>
      map_of (at_key (cg_table_names c) (tm_schema_id t)) (tm_name t) = Some (ucast k) \<and>
      map_of (cg_schemas c) (tm_schema_id t) \<noteq> None \<and> ts_ok (tm_schema t)"
    "map_of (at_key (cg_table_names c) s) n = Some i \<Longrightarrow> \<exists>t. map_of (cg_tables c) (ucast i) = Some t \<and> tm_schema_id t = s \<and> tm_name t = n"
  using assms unfolding tables_ok_def by blast+

lemma indexes_okD:
  assumes "indexes_ok c"
  shows "map_of (cg_indexes c) k = Some x \<Longrightarrow> im_index_id x = ucast k \<and> k < cg_next_index_id c \<and>
      ucast k \<in> set (at_key (cg_table_indexes c) (ucast (im_table_id x))) \<and>
      (\<exists>t. map_of (cg_tables c) (ucast (im_table_id x)) = Some t \<and> tm_schema_id t = im_schema_id x \<and>
         (\<forall>cid\<in>set (im_indexed_columns x). map_of (ts_id_to_index (tm_schema t)) cid \<noteq> None))"
    "j \<in> set (at_key (cg_table_indexes c) k) \<Longrightarrow> \<exists>x. map_of (cg_indexes c) (ucast j) = Some x \<and> ucast (im_table_id x) = k \<and> im_index_id x = j"
    "map_of (cg_indexes c) k = Some x \<Longrightarrow> map_of (cg_indexes c) k' = Some x' \<Longrightarrow> im_schema_id x = im_schema_id x' \<Longrightarrow> im_name x = im_name x' \<Longrightarrow> k = k'"
  using assms unfolding indexes_ok_def by blast+

lemma parts_cong:
  "cg_schemas c' = cg_schemas c \<Longrightarrow> cg_schema_names c' = cg_schema_names c \<Longrightarrow> cg_next_schema_id c' = cg_next_schema_id c \<Longrightarrow> schemas_ok c' = schemas_ok c"
  "cg_schemas c' = cg_schemas c \<Longrightarrow> cg_tables c' = cg_tables c \<Longrightarrow> cg_table_names c' = cg_table_names c \<Longrightarrow> cg_next_table_id c' = cg_next_table_id c \<Longrightarrow>
     tables_ok c' = tables_ok c"
  "cg_tables c' = cg_tables c \<Longrightarrow> cg_indexes c' = cg_indexes c \<Longrightarrow> cg_table_indexes c' = cg_table_indexes c \<Longrightarrow> cg_next_index_id c' = cg_next_index_id c \<Longrightarrow>
     indexes_ok c' = indexes_ok c"
  by (simp_all only: schemas_ok_def tables_ok_def indexes_ok_def)

text \<open>The next id is not in use.\<close>

lemma fresh_key:
  "schemas_ok c \<Longrightarrow> map_of (cg_schemas c) (cg_next_schema_id c) = None"
  "tables_ok c \<Longrightarrow> map_of (cg_tables c) (cg_next_table_id c) = None"
  "indexes_ok c \<Longrightarrow> map_of (cg_indexes c) (cg_next_index_id c) = None"
  by (meson not_None_eq schemas_okD(1) tables_okD(1) indexes_okD(1) less_irrefl)+

lemma next_key:
  fixes n k :: u32
  shows "n + 1 \<noteq> 0 \<Longrightarrow> n < n + 1" "n + 1 \<noteq> 0 \<Longrightarrow> k < n \<Longrightarrow> k < n + 1"
proof -
  assume "n + 1 \<noteq> 0"
  then have "unat (n + 1) = Suc (unat n)" using unatSuc [of n] by (simp add: add.commute)
  then show "n < n + 1" "k < n \<Longrightarrow> k < n + 1" by (simp_all add: word_less_nat_alt)
qed

lemma persisted_catalog: "persisted v c bp = (c', bp', r) \<Longrightarrow> c' = c"
  by (auto simp: persisted_def split: prod.splits sum.splits)

lemma cat_ok_root [simp]: "cat_ok (c\<lparr>cg_root := i\<rparr>) = cat_ok c" "cat_ok (c\<lparr>cg_next_column_id := n\<rparr>) = cat_ok c"
  by (simp_all add: cat_ok_def keys_ok_def schemas_ok_def tables_ok_def indexes_ok_def)

lemma new_schema_ok:
  assumes ok: "cat_ok c" and n: "map_of (cg_schema_names c) n = None" and rm: "cg_next_schema_id c + 1 \<noteq> 0"
  shows "cat_ok (new_schema n c)"
proof -
  have k: "keys_ok c" and s: "schemas_ok c" and t: "tables_ok c" and i: "indexes_ok c" using ok by (simp_all add: cat_ok_def)
  note S = schemas_okD [OF s] and F = fresh_key(1) [OF s] and N = next_key [OF rm]
  have fn: "map_of (cg_schema_names c) m \<noteq> Some (cg_next_schema_id c)" for m using S(2) F by fastforce
  have "keys_ok (new_schema n c)" using k by (simp add: keys_ok_def new_schema_def Let_def distinct_update)
  moreover have "schemas_ok (new_schema n c)"
    unfolding schemas_ok_def new_schema_def Let_def using S F N n fn by (auto simp: alist_simps)
  moreover have "tables_ok (new_schema n c)"
    using t unfolding tables_ok_def new_schema_def Let_def by (auto simp: alist_simps)
  moreover have "indexes_ok (new_schema n c)" using i by (subst parts_cong) (simp_all add: new_schema_def Let_def)
  ultimately show ?thesis by (simp add: cat_ok_def)
qed

text \<open>Columns.\<close>

lemma ts_ok_init: "ts_ok TableSchema_init"
  by (simp add: ts_ok_def TableSchema_init_def)

lemma ts_add_column_ok:
  assumes ok: "ts_ok s" and a: "ts_add_column col s = Inr s'" and len: "Suc (length (ts_columns s)) < 2 ^ 32"
  shows "ts_ok s'" "ts_columns s' = ts_columns s @ [col]"
proof -
  have u: "unat (of_nat (length (ts_columns s)) :: u32) = length (ts_columns s)" using len by (intro unat_of_nat_fits) simp
  have new: "map_of (ts_name_to_index s) (cc_name col) = None" "map_of (ts_id_to_index s) (cc_id col) = None"
    and s': "s' = \<lparr>ts_columns = ts_columns s @ [col], ts_id_to_index = AList.update (cc_id col) (of_nat (length (ts_columns s))) (ts_id_to_index s),
       ts_name_to_index = AList.update (cc_name col) (of_nat (length (ts_columns s))) (ts_name_to_index s)\<rparr>"
    using a by (auto simp: ts_add_column_def Let_def split: if_splits)
  show "ts_columns s' = ts_columns s @ [col]" by (simp add: s')
  show "ts_ok s'"
    using ok len new unfolding ts_ok_def s' by (auto simp: alist_simps nth_append less_Suc_eq u)
qed

lemma ts_ok_dom:
  assumes "ts_ok s"
  shows "map_of (ts_name_to_index s) n = None \<longleftrightarrow> n \<notin> cc_name ` set (ts_columns s)"
    "map_of (ts_id_to_index s) i = None \<longleftrightarrow> i \<notin> cc_id ` set (ts_columns s)"
proof -
  have to: "map_of (ts_name_to_index s) (cc_name col) \<noteq> None \<and> map_of (ts_id_to_index s) (cc_id col) \<noteq> None" if "col \<in> set (ts_columns s)" for col
    using that assms by (auto simp: ts_ok_def in_set_conv_nth)
  have from_name: "n \<in> cc_name ` set (ts_columns s)" if "map_of (ts_name_to_index s) n = Some k" for k
    using that assms by (auto simp: ts_ok_def intro!: image_eqI [OF sym nth_mem])
  have from_id: "i \<in> cc_id ` set (ts_columns s)" if "map_of (ts_id_to_index s) i = Some k" for k
    using that assms by (auto simp: ts_ok_def intro!: image_eqI [OF sym nth_mem])
  show "map_of (ts_name_to_index s) n = None \<longleftrightarrow> n \<notin> cc_name ` set (ts_columns s)"
    "map_of (ts_id_to_index s) i = None \<longleftrightarrow> i \<notin> cc_id ` set (ts_columns s)"
    using to from_name from_id by (cases "map_of (ts_name_to_index s) n"; cases "map_of (ts_id_to_index s) i"; auto)+
qed

lemma column_lookup:
  assumes "ts_ok s" "col \<in> set (ts_columns s)"
  shows "column_by_name s (cc_name col) = Inr col" "column_by_id s (cc_id col) = Inr col" "get_column_id s (cc_name col) = cc_id col"
proof -
  obtain k where k: "k < length (ts_columns s)" "col = ts_columns s ! k" using assms(2) by (auto simp: in_set_conv_nth)
  have "unat (of_nat k :: u32) = k" using assms(1) k(1) by (intro unat_of_nat_fits) (simp add: ts_ok_def)
  then show "column_by_name s (cc_name col) = Inr col" "column_by_id s (cc_id col) = Inr col" "get_column_id s (cc_name col) = cc_id col"
    using assms(1) k by (simp_all add: ts_ok_def column_by_name_def column_by_id_def get_column_id_def)
qed

primrec fresh_columns :: "column_id \<Rightarrow> cat_column list \<Rightarrow> cat_column list" where
  "fresh_columns i [] = []"
| "fresh_columns i (col # cols) = fresh_column i col # fresh_columns (i + 1) cols"

lemma fresh_column_sel [simp]: "cc_id (fresh_column i col) = i" "cc_name (fresh_column i col) = cc_name col"
  by (simp_all add: fresh_column_def Column_init_def Let_def)

lemma assign_columns_ok:
  assumes "ts_ok s" "length (ts_columns s) + length cols < 2 ^ 32" "unat i + length cols < 2 ^ 32" "\<forall>col\<in>set (ts_columns s). cc_id col < i"
    "assign_columns cols i s = (i', r)"
  shows "unat i' \<le> unat i + length cols \<and>
    (if distinct (map cc_name cols) \<and> cc_name ` set cols \<inter> cc_name ` set (ts_columns s) = {}
     then \<exists>s'. r = Inr s' \<and> ts_ok s' \<and> ts_columns s' = ts_columns s @ fresh_columns i cols
     else \<exists>n\<in>cc_name ` set cols. r = Inl (duplicate_name n))"
  using assms
proof (induction cols arbitrary: i s)
  case Nil
  then show ?case by auto
next
  case (Cons col cols)
  have u: "unat (i + 1) = Suc (unat i)" using Cons.prems(3) by (intro unat_plus_if_fits [THEN trans]) simp_all
  have ni: "map_of (ts_id_to_index s) i = None" using Cons.prems(4) ts_ok_dom(2) [OF Cons.prems(1)] by auto
  show ?case
  proof (cases "cc_name col \<in> cc_name ` set (ts_columns s)")
    case True
    then have "ts_add_column (fresh_column i col) s = Inl (duplicate_name (cc_name col))"
      using ts_ok_dom(1) [OF Cons.prems(1), of "cc_name col"] by (simp add: ts_add_column_def)
    then have "i' = i + 1" "r = Inl (duplicate_name (cc_name col))" using Cons.prems(5) by simp_all
    then show ?thesis using True u by simp
  next
    case False
    then obtain s1 where s1: "ts_add_column (fresh_column i col) s = Inr s1"
      using ts_ok_dom(1) [OF Cons.prems(1), of "cc_name col"] ni by (simp add: ts_add_column_def Let_def)
    have len: "Suc (length (ts_columns s)) < 2 ^ 32" using Cons.prems(2) by simp
    note S = ts_add_column_ok [OF Cons.prems(1) s1 len]
    have "\<forall>x\<in>set (ts_columns s1). cc_id x < i + 1" using Cons.prems(4) S(2) u by (auto simp: word_less_nat_alt)
    moreover have "length (ts_columns s1) + length cols < 2 ^ 32" "unat (i + 1) + length cols < 2 ^ 32" "assign_columns cols (i + 1) s1 = (i', r)"
      using Cons.prems(2,3,5) S(2) s1 u by simp_all
    ultimately have ih: "unat i' \<le> unat (i + 1) + length cols \<and>
      (if distinct (map cc_name cols) \<and> cc_name ` set cols \<inter> cc_name ` set (ts_columns s1) = {}
       then \<exists>s'. r = Inr s' \<and> ts_ok s' \<and> ts_columns s' = ts_columns s1 @ fresh_columns (i + 1) cols
       else \<exists>n\<in>cc_name ` set cols. r = Inl (duplicate_name n))"
      using S(1) by (intro Cons.IH)
    have "distinct (map cc_name cols) \<and> cc_name ` set cols \<inter> cc_name ` set (ts_columns s1) = {} \<longleftrightarrow>
      distinct (map cc_name (col # cols)) \<and> cc_name ` set (col # cols) \<inter> cc_name ` set (ts_columns s) = {}"
      using False by (auto simp: S(2))
    then show ?thesis using ih u S(2) by (auto split: if_splits)
  qed
qed

text \<open>The steps of the operations on the maps.\<close>

lemma touch_names_ok:
  assumes "cat_ok c"
  shows "cat_ok (c\<lparr>cg_table_names := AList.update s (at_key (cg_table_names c) s) (cg_table_names c)\<rparr>)"
proof -
  let ?c = "c\<lparr>cg_table_names := AList.update s (at_key (cg_table_names c) s) (cg_table_names c)\<rparr>"
  have "at_key (cg_table_names ?c) = at_key (cg_table_names c)" by (simp add: fun_eq_iff alist_simps)
  then have "tables_ok ?c = tables_ok c" unfolding tables_ok_def by simp
  moreover have "schemas_ok ?c = schemas_ok c" "indexes_ok ?c = indexes_ok c" by (rule parts_cong; simp)+
  ultimately show ?thesis using assms by (simp add: cat_ok_def keys_ok_def)
qed

lemma skip_key_ok:
  assumes "cat_ok c"
  shows "cg_next_table_id c + 1 \<noteq> 0 \<Longrightarrow> cat_ok (c\<lparr>cg_next_table_id := cg_next_table_id c + 1\<rparr>)"
    "cg_next_index_id c + 1 \<noteq> 0 \<Longrightarrow> cat_ok (c\<lparr>cg_next_index_id := cg_next_index_id c + 1\<rparr>)"
proof -
  have K: "keys_ok c" and S: "schemas_ok c" and T: "tables_ok c" and I: "indexes_ok c" using assms by (simp_all add: cat_ok_def)
  show "cat_ok (c\<lparr>cg_next_table_id := cg_next_table_id c + 1\<rparr>)" if "cg_next_table_id c + 1 \<noteq> 0"
  proof -
    have "tables_ok (c\<lparr>cg_next_table_id := cg_next_table_id c + 1\<rparr>)"
      unfolding tables_ok_def using tables_okD [OF T] next_key(2) [OF that] by simp
    moreover have "schemas_ok (c\<lparr>cg_next_table_id := cg_next_table_id c + 1\<rparr>)" "indexes_ok (c\<lparr>cg_next_table_id := cg_next_table_id c + 1\<rparr>)"
      using S I by (subst parts_cong; simp)+
    ultimately show ?thesis using K by (simp add: cat_ok_def keys_ok_def)
  qed
  show "cat_ok (c\<lparr>cg_next_index_id := cg_next_index_id c + 1\<rparr>)" if "cg_next_index_id c + 1 \<noteq> 0"
  proof -
    have "indexes_ok (c\<lparr>cg_next_index_id := cg_next_index_id c + 1\<rparr>)"
      unfolding indexes_ok_def using indexes_okD [OF I] next_key(2) [OF that] by simp
    moreover have "schemas_ok (c\<lparr>cg_next_index_id := cg_next_index_id c + 1\<rparr>)" "tables_ok (c\<lparr>cg_next_index_id := cg_next_index_id c + 1\<rparr>)"
      using S T by (subst parts_cong; simp)+
    ultimately show ?thesis using K by (simp add: cat_ok_def keys_ok_def)
  qed
qed

text \<open>A table with a key that is not in use enters the catalog.\<close>

lemma put_table_ok:
  assumes ok: "cat_ok c" and n: "map_of (at_key (cg_table_names c) (tm_schema_id t)) (tm_name t) = None"
    and k: "map_of (cg_tables c) k = None" "k < cg_next_table_id c" "tm_table_id t = ucast k"
    and s: "map_of (cg_schemas c) (tm_schema_id t) \<noteq> None" "ts_ok (tm_schema t)"
  shows "cat_ok (c\<lparr>cg_tables := AList.update k t (cg_tables c),
    cg_table_names := AList.update (tm_schema_id t) (AList.update (tm_name t) (tm_table_id t) (at_key (cg_table_names c) (tm_schema_id t))) (cg_table_names c)\<rparr>)"
    (is "cat_ok ?c")
proof -
  have K: "keys_ok c" and S: "schemas_ok c" and T: "tables_ok c" and I: "indexes_ok c" using ok by (simp_all add: cat_ok_def)
  have fn: "map_of (at_key (cg_table_names c) s) m = Some i \<Longrightarrow> ucast i \<noteq> k" for s m i using tables_okD(2) [OF T] k(1) by fastforce
  have fx: "map_of (cg_indexes c) j = Some x \<Longrightarrow> ucast (im_table_id x) \<noteq> k" for j x using indexes_okD(1) [OF I] k(1) by fastforce
  have "keys_ok ?c" using K by (simp add: keys_ok_def distinct_update)
  moreover have "schemas_ok ?c" using S by (subst parts_cong) simp_all
  moreover have "tables_ok ?c"
    unfolding tables_ok_def
  proof (intro conjI allI impI)
    fix j u assume "map_of (cg_tables ?c) j = Some u"
    then show "tm_table_id u = ucast j" "j < cg_next_table_id ?c" "map_of (cg_schemas ?c) (tm_schema_id u) \<noteq> None" "ts_ok (tm_schema u)"
      "map_of (at_key (cg_table_names ?c) (tm_schema_id u)) (tm_name u) = Some (ucast j)"
      using tables_okD(1) [OF T, of j u] n k s by (auto simp: alist_simps split: if_splits)
  next
    fix m nm i assume "map_of (at_key (cg_table_names ?c) m) nm = Some i"
    then show "\<exists>u. map_of (cg_tables ?c) (ucast i) = Some u \<and> tm_schema_id u = m \<and> tm_name u = nm"
      using tables_okD(2) [OF T, of m nm i] fn [of m nm i] k(1,2) by (auto simp: alist_simps k(3) split: if_splits)
  qed
  moreover have "indexes_ok ?c"
    unfolding indexes_ok_def using indexes_okD [OF I] fx by (auto simp: alist_simps)
  ultimately show ?thesis by (simp add: cat_ok_def)
qed

lemma put_index_ok:
  assumes ok: "cat_ok c" and k: "map_of (cg_indexes c) k = None" "k < cg_next_index_id c" "im_index_id x = ucast k"
    and t: "map_of (cg_tables c) (ucast (im_table_id x)) = Some t" "tm_schema_id t = im_schema_id x"
      "\<forall>cid\<in>set (im_indexed_columns x). map_of (ts_id_to_index (tm_schema t)) cid \<noteq> None"
    and n: "\<And>j y. map_of (cg_indexes c) j = Some y \<Longrightarrow> im_schema_id y = im_schema_id x \<Longrightarrow> im_name y \<noteq> im_name x"
  shows "cat_ok (c\<lparr>cg_indexes := AList.update k x (cg_indexes c),
    cg_table_indexes := AList.update (ucast (im_table_id x)) (at_key (cg_table_indexes c) (ucast (im_table_id x)) @ [im_index_id x]) (cg_table_indexes c)\<rparr>)"
    (is "cat_ok ?c")
proof -
  have K: "keys_ok c" and S: "schemas_ok c" and T: "tables_ok c" and I: "indexes_ok c" using ok by (simp_all add: cat_ok_def)
  have fi: "j \<in> set (at_key (cg_table_indexes c) m) \<Longrightarrow> ucast j \<noteq> k" for m j using indexes_okD(2) [OF I] k(1) by fastforce
  have "keys_ok ?c" using K by (simp add: keys_ok_def distinct_update)
  moreover have "schemas_ok ?c" "tables_ok ?c" using S T by (subst parts_cong; simp)+
  moreover have "indexes_ok ?c"
    unfolding indexes_ok_def
  proof (intro conjI allI impI)
    fix j y assume "map_of (cg_indexes ?c) j = Some y"
    then show "im_index_id y = ucast j" "j < cg_next_index_id ?c" "ucast j \<in> set (at_key (cg_table_indexes ?c) (ucast (im_table_id y)))"
      "\<exists>t. map_of (cg_tables ?c) (ucast (im_table_id y)) = Some t \<and> tm_schema_id t = im_schema_id y \<and>
        (\<forall>cid\<in>set (im_indexed_columns y). map_of (ts_id_to_index (tm_schema t)) cid \<noteq> None)"
      using indexes_okD(1) [OF I, of j y] k t by (auto simp: alist_simps split: if_splits)
  next
    fix m j assume "j \<in> set (at_key (cg_table_indexes ?c) m)"
    then show "\<exists>y. map_of (cg_indexes ?c) (ucast j) = Some y \<and> ucast (im_table_id y) = m \<and> im_index_id y = j"
      using indexes_okD(2) [OF I, of j] fi k by (auto simp: alist_simps split: if_splits)
  next
    fix j j' y y' assume "map_of (cg_indexes ?c) j = Some y" "map_of (cg_indexes ?c) j' = Some y'" "im_schema_id y = im_schema_id y'" "im_name y = im_name y'"
    then show "j = j'" using indexes_okD(3) [OF I, of j y j' y'] n by (auto simp: alist_simps split: if_splits)
  qed
  ultimately show ?thesis by (simp add: cat_ok_def)
qed

text \<open>The catalog without a table and its indexes.\<close>

definition without_table :: "u32 \<Rightarrow> table_metadata \<Rightarrow> catalog \<Rightarrow> catalog" where
  "without_table k t c = c\<lparr>cg_indexes := fold (\<lambda>j. AList.delete (ucast j)) (at_key (cg_table_indexes c) k) (cg_indexes c),
     cg_table_indexes := AList.delete k (cg_table_indexes c),
     cg_table_names := AList.update (tm_schema_id t) (AList.delete (tm_name t) (at_key (cg_table_names c) (tm_schema_id t))) (cg_table_names c),
     cg_tables := AList.delete k (cg_tables c)\<rparr>"

lemma drop_table_step:
  "map_of (cg_tables c) (ucast i) = Some t \<Longrightarrow> drop_table i c bp = persisted () (without_table (ucast i) t c) bp"
proof (cases "map_of (cg_table_indexes c) (ucast i)")
  case None
  then have "AList.delete (ucast i) (cg_table_indexes c) = cg_table_indexes c" "at_key (cg_table_indexes c) (ucast i) = []"
    by (simp_all add: delete_idem map_of_eq_None_iff [symmetric] at_key_def)
  moreover assume "map_of (cg_tables c) (ucast i) = Some t"
  ultimately show ?thesis using None by (simp add: drop_table_def without_table_def Let_def)
qed (simp add: drop_table_def without_table_def at_key_Some Let_def)

lemma table_indexes_mine:
  assumes I: "indexes_ok c" and x: "map_of (cg_indexes c) x = Some y"
  shows "x \<in> ucast ` set (at_key (cg_table_indexes c) k) \<longleftrightarrow> ucast (im_table_id y) = k"
proof
  assume "x \<in> ucast ` set (at_key (cg_table_indexes c) k)"
  then show "ucast (im_table_id y) = k" using x indexes_okD(2) [OF I] by fastforce
next
  assume "ucast (im_table_id y) = k"
  then have "ucast x \<in> set (at_key (cg_table_indexes c) k)" using indexes_okD(1) [OF I x] by simp
  then show "x \<in> ucast ` set (at_key (cg_table_indexes c) k)" by (rule rev_image_eqI) simp
qed

lemma without_table_ok:
  assumes ok: "cat_ok c" and k: "map_of (cg_tables c) k = Some t"
  shows "cat_ok (without_table k t c)" (is "cat_ok ?c")
proof -
  have K: "keys_ok c" and S: "schemas_ok c" and T: "tables_ok c" and I: "indexes_ok c" using ok by (simp_all add: cat_ok_def)
  note Tk = tables_okD(1) [OF T k]
  have un: "j = k" if "map_of (cg_tables c) j = Some u" "tm_schema_id u = tm_schema_id t" "tm_name u = tm_name t" for j u
    using tables_okD(1) [OF T that(1)] Tk that(2,3) by (metis option.inject ucast_key)
  note mine = table_indexes_mine [OF I, where k = k]
  have "keys_ok ?c" using K by (simp add: keys_ok_def without_table_def distinct_delete distinct_deletes)
  moreover have "schemas_ok ?c" using S by (subst parts_cong) (simp_all add: without_table_def)
  moreover have "tables_ok ?c"
    unfolding tables_ok_def
  proof (intro conjI allI impI)
    fix j u assume a: "map_of (cg_tables ?c) j = Some u"
    then show "tm_table_id u = ucast j" "j < cg_next_table_id ?c" "map_of (cg_schemas ?c) (tm_schema_id u) \<noteq> None" "ts_ok (tm_schema u)"
      "map_of (at_key (cg_table_names ?c) (tm_schema_id u)) (tm_name u) = Some (ucast j)"
      using tables_okD(1) [OF T, of j u] un [of j u] by (auto simp: without_table_def alist_simps split: if_splits)
  next
    fix m nm i assume "map_of (at_key (cg_table_names ?c) m) nm = Some i"
    then have a: "map_of (at_key (cg_table_names c) m) nm = Some i" "m = tm_schema_id t \<Longrightarrow> nm \<noteq> tm_name t"
      by (auto simp: without_table_def alist_simps split: if_splits)
    then show "\<exists>u. map_of (cg_tables ?c) (ucast i) = Some u \<and> tm_schema_id u = m \<and> tm_name u = nm"
      using tables_okD(2) [OF T a(1)] k by (auto simp: without_table_def alist_simps)
  qed
  moreover have "indexes_ok ?c"
    unfolding indexes_ok_def
  proof (intro conjI allI impI)
    fix j y assume "map_of (cg_indexes ?c) j = Some y"
    then have a: "map_of (cg_indexes c) j = Some y" "ucast (im_table_id y) \<noteq> k"
      using mine by (auto simp: without_table_def alist_simps split: if_splits)
    then show "im_index_id y = ucast j" "j < cg_next_index_id ?c" "ucast j \<in> set (at_key (cg_table_indexes ?c) (ucast (im_table_id y)))"
      "\<exists>t. map_of (cg_tables ?c) (ucast (im_table_id y)) = Some t \<and> tm_schema_id t = im_schema_id y \<and>
        (\<forall>cid\<in>set (im_indexed_columns y). map_of (ts_id_to_index (tm_schema t)) cid \<noteq> None)"
      using indexes_okD(1) [OF I, of j y] by (auto simp: without_table_def alist_simps)
  next
    fix m j assume "j \<in> set (at_key (cg_table_indexes ?c) m)"
    then have a: "j \<in> set (at_key (cg_table_indexes c) m)" "m \<noteq> k" by (auto simp: without_table_def alist_simps split: if_splits)
    then show "\<exists>y. map_of (cg_indexes ?c) (ucast j) = Some y \<and> ucast (im_table_id y) = m \<and> im_index_id y = j"
      using indexes_okD(2) [OF I a(1)] mine by (auto simp: without_table_def alist_simps)
  next
    fix j j' y y' assume "map_of (cg_indexes ?c) j = Some y" "map_of (cg_indexes ?c) j' = Some y'" "im_schema_id y = im_schema_id y'" "im_name y = im_name y'"
    then show "j = j'" using indexes_okD(3) [OF I, of j y j' y'] by (auto simp: without_table_def alist_simps split: if_splits)
  qed
  ultimately show ?thesis by (simp add: cat_ok_def)
qed

section \<open>Operations keep the maps coherent\<close>

text \<open>No counter has reached \<open>m\<close> ids.\<close>

definition ids_upto :: "nat \<Rightarrow> catalog \<Rightarrow> bool" where
  "ids_upto m c \<longleftrightarrow> unat (cg_next_schema_id c) \<le> m \<and> unat (cg_next_table_id c) \<le> m \<and> unat (cg_next_column_id c) \<le> m \<and> unat (cg_next_index_id c) \<le> m"

definition cat_step :: "nat \<Rightarrow> nat \<Rightarrow> catalog \<Rightarrow> bool" where
  "cat_step m k c \<longleftrightarrow> cat_ok c \<and> ids_upto (m + k) c"

lemma next_id:
  fixes n :: u32
  assumes "unat n \<le> m" "m + Suc k < 2 ^ 32"
  shows "n + 1 \<noteq> 0" "unat (n + 1) = Suc (unat n)" "unat (n + 1) \<le> m + Suc k"
proof -
  show u: "unat (n + 1) = Suc (unat n)" using assms by (intro unat_plus_if_fits [THEN trans]) simp_all
  then show "n + 1 \<noteq> 0" by (metis Zero_not_Suc unat_0)
  show "unat (n + 1) \<le> m + Suc k" using u assms(1) by simp
qed

lemma create_schema_step:
  assumes ok: "cat_ok c" "ids_upto m c" "m + 1 < 2 ^ 32" and r: "create_schema n c bp = (c', bp', r)"
  shows "cat_step m 1 c'"
proof (cases "map_of (cg_schema_names c) n")
  case None
  note N = next_id [of "cg_next_schema_id c" m 0]
  have "c' = new_schema n c" using r None persisted_catalog by (auto simp: create_schema_def)
  then show ?thesis using new_schema_ok [OF ok(1) None] N ok(2,3) by (simp add: cat_step_def ids_upto_def new_schema_def Let_def)
qed (use ok r in \<open>simp add: create_schema_def cat_step_def ids_upto_def\<close>)

text \<open>What \<open>create_table\<close> leaves in memory: nothing new, only ids used up, or the table; the table is there also when writing
  the catalog failed afterwards.\<close>

definition table_row :: "schema_id \<Rightarrow> string \<Rightarrow> table_schema \<Rightarrow> catalog \<Rightarrow> page_id \<Rightarrow> table_metadata" where
  "table_row s n ts c i = \<lparr>tm_table_id = ucast (cg_next_table_id c), tm_schema_id = s, tm_name = n, tm_schema = ts, tm_version = 1, tm_first_page_id = i\<rparr>"

definition with_table :: "table_metadata \<Rightarrow> column_id \<Rightarrow> catalog \<Rightarrow> catalog" where
  "with_table t i c = c\<lparr>cg_next_column_id := i, cg_next_table_id := cg_next_table_id c + 1,
     cg_tables := AList.update (cg_next_table_id c) t (cg_tables c),
     cg_table_names := AList.update (tm_schema_id t) (AList.update (tm_name t) (tm_table_id t) (at_key (cg_table_names c) (tm_schema_id t)))
       (AList.update (tm_schema_id t) (at_key (cg_table_names c) (tm_schema_id t)) (cg_table_names c))\<rparr>"

lemma create_table_step:
  assumes ok: "cat_ok c" "ids_upto m c" "m + 1 + length (ts_columns cols) < 2 ^ 32" and r: "create_table s n cols c bp = (c', bp', r)"
  shows "cat_step m (1 + length (ts_columns cols)) c'"
proof (cases "map_of (cg_schemas c) s \<noteq> None")
  case False
  then show ?thesis using ok r by (simp add: create_table_def cat_step_def ids_upto_def)
next
  case sch: True
  let ?names = "at_key (cg_table_names c) s" and ?c = "c\<lparr>cg_table_names := AList.update s (at_key (cg_table_names c) s) (cg_table_names c)\<rparr>"
  have touch: "cat_ok ?c" by (rule touch_names_ok [OF ok(1)])
  obtain i a where as: "assign_columns (ts_columns cols) (cg_next_column_id c) TableSchema_init = (i, a)" by fastforce
  have A: "unat i \<le> unat (cg_next_column_id c) + length (ts_columns cols)" "a = Inr ts \<Longrightarrow> ts_ok ts" for ts
    using assign_columns_ok [OF ts_ok_init _ _ _ as] ok(2,3) by (auto simp: TableSchema_init_def ids_upto_def split: if_splits)
  note N = next_id [of "cg_next_table_id c" m "length (ts_columns cols)"]
  have N': "cg_next_table_id c + 1 \<noteq> 0" "unat (cg_next_table_id c + 1) \<le> m + (1 + length (ts_columns cols))" using N ok(2,3) by (simp_all add: ids_upto_def)
  have up: "ids_upto (m + (1 + length (ts_columns cols))) (?c\<lparr>cg_next_column_id := i\<rparr>)"
    "ids_upto (m + (1 + length (ts_columns cols))) (?c\<lparr>cg_next_column_id := i, cg_next_table_id := cg_next_table_id c + 1\<rparr>)"
    using A(1) N'(2) ok(2) by (simp_all add: ids_upto_def)
  show ?thesis
  proof (cases "map_of ?names n \<noteq> None")
    case True
    then show ?thesis using sch touch r ok(2) by (auto simp: create_table_def Let_def cat_step_def ids_upto_def)
  next
    case new: False
    let ?c1 = "?c\<lparr>cg_next_column_id := i, cg_next_table_id := cg_next_table_id c + 1\<rparr>"
    have c1: "cat_ok ?c1" using skip_key_ok(1) [of "?c\<lparr>cg_next_column_id := i\<rparr>"] touch N'(1) by simp
    show ?thesis
    proof (cases a)
      case (Inl e)
      then have "c' = ?c\<lparr>cg_next_column_id := i\<rparr>" using r sch new as by (auto simp: create_table_def Let_def)
      then show ?thesis using touch up(1) by (simp add: cat_step_def)
    next
      case (Inr ts)
      obtain bp1 x where h: "heap_create bp = (bp1, x)" by fastforce
      show ?thesis
      proof (cases "\<exists>hp. x = Inr (Inr hp)")
        case False
        then have "c' = ?c1" using r sch new as Inr h by (auto simp: create_table_def Let_def split: sum.splits)
        then show ?thesis using c1 up(2) by (simp add: cat_step_def)
      next
        case True
        then obtain hp where x: "x = Inr (Inr hp)" by blast
        let ?t = "table_row s n ts c (th_first_page_id hp)"
        have c': "c' = ?c1\<lparr>cg_tables := AList.update (cg_next_table_id c) ?t (cg_tables ?c1),
          cg_table_names := AList.update (tm_schema_id ?t) (AList.update (tm_name ?t) (tm_table_id ?t) (at_key (cg_table_names ?c1) (tm_schema_id ?t))) (cg_table_names ?c1)\<rparr>"
          using r sch new as Inr h x by (auto simp: create_table_def Let_def table_row_def alist_simps dest!: persisted_catalog)
        have "cat_ok c'" unfolding c'
          by (rule put_table_ok [OF c1])
            (use new sch A(2) [OF Inr] fresh_key(2) [of c] ok(1) next_key(1) [OF N'(1)] in \<open>simp_all add: table_row_def alist_simps cat_ok_def\<close>)
        then show ?thesis using up(2) by (simp add: cat_step_def c' ids_upto_def)
      qed
    qed
  qed
qed

lemma drop_table_step_ok:
  assumes ok: "cat_ok c" "ids_upto m c" and r: "drop_table i c bp = (c', bp', r)"
  shows "cat_step m 0 c'"
proof (cases "map_of (cg_tables c) (ucast i)")
  case None
  then show ?thesis using ok r by (simp add: drop_table_def Let_def cat_step_def)
next
  case (Some t)
  have "c' = without_table (ucast i) t c" using r persisted_catalog by (auto simp: drop_table_step [OF Some])
  then show ?thesis using without_table_ok [OF ok(1) Some] ok(2) by (simp add: cat_step_def ids_upto_def without_table_def)
qed

lemma key_types_columns: "key_types s cids = Inr ts \<Longrightarrow> \<forall>cid\<in>set cids. map_of (ts_id_to_index s) cid \<noteq> None"
  by (induction s cids arbitrary: ts rule: key_types.induct) (auto simp: column_by_id_def split: sum.splits option.splits)

lemma create_index_step:
  assumes ok: "cat_ok c" "ids_upto m c" "m + 1 < 2 ^ 32" and r: "create_index table n cids uniq c bp = (c', bp', r)"
  shows "cat_step m 1 c'"
proof (cases "map_of (cg_tables c) (ucast table)")
  case None
  then show ?thesis using ok r by (simp add: create_index_def cat_step_def ids_upto_def)
next
  case (Some t)
  let ?taken = "list_ex (\<lambda>(_, x). im_schema_id x = tm_schema_id t \<and> im_name x = n) (cg_indexes c)" and ?k = "cg_next_index_id c"
  let ?c = "c\<lparr>cg_next_index_id := ?k + 1\<rparr>"
  note N = next_id [of ?k m 0]
  have N': "?k + 1 \<noteq> 0" "unat (?k + 1) \<le> m + 1" using N ok(2,3) by (simp_all add: ids_upto_def)
  have c1: "cat_ok ?c" by (rule skip_key_ok(2) [OF ok(1) N'(1)])
  have up: "ids_upto (m + 1) ?c" using ok(2) N'(2) by (simp add: ids_upto_def)
  consider (taken) ?taken | (bad) e where "\<not> ?taken" "key_types (tm_schema t) cids = Inl e" | (new) ts where "\<not> ?taken" "key_types (tm_schema t) cids = Inr ts"
    by (metis sum.exhaust)
  then show ?thesis
  proof cases
    case taken
    then show ?thesis using ok Some r by (simp add: create_index_def cat_step_def ids_upto_def)
  next
    case bad
    then have "c' = ?c" using Some r by (simp add: create_index_def Let_def)
    then show ?thesis using c1 up by (simp add: cat_step_def)
  next
    case new
    let ?x = "\<lparr>im_index_id = ucast ?k, im_schema_id = tm_schema_id t, im_table_id = table, im_name = n, im_indexed_columns = cids,
      im_root_page_id = invalid_value, im_tree_height = 0, im_is_unique = uniq, im_is_primary_key = False\<rparr>"
    have c': "c' = ?c\<lparr>cg_indexes := AList.update ?k ?x (cg_indexes ?c),
      cg_table_indexes := AList.update (ucast (im_table_id ?x)) (at_key (cg_table_indexes ?c) (ucast (im_table_id ?x)) @ [im_index_id ?x]) (cg_table_indexes ?c)\<rparr>"
      using Some new r by (auto simp: create_index_def Let_def dest!: persisted_catalog)
    have "im_name y \<noteq> n" if "map_of (cg_indexes c) j = Some y" "im_schema_id y = tm_schema_id t" for j y
      using new(1) map_of_SomeD [OF that(1)] that(2) by (auto simp: list_ex_iff)
    then have "cat_ok c'" unfolding c'
      by (intro put_index_ok [OF c1])
        (use Some fresh_key(3) [of c] ok(1) next_key(1) [OF N'(1)] key_types_columns [OF new(2)] in \<open>simp_all add: cat_ok_def\<close>)
    then show ?thesis using up by (simp add: cat_step_def c' ids_upto_def)
  qed
qed

section \<open>Runs\<close>

datatype cat_op =
    Create_Schema string
  | Create_Table schema_id string table_schema
  | Drop_Table table_id
  | Create_Index table_id string "column_id list" bool
  | Flush_Catalog

text \<open>An operation on a catalog and its pool, whatever it returns or throws.\<close>

fun run_op :: "cat_op \<Rightarrow> catalog \<times> buffer_pool \<Rightarrow> catalog \<times> buffer_pool" where
  "run_op (Create_Schema n) (c, bp) = (case create_schema n c bp of (c, bp, _) \<Rightarrow> (c, bp))"
| "run_op (Create_Table s n cols) (c, bp) = (case create_table s n cols c bp of (c, bp, _) \<Rightarrow> (c, bp))"
| "run_op (Drop_Table i) (c, bp) = (case drop_table i c bp of (c, bp, _) \<Rightarrow> (c, bp))"
| "run_op (Create_Index i n cids uniq) (c, bp) = (case create_index i n cids uniq c bp of (c, bp, _) \<Rightarrow> (c, bp))"
| "run_op Flush_Catalog (c, bp) = (case catalog_flush c bp of (c, bp, _) \<Rightarrow> (c, bp))"

text \<open>How many ids an operation may take from one counter.\<close>

fun op_ids :: "cat_op \<Rightarrow> nat" where
  "op_ids (Create_Schema n) = 1"
| "op_ids (Create_Table s n cols) = 1 + length (ts_columns cols)"
| "op_ids (Drop_Table i) = 0"
| "op_ids (Create_Index i n cids uniq) = 1"
| "op_ids Flush_Catalog = 0"

definition start_catalog :: "buffer_pool \<Rightarrow> catalog \<times> buffer_pool" where
  "start_catalog bp = (case init_new invalid_value Catalog_init bp of (_, c, bp, _) \<Rightarrow> (c, bp))"

lemma run_op_step:
  assumes "cat_ok (fst st)" "ids_upto m (fst st)" "m + op_ids p < 2 ^ 32"
  shows "cat_step m (op_ids p) (fst (run_op p st))"
proof -
  obtain c bp where st: "st = (c, bp)" by fastforce
  show ?thesis
  proof (cases p)
    case (Create_Schema n)
    then show ?thesis using assms create_schema_step [of c m n bp] by (simp add: st split: prod.splits)
  next
    case (Create_Table s n cols)
    then show ?thesis using assms create_table_step [of c m cols s n bp] by (simp add: st split: prod.splits)
  next
    case (Drop_Table i)
    then show ?thesis using assms drop_table_step_ok [of c m i bp] by (simp add: st split: prod.splits)
  next
    case (Create_Index i n cids uniq)
    then show ?thesis using assms create_index_step [of c m i n cids uniq bp] by (simp add: st split: prod.splits)
  next
    case Flush_Catalog
    then show ?thesis using assms persisted_catalog by (fastforce simp: st catalog_flush_def cat_step_def split: prod.splits)
  qed
qed

lemma run_ops_step:
  assumes "cat_ok (fst st)" "ids_upto m (fst st)" "m + sum_list (map op_ids ops) < 2 ^ 32"
  shows "cat_step m (sum_list (map op_ids ops)) (fst (fold run_op ops st))"
  using assms
proof (induction ops arbitrary: st m)
  case Nil
  then show ?case by (simp add: cat_step_def)
next
  case (Cons p ops)
  have "cat_step m (op_ids p) (fst (run_op p st))" using run_op_step [OF Cons.prems(1,2)] Cons.prems(3) by simp
  then show ?case using Cons.IH [of "run_op p st" "m + op_ids p"] Cons.prems(3) by (simp add: cat_step_def add.assoc)
qed

lemma start_catalog_ok: "cat_ok (fst (start_catalog bp))" "ids_upto 2 (fst (start_catalog bp))"
proof -
  have "cat_ok (new_schema ''main'' (Catalog_init\<lparr>cg_root := i\<rparr>))" for i
    by (rule new_schema_ok) (simp_all add: cat_ok_init, simp_all add: Catalog_init_def)
  then show "cat_ok (fst (start_catalog bp))" "ids_upto 2 (fst (start_catalog bp))"
    using cat_ok_init unfolding start_catalog_def init_new_def Let_def
    by (auto simp: ids_upto_def new_schema_def Catalog_init_def Let_def split: prod.splits sum.splits dest!: persisted_catalog)
qed

lemma cat_ok_validate: "cat_ok c \<Longrightarrow> catalog_validate c = Inr ()"
proof -
  assume ok: "cat_ok c"
  have "\<exists>t. map_of (cg_tables c) (ucast (im_table_id x)) = Some t \<and> (\<forall>cid\<in>set (im_indexed_columns x). map_of (ts_id_to_index (tm_schema t)) cid \<noteq> None)"
    if "(k, x) \<in> set (cg_indexes c)" for k x
    using indexes_okD(1) [of c k x] that ok by (auto simp: cat_ok_def keys_ok_def)
  then show ?thesis by (fastforce simp: catalog_validate_def list_ex_iff column_by_id_def split: option.splits)
qed

lemma find_table_at: "find_table s n c = (case map_of (at_key (cg_table_names c) s) n of None \<Rightarrow> Inr (Inl NotFound)
    | Some i \<Rightarrow> (case map_of (cg_tables c) (ucast i) of None \<Rightarrow> Inl (out_of_range ''_Map_base::at'') | Some tm \<Rightarrow> Inr (Inr tm)))"
  by (simp add: find_table_def at_key_def split: option.splits)

lemma cat_ok_find:
  assumes "cat_ok c"
  shows "find_table s n c = Inr (Inr t) \<longleftrightarrow> find_table_by_id (tm_table_id t) c = Inr t \<and> tm_schema_id t = s \<and> tm_name t = n"
    "find_table s n c \<noteq> Inl e" "find_schema nm c = Inr (Inr sm) \<longleftrightarrow> map_of (cg_schemas c) (sm_schema_id sm) = Some sm \<and> sm_name sm = nm" "find_schema nm c \<noteq> Inl e"
proof -
  have T: "tables_ok c" and S: "schemas_ok c" using assms by (simp_all add: cat_ok_def)
  show "find_table s n c = Inr (Inr t) \<longleftrightarrow> find_table_by_id (tm_table_id t) c = Inr t \<and> tm_schema_id t = s \<and> tm_name t = n"
  proof
    assume "find_table s n c = Inr (Inr t)"
    then obtain i where i: "map_of (at_key (cg_table_names c) s) n = Some i" "map_of (cg_tables c) (ucast i) = Some t"
      by (auto simp: find_table_at split: option.splits)
    then show "find_table_by_id (tm_table_id t) c = Inr t \<and> tm_schema_id t = s \<and> tm_name t = n"
      using tables_okD(1) [OF T i(2)] tables_okD(2) [OF T i(1)] by (simp add: find_table_by_id_def)
  next
    assume "find_table_by_id (tm_table_id t) c = Inr t \<and> tm_schema_id t = s \<and> tm_name t = n"
    then have i: "map_of (cg_tables c) (ucast (tm_table_id t)) = Some t" "tm_schema_id t = s" "tm_name t = n"
      by (simp_all add: find_table_by_id_def split: option.splits)
    then show "find_table s n c = Inr (Inr t)" using tables_okD(1) [OF T i(1)] by (simp add: find_table_at)
  qed
  show "find_table s n c \<noteq> Inl e" unfolding find_table_at using tables_okD(2) [OF T, of s n] by (auto split: option.splits)
  show "find_schema nm c = Inr (Inr sm) \<longleftrightarrow> map_of (cg_schemas c) (sm_schema_id sm) = Some sm \<and> sm_name sm = nm"
  proof
    assume "find_schema nm c = Inr (Inr sm)"
    then obtain i where i: "map_of (cg_schema_names c) nm = Some i" "map_of (cg_schemas c) i = Some sm" by (auto simp: find_schema_def split: option.splits)
    then show "map_of (cg_schemas c) (sm_schema_id sm) = Some sm \<and> sm_name sm = nm" using schemas_okD(1) [OF S i(2)] schemas_okD(2) [OF S i(1)] by simp
  next
    assume "map_of (cg_schemas c) (sm_schema_id sm) = Some sm \<and> sm_name sm = nm"
    then show "find_schema nm c = Inr (Inr sm)" using schemas_okD(1) [OF S, of "sm_schema_id sm" sm] by (simp add: find_schema_def)
  qed
  show "find_schema nm c \<noteq> Inl e" using schemas_okD(2) [OF S, of nm] by (auto simp: find_schema_def split: option.splits)
qed

section \<open>The catalog page\<close>

lemma put_counters_length: "80 \<le> length d \<Longrightarrow> length (put_counters c d) = length d"
  by (simp add: put_counters_def PageHeader_SIZE_def)

definition same_counters :: "catalog \<Rightarrow> catalog \<Rightarrow> bool" where
  "same_counters c c' \<longleftrightarrow> cg_next_schema_id c' = cg_next_schema_id c \<and> cg_next_table_id c' = cg_next_table_id c \<and>
     cg_next_column_id c' = cg_next_column_id c \<and> cg_next_index_id c' = cg_next_index_id c \<and> cg_next_constraint_id c' = cg_next_constraint_id c"

lemma counters_roundtrip:
  assumes "80 \<le> length d"
  shows "same_counters c (get_counters (put_counters c d) c0)"
proof -
  have p: "80 \<le> length d \<Longrightarrow> off + 4 \<le> 80 \<Longrightarrow> i + 4 \<le> off \<or> off + 4 \<le> i \<Longrightarrow> i + 4 \<le> 80 \<Longrightarrow> get32 (put32 off v d) i = get32 d i" for off i v d
    by (simp add: put32_def get_patch_other)
  show ?thesis using assms by (simp add: same_counters_def get_counters_def put_counters_def PageHeader_SIZE_def p)
qed

definition counted :: "catalog \<Rightarrow> table_page \<Rightarrow> table_page" where
  "counted c t = \<lparr>tp_page = (tp_page t)\<lparr>pg_data := put_counters c (tp_data t)\<rparr>, tp_frame_dirty = True\<rparr>"

lemma counted_put:
  assumes "bp_ok bp" "mapped bp i f"
  shows "handle_mark_dirty f (handle_modify f (put_counters c) bp) = put_page f (counted c (page_at f bp)) bp"
proof -
  have "unat f < length (bp_frames bp)"
    using index_okD(3) [of bp i f] assms core_okD(1) [of bp] by (simp add: bp_ok_def mapped_def)
  then show ?thesis
    by (simp add: handle_mark_dirty_def handle_modify_def put_page_def counted_def page_at_def set_frame_def tp_data_def Let_def)
qed

lemma counted_same: "80 \<le> length (tp_data t) \<Longrightarrow> same_page t (counted c t)"
  by (simp add: same_page_def counted_def tp_page_id_def tp_data_def put_counters_length)

text \<open>Writing the catalog changes only its root page, which then has the counters.\<close>

lemma catalog_save_ok:
  assumes ok: "bp_ok bp" and pins: "\<And>g. pool_pins bp g + 1 \<noteq> 0" and rm: "pool_room U bp" "cg_root c \<in> U"
    and r: "catalog_save c bp = (bp', Inr r)"
  shows "bp_ok bp'" "pool_pins bp' = pool_pins bp" "pool_room U bp'" "same_records (U - {cg_root c}) bp bp'"
    "r = Inr () \<Longrightarrow> \<exists>d. pool_view bp' (cg_root c) = Some d \<and> 80 \<le> length d \<and> (\<forall>c0. same_counters c (get_counters d c0))"
proof -
  obtain bp1 x where f: "fetch_page (cg_root c) bp = (bp1, x)" by fastforce
  have "bp_ok bp' \<and> pool_pins bp' = pool_pins bp \<and> pool_room U bp' \<and> same_records (U - {cg_root c}) bp bp' \<and>
    (r = Inr () \<longrightarrow> (\<exists>d. pool_view bp' (cg_root c) = Some d \<and> 80 \<le> length d \<and> (\<forall>c0. same_counters c (get_counters d c0))))"
  proof (cases x)
    case (Inl e)
    then show ?thesis using r f by (simp add: catalog_save_def)
  next
    case (Inr y)
    show ?thesis
    proof (cases y)
      case (Inl s)
      then have e: "bp' = bp1" "r = Inl s" using r f Inr by (simp_all add: catalog_save_def)
      show ?thesis
        using fetch_page_ok(1,2) [OF ok f [unfolded Inr Inl]] pool_room_fetch(1) [OF rm f] same_view_records e by auto
    next
      case h: (Inr g)
      note F = fetch_page_ok(1,3) [OF ok f [unfolded Inr h]]
      have m: "bp_ok bp1" "mapped bp1 (cg_root c) g" using F by blast+
      have len: "80 \<le> length (tp_data (page_at g bp1))"
        using mapped_length(1) [OF m] pool_room_fetch(1) [OF rm f] by (simp add: pool_room_def)
      let ?t = "counted c (page_at g bp1)"
      have e: "bp' = handle_unpin g (put_page g ?t bp1)" "r = Inr ()" using r f Inr h counted_put [OF m] by (simp_all add: catalog_save_def)
      note P = page_step_ok [OF ok pins f [unfolded Inr h] counted_same [OF len, of c], folded e(1)]
      have "same_records (U - {cg_root c}) bp bp'" unfolding records_step_def using P(4) table_page_body by (metis Diff_iff singletonI)
      moreover have "same_counters c (get_counters (tp_data ?t) c0)" "80 \<le> length (tp_data ?t)" for c0
        using counters_roundtrip [OF len, of c] put_counters_length [OF len, of c] len by (simp_all add: counted_def tp_data_def)
      ultimately show ?thesis using P(1-3) pool_room_fetch(2) [OF rm f, of g ?t, folded e(1)] by blast
    qed
  qed
  then show "bp_ok bp'" "pool_pins bp' = pool_pins bp" "pool_room U bp'" "same_records (U - {cg_root c}) bp bp'"
    "r = Inr () \<Longrightarrow> \<exists>d. pool_view bp' (cg_root c) = Some d \<and> 80 \<le> length d \<and> (\<forall>c0. same_counters c (get_counters d c0))" by blast+
qed

lemma pool_room_sub: "pool_room U bp \<Longrightarrow> V \<subseteq> U \<Longrightarrow> pool_room V bp"
  unfolding pool_room_def alloc_inv_def by blast

lemma create_table_success:
  assumes "create_table s n cols c bp = (c', bp', Inr (Inr i))"
  obtains k ts bp1 h where "map_of (cg_schemas c) s \<noteq> None" "map_of (at_key (cg_table_names c) s) n = None"
    "assign_columns (ts_columns cols) (cg_next_column_id c) TableSchema_init = (k, Inr ts)" "heap_create bp = (bp1, Inr (Inr h))"
    "i = ucast (cg_next_table_id c)" "c' = with_table (table_row s n ts c (th_first_page_id h)) k c" "catalog_save c' bp1 = (bp', Inr (Inr ()))"
proof -
  obtain k a where as: "assign_columns (ts_columns cols) (cg_next_column_id c) TableSchema_init = (k, a)" by fastforce
  obtain ts where a: "a = Inr ts" using assms as by (auto simp: create_table_def Let_def split: if_splits sum.splits)
  obtain bp1 x where h: "heap_create bp = (bp1, x)" by fastforce
  obtain hp where x: "x = Inr (Inr hp)" using assms as a h by (auto simp: create_table_def Let_def split: if_splits sum.splits)
  have "map_of (cg_schemas c) s \<noteq> None" "map_of (at_key (cg_table_names c) s) n = None"
    and p: "persisted (ucast (cg_next_table_id c)) (with_table (table_row s n ts c (th_first_page_id hp)) k c) bp1 = (c', bp', Inr (Inr i))"
    using assms as a h x by (auto simp: create_table_def Let_def table_row_def with_table_def alist_simps split: if_splits)
  moreover have "i = ucast (cg_next_table_id c)" "c' = with_table (table_row s n ts c (th_first_page_id hp)) k c" "catalog_save c' bp1 = (bp', Inr (Inr ()))"
    using p by (auto simp: persisted_def split: prod.splits sum.splits)
  ultimately show ?thesis using as a h x that by blast
qed

lemma find_with_table:
  assumes ok: "cat_ok c" and t: "tm_table_id t = ucast (cg_next_table_id c)"
  shows "find_table s n (with_table t k c) = (if s = tm_schema_id t \<and> n = tm_name t then Inr (Inr t) else find_table s n c)"
proof -
  have T: "tables_ok c" using ok by (simp add: cat_ok_def)
  have "ucast i \<noteq> cg_next_table_id c" if "map_of (at_key (cg_table_names c) s) n = Some i" for i
    using tables_okD(2) [OF T that] fresh_key(2) [OF T] by auto
  then show ?thesis by (auto simp: find_table_at with_table_def alist_simps t split: option.split)
qed

lemma find_without_table:
  assumes ok: "cat_ok c" and t: "map_of (cg_tables c) k = Some t"
  shows "find_table s n (without_table k t c) = (if s = tm_schema_id t \<and> n = tm_name t then Inr (Inl NotFound) else find_table s n c)"
proof -
  have T: "tables_ok c" using ok by (simp add: cat_ok_def)
  have "ucast i \<noteq> k" if "map_of (at_key (cg_table_names c) s) n = Some i" "\<not> (s = tm_schema_id t \<and> n = tm_name t)" for i
    using tables_okD(2) [OF T that(1)] t that(2) by auto
  then show ?thesis by (auto simp: find_table_at without_table_def alist_simps split: option.split)
qed

section \<open>Properties\<close>

text \<open>C14. After any sequence of operations on a new catalog, whatever they return or throw, the maps of the catalog agree: \<open>validate\<close>
  finds no dangling index and no index on a missing column, \<open>find_table\<close> and \<open>find_schema\<close> never throw, and looking a table up by
  name or by id gives the same row. The ids of one kind must not run through all 32 bits.\<close>
theorem catalog_run_coherent:
  assumes "sum_list (map op_ids ops) < 2 ^ 32 - 2" "fold run_op ops (start_catalog bp) = (c, bp')"
  shows "catalog_validate c = Inr () \<and> (\<forall>s n e. find_table s n c \<noteq> Inl e) \<and> (\<forall>n e. find_schema n c \<noteq> Inl e) \<and>
    (\<forall>s n t. find_table s n c = Inr (Inr t) \<longleftrightarrow> find_table_by_id (tm_table_id t) c = Inr t \<and> tm_schema_id t = s \<and> tm_name t = n)"
proof -
  have "cat_ok c" using run_ops_step [OF start_catalog_ok, of ops bp] assms by (simp add: cat_step_def)
  then show ?thesis using cat_ok_validate cat_ok_find by blast
qed



text \<open>C16. Dropping a table takes exactly its name out of the map from names to tables and removes its indexes: afterwards the name and the
  id are unknown, every other table and every index of another table is still there, and the name can be used again.\<close>
theorem drop_table_refines:
  assumes ok: "cat_ok c" and t: "find_table_by_id i c = Inr t" and r: "drop_table i c bp = (c', bp', r)"
  shows "cat_ok c' \<and> find_table_by_id i c' = Inl NotFound \<and>
    (\<forall>s n. find_table s n c' = (if s = tm_schema_id t \<and> n = tm_name t then Inr (Inl NotFound) else find_table s n c)) \<and>
    (\<forall>k. map_of (cg_indexes c') k = (case map_of (cg_indexes c) k of None \<Rightarrow> None
       | Some x \<Rightarrow> if (ucast (im_table_id x) :: u32) = ucast i then None else Some x))"
proof -
  have I: "indexes_ok c" using ok by (simp add: cat_ok_def)
  have k: "map_of (cg_tables c) (ucast i) = Some t" using t by (simp add: find_table_by_id_def split: option.splits)
  have c': "c' = without_table (ucast i) t c" using r persisted_catalog by (auto simp: drop_table_step [OF k])
  have "j \<in> ucast ` set (at_key (cg_table_indexes c) (ucast i)) \<longleftrightarrow> (ucast (im_table_id x) :: u32) = ucast i" if "map_of (cg_indexes c) j = Some x" for j x
    by (rule table_indexes_mine [OF I that])
  then have "map_of (cg_indexes c') k = (case map_of (cg_indexes c) k of None \<Rightarrow> None
       | Some x \<Rightarrow> if (ucast (im_table_id x) :: u32) = ucast i then None else Some x)" for k
    by (auto simp: c' without_table_def alist_simps split: option.split)
  moreover have "find_table_by_id i c' = Inl NotFound" by (simp add: c' find_table_by_id_def without_table_def alist_simps)
  ultimately show ?thesis using without_table_ok [OF ok k] find_without_table [OF ok k] by (simp add: c')
qed

section \<open>Examples\<close>

text \<open>A pool of two frames with page 1, released, and page 2, the root of the catalog.\<close>

definition catalog_pool :: buffer_pool where
  "catalog_pool = \<lparr>bp_pool_size = 2,
     bp_frames = [\<lparr>fr_page_id = 1, fr_valid = True, fr_dirty = True, fr_pin_count = 0, fr_page = new_page 1 100\<rparr>,
       \<lparr>fr_page_id = 2, fr_valid = True, fr_dirty = True, fr_pin_count = 0, fr_page = new_page 2 100\<rparr>],
     bp_replacer = ClockReplacer_init 2, bp_page_table = [(1, 0), (2, 1)], bp_free_list = [], bp_disk = (example_disk 3)\<lparr>dk_free := [1]\<rparr>,
     bp_wal = None, bp_hits = 0, bp_misses = 0, bp_evictions = 0, bp_flushes = 0\<rparr>"

lemma catalog_pool_ok: "bp_ok catalog_pool" "pool_room {2} catalog_pool" "pool_pins catalog_pool g = 0" "mapped catalog_pool 1 0" "mapped catalog_pool 2 1"
proof -
  have v: "is_valid_id (1 :: page_id)" "is_valid_id (2 :: page_id)" by (rule is_valid_id_less; simp)+
  have f01: "f = 0 \<or> f = 1" if "unat f < 2" for f :: frame_id
  proof -
    have "unat f = unat (0 :: frame_id) \<or> unat f = unat (1 :: frame_id)" using that by auto
    then show ?thesis by (simp only: word_unat_eq_iff [symmetric])
  qed
  have dk: "disk_ok (bp_disk catalog_pool)" "dk_page_size (bp_disk catalog_pool) = 100" by (simp_all add: catalog_pool_def disk_ok_def example_disk_def)
  have sel: "bp_pool_size catalog_pool = 2" "length (bp_frames catalog_pool) = 2" "bp_replacer catalog_pool = ClockReplacer_init 2"
    "bp_page_table catalog_pool = [(1, 0), (2, 1)]" "bp_free_list catalog_pool = []" by (simp_all add: catalog_pool_def)
  have fr: "frame_of catalog_pool 0 = \<lparr>fr_page_id = 1, fr_valid = True, fr_dirty = True, fr_pin_count = 0, fr_page = new_page 1 100\<rparr>"
    "frame_of catalog_pool 1 = \<lparr>fr_page_id = 2, fr_valid = True, fr_dirty = True, fr_pin_count = 0, fr_page = new_page 2 100\<rparr>"
    by (simp_all add: catalog_pool_def)
  have ad: "addressable (bp_disk catalog_pool) 1" "addressable (bp_disk catalog_pool) 2" using dk(2) v by (simp_all add: addressable_def)
  have fo: "frame_ok (bp_disk catalog_pool) (frame_of catalog_pool f) \<and> (fr_page_id (frame_of catalog_pool f), f) \<in> {(1, 0), (2, 1)}" if "unat f < 2" for f
    using f01 [OF that] fr ad dk(2) by (elim disjE) (simp_all add: frame_ok_def new_page_def)
  have "core_ok catalog_pool"
  proof (rule core_okI, unfold sel)
    show "f = g" if "unat f < 2" "unat g < 2" "fr_page_id (frame_of catalog_pool f) = fr_page_id (frame_of catalog_pool g)" for f g
      using fo [OF that(1)] fo [OF that(2)] that(3) by auto
  qed (use dk(1) fo clock_ok_init [of 2] in \<open>simp_all add: ClockReplacer_init_def\<close>)
  moreover have "index_ok catalog_pool"
  proof (rule index_okI, unfold sel)
    show "unat f < 2 \<and> fr_valid (frame_of catalog_pool f) \<and> fr_page_id (frame_of catalog_pool f) = j \<and> f \<notin> set []"
      if "(j, f) \<in> set [(1, 0), (2, 1)]" for j f using that fr by auto
    show "(fr_page_id (frame_of catalog_pool f), f) \<in> set [(1, 0), (2, 1)] \<or> [] = [f] \<and> fr_page_id (frame_of catalog_pool f) \<notin> fst ` set [(1, 0), (2, 1)]"
      if "unat f < 2" for f using fo [OF that] by simp
  qed (use candidates_init [of 2] in simp_all)
  ultimately show "bp_ok catalog_pool" by (simp add: bp_ok_def)
  show "pool_pins catalog_pool g = 0" using fr f01 [of g] by (auto simp: pool_pins_def sel)
  show "pool_room {2} catalog_pool"
    using dk(2) by (auto simp: pool_room_def alloc_inv_def below_def) (auto simp: catalog_pool_def example_disk_def)
  show "mapped catalog_pool 1 0" "mapped catalog_pool 2 1" by (simp_all add: mapped_def sel)
qed

definition example_catalog :: catalog where
  "example_catalog = new_schema ''main'' (Catalog_init\<lparr>cg_root := 2\<rparr>)"

definition example_columns :: table_schema where
  "example_columns = \<lparr>ts_columns = [Column_init 0 ''a'' Integer_t 0 False, Column_init 0 ''b'' VarChar_t 1 True], ts_id_to_index = [], ts_name_to_index = []\<rparr>"

lemma example_catalog_ok: "cat_ok example_catalog" "ids_upto 2 example_catalog" "cg_root example_catalog = 2"
proof -
  show "cat_ok example_catalog" unfolding example_catalog_def by (rule new_schema_ok) (simp_all add: cat_ok_init, simp_all add: Catalog_init_def)
qed (simp_all add: example_catalog_def ids_upto_def new_schema_def Catalog_init_def Let_def)

lemma page_table_kept [simp]:
  "bp_page_table (put_page f t bp) = bp_page_table bp" "bp_page_table (handle_unpin f bp) = bp_page_table bp"
  "bp_page_table (handle_mark_dirty f bp) = bp_page_table bp" "bp_page_table (handle_modify f g bp) = bp_page_table bp"
  by (simp_all add: put_page_def handle_unpin_def unpin_page_def on_replacer_def set_frame_def handle_mark_dirty_def handle_modify_def Let_def)

lemma fetch_known:
  assumes "map_of (bp_page_table bp) i = Some f"
  obtains bp' where "fetch_page i bp = (bp', Inr (Inr f))" "bp_page_table bp' = bp_page_table bp"
  using assms by (simp add: fetch_page_def on_replacer_def set_frame_def)

lemma save_cached:
  assumes "map_of (bp_page_table bp) (cg_root c) = Some f"
  obtains bp' where "catalog_save c bp = (bp', Inr (Inr ()))" "bp_page_table bp' = bp_page_table bp"
proof -
  obtain bp1 where "fetch_page (cg_root c) bp = (bp1, Inr (Inr f))" "bp_page_table bp1 = bp_page_table bp" by (rule fetch_known [OF assms])
  then show ?thesis using that by (simp add: catalog_save_def)
qed

theorem catalog_run_coherent_witness:
  "catalog_validate (fst (fold run_op [Create_Schema ''s'', Create_Table 1 ''t'' example_columns, Create_Index 1 ''i'' [1] True, Drop_Table 1]
     (start_catalog catalog_pool))) = Inr ()"
proof -
  let ?ops = "[Create_Schema ''s'', Create_Table 1 ''t'' example_columns, Create_Index 1 ''i'' [1] True, Drop_Table 1]"
  have "sum_list (map op_ids ?ops) < 2 ^ 32 - 2" by (simp add: example_columns_def)
  from catalog_run_coherent [OF this, of catalog_pool "fst (fold run_op ?ops (start_catalog catalog_pool))" "snd (fold run_op ?ops (start_catalog catalog_pool))"]
  show ?thesis by simp
qed

lemma example_create_table:
  obtains c' bp' where "create_table 1 ''t'' example_columns example_catalog catalog_pool = (c', bp', Inr (Inr 1))"
    "map_of (cg_tables c') 1 \<noteq> None" "cat_ok c'"
proof -
  have al: "allocate_page (bp_disk catalog_pool) = ((bp_disk catalog_pool)\<lparr>dk_free := []\<rparr>, Inr 1)"
    by (simp add: allocate_page_def free_allocate_def catalog_pool_def example_disk_def)
  let ?bp = "catalog_pool\<lparr>bp_disk := (bp_disk catalog_pool)\<lparr>dk_free := []\<rparr>\<rparr>"
  have "map_of (bp_page_table ?bp) 1 = Some 0" by (simp add: catalog_pool_def)
  then obtain bp0 where "fetch_page 1 ?bp = (bp0, Inr (Inr 0))" "bp_page_table bp0 = bp_page_table ?bp" by (rule fetch_known)
  then obtain bp1 h where h: "heap_create catalog_pool = (bp1, Inr (Inr h))" and pt: "bp_page_table bp1 = bp_page_table ?bp"
    by (simp add: heap_create_def pool_allocate_page_def al Let_def)
  then have pt: "map_of (bp_page_table bp1) 2 = Some 1" by (simp add: catalog_pool_def)
  obtain k ts where as: "assign_columns (ts_columns example_columns) (cg_next_column_id example_catalog) TableSchema_init = (k, Inr ts)"
    by (simp add: example_columns_def example_catalog_def new_schema_def Catalog_init_def TableSchema_init_def ts_add_column_def Column_init_def
      fresh_column_def DefaultValue_init_def Let_def)
  define c' where "c' = with_table (table_row 1 ''t'' ts example_catalog (th_first_page_id h)) k example_catalog"
  have rt: "cg_root c' = 2" using example_catalog_ok(3) by (simp add: c'_def with_table_def)
  obtain bp' where sv: "catalog_save c' bp1 = (bp', Inr (Inr ()))" using save_cached [of bp1 c' 1] pt rt by auto
  have i: "cg_next_table_id example_catalog = 1" "map_of (cg_schemas example_catalog) 1 \<noteq> None" "cg_table_names example_catalog = []"
    by (simp_all add: example_catalog_def new_schema_def Catalog_init_def Let_def)
  have r: "create_table 1 ''t'' example_columns example_catalog catalog_pool = (c', bp', Inr (Inr 1))"
    using as h sv i unfolding create_table_def Let_def c'_def
    by (simp add: at_key_def persisted_def table_row_def with_table_def)
  have "cat_ok c'" using create_table_step [OF example_catalog_ok(1,2) _ r] by (simp add: example_columns_def cat_step_def)
  moreover have "map_of (cg_tables c') 1 \<noteq> None" by (simp add: c'_def with_table_def i alist_simps)
  ultimately show ?thesis using r that by blast
qed


theorem drop_table_refines_witness:
  "\<exists>c bp c' bp' r. create_table 1 ''t'' example_columns example_catalog catalog_pool = (c, bp, Inr (Inr 1)) \<and> drop_table 1 c bp = (c', bp', r) \<and>
     find_table_by_id 1 c \<noteq> Inl NotFound \<and> find_table_by_id 1 c' = Inl NotFound"
proof -
  obtain c bp where r: "create_table 1 ''t'' example_columns example_catalog catalog_pool = (c, bp, Inr (Inr 1))" "map_of (cg_tables c) 1 \<noteq> None" "cat_ok c"
    using example_create_table by blast
  obtain t where t: "find_table_by_id 1 c = Inr t" using r(2) by (auto simp: find_table_by_id_def)
  obtain c' bp' r' where d: "drop_table 1 c bp = (c', bp', r')" by (metis prod_cases3)
  show ?thesis using drop_table_refines [OF r(3) t d] r(1) t d by auto
qed


end
