(* ===== verification/Sql_Lexer.thy ===== *)
theory Sql_Lexer
  imports Std_Text
begin

text \<open>
  \<open>source_location\<close>, \<open>token_type\<close>, \<open>token\<close>, \<open>sql_error\<close> and \<open>lexer\<close>: SQL text to tokens. A
  position in a text is bounded by its length, so \<open>std::size_t\<close> is \<open>nat\<close>. \<open>isdigit\<close>, \<open>isalpha\<close>, \<open>isalnum\<close>
  and \<open>toupper\<close> are those of the C locale. The loops are functions with termination proofs: every
  iteration advances.
\<close>

section \<open>Tokens\<close>

record source_location =
  sl_offset :: nat
  sl_line :: nat
  sl_column :: nat

definition SourceLocation_init :: source_location where
  "SourceLocation_init = \<lparr>sl_offset = 0, sl_line = 1, sl_column = 1\<rparr>"

definition location_to_string :: "source_location \<Rightarrow> string" where
  "location_to_string l = ''line '' @ decimal (sl_line l) @ '', column '' @ decimal (sl_column l)"

datatype (plugins only:) token_type =
    TK_Eof | TK_Invalid
  | TK_Identifier | TK_QuotedIdentifier | TK_IntegerLiteral | TK_FloatLiteral | TK_StringLiteral | TK_BlobLiteral | TK_Parameter
  | TK_Null | TK_True | TK_False
  | TK_And | TK_Or | TK_Not | TK_Is | TK_In | TK_Between | TK_Like | TK_Glob | TK_Regexp
  | TK_As | TK_Distinct | TK_All
  | TK_Select | TK_From | TK_Where | TK_Group | TK_By | TK_Having | TK_Order | TK_Limit | TK_Offset
  | TK_Asc | TK_Desc | TK_Nulls | TK_First | TK_Last
  | TK_Join | TK_Inner | TK_Left | TK_Right | TK_Full | TK_Cross | TK_Outer | TK_On | TK_Using
  | TK_Union | TK_Intersect | TK_Except
  | TK_Insert | TK_Into | TK_Values
  | TK_Update | TK_Set
  | TK_Delete
  | TK_Create | TK_Alter | TK_Drop
  | TK_Table | TK_Index | TK_View | TK_Schema
  | TK_Primary | TK_Key | TK_Unique | TK_References | TK_Check | TK_Default | TK_Constraint
  | TK_Begin | TK_Commit | TK_Rollback
  | TK_Returning
  | TK_Case | TK_When | TK_Then | TK_Else | TK_End
  | TK_Cast | TK_Exists
  | TK_Count | TK_Sum | TK_Avg | TK_Min | TK_Max
  | TK_Plus | TK_Minus | TK_Star | TK_Slash | TK_Percent
  | TK_Equal | TK_NotEqual | TK_Less | TK_LessEqual | TK_Greater | TK_GreaterEqual
  | TK_LeftParen | TK_RightParen | TK_LeftBracket | TK_RightBracket
  | TK_Comma | TK_Dot | TK_Semicolon | TK_Colon | TK_DoubleColon
  | TK_Concat

definition token_type_to_string :: "token_type \<Rightarrow> string" where
  "token_type_to_string t =
     (if t = TK_Eof then ''EOF'' else if t = TK_Identifier then ''Identifier'' else if t = TK_Select then ''SELECT''
      else if t = TK_From then ''FROM'' else if t = TK_Where then ''WHERE'' else ''Unknown Token'')"

record token =
  tk_type :: token_type
  tk_lexeme :: string
  tk_location :: source_location

definition Token_init :: "token_type \<Rightarrow> string \<Rightarrow> source_location \<Rightarrow> token" where
  "Token_init t l loc = \<lparr>tk_type = t, tk_lexeme = l, tk_location = loc\<rparr>"

text \<open>The location and the message of an error are dropped.\<close>

definition make_error :: "status \<Rightarrow> source_location \<Rightarrow> string \<Rightarrow> status" where
  "make_error s loc msg = InvalidArgument"

section \<open>Characters and keywords\<close>

definition is_alpha :: "char \<Rightarrow> bool" where
  "is_alpha c \<longleftrightarrow> (65 \<le> (of_char c :: nat) \<and> (of_char c :: nat) \<le> 90) \<or> (97 \<le> (of_char c :: nat) \<and> (of_char c :: nat) \<le> 122)"

definition is_alnum :: "char \<Rightarrow> bool" where
  "is_alnum c \<longleftrightarrow> is_alpha c \<or> is_digit c"

definition upper_char :: "char \<Rightarrow> char" where
  "upper_char c = (if 97 \<le> (of_char c :: nat) \<and> (of_char c :: nat) \<le> 122 then char_of ((of_char c :: nat) - 32) else c)"

definition keyword_to_upper :: "string \<Rightarrow> string" where
  "keyword_to_upper s = map upper_char s"

definition k_keywords :: "(string \<times> token_type) list" where
  "k_keywords = [
     (''SELECT'', TK_Select), (''FROM'', TK_From), (''WHERE'', TK_Where),
     (''INSERT'', TK_Insert), (''INTO'', TK_Into), (''VALUES'', TK_Values),
     (''UPDATE'', TK_Update), (''SET'', TK_Set),
     (''DELETE'', TK_Delete),
     (''CREATE'', TK_Create), (''ALTER'', TK_Alter), (''DROP'', TK_Drop),
     (''TABLE'', TK_Table), (''INDEX'', TK_Index), (''SCHEMA'', TK_Schema),
     (''PRIMARY'', TK_Primary), (''KEY'', TK_Key), (''UNIQUE'', TK_Unique),
     (''NULL'', TK_Null), (''TRUE'', TK_True), (''FALSE'', TK_False),
     (''AND'', TK_And), (''OR'', TK_Or), (''NOT'', TK_Not),
     (''IS'', TK_Is), (''IN'', TK_In), (''BETWEEN'', TK_Between),
     (''INNER'', TK_Inner), (''LEFT'', TK_Left), (''JOIN'', TK_Join), (''ON'', TK_On),
     (''BY'', TK_By), (''ORDER'', TK_Order), (''GROUP'', TK_Group),
     (''ASC'', TK_Asc), (''DESC'', TK_Desc), (''LIMIT'', TK_Limit),
     (''AS'', TK_As)]"

section \<open>The lexer\<close>

record lexer =
  lx_source :: string
  lx_current :: nat
  lx_loc :: source_location

definition Lexer_init :: "string \<Rightarrow> lexer" where
  "Lexer_init src = \<lparr>lx_source = src, lx_current = 0, lx_loc = SourceLocation_init\<rparr>"

definition lx_is_at_end :: "lexer \<Rightarrow> bool" where
  "lx_is_at_end lx \<longleftrightarrow> length (lx_source lx) \<le> lx_current lx"

text \<open>Called only where a character is left.\<close>

definition lx_advance :: "lexer \<Rightarrow> char \<times> lexer" where
  "lx_advance lx =
     (let c = lx_source lx ! lx_current lx;
          cur = lx_current lx + 1;
          loc = lx_loc lx;
          loc = (if c = CHR 0x0A then loc\<lparr>sl_line := sl_line loc + 1, sl_column := 1\<rparr> else loc\<lparr>sl_column := sl_column loc + 1\<rparr>)
      in (c, lx\<lparr>lx_current := cur, lx_loc := loc\<lparr>sl_offset := cur\<rparr>\<rparr>))"

definition lx_peek :: "lexer \<Rightarrow> char" where
  "lx_peek lx = (if lx_is_at_end lx then CHR 0x00 else lx_source lx ! lx_current lx)"

definition lx_peek_next :: "lexer \<Rightarrow> char" where
  "lx_peek_next lx = (if length (lx_source lx) \<le> lx_current lx + 1 then CHR 0x00 else lx_source lx ! (lx_current lx + 1))"

definition lx_match :: "char \<Rightarrow> lexer \<Rightarrow> bool \<times> lexer" where
  "lx_match expected lx =
     (if lx_is_at_end lx then (False, lx)
      else if lx_source lx ! lx_current lx \<noteq> expected then (False, lx)
      else (True, snd (lx_advance lx)))"

text \<open>One character back, as the callers of \<open>scan_number\<close> and \<open>scan_identifier_or_keyword\<close> do.\<close>

definition lx_unread :: "lexer \<Rightarrow> lexer" where
  "lx_unread lx = lx\<lparr>lx_current := lx_current lx - 1,
     lx_loc := (lx_loc lx)\<lparr>sl_column := sl_column (lx_loc lx) - 1, sl_offset := sl_offset (lx_loc lx) - 1\<rparr>\<rparr>"

abbreviation lx_left :: "lexer \<Rightarrow> nat" where
  "lx_left lx \<equiv> length (lx_source lx) - lx_current lx"

lemma lx_advance_frame [simp]:
  "lx_source (snd (lx_advance lx)) = lx_source lx" "lx_current (snd (lx_advance lx)) = lx_current lx + 1"
  "sl_offset (lx_loc (snd (lx_advance lx))) = lx_current lx + 1"
  by (simp_all add: lx_advance_def Let_def)

lemma not_at_end: "\<not> lx_is_at_end lx \<longleftrightarrow> lx_current lx < length (lx_source lx)"
  by (simp add: lx_is_at_end_def not_le)

lemma peek_not_nul: "lx_peek lx \<noteq> CHR 0x00 \<Longrightarrow> lx_current lx < length (lx_source lx)"
  by (simp add: lx_peek_def lx_is_at_end_def split: if_splits)

function skip_line :: "lexer \<Rightarrow> lexer" where
  "skip_line lx = (if lx_peek lx \<noteq> CHR 0x0A \<and> \<not> lx_is_at_end lx then skip_line (snd (lx_advance lx)) else lx)"
  by pat_completeness auto
termination by (relation "measure lx_left") (auto simp: not_at_end)

function skip_block :: "lexer \<Rightarrow> lexer" where
  "skip_block lx =
     (if lx_is_at_end lx then lx
      else if lx_peek lx = CHR ''*'' \<and> lx_peek_next lx = CHR ''/'' then snd (lx_advance (snd (lx_advance lx)))
      else skip_block (snd (lx_advance lx)))"
  by pat_completeness auto
termination by (relation "measure lx_left") (auto simp: not_at_end)

declare skip_line.simps [simp del] skip_block.simps [simp del]

lemma skip_line_frame: "lx_source (skip_line lx) = lx_source lx \<and> lx_current lx \<le> lx_current (skip_line lx)"
proof (induction lx rule: skip_line.induct)
  case (1 lx)
  then show ?case by (subst (1 2) skip_line.simps) auto
qed

lemma skip_line_progress: "lx_peek lx = CHR ''-'' \<Longrightarrow> lx_current lx < lx_current (skip_line lx)"
  using skip_line_frame [of "snd (lx_advance lx)"] peek_not_nul [of lx]
  by (subst skip_line.simps) (simp add: not_at_end)

lemma skip_block_frame: "lx_source (skip_block lx) = lx_source lx \<and> lx_current lx \<le> lx_current (skip_block lx)"
proof (induction lx rule: skip_block.induct)
  case (1 lx)
  then show ?case by (subst (1 2) skip_block.simps) auto
qed

function skip_whitespace_and_comments :: "lexer \<Rightarrow> lexer" where
  "skip_whitespace_and_comments lx =
     (let c = lx_peek lx in
      if c = CHR '' '' \<or> c = CHR 0x0D \<or> c = CHR 0x09 \<or> c = CHR 0x0A then skip_whitespace_and_comments (snd (lx_advance lx))
      else if c = CHR ''-'' then
        (if lx_peek_next lx = CHR ''-'' then skip_whitespace_and_comments (skip_line lx) else lx)
      else if c = CHR ''/'' then
        (if lx_peek_next lx = CHR ''*''
         then skip_whitespace_and_comments (skip_block (snd (lx_advance (snd (lx_advance lx))))) else lx)
      else lx)"
  by pat_completeness auto
termination
proof (relation "measure lx_left")
  fix lx x
  assume x: "x = lx_peek lx"
  show "(skip_line lx, lx) \<in> measure lx_left" if "x = CHR ''-''"
    using skip_line_progress [of lx] skip_line_frame [of lx] peek_not_nul [of lx] that x by (simp add: diff_less_mono2)
  show "(skip_block (snd (lx_advance (snd (lx_advance lx)))), lx) \<in> measure lx_left" if "x = CHR ''/''"
    using skip_block_frame [of "snd (lx_advance (snd (lx_advance lx)))"] peek_not_nul [of lx] that x by (simp add: diff_less_mono2)
  show "(snd (lx_advance lx), lx) \<in> measure lx_left" if "x = CHR '' '' \<or> x = CHR 0x0D \<or> x = CHR 0x09 \<or> x = CHR 0x0A"
    using peek_not_nul [of lx] that x by auto
qed simp

declare skip_whitespace_and_comments.simps [simp del]

function scan_ident_chars :: "lexer \<Rightarrow> lexer" where
  "scan_ident_chars lx = (if is_alnum (lx_peek lx) \<or> lx_peek lx = CHR ''_'' then scan_ident_chars (snd (lx_advance lx)) else lx)"
  by pat_completeness auto

lemma nul_class: "\<not> is_alnum (CHR 0x00)" "\<not> is_digit (CHR 0x00)" "\<not> is_alpha (CHR 0x00)"
  by (simp_all add: is_alnum_def is_alpha_def is_digit_def)

termination scan_ident_chars
proof (relation "measure lx_left")
  fix lx assume "is_alnum (lx_peek lx) \<or> lx_peek lx = CHR ''_''"
  then have "lx_peek lx \<noteq> CHR 0x00" using nul_class by auto
  from peek_not_nul [OF this] show "(snd (lx_advance lx), lx) \<in> measure lx_left" by simp
qed simp

function scan_digits :: "lexer \<Rightarrow> lexer" where
  "scan_digits lx = (if is_digit (lx_peek lx) then scan_digits (snd (lx_advance lx)) else lx)"
  by pat_completeness auto
termination
proof (relation "measure lx_left")
  fix lx assume "is_digit (lx_peek lx)"
  then have "lx_peek lx \<noteq> CHR 0x00" using nul_class by auto
  from peek_not_nul [OF this] show "(snd (lx_advance lx), lx) \<in> measure lx_left" by simp
qed simp

text \<open>The loop of \<open>scan_string_literal\<close>: the text up to the closing quote, or nothing at the end of the input.\<close>

function scan_string_chars :: "string \<Rightarrow> lexer \<Rightarrow> lexer \<times> string option" where
  "scan_string_chars str lx =
     (if lx_is_at_end lx then (lx, None)
      else if lx_peek lx = CHR 0x27 then
        (if lx_peek_next lx = CHR 0x27 then scan_string_chars (str @ [CHR 0x27]) (snd (lx_advance (snd (lx_advance lx))))
         else (snd (lx_advance lx), Some str))
      else let (c, lx) = lx_advance lx in scan_string_chars (str @ [c]) lx)"
  by pat_completeness auto
termination by (relation "measure (\<lambda>(_, lx). lx_left lx)") (auto simp: not_at_end lx_advance_def Let_def)

function scan_quoted_chars :: "string \<Rightarrow> lexer \<Rightarrow> lexer \<times> string" where
  "scan_quoted_chars str lx =
     (if \<not> lx_is_at_end lx \<and> lx_peek lx \<noteq> CHR 0x22 then let (c, lx) = lx_advance lx in scan_quoted_chars (str @ [c]) lx
      else (lx, str))"
  by pat_completeness auto
termination by (relation "measure (\<lambda>(_, lx). lx_left lx)") (auto simp: not_at_end lx_advance_def Let_def)

declare scan_ident_chars.simps [simp del] scan_digits.simps [simp del] scan_string_chars.simps [simp del] scan_quoted_chars.simps [simp del]

definition lx_text :: "nat \<Rightarrow> lexer \<Rightarrow> string" where
  "lx_text start lx = take (lx_current lx - start) (drop start (lx_source lx))"

definition scan_identifier_or_keyword :: "lexer \<Rightarrow> lexer \<times> token result" where
  "scan_identifier_or_keyword lx =
     (let start_loc = lx_loc lx; start = lx_current lx;
          lx = scan_ident_chars lx;
          txt = lx_text start lx; upper_text = keyword_to_upper txt
      in case map_of k_keywords upper_text of
           Some t \<Rightarrow> (lx, Inr (Token_init t upper_text start_loc))
         | None \<Rightarrow> (lx, Inr (Token_init TK_Identifier txt start_loc)))"

definition scan_string_literal :: "lexer \<Rightarrow> lexer \<times> token result" where
  "scan_string_literal lx =
     (let start_loc = lx_loc lx in
      case scan_string_chars [] lx of
        (lx, Some str) \<Rightarrow> (lx, Inr (Token_init TK_StringLiteral str start_loc))
      | (lx, None) \<Rightarrow> (lx, Inl (make_error InvalidArgument start_loc ''Unterminated string literal'')))"

definition scan_quoted_identifier :: "lexer \<Rightarrow> lexer \<times> token result" where
  "scan_quoted_identifier lx =
     (let start_loc = lx_loc lx; (lx, str) = scan_quoted_chars [] lx in
      if lx_is_at_end lx then (lx, Inl (make_error InvalidArgument start_loc ''Unterminated quoted identifier''))
      else (snd (lx_advance lx), Inr (Token_init TK_QuotedIdentifier str start_loc)))"

definition scan_number :: "lexer \<Rightarrow> lexer \<times> token result" where
  "scan_number lx =
     (let start_loc = lx_loc lx; start = lx_current lx;
          lx = scan_digits lx;
          is_float = (lx_peek lx = CHR ''.'' \<and> is_digit (lx_peek_next lx));
          lx = (if is_float then scan_digits (snd (lx_advance lx)) else lx)
      in (lx, Inr (Token_init (if is_float then TK_FloatLiteral else TK_IntegerLiteral) (lx_text start lx) start_loc)))"

definition scan_token :: "lexer \<Rightarrow> lexer \<times> token result" where
  "scan_token lx =
     (let (c, lx) = lx_advance lx; start_loc = lx_loc lx in
      if c = CHR ''('' then (lx, Inr (Token_init TK_LeftParen ''('' start_loc))
      else if c = CHR '')'' then (lx, Inr (Token_init TK_RightParen '')'' start_loc))
      else if c = CHR '','' then (lx, Inr (Token_init TK_Comma '','' start_loc))
      else if c = CHR ''.'' then (lx, Inr (Token_init TK_Dot ''.'' start_loc))
      else if c = CHR '';'' then (lx, Inr (Token_init TK_Semicolon '';'' start_loc))
      else if c = CHR ''+'' then (lx, Inr (Token_init TK_Plus ''+'' start_loc))
      else if c = CHR ''-'' then (lx, Inr (Token_init TK_Minus ''-'' start_loc))
      else if c = CHR ''*'' then (lx, Inr (Token_init TK_Star ''*'' start_loc))
      else if c = CHR ''/'' then (lx, Inr (Token_init TK_Slash ''/'' start_loc))
      else if c = CHR ''='' then
        (case lx_match (CHR ''='') lx of
           (True, lx) \<Rightarrow> (lx, Inr (Token_init TK_Equal ''=='' start_loc))
         | (False, lx) \<Rightarrow> (lx, Inr (Token_init TK_Equal ''='' start_loc)))
      else if c = CHR ''!'' then
        (case lx_match (CHR ''='') lx of
           (True, lx) \<Rightarrow> (lx, Inr (Token_init TK_NotEqual ''!='' start_loc))
         | (False, lx) \<Rightarrow> (lx, Inl (make_error InvalidArgument start_loc (''Unexpected character '' @ [CHR 0x27, CHR ''!'', CHR 0x27]))))
      else if c = CHR ''<'' then
        (case lx_match (CHR ''='') lx of
           (True, lx) \<Rightarrow> (lx, Inr (Token_init TK_LessEqual ''<='' start_loc))
         | (False, lx) \<Rightarrow>
             (case lx_match (CHR ''>'') lx of
                (True, lx) \<Rightarrow> (lx, Inr (Token_init TK_NotEqual ''<>'' start_loc))
              | (False, lx) \<Rightarrow> (lx, Inr (Token_init TK_Less ''<'' start_loc))))
      else if c = CHR ''>'' then
        (case lx_match (CHR ''='') lx of
           (True, lx) \<Rightarrow> (lx, Inr (Token_init TK_GreaterEqual ''>='' start_loc))
         | (False, lx) \<Rightarrow> (lx, Inr (Token_init TK_Greater ''>'' start_loc)))
      else if c = CHR ''|'' then
        (case lx_match (CHR ''|'') lx of
           (True, lx) \<Rightarrow> (lx, Inr (Token_init TK_Concat ''||'' start_loc))
         | (False, lx) \<Rightarrow> (lx, Inl (make_error InvalidArgument start_loc (''Unexpected character '' @ [CHR 0x27, CHR ''|'', CHR 0x27]))))
      else if c = CHR 0x27 then scan_string_literal lx
      else if c = CHR 0x22 then scan_quoted_identifier lx
      else if is_digit c then scan_number (lx_unread lx)
      else if is_alpha c \<or> c = CHR ''_'' then scan_identifier_or_keyword (lx_unread lx)
      else (lx, Inl (make_error InvalidArgument start_loc ''Unexpected character'')))"

section \<open>Progress\<close>

text \<open>A lexer that moved on in its text.\<close>

definition lx_moves :: "lexer \<Rightarrow> lexer \<Rightarrow> bool" where
  "lx_moves lx lx' \<longleftrightarrow> lx_source lx' = lx_source lx \<and> lx_current lx \<le> lx_current lx' \<and>
     (lx_current lx \<le> length (lx_source lx) \<longrightarrow> lx_current lx' \<le> length (lx_source lx)) \<and>
     (sl_offset (lx_loc lx) = lx_current lx \<longrightarrow> sl_offset (lx_loc lx') = lx_current lx')"

lemma lx_moves_refl [simp]: "lx_moves lx lx"
  by (simp add: lx_moves_def)

lemma lx_moves_trans: "lx_moves lx lx1 \<Longrightarrow> lx_moves lx1 lx2 \<Longrightarrow> lx_moves lx lx2"
  by (simp add: lx_moves_def)

lemma lx_moves_advance: "lx_current lx < length (lx_source lx) \<Longrightarrow> lx_moves lx (snd (lx_advance lx))"
  by (simp add: lx_moves_def)

lemma lx_match_moves: "lx_moves lx (snd (lx_match c lx))"
  by (simp add: lx_match_def lx_moves_def not_at_end [symmetric]) (simp add: lx_is_at_end_def)

lemma scan_ident_chars_moves: "lx_moves lx (scan_ident_chars lx)"
proof (induction lx rule: scan_ident_chars.induct)
  case (1 lx)
  show ?case
  proof (cases "is_alnum (lx_peek lx) \<or> lx_peek lx = CHR ''_''")
    case True
    then have "lx_peek lx \<noteq> CHR 0x00" using nul_class by auto
    then show ?thesis using 1 [OF True] lx_moves_trans [OF lx_moves_advance [OF peek_not_nul]] True by (subst scan_ident_chars.simps) simp
  next
    case False
    then show ?thesis by (subst scan_ident_chars.simps) simp
  qed
qed

lemma scan_digits_moves: "lx_moves lx (scan_digits lx)"
proof (induction lx rule: scan_digits.induct)
  case (1 lx)
  show ?case
  proof (cases "is_digit (lx_peek lx)")
    case True
    then have "lx_peek lx \<noteq> CHR 0x00" using nul_class by auto
    then show ?thesis using 1 [OF True] lx_moves_trans [OF lx_moves_advance [OF peek_not_nul]] True by (subst scan_digits.simps) simp
  next
    case False
    then show ?thesis by (subst scan_digits.simps) simp
  qed
qed

lemma lx_advance_pair: "lx_advance lx = (c, lx') \<Longrightarrow> lx' = snd (lx_advance lx) \<and> c = lx_source lx ! lx_current lx"
  by (auto simp: lx_advance_def Let_def)

lemma scan_string_chars_moves: "lx_moves lx (fst (scan_string_chars str lx))"
proof (induction str lx rule: scan_string_chars.induct)
  case (1 str lx)
  consider (stop) "lx_is_at_end lx" | (quote) "\<not> lx_is_at_end lx" "lx_peek lx = CHR 0x27" "lx_peek_next lx = CHR 0x27"
    | (close) "\<not> lx_is_at_end lx" "lx_peek lx = CHR 0x27" "lx_peek_next lx \<noteq> CHR 0x27" | (char) "\<not> lx_is_at_end lx" "lx_peek lx \<noteq> CHR 0x27" by blast
  then show ?case
  proof cases
    case stop
    then show ?thesis by (subst scan_string_chars.simps) simp
  next
    case quote
    have n: "lx_current lx + 1 < length (lx_source lx)" using quote(3) by (simp add: lx_peek_next_def split: if_splits)
    have "lx_moves lx (snd (lx_advance (snd (lx_advance lx))))" using n by (simp add: lx_moves_def)
    then show ?thesis using 1(1) [OF quote] quote lx_moves_trans by (subst scan_string_chars.simps) simp
  next
    case close
    then show ?thesis using lx_moves_advance [of lx] by (subst scan_string_chars.simps) (simp add: not_at_end)
  next
    case char
    obtain c lx' where a: "lx_advance lx = (c, lx')" by fastforce
    have "lx_moves lx lx'" using lx_moves_advance [of lx] char a by (simp add: not_at_end)
    then show ?thesis using 1(2) [OF char a [symmetric] refl] char a lx_moves_trans by (subst scan_string_chars.simps) simp
  qed
qed

lemma scan_quoted_chars_moves: "lx_moves lx (fst (scan_quoted_chars str lx))"
proof (induction str lx rule: scan_quoted_chars.induct)
  case (1 str lx)
  show ?case
  proof (cases "\<not> lx_is_at_end lx \<and> lx_peek lx \<noteq> CHR 0x22")
    case True
    obtain c lx' where a: "lx_advance lx = (c, lx')" by fastforce
    have "lx_moves lx lx'" using lx_moves_advance [of lx] True a by (simp add: not_at_end)
    then show ?thesis using 1 [OF True a [symmetric] refl] True a lx_moves_trans by (subst scan_quoted_chars.simps) simp
  next
    case False
    then show ?thesis by (subst scan_quoted_chars.simps) auto
  qed
qed

lemma skip_line_moves: "lx_moves lx (skip_line lx)"
proof (induction lx rule: skip_line.induct)
  case (1 lx)
  show ?case
  proof (cases "lx_peek lx \<noteq> CHR 0x0A \<and> \<not> lx_is_at_end lx")
    case True
    then show ?thesis using 1 [OF True] lx_moves_trans [OF lx_moves_advance] by (subst skip_line.simps) (simp add: not_at_end)
  next
    case False
    then show ?thesis by (subst skip_line.simps) auto
  qed
qed

lemma two_ahead: "lx_peek_next lx \<noteq> CHR 0x00 \<Longrightarrow> lx_moves lx (snd (lx_advance (snd (lx_advance lx))))"
  by (simp add: lx_moves_def lx_peek_next_def split: if_splits)

lemma skip_block_moves: "lx_moves lx (skip_block lx)"
proof (induction lx rule: skip_block.induct)
  case (1 lx)
  consider (stop) "lx_is_at_end lx" | (close) "\<not> lx_is_at_end lx" "lx_peek lx = CHR ''*'' \<and> lx_peek_next lx = CHR ''/''"
    | (char) "\<not> lx_is_at_end lx" "\<not> (lx_peek lx = CHR ''*'' \<and> lx_peek_next lx = CHR ''/'')" by blast
  then show ?case
  proof cases
    case char
    then show ?thesis using 1 [OF char] lx_moves_trans [OF lx_moves_advance [of lx]] by (subst skip_block.simps) (auto simp: not_at_end)
  qed (use two_ahead [of lx] in \<open>subst skip_block.simps, simp\<close>)+
qed

lemma skip_moves: "lx_moves lx (skip_whitespace_and_comments lx)"
proof (induction lx rule: skip_whitespace_and_comments.induct)
  case (1 lx)
  let ?c = "lx_peek lx"
  consider (blank) "?c = CHR '' '' \<or> ?c = CHR 0x0D \<or> ?c = CHR 0x09 \<or> ?c = CHR 0x0A"
    | (line) "\<not> (?c = CHR '' '' \<or> ?c = CHR 0x0D \<or> ?c = CHR 0x09 \<or> ?c = CHR 0x0A)" "?c = CHR ''-''" "lx_peek_next lx = CHR ''-''"
    | (block) "\<not> (?c = CHR '' '' \<or> ?c = CHR 0x0D \<or> ?c = CHR 0x09 \<or> ?c = CHR 0x0A)" "?c \<noteq> CHR ''-''" "?c = CHR ''/''" "lx_peek_next lx = CHR ''*''"
    | (stop) "skip_whitespace_and_comments lx = lx"
    using skip_whitespace_and_comments.simps [of lx] by (auto simp: Let_def split: if_splits)
  then show ?case
  proof cases
    case blank
    then have "lx_moves lx (snd (lx_advance lx))" using peek_not_nul [of lx] by (intro lx_moves_advance) auto
    then show ?thesis using 1(1) [OF refl blank] blank lx_moves_trans by (subst skip_whitespace_and_comments.simps) (simp add: Let_def)
  next
    case line
    then show ?thesis using 1(2) [OF refl line] lx_moves_trans [OF skip_line_moves] by (subst skip_whitespace_and_comments.simps) (simp add: Let_def)
  next
    case block
    then show ?thesis using 1(3) [OF refl block] lx_moves_trans [OF lx_moves_trans [OF two_ahead skip_block_moves]]
      by (subst skip_whitespace_and_comments.simps) (simp add: Let_def)
  qed simp
qed

lemma lx_unread_advance:
  assumes "lx_advance lx = (c, lx')" "lx_current lx < length (lx_source lx)"
  shows "lx_source (lx_unread lx') = lx_source lx" "lx_current (lx_unread lx') = lx_current lx"
    "sl_offset (lx_loc (lx_unread lx')) = lx_current lx"
  using lx_advance_pair [OF assms(1)] by (simp_all add: lx_unread_def)

lemma scan_digits_progress:
  assumes "is_digit (lx_source lx ! lx_current lx)" "lx_current lx < length (lx_source lx)"
  shows "lx_current lx < lx_current (scan_digits lx)"
proof -
  have "is_digit (lx_peek lx)" using assms by (simp add: lx_peek_def lx_is_at_end_def)
  then have "scan_digits lx = scan_digits (snd (lx_advance lx))" by (subst scan_digits.simps) simp
  then show ?thesis using scan_digits_moves [of "snd (lx_advance lx)"] by (simp add: lx_moves_def)
qed

lemma scan_ident_progress:
  assumes "is_alpha (lx_source lx ! lx_current lx) \<or> lx_source lx ! lx_current lx = CHR ''_''" "lx_current lx < length (lx_source lx)"
  shows "lx_current lx < lx_current (scan_ident_chars lx)"
proof -
  have "is_alnum (lx_peek lx) \<or> lx_peek lx = CHR ''_''" using assms by (auto simp: lx_peek_def lx_is_at_end_def is_alnum_def)
  then have "scan_ident_chars lx = scan_ident_chars (snd (lx_advance lx))" by (subst scan_ident_chars.simps) simp
  then show ?thesis using scan_ident_chars_moves [of "snd (lx_advance lx)"] by (simp add: lx_moves_def)
qed

lemma scan_number_moves:
  assumes "is_digit (lx_source lx ! lx_current lx)" "lx_current lx < length (lx_source lx)"
  shows "lx_moves lx (fst (scan_number lx))" "lx_current lx < lx_current (fst (scan_number lx))"
proof -
  let ?l = "scan_digits lx"
  have m: "lx_moves lx ?l" by (rule scan_digits_moves)
  have f: "lx_moves ?l (scan_digits (snd (lx_advance ?l)))" if "lx_peek ?l = CHR ''.''"
    using lx_moves_trans [OF lx_moves_advance [OF peek_not_nul [of ?l]] scan_digits_moves] that by simp
  show "lx_moves lx (fst (scan_number lx))" using m f lx_moves_trans by (simp add: scan_number_def Let_def)
  show "lx_current lx < lx_current (fst (scan_number lx))"
    using f scan_digits_progress [OF assms] by (auto simp: scan_number_def Let_def lx_moves_def)
qed

lemma scan_identifier_moves:
  assumes "is_alpha (lx_source lx ! lx_current lx) \<or> lx_source lx ! lx_current lx = CHR ''_''" "lx_current lx < length (lx_source lx)"
  shows "lx_moves lx (fst (scan_identifier_or_keyword lx))" "lx_current lx < lx_current (fst (scan_identifier_or_keyword lx))"
  using scan_ident_chars_moves [of lx] scan_ident_progress [OF assms] by (auto simp: scan_identifier_or_keyword_def Let_def split: option.split)

lemma scan_token_progress:
  assumes "lx_current lx < length (lx_source lx)" "scan_token lx = (lx', r)"
  shows "lx_moves lx lx'" "lx_current lx < lx_current lx'"
proof -
  obtain c lx1 where a: "lx_advance lx = (c, lx1)" by fastforce
  have p: "lx1 = snd (lx_advance lx)" "c = lx_source lx ! lx_current lx" using lx_advance_pair [OF a] by simp_all
  have m1: "lx_moves lx lx1" "lx_current lx1 = lx_current lx + 1" using lx_moves_advance [OF assms(1)] p(1) by simp_all
  note u = lx_unread_advance [OF a assms(1)]
  have step: "lx_moves lx l \<and> lx_current lx < lx_current l" if "lx_moves lx1 l" for l
    using lx_moves_trans [OF m1(1) that] that m1(2) by (simp add: lx_moves_def)
  have unread: "lx_moves lx l \<and> lx_current lx < lx_current l" if "lx_moves (lx_unread lx1) l" "lx_current (lx_unread lx1) < lx_current l" for l
    using that u by (simp add: lx_moves_def)
  have mm: "lx_moves lx1 l" if "lx_match k lx1 = (b, l)" for k b l using lx_match_moves [of lx1 k] that by simp
  have mm2: "lx_moves lx1 l" if "lx_match k lx1 = (b', l')" "lx_match k' l' = (b, l)" for k b l b' l' k'
    using lx_match_moves [of l' k'] mm [OF that(1)] that(2) lx_moves_trans by fastforce
  have str: "lx_moves lx1 (fst (scan_string_literal lx1))"
    using scan_string_chars_moves [of lx1 "[]"] by (auto simp: scan_string_literal_def Let_def split: prod.split option.split)
  have quo: "lx_moves lx1 (fst (scan_quoted_identifier lx1))"
    using scan_quoted_chars_moves [of lx1 "[]"] lx_moves_trans [OF _ lx_moves_advance]
    by (auto simp: scan_quoted_identifier_def Let_def not_at_end [symmetric] split: prod.split)
  have num: "lx_moves (lx_unread lx1) (fst (scan_number (lx_unread lx1))) \<and> lx_current (lx_unread lx1) < lx_current (fst (scan_number (lx_unread lx1)))" if "is_digit c"
    using scan_number_moves [of "lx_unread lx1"] that p(2) u assms(1) by simp
  have ide: "lx_moves (lx_unread lx1) (fst (scan_identifier_or_keyword (lx_unread lx1))) \<and> lx_current (lx_unread lx1) < lx_current (fst (scan_identifier_or_keyword (lx_unread lx1)))"
    if "is_alpha c \<or> c = CHR ''_''"
    using scan_identifier_moves [of "lx_unread lx1"] that p(2) u assms(1) by simp
  have "lx_moves lx1 lx' \<or> lx_moves (lx_unread lx1) lx' \<and> lx_current (lx_unread lx1) < lx_current lx'"
    using assms(2) str quo num ide unfolding scan_token_def a Let_def
    by (auto split: if_split_asm prod.split_asm bool.split_asm dest: mm mm2)
  then have "lx_moves lx lx' \<and> lx_current lx < lx_current lx'" using step unread by blast
  then show "lx_moves lx lx'" "lx_current lx < lx_current lx'" by simp_all
qed

text \<open>The types a token can have, and where it is said to be.\<close>

definition token_types :: "token_type set" where
  "token_types = set (map snd k_keywords) \<union>
     {TK_Identifier, TK_QuotedIdentifier, TK_IntegerLiteral, TK_FloatLiteral, TK_StringLiteral, TK_LeftParen, TK_RightParen, TK_Comma,
      TK_Dot, TK_Semicolon, TK_Plus, TK_Minus, TK_Star, TK_Slash, TK_Equal, TK_NotEqual, TK_Less, TK_LessEqual, TK_Greater,
      TK_GreaterEqual, TK_Concat}"

lemma token_init_sel [simp]:
  "tk_type (Token_init t s loc) = t" "tk_lexeme (Token_init t s loc) = s" "tk_location (Token_init t s loc) = loc"
  by (simp_all add: Token_init_def)

lemma token_types_mem [simp]:
  "TK_LeftParen \<in> token_types" "TK_RightParen \<in> token_types" "TK_Comma \<in> token_types" "TK_Dot \<in> token_types" "TK_Semicolon \<in> token_types"
  "TK_Plus \<in> token_types" "TK_Minus \<in> token_types" "TK_Star \<in> token_types" "TK_Slash \<in> token_types" "TK_Equal \<in> token_types"
  "TK_NotEqual \<in> token_types" "TK_Less \<in> token_types" "TK_LessEqual \<in> token_types" "TK_Greater \<in> token_types"
  "TK_GreaterEqual \<in> token_types" "TK_Concat \<in> token_types" "TK_Identifier \<in> token_types" "TK_QuotedIdentifier \<in> token_types"
  "TK_IntegerLiteral \<in> token_types" "TK_FloatLiteral \<in> token_types" "TK_StringLiteral \<in> token_types"
  "map_of k_keywords s = Some t \<Longrightarrow> t \<in> token_types"
  unfolding token_types_def by (simp_all, force dest: map_of_SomeD)

lemma scan_token_result:
  assumes "scan_token lx = (lx', Inr t)" "lx_advance lx = (c, lx1)"
  shows "tk_type t \<in> token_types" "tk_location t = lx_loc lx1 \<or> tk_location t = lx_loc (lx_unread lx1)"
proof -
  have ide: "tk_type x \<in> token_types \<and> tk_location x = lx_loc l" if "scan_identifier_or_keyword l = (l', Inr x)" for l l' x
    using that by (auto simp: scan_identifier_or_keyword_def Let_def split: option.splits)
  have num: "tk_type x \<in> token_types \<and> tk_location x = lx_loc l" if "scan_number l = (l', Inr x)" for l l' x
    using that by (auto simp: scan_number_def Let_def)
  have str: "tk_type x \<in> token_types \<and> tk_location x = lx_loc l" if "scan_string_literal l = (l', Inr x)" for l l' x
    using that by (auto simp: scan_string_literal_def Let_def split: prod.splits option.splits)
  have quo: "tk_type x \<in> token_types \<and> tk_location x = lx_loc l" if "scan_quoted_identifier l = (l', Inr x)" for l l' x
    using that by (auto simp: scan_quoted_identifier_def Let_def split: prod.splits if_splits)
  define Q where "Q p \<longleftrightarrow> (\<forall>l t. p = (l, Inr t) \<longrightarrow> tk_type t \<in> token_types \<and> (tk_location t = lx_loc lx1 \<or> tk_location t = lx_loc (lx_unread lx1)))"
    for p :: "lexer \<times> token result"
  have tok: "Q (l, Inr (Token_init ty s (lx_loc lx1)))" if "ty \<in> token_types" for l ty s using that by (simp add: Q_def)
  have err: "Q (l, Inl e)" for l e by (simp add: Q_def)
  have two: "Q (case p of (True, l) \<Rightarrow> a l | (False, l) \<Rightarrow> b l)" if "\<And>l. Q (a l)" "\<And>l. Q (b l)" for p a b
    using that by (cases p; cases "fst p") auto
  have ite: "Q (if z then a else b)" if "Q a" "Q b" for z a b using that by simp
  have sub: "Q (scan_string_literal lx1)" "Q (scan_quoted_identifier lx1)" "Q (scan_number (lx_unread lx1))" "Q (scan_identifier_or_keyword (lx_unread lx1))"
    using ide num str quo unfolding Q_def by blast+
  have "Q (scan_token lx)"
    unfolding scan_token_def assms(2) Let_def prod.case by (intro ite two tok err sub token_types_mem)
  then have "tk_type t \<in> token_types \<and> (tk_location t = lx_loc lx1 \<or> tk_location t = lx_loc (lx_unread lx1))"
    using assms(1) unfolding Q_def by blast
  then show "tk_type t \<in> token_types" "tk_location t = lx_loc lx1 \<or> tk_location t = lx_loc (lx_unread lx1)" by simp_all
qed

section \<open>Tokenizing\<close>

function tokenize_loop :: "token list \<Rightarrow> lexer \<Rightarrow> token list result" where
  "tokenize_loop tokens lx =
     (if lx_is_at_end lx then Inr (tokens @ [Token_init TK_Eof [] (lx_loc lx)])
      else let lx = skip_whitespace_and_comments lx in
        if lx_is_at_end lx then Inr (tokens @ [Token_init TK_Eof [] (lx_loc lx)])
        else case scan_token lx of
               (lx, Inl e) \<Rightarrow> Inl e
             | (lx, Inr t) \<Rightarrow> tokenize_loop (tokens @ [t]) lx)"
  by pat_completeness auto
termination
proof (relation "measure (\<lambda>(_, lx). lx_left lx)", goal_cases)
  case (2 tokens lx lx0 lx1 r t)
  have "lx_moves lx0 lx1" "lx_current lx0 < lx_current lx1" using scan_token_progress [of lx0 lx1 r] 2 by (simp_all add: not_at_end)
  moreover have "lx_moves lx lx0" using skip_moves 2 by simp
  ultimately show ?case using 2(3) by (auto simp: lx_moves_def not_at_end)
qed simp

declare tokenize_loop.simps [simp del]

definition tokenize :: "string \<Rightarrow> token list result" where
  "tokenize src = tokenize_loop [] (Lexer_init src)"

section \<open>The text that is left\<close>

definition lx_rest :: "lexer \<Rightarrow> string" where
  "lx_rest lx = drop (lx_current lx) (lx_source lx)"

lemma lx_at_end_rest: "lx_is_at_end lx \<longleftrightarrow> lx_rest lx = []"
  by (simp add: lx_is_at_end_def lx_rest_def)

lemma lx_peek_rest: "lx_peek lx = (case lx_rest lx of [] \<Rightarrow> CHR 0x00 | c # _ \<Rightarrow> c)"
  by (auto simp: lx_peek_def lx_at_end_rest lx_rest_def hd_drop_conv_nth split: list.split)
    (metis Cons_nth_drop_Suc drop_eq_Nil2 linorder_not_le list.distinct(1) list.sel(1))

lemma lx_peek_next_rest: "lx_peek_next lx = (case lx_rest lx of _ # c # _ \<Rightarrow> c | _ \<Rightarrow> CHR 0x00)"
proof (cases "lx_current lx + 1 < length (lx_source lx)")
  case True
  then have "drop (lx_current lx) (lx_source lx) = lx_source lx ! lx_current lx # lx_source lx ! (lx_current lx + 1) # drop (lx_current lx + 2) (lx_source lx)"
    by (simp add: Cons_nth_drop_Suc)
  then show ?thesis using True by (simp add: lx_peek_next_def lx_rest_def)
next
  case False
  then have "length (lx_rest lx) \<le> 1" by (simp add: lx_rest_def)
  then show ?thesis using False by (auto simp: lx_peek_next_def split: list.split)
qed

lemma lx_advance_rest: "lx_rest (snd (lx_advance lx)) = tl (lx_rest lx)"
  by (simp add: lx_rest_def drop_Suc tl_drop)

lemma lx_advance_char: "lx_rest lx = c # r \<Longrightarrow> lx_advance lx = (c, snd (lx_advance lx))"
  by (auto simp: lx_advance_def Let_def lx_rest_def) (metis nth_via_drop)

lemma lx_match_rest: "lx_match c lx = (if lx_rest lx \<noteq> [] \<and> hd (lx_rest lx) = c then (True, snd (lx_advance lx)) else (False, lx))"
  by (auto simp: lx_match_def lx_at_end_rest) (auto simp: lx_rest_def hd_drop_conv_nth)

lemma lx_unread_rest: "lx_rest lx = c # r \<Longrightarrow> lx_rest (lx_unread (snd (lx_advance lx))) = lx_rest lx"
  by (simp add: lx_rest_def lx_unread_def)

definition ident_char :: "char \<Rightarrow> bool" where
  "ident_char c \<longleftrightarrow> is_alnum c \<or> c = CHR ''_''"

lemma scan_ident_chars_rest:
  assumes "lx_rest lx = w @ r" "list_all ident_char w" "r = [] \<or> \<not> ident_char (hd r)"
  shows "lx_rest (scan_ident_chars lx) = r \<and> lx_source (scan_ident_chars lx) = lx_source lx \<and> lx_current (scan_ident_chars lx) = lx_current lx + length w"
  using assms
proof (induction w arbitrary: lx)
  case Nil
  have "\<not> (is_alnum (lx_peek lx) \<or> lx_peek lx = CHR ''_'')"
    using Nil nul_class by (cases r) (auto simp: lx_peek_rest ident_char_def)
  then show ?case using Nil by (subst (1 2 3) scan_ident_chars.simps) simp
next
  case (Cons c w)
  then have "is_alnum (lx_peek lx) \<or> lx_peek lx = CHR ''_''" by (auto simp: lx_peek_rest ident_char_def)
  then have e: "scan_ident_chars lx = scan_ident_chars (snd (lx_advance lx))" by (subst scan_ident_chars.simps) simp
  have "lx_rest (snd (lx_advance lx)) = w @ r" using Cons.prems by (simp add: lx_advance_rest)
  from Cons.IH [OF this] Cons.prems show ?case unfolding e by simp
qed

lemma scan_digits_rest:
  assumes "lx_rest lx = w @ r" "list_all is_digit w" "r = [] \<or> \<not> is_digit (hd r)"
  shows "lx_rest (scan_digits lx) = r \<and> lx_source (scan_digits lx) = lx_source lx \<and> lx_current (scan_digits lx) = lx_current lx + length w"
  using assms
proof (induction w arbitrary: lx)
  case Nil
  have "\<not> is_digit (lx_peek lx)" using Nil nul_class by (cases r) (auto simp: lx_peek_rest)
  then show ?case using Nil by (subst (1 2 3) scan_digits.simps) simp
next
  case (Cons c w)
  then have "is_digit (lx_peek lx)" by (auto simp: lx_peek_rest)
  then have e: "scan_digits lx = scan_digits (snd (lx_advance lx))" by (subst scan_digits.simps) simp
  have "lx_rest (snd (lx_advance lx)) = w @ r" using Cons.prems by (simp add: lx_advance_rest)
  from Cons.IH [OF this] Cons.prems show ?case unfolding e by simp
qed

fun quote_text :: "string \<Rightarrow> string" where
  "quote_text [] = []"
| "quote_text (c # s) = (if c = CHR 0x27 then [c, c] else [c]) @ quote_text s"

lemma scan_string_rest:
  assumes "lx_rest lx = quote_text s @ CHR 0x27 # r" "r = [] \<or> hd r \<noteq> CHR 0x27"
  shows "\<exists>lx'. scan_string_chars acc lx = (lx', Some (acc @ s)) \<and> lx_rest lx' = r \<and> lx_source lx' = lx_source lx"
  using assms
proof (induction s arbitrary: lx acc)
  case Nil
  have "lx_peek_next lx \<noteq> CHR 0x27" using Nil by (cases r) (auto simp: lx_peek_next_rest)
  then show ?case using Nil by (subst scan_string_chars.simps) (simp add: lx_at_end_rest lx_peek_rest lx_advance_rest)
next
  case (Cons c s)
  show ?case
  proof (cases "c = CHR 0x27")
    case True
    let ?l = "snd (lx_advance (snd (lx_advance lx)))"
    have "lx_rest ?l = quote_text s @ CHR 0x27 # r" using Cons.prems True by (simp add: lx_advance_rest)
    moreover have "scan_string_chars acc lx = scan_string_chars (acc @ [c]) ?l"
      using Cons.prems True by (subst scan_string_chars.simps) (simp add: lx_at_end_rest lx_peek_rest lx_peek_next_rest)
    ultimately show ?thesis using Cons.IH [of ?l "acc @ [c]"] Cons.prems(2) by simp
  next
    case False
    let ?l = "snd (lx_advance lx)"
    have r: "lx_rest lx = c # quote_text s @ CHR 0x27 # r" using Cons.prems False by simp
    have "lx_rest ?l = quote_text s @ CHR 0x27 # r" using r by (simp add: lx_advance_rest)
    moreover have "scan_string_chars acc lx = scan_string_chars (acc @ [c]) ?l"
      using r False lx_advance_char [OF r] by (subst scan_string_chars.simps) (auto simp: lx_at_end_rest lx_peek_rest split: prod.split)
    ultimately show ?thesis using Cons.IH [of ?l "acc @ [c]"] Cons.prems(2) by simp
  qed
qed

lemma scan_quoted_rest:
  assumes "lx_rest lx = s @ CHR 0x22 # r" "CHR 0x22 \<notin> set s"
  shows "\<exists>lx'. scan_quoted_chars acc lx = (lx', acc @ s) \<and> lx_rest lx' = CHR 0x22 # r \<and> lx_source lx' = lx_source lx"
  using assms
proof (induction s arbitrary: lx acc)
  case Nil
  then show ?case by (subst scan_quoted_chars.simps) (simp add: lx_at_end_rest lx_peek_rest)
next
  case (Cons c s)
  let ?l = "snd (lx_advance lx)"
  have r: "lx_rest lx = c # s @ CHR 0x22 # r" using Cons.prems by simp
  have "lx_rest ?l = s @ CHR 0x22 # r" using r by (simp add: lx_advance_rest)
  moreover have "scan_quoted_chars acc lx = scan_quoted_chars (acc @ [c]) ?l"
    using r Cons.prems lx_advance_char [OF r] by (subst scan_quoted_chars.simps) (auto simp: lx_at_end_rest lx_peek_rest split: prod.split)
  ultimately show ?case using Cons.IH [of ?l "acc @ [c]"] Cons.prems(2) by simp
qed

section \<open>How tokens are written\<close>

definition symbols :: "(string \<times> token_type) list" where
  "symbols = [(''('', TK_LeftParen), ('')'', TK_RightParen), ('','', TK_Comma), (''.'', TK_Dot), ('';'', TK_Semicolon),
     (''+'', TK_Plus), (''-'', TK_Minus), (''*'', TK_Star), (''/'', TK_Slash), (''=='', TK_Equal), (''='', TK_Equal),
     (''!='', TK_NotEqual), (''<='', TK_LessEqual), (''<>'', TK_NotEqual), (''<'', TK_Less), (''>='', TK_GreaterEqual),
     (''>'', TK_Greater), (''||'', TK_Concat)]"

definition ident_text :: "string \<Rightarrow> bool" where
  "ident_text w \<longleftrightarrow> w \<noteq> [] \<and> (is_alpha (hd w) \<or> hd w = CHR ''_'') \<and> list_all ident_char w"

text \<open>A token of a type and a lexeme can be written as the text \<open>w\<close>. Keywords may be written in any case.\<close>

inductive spells :: "string \<Rightarrow> token_type \<times> string \<Rightarrow> bool" where
  ident: "ident_text w \<Longrightarrow> map_of k_keywords (keyword_to_upper w) = None \<Longrightarrow> spells w (TK_Identifier, w)"
| kw: "ident_text w \<Longrightarrow> map_of k_keywords (keyword_to_upper w) = Some t \<Longrightarrow> spells w (t, keyword_to_upper w)"
| int: "w \<noteq> [] \<Longrightarrow> list_all is_digit w \<Longrightarrow> spells w (TK_IntegerLiteral, w)"
| float: "x \<noteq> [] \<Longrightarrow> y \<noteq> [] \<Longrightarrow> list_all is_digit x \<Longrightarrow> list_all is_digit y \<Longrightarrow> spells (x @ CHR ''.'' # y) (TK_FloatLiteral, x @ CHR ''.'' # y)"
| str: "spells (CHR 0x27 # quote_text s @ [CHR 0x27]) (TK_StringLiteral, s)"
| quoted: "CHR 0x22 \<notin> set s \<Longrightarrow> spells (CHR 0x22 # s @ [CHR 0x22]) (TK_QuotedIdentifier, s)"
| symbol: "(s, t) \<in> set symbols \<Longrightarrow> spells s (t, s)"

definition is_blank :: "char \<Rightarrow> bool" where
  "is_blank c \<longleftrightarrow> c = CHR '' '' \<or> c = CHR 0x0D \<or> c = CHR 0x09 \<or> c = CHR 0x0A"

lemma char_class:
  "is_digit c \<Longrightarrow> is_alnum c" "is_alpha c \<Longrightarrow> is_alnum c" "is_blank c \<Longrightarrow> \<not> ident_char c" "is_blank c \<Longrightarrow> \<not> is_digit c"
  by (auto simp: is_alnum_def is_blank_def ident_char_def is_alpha_def is_digit_def)

text \<open>What \<open>scan_token\<close> does with a first character that is no symbol.\<close>

lemma scan_token_class:
  assumes "lx_rest lx = c # r"
  shows "is_digit c \<Longrightarrow> scan_token lx = scan_number (lx_unread (snd (lx_advance lx)))"
    "is_alpha c \<or> c = CHR ''_'' \<Longrightarrow> scan_token lx = scan_identifier_or_keyword (lx_unread (snd (lx_advance lx)))"
    "c = CHR 0x27 \<Longrightarrow> scan_token lx = scan_string_literal (snd (lx_advance lx))"
    "c = CHR 0x22 \<Longrightarrow> scan_token lx = scan_quoted_identifier (snd (lx_advance lx))"
proof -
  obtain lx1 where a: "lx_advance lx = (c, lx1)" using lx_advance_char [OF assms] by blast
  let ?S = "set ''().,;+-*/=!<>|''"
  show "scan_token lx = scan_number (lx_unread (snd (lx_advance lx)))" if "is_digit c"
  proof -
    have "c \<notin> ?S" "c \<noteq> CHR 0x27" "c \<noteq> CHR 0x22" using that by (auto simp: is_digit_def)
    then show ?thesis using that by (simp add: scan_token_def a)
  qed
  show "scan_token lx = scan_identifier_or_keyword (lx_unread (snd (lx_advance lx)))" if "is_alpha c \<or> c = CHR ''_''"
  proof -
    have "c \<notin> ?S" "c \<noteq> CHR 0x27" "c \<noteq> CHR 0x22" "\<not> is_digit c" using that by (auto simp: is_digit_def is_alpha_def)
    then show ?thesis using that by (simp add: scan_token_def a)
  qed
  show "scan_token lx = scan_string_literal (snd (lx_advance lx))" if "c = CHR 0x27" using that by (simp add: scan_token_def a)
  show "scan_token lx = scan_quoted_identifier (snd (lx_advance lx))" if "c = CHR 0x22" using that by (simp add: scan_token_def a)
qed

lemma lx_text_scanned:
  assumes "lx_source lx' = lx_source lx" "lx_current lx' = lx_current lx + length w" "lx_rest lx = w @ r"
  shows "lx_text (lx_current lx) lx' = w"
  using assms by (simp add: lx_text_def lx_rest_def)

lemma scan_spelled_ident:
  assumes "lx_rest lx = w @ r" "ident_text w" "r = [] \<or> \<not> ident_char (hd r)"
  shows "\<exists>lx' loc. scan_token lx = (lx', Inr (case map_of k_keywords (keyword_to_upper w) of
      Some t \<Rightarrow> Token_init t (keyword_to_upper w) loc | None \<Rightarrow> Token_init TK_Identifier w loc)) \<and> lx_rest lx' = r"
proof -
  obtain c w' where w: "w = c # w'" "is_alpha c \<or> c = CHR ''_''" "list_all ident_char w" using assms(2) by (cases w) (auto simp: ident_text_def)
  have r: "lx_rest lx = c # w' @ r" using assms(1) w(1) by simp
  let ?l = "lx_unread (snd (lx_advance lx))"
  have l: "lx_rest ?l = w @ r" using lx_unread_rest [OF r] assms(1) by simp
  note S = scan_ident_chars_rest [OF l w(3) assms(3)]
  have "lx_text (lx_current ?l) (scan_ident_chars ?l) = w" using lx_text_scanned [of "scan_ident_chars ?l" ?l w r] S l by simp
  then show ?thesis using scan_token_class(2) [OF r w(2)] S
    by (auto simp: scan_identifier_or_keyword_def Let_def split: option.split)
qed

lemma scan_spelled_int:
  assumes "lx_rest lx = w @ r" "w \<noteq> []" "list_all is_digit w" "r = [] \<or> \<not> is_digit (hd r) \<and> hd r \<noteq> CHR ''.''"
  shows "\<exists>lx' loc. scan_token lx = (lx', Inr (Token_init TK_IntegerLiteral w loc)) \<and> lx_rest lx' = r"
proof -
  obtain c w' where w: "w = c # w'" "is_digit c" using assms(2,3) by (cases w) auto
  have r: "lx_rest lx = c # w' @ r" using assms(1) w(1) by simp
  let ?l = "lx_unread (snd (lx_advance lx))"
  have l: "lx_rest ?l = w @ r" using lx_unread_rest [OF r] assms(1) by simp
  have "r = [] \<or> \<not> is_digit (hd r)" using assms(4) by blast
  note S = scan_digits_rest [OF l assms(3) this]
  have "lx_peek (scan_digits ?l) \<noteq> CHR ''.''" using S assms(4) by (cases r) (auto simp: lx_peek_rest)
  then show ?thesis using scan_token_class(1) [OF r w(2)] S lx_text_scanned [of "scan_digits ?l" ?l w r] l
    by (simp add: scan_number_def Let_def) blast
qed

lemma scan_spelled_float:
  assumes "lx_rest lx = (a @ CHR ''.'' # b) @ r" "a \<noteq> []" "b \<noteq> []" "list_all is_digit a" "list_all is_digit b" "r = [] \<or> \<not> is_digit (hd r)"
  shows "\<exists>lx' loc. scan_token lx = (lx', Inr (Token_init TK_FloatLiteral (a @ CHR ''.'' # b) loc)) \<and> lx_rest lx' = r"
proof -
  obtain c a' where a: "a = c # a'" "is_digit c" using assms(2,4) by (cases a) auto
  have r: "lx_rest lx = c # a' @ CHR ''.'' # b @ r" using assms(1) a(1) by simp
  let ?l = "lx_unread (snd (lx_advance lx))"
  have l: "lx_rest ?l = a @ CHR ''.'' # b @ r" using lx_unread_rest [OF r] assms(1) by simp
  have nd: "\<not> is_digit (CHR ''.'')" by (simp add: is_digit_def)
  note S = scan_digits_rest [OF l assms(4)]
  let ?m = "snd (lx_advance (scan_digits ?l))"
  have m: "lx_rest ?m = b @ r" using S nd by (simp add: lx_advance_rest)
  note B = scan_digits_rest [OF m assms(5,6)]
  have fl: "lx_peek (scan_digits ?l) = CHR ''.'' \<and> is_digit (lx_peek_next (scan_digits ?l))"
    using S nd assms(3,5) by (cases b) (auto simp: lx_peek_rest lx_peek_next_rest)
  have "lx_text (lx_current ?l) (scan_digits ?m) = a @ CHR ''.'' # b"
    by (rule lx_text_scanned [where r = r]) (use S B nd l in simp_all)
  then show ?thesis using scan_token_class(1) [OF r a(2)] B fl by (simp add: scan_number_def Let_def) blast
qed

lemma scan_spelled_symbol:
  assumes "lx_rest lx = s @ r" "(s, t) \<in> set symbols" "r \<noteq> []" "is_blank (hd r)"
  shows "\<exists>lx' loc. scan_token lx = (lx', Inr (Token_init t s loc)) \<and> lx_rest lx' = r"
proof -
  obtain c s' where s: "s = c # s'" using assms(2) by (auto simp: symbols_def)
  have "lx_rest lx = c # s' @ r" using assms(1) s by simp
  from lx_advance_char [OF this] obtain lx1 where a: "lx_advance lx = (c, lx1)" by blast
  have r1: "lx_rest lx1 = s' @ r" using lx_advance_rest [of lx] assms(1) s a by simp
  have nb: "hd r \<notin> {CHR ''='', CHR ''>'', CHR ''|''}" using assms(4) by (auto simp: is_blank_def)
  note S = assms(2) [unfolded symbols_def s, simplified]
  have "\<exists>lx'. scan_token lx = (lx', Inr (Token_init t s (lx_loc lx1))) \<and> lx_rest lx' = r" using S
    by (elim disjE; use nb r1 assms(3) in \<open>simp add: s scan_token_def a lx_match_rest lx_advance_rest\<close>)
  then show ?thesis by blast
qed

lemma scan_spelled:
  assumes "lx_rest lx = w @ b # r" "spells w t" "is_blank b"
  shows "\<exists>lx' loc. scan_token lx = (lx', Inr (Token_init (fst t) (snd t) loc)) \<and> lx_rest lx' = b # r"
proof -
  note b = char_class(3,4) [OF assms(3)]
  have nb: "b \<noteq> CHR ''.''" "b \<noteq> CHR 0x27" using assms(3) by (auto simp: is_blank_def)
  from assms(2) show ?thesis
  proof cases
    case ident
    then show ?thesis using scan_spelled_ident [OF assms(1) ident(2)] b by simp
  next
    case (kw t)
    then show ?thesis using scan_spelled_ident [OF assms(1) kw(2)] b by simp
  next
    case int
    then show ?thesis using scan_spelled_int [OF assms(1) int(2,3)] b nb by simp
  next
    case (float x y)
    then show ?thesis using scan_spelled_float [OF assms(1) [unfolded float(1)] float(3-6)] b by simp
  next
    case (str s)
    have r: "lx_rest lx = CHR 0x27 # quote_text s @ CHR 0x27 # b # r" using assms(1) str by simp
    have "lx_rest (snd (lx_advance lx)) = quote_text s @ CHR 0x27 # b # r" using r by (simp add: lx_advance_rest)
    from scan_string_rest [OF this, of "[]"] nb obtain lx' where "scan_string_chars [] (snd (lx_advance lx)) = (lx', Some s)" "lx_rest lx' = b # r" by auto
    then show ?thesis using scan_token_class(3) [OF r refl] str(2) by (simp add: scan_string_literal_def) blast
  next
    case (quoted s)
    have r: "lx_rest lx = CHR 0x22 # s @ CHR 0x22 # b # r" using assms(1) quoted by simp
    have "lx_rest (snd (lx_advance lx)) = s @ CHR 0x22 # b # r" using r by (simp add: lx_advance_rest)
    from scan_quoted_rest [OF this quoted(3), of "[]"] obtain lx' where "scan_quoted_chars [] (snd (lx_advance lx)) = (lx', s)" "lx_rest lx' = CHR 0x22 # b # r" by auto
    then show ?thesis using scan_token_class(4) [OF r refl] quoted(2) by (simp add: scan_quoted_identifier_def lx_at_end_rest lx_advance_rest) blast
  next
    case (symbol t)
    then show ?thesis using scan_spelled_symbol [OF assms(1), of t] assms(3) by simp
  qed
qed

text \<open>Blanks are skipped, and no token starts like a comment.\<close>

lemma skip_blank: "lx_rest lx = b # r \<Longrightarrow> is_blank b \<Longrightarrow> skip_whitespace_and_comments lx = skip_whitespace_and_comments (snd (lx_advance lx))"
  by (subst skip_whitespace_and_comments.simps) (simp add: lx_peek_rest is_blank_def Let_def)

lemma skip_blanks:
  assumes "lx_rest lx = bs @ r" "list_all is_blank bs"
  shows "\<exists>lx'. skip_whitespace_and_comments lx = skip_whitespace_and_comments lx' \<and> lx_rest lx' = r"
  using assms
proof (induction bs arbitrary: lx)
  case (Cons b bs)
  have "lx_rest (snd (lx_advance lx)) = bs @ r" using Cons.prems by (simp add: lx_advance_rest)
  from Cons.IH [OF this] Cons.prems skip_blank [of lx b "bs @ r"] show ?case by simp
qed auto

lemma spelled_start:
  assumes "spells w t"
  shows "\<exists>c w'. w = c # w' \<and> \<not> is_blank c \<and> (c = CHR ''-'' \<or> c = CHR ''/'' \<longrightarrow> w' = [])"
  using assms
proof cases
  case (symbol t)
  note S = symbol(2) [unfolded symbols_def, simplified]
  show ?thesis using S by (elim disjE; simp add: is_blank_def)
next
  case (float x y)
  then show ?thesis by (cases x) (auto simp: is_blank_def is_digit_def)
qed (auto simp: ident_text_def neq_Nil_conv is_blank_def is_digit_def is_alpha_def)

lemma skip_spelled:
  assumes "lx_rest lx = w @ b # r" "spells w t" "is_blank b"
  shows "skip_whitespace_and_comments lx = lx"
proof -
  obtain c w' where w: "w = c # w'" "\<not> is_blank c" "c = CHR ''-'' \<or> c = CHR ''/'' \<longrightarrow> w' = []" using spelled_start [OF assms(2)] by blast
  have nb: "b \<noteq> CHR ''-''" "b \<noteq> CHR ''*''" using assms(3) by (auto simp: is_blank_def)
  show ?thesis using assms(1) w nb
    by (subst skip_whitespace_and_comments.simps) (auto simp: lx_peek_rest lx_peek_next_rest is_blank_def Let_def)
qed

text \<open>The text of a list of words, each followed by its blanks.\<close>

definition spaced :: "(string \<times> string) list \<Rightarrow> string" where
  "spaced ws = concat (map (\<lambda>(w, bs). w @ bs) ws)"

definition token_view :: "token \<Rightarrow> token_type \<times> string" where
  "token_view t = (tk_type t, tk_lexeme t)"

lemma token_view_init [simp]: "token_view (Token_init t s loc) = (t, s)"
  by (simp add: token_view_def Token_init_def)

lemma tokenize_loop_spells:
  assumes "list_all2 (\<lambda>(w, bs) t. spells w t \<and> bs \<noteq> [] \<and> list_all is_blank bs) ws ts"
    "lx_rest lx = pre @ spaced ws" "list_all is_blank pre"
  shows "\<exists>toks. tokenize_loop acc lx = Inr (acc @ toks) \<and> map token_view toks = ts @ [(TK_Eof, [])]"
  using assms
proof (induction ws ts arbitrary: acc lx pre rule: list_all2_induct)
  case Nil
  then obtain lx' where s: "skip_whitespace_and_comments lx = skip_whitespace_and_comments lx'" "lx_rest lx' = []"
    using skip_blanks [of lx pre "[]"] by (auto simp: spaced_def)
  have "skip_whitespace_and_comments lx' = lx'" using s(2) by (subst skip_whitespace_and_comments.simps) (simp add: lx_peek_rest)
  then show ?case using s by (subst tokenize_loop.simps) (auto simp: lx_at_end_rest)
next
  case (Cons p ws t ts)
  obtain w bs where p: "p = (w, bs)" by fastforce
  then have w: "spells w t" "bs \<noteq> []" "list_all is_blank bs" using Cons.hyps(1) by simp_all
  then obtain b bs' where bs: "bs = b # bs'" "is_blank b" by (cases bs) auto
  obtain lx' where s: "skip_whitespace_and_comments lx = skip_whitespace_and_comments lx'" "lx_rest lx' = w @ b # bs' @ spaced ws"
    using skip_blanks [OF Cons.prems(1,2)] by (auto simp: spaced_def p bs)
  have k: "skip_whitespace_and_comments lx' = lx'" by (rule skip_spelled [OF s(2) w(1) bs(2)])
  obtain lx2 loc where t: "scan_token lx' = (lx2, Inr (Token_init (fst t) (snd t) loc))" "lx_rest lx2 = b # bs' @ spaced ws"
    using scan_spelled [OF s(2) w(1) bs(2)] by blast
  have ne: "lx_rest lx \<noteq> []" "lx_rest lx' \<noteq> []" using Cons.prems(1) s(2) by (auto simp: spaced_def p bs)
  have e: "tokenize_loop acc lx = tokenize_loop (acc @ [Token_init (fst t) (snd t) loc]) lx2"
    using ne s(1) k t(1) by (subst tokenize_loop.simps) (simp add: lx_at_end_rest Let_def)
  have "lx_rest lx2 = bs @ spaced ws" using t(2) bs(1) by simp
  from Cons.IH [OF this w(3), of "acc @ [Token_init (fst t) (snd t) loc]"] obtain toks where
    "tokenize_loop acc lx = Inr (acc @ [Token_init (fst t) (snd t) loc] @ toks)" "map token_view toks = ts @ [(TK_Eof, [])]" using e by auto
  then show ?case by (intro exI [of _ "Token_init (fst t) (snd t) loc # toks"]) simp
qed

definition token_offset :: "token \<Rightarrow> nat" where
  "token_offset t = sl_offset (tk_location t)"

text \<open>The tokens found from a position on, and the end of file token behind them.\<close>

definition tokens_from :: "lexer \<Rightarrow> token list \<Rightarrow> token \<Rightarrow> bool" where
  "tokens_from lx new eof \<longleftrightarrow> tk_type eof = TK_Eof \<and> tk_lexeme eof = [] \<and> list_all (\<lambda>t. tk_type t \<in> token_types) new \<and> length new \<le> lx_left lx \<and>
     sorted (lx_current lx # map token_offset (new @ [eof])) \<and> token_offset eof \<le> length (lx_source lx)"

lemma tokens_from_Cons:
  assumes m: "lx_moves lx lx1" "lx_current lx < lx_current lx1" "lx_current lx1 \<le> length (lx_source lx)"
    and t: "tk_type t \<in> token_types" "lx_current lx \<le> token_offset t" "token_offset t \<le> lx_current lx1" and new: "tokens_from lx1 new eof"
  shows "tokens_from lx (t # new) eof"
proof -
  have "lx_source lx1 = lx_source lx" using m(1) by (simp add: lx_moves_def)
  then show ?thesis using m(2,3) t new by (auto simp: tokens_from_def)
qed

lemma tokens_from_skip: "lx_moves lx lx1 \<Longrightarrow> tokens_from lx1 new eof \<Longrightarrow> tokens_from lx new eof"
  by (auto simp: tokens_from_def lx_moves_def)

lemma tokenize_loop_tokens:
  assumes "lx_current lx \<le> length (lx_source lx)" "sl_offset (lx_loc lx) = lx_current lx" "tokenize_loop acc lx = Inr toks"
  shows "\<exists>new eof. toks = acc @ new @ [eof] \<and> tokens_from lx new eof"
  using assms
proof (induction acc lx rule: tokenize_loop.induct)
  case (1 acc lx)
  let ?lx = "skip_whitespace_and_comments lx"
  have m: "lx_moves lx ?lx" by (rule skip_moves)
  have o: "lx_current ?lx \<le> length (lx_source ?lx)" "sl_offset (lx_loc ?lx) = lx_current ?lx" using m 1(2,3) by (simp_all add: lx_moves_def)
  show ?case
  proof (cases "lx_is_at_end lx \<or> lx_is_at_end ?lx")
    case True
    have e: "tokens_from l [] (Token_init TK_Eof [] (lx_loc l))" if "lx_current l \<le> length (lx_source l)" "sl_offset (lx_loc l) = lx_current l" for l
      using that by (simp add: tokens_from_def token_offset_def)
    show ?thesis
    proof (cases "lx_is_at_end lx")
      case True
      then show ?thesis using 1(4) e [OF 1(2,3)] by (subst (asm) tokenize_loop.simps) auto
    next
      case False
      then show ?thesis using True 1(4) tokens_from_skip [OF m e [OF o]] by (subst (asm) tokenize_loop.simps) auto
    qed
  next
    case False
    then have f: "\<not> lx_is_at_end lx" "\<not> lx_is_at_end ?lx" by simp_all
    obtain lx1 r where s: "scan_token ?lx = (lx1, r)" by fastforce
    obtain t where r: "r = Inr t" using 1(4) f s by (subst (asm) tokenize_loop.simps) (auto split: sum.splits)
    have loop: "tokenize_loop (acc @ [t]) lx1 = Inr toks" using 1(4) f s r by (subst (asm) tokenize_loop.simps) simp
    have lt: "lx_current ?lx < length (lx_source ?lx)" using f(2) by (simp add: not_at_end)
    note P = scan_token_progress [OF lt s]
    obtain c l where a: "lx_advance ?lx = (c, l)" by fastforce
    note T = scan_token_result [OF s [unfolded r] a]
    have "token_offset t = lx_current ?lx + 1 \<or> token_offset t = lx_current ?lx"
      using T(2) lx_unread_advance(3) [OF a lt] lx_advance_pair [OF a] by (auto simp: token_offset_def)
    then have ot: "lx_current ?lx \<le> token_offset t" "token_offset t \<le> lx_current lx1" using P(2) by auto
    have o1: "lx_current lx1 \<le> length (lx_source lx1)" "sl_offset (lx_loc lx1) = lx_current lx1" "lx_source lx1 = lx_source ?lx"
      using P(1) o by (simp_all add: lx_moves_def)
    from 1(1) [OF f(1) refl f(2) s [symmetric] r o1(1,2) loop] obtain new eof where
      n: "toks = (acc @ [t]) @ new @ [eof]" "tokens_from lx1 new eof" by blast
    have "tokens_from ?lx (t # new) eof" by (rule tokens_from_Cons [OF P _ T(1) ot n(2)]) (use o1 in simp)
    from tokens_from_skip [OF m this] n(1) show ?thesis by (metis append.assoc append_Cons append_Nil)
  qed
qed

section \<open>Properties\<close>

text \<open>C12. Words are read as the tokens they spell. Write each token of a sequence in any of its spellings (keywords
  in any case, texts with doubled quotes) and put blanks behind it: tokenizing the result gives the
  types and lexemes of that sequence, followed by the end of file token.\<close>
theorem tokenize_spells:
  assumes "list_all2 (\<lambda>(w, bs) t. spells w t \<and> bs \<noteq> [] \<and> list_all is_blank bs) ws ts"
  shows "\<exists>toks. tokenize (spaced ws) = Inr toks \<and> map token_view toks = ts @ [(TK_Eof, [])]"
  using tokenize_loop_spells [OF assms, of "Lexer_init (spaced ws)" "[]" "[]"] by (simp add: tokenize_def Lexer_init_def lx_rest_def)

theorem tokenize_spells_witness:
  "\<exists>toks. tokenize ''select x1 , 12 '' = Inr toks \<and>
     map token_view toks = [(TK_Select, ''SELECT''), (TK_Identifier, ''x1''), (TK_Comma, '',''), (TK_IntegerLiteral, ''12''), (TK_Eof, [])]"
proof -
  let ?ws = "[(''select'', '' ''), (''x1'', '' ''), ('','', '' ''), (''12'', '' '')]"
  let ?ts = "[(TK_Select, ''SELECT''), (TK_Identifier, ''x1''), (TK_Comma, '',''), (TK_IntegerLiteral, ''12'')]"
  have u: "keyword_to_upper ''select'' = ''SELECT''" "keyword_to_upper ''x1'' = ''X1''" by code_simp+
  have i: "ident_text ''select''" "ident_text ''x1''" by (simp_all add: ident_text_def ident_char_def is_alnum_def is_alpha_def is_digit_def)
  have "spells ''select'' (TK_Select, ''SELECT'')" using spells.kw [OF i(1), of TK_Select] u by (simp add: k_keywords_def)
  moreover have "spells ''x1'' (TK_Identifier, ''x1'')" using spells.ident [OF i(2)] u by (simp add: k_keywords_def)
  moreover have "spells '','' (TK_Comma, '','')" by (rule spells.symbol) (simp add: symbols_def)
  moreover have "spells ''12'' (TK_IntegerLiteral, ''12'')" by (rule spells.int) (simp_all add: is_digit_def)
  ultimately have "list_all2 (\<lambda>(w, bs) t. spells w t \<and> bs \<noteq> [] \<and> list_all is_blank bs) ?ws ?ts" by (simp add: is_blank_def)
  from tokenize_spells [OF this] show ?thesis by (simp add: spaced_def)
qed



end
