(* ===== verification/Sql_Parser.thy ===== *)
theory Sql_Parser
  imports Catalog Sql_Lexer
begin

text \<open>
  \<open>sql/parser.cpp\<close>, \<open>sql/ast/\<close>: tokens to statements. The nodes of the syntax tree are datatypes; the
  location of a node is never set by the parser and left out, and a visitor is a function on the datatype.
  The parser reads a vector of tokens through an index. Its steps are functions from the parser to an
  outcome and the parser afterwards; reading the vector out of bounds, which C++ leaves undefined, is an outcome of
  its own, as is an exception. The recursive descent has a fuel argument, \<open>None\<close> when it runs out; the
  fuel given by \<open>parse_statement\<close> always suffices.
\<close>

section \<open>Syntax trees\<close>

datatype expression =
    IdentifierExpression string
  | BinaryExpression expression token_type expression
  | UnaryExpression token_type expression
  | FunctionCallExpression string "expression list" bool
  | ParameterExpression string
  | LiteralExpression sql_value

record result_column =
  rc_expr :: expression
  rc_alias :: string

record table_reference =
  tr_table_name :: string
  tr_alias :: string

datatype statement =
    SelectStatement "result_column list" "table_reference list" "expression option"
  | InsertStatement string "string list" "expression list list"
  | CreateTableStatement string "cat_column list"

section \<open>The formatter\<close>

fun comma_separated :: "string list \<Rightarrow> string" where
  "comma_separated [] = ''''"
| "comma_separated [s] = s"
| "comma_separated (s # ss) = s @ '', '' @ comma_separated ss"

fun format_expression :: "expression \<Rightarrow> string" where
  "format_expression (IdentifierExpression n) = n"
| "format_expression (BinaryExpression l op r) = format_expression l @ '' '' @ token_type_to_string op @ '' '' @ format_expression r"
| "format_expression (UnaryExpression op e) = token_type_to_string op @ '' '' @ format_expression e"
| "format_expression (FunctionCallExpression n args is_distinct) =
     n @ ''('' @ (if is_distinct then ''DISTINCT '' else '''') @ comma_separated (map format_expression args) @ '')''"
| "format_expression (ParameterExpression n) = n"
| "format_expression (LiteralExpression v) = ''?LITERAL?''"

definition format_column :: "result_column \<Rightarrow> string" where
  "format_column c = format_expression (rc_expr c) @ (if rc_alias c \<noteq> [] then '' AS '' @ rc_alias c else '''')"

definition format_table :: "table_reference \<Rightarrow> string" where
  "format_table t = tr_table_name t @ (if tr_alias t \<noteq> [] then '' '' @ tr_alias t else '''')"

fun format_statement :: "statement \<Rightarrow> string" where
  "format_statement (SelectStatement projection tables where_clause) =
     ''SELECT '' @ comma_separated (map format_column projection) @
     (if tables \<noteq> [] then '' FROM '' @ comma_separated (map format_table tables) else '''') @
     (case where_clause of None \<Rightarrow> '''' | Some e \<Rightarrow> '' WHERE '' @ format_expression e)"
| "format_statement (InsertStatement n cols rows) = ''''"
| "format_statement (CreateTableStatement n cols) = ''''"

section \<open>Precedence\<close>

datatype precedence = Prec_None | Prec_Assignment | Prec_Or | Prec_And | Prec_Equality | Prec_Comparison | Prec_Term | Prec_Factor
  | Prec_Unary | Prec_Call | Prec_Primary

primrec prec_rank :: "precedence \<Rightarrow> nat" where
  "prec_rank Prec_None = 0"
| "prec_rank Prec_Assignment = 1"
| "prec_rank Prec_Or = 2"
| "prec_rank Prec_And = 3"
| "prec_rank Prec_Equality = 4"
| "prec_rank Prec_Comparison = 5"
| "prec_rank Prec_Term = 6"
| "prec_rank Prec_Factor = 7"
| "prec_rank Prec_Unary = 8"
| "prec_rank Prec_Call = 9"
| "prec_rank Prec_Primary = 10"

instantiation precedence :: linorder
begin

definition less_eq_precedence :: "precedence \<Rightarrow> precedence \<Rightarrow> bool" where
  "less_eq_precedence p q \<longleftrightarrow> prec_rank p \<le> prec_rank q"

definition less_precedence :: "precedence \<Rightarrow> precedence \<Rightarrow> bool" where
  "less_precedence p q \<longleftrightarrow> prec_rank p < prec_rank q"

instance
proof
  show "p = q" if "p \<le> q" "q \<le> p" for p q :: precedence
    using that by (cases p; cases q) (simp_all add: less_eq_precedence_def)
qed (auto simp: less_eq_precedence_def less_precedence_def)

end

definition get_precedence :: "token_type \<Rightarrow> precedence" where
  "get_precedence t =
     (if t = TK_Or then Prec_Or
      else if t = TK_And then Prec_And
      else if t \<in> {TK_Equal, TK_NotEqual, TK_Is, TK_In, TK_Like} then Prec_Equality
      else if t \<in> {TK_Less, TK_LessEqual, TK_Greater, TK_GreaterEqual} then Prec_Comparison
      else if t \<in> {TK_Plus, TK_Minus, TK_Concat} then Prec_Term
      else if t \<in> {TK_Star, TK_Slash, TK_Percent} then Prec_Factor
      else Prec_None)"

section \<open>Parser steps\<close>

record parser =
  ps_tokens :: "token list"
  ps_current :: nat

datatype fault = Out_of_bounds | Thrown exn | Failed status

type_synonym 'a step = "parser \<Rightarrow> ((fault + 'a) \<times> parser) option"

definition p_return :: "'a \<Rightarrow> 'a step" where "p_return x p = Some (Inr x, p)"

definition p_fail :: "fault \<Rightarrow> 'a step" where "p_fail e p = Some (Inl e, p)"

definition p_bind :: "'a step \<Rightarrow> ('a \<Rightarrow> 'b step) \<Rightarrow> 'b step" where
  "p_bind m f p = (case m p of None \<Rightarrow> None | Some (Inl e, p) \<Rightarrow> Some (Inl e, p) | Some (Inr x, p) \<Rightarrow> f x p)"

definition Parser_init :: "string \<Rightarrow> parser" where
  "Parser_init sql = \<lparr>ps_tokens = (case tokenize sql of Inl _ \<Rightarrow> [] | Inr ts \<Rightarrow> ts), ps_current = 0\<rparr>"

definition token_at :: "nat \<Rightarrow> token step" where
  "token_at i p = (if i < length (ps_tokens p) then p_return (ps_tokens p ! i) p else p_fail Out_of_bounds p)"

definition p_peek :: "token step" where "p_peek p = token_at (ps_current p) p"

definition p_previous :: "token step" where
  "p_previous p = (if ps_current p = 0 then p_fail Out_of_bounds p else token_at (ps_current p - 1) p)"

definition p_is_at_end :: "bool step" where
  "p_is_at_end = p_bind p_peek (\<lambda>t. p_return (tk_type t = TK_Eof))"

definition p_check :: "token_type \<Rightarrow> bool step" where
  "p_check ty = p_bind p_is_at_end (\<lambda>e. if e then p_return False else p_bind p_peek (\<lambda>t. p_return (tk_type t = ty)))"

definition p_advance :: "token step" where
  "p_advance = p_bind p_is_at_end (\<lambda>e p. p_previous (if e then p else p\<lparr>ps_current := ps_current p + 1\<rparr>))"

definition p_match :: "token_type \<Rightarrow> bool step" where
  "p_match ty = p_bind (p_check ty) (\<lambda>b. if b then p_bind p_advance (\<lambda>_. p_return True) else p_return False)"

definition syntax_error :: "source_location \<Rightarrow> string \<Rightarrow> 'a step" where
  "syntax_error loc msg = p_fail (Failed (make_error InvalidArgument loc msg))"

definition p_consume :: "token_type \<Rightarrow> string \<Rightarrow> token step" where
  "p_consume ty msg = p_bind (p_check ty) (\<lambda>b. if b then p_advance else p_bind p_peek (\<lambda>t. syntax_error (tk_location t) msg))"

section \<open>Expressions\<close>

text \<open>\<open>std::stoll\<close> with its exceptions, then the cast to 32 bits.\<close>

definition integer_literal :: "string \<Rightarrow> exn + sql_value" where
  "integer_literal s =
     (case scan_int s of
        None \<Rightarrow> Inl (invalid_argument ''stoll'')
      | Some i \<Rightarrow> if - (2 ^ 63) \<le> i \<and> i < 2 ^ 63 then Inr (i32_value (word_of_int i)) else Inl (out_of_range ''stoll''))"

fun parse_expression :: "nat \<Rightarrow> precedence \<Rightarrow> expression step"
  and infix_loop :: "nat \<Rightarrow> precedence \<Rightarrow> expression \<Rightarrow> expression step"
  and parse_infix :: "nat \<Rightarrow> token \<Rightarrow> expression \<Rightarrow> expression step"
  and parse_prefix :: "nat \<Rightarrow> token \<Rightarrow> expression step"
  and parse_arguments :: "nat \<Rightarrow> expression list step" where
  "parse_expression 0 prec = (\<lambda>p. None)"
| "parse_expression (Suc n) prec =
     p_bind p_is_at_end (\<lambda>e.
       if e then p_bind p_peek (\<lambda>t. syntax_error (tk_location t) ''Unexpected EOF in expression'')
       else p_bind p_advance (\<lambda>current. p_bind (parse_prefix n current) (\<lambda>left. infix_loop n prec left)))"
| "infix_loop 0 prec left = (\<lambda>p. None)"
| "infix_loop (Suc n) prec left =
     p_bind p_peek (\<lambda>t.
       if prec < get_precedence (tk_type t)
       then p_bind p_advance (\<lambda>infix_token. p_bind (parse_infix n infix_token left) (\<lambda>left. infix_loop n prec left))
       else p_return left)"
| "parse_infix 0 tok left = (\<lambda>p. None)"
| "parse_infix (Suc n) tok left =
     p_bind (parse_expression n (get_precedence (tk_type tok))) (\<lambda>right. p_return (BinaryExpression left (tk_type tok) right))"
| "parse_prefix 0 tok = (\<lambda>p. None)"
| "parse_prefix (Suc n) tok =
     (if tk_type tok = TK_IntegerLiteral then
        (case integer_literal (tk_lexeme tok) of Inl e \<Rightarrow> p_fail (Thrown e) | Inr v \<Rightarrow> p_return (LiteralExpression v))
      else if tk_type tok = TK_StringLiteral then p_return (LiteralExpression (string_value (tk_lexeme tok) Text_t))
      else if tk_type tok = TK_True then p_return (LiteralExpression (bool_value True))
      else if tk_type tok = TK_False then p_return (LiteralExpression (bool_value False))
      else if tk_type tok = TK_Identifier then
        p_bind (p_check TK_LeftParen) (\<lambda>call.
          if call then
            p_bind p_advance (\<lambda>_.
            p_bind (p_match TK_Distinct) (\<lambda>is_distinct.
            p_bind (p_check TK_RightParen) (\<lambda>empty.
            p_bind (if empty then p_return [] else parse_arguments n) (\<lambda>args.
            p_bind (p_consume TK_RightParen (''Expected '' @ [CHR 0x27, CHR '')'', CHR 0x27] @ '' after arguments'')) (\<lambda>_.
              p_return (FunctionCallExpression (tk_lexeme tok) args is_distinct))))))
          else p_return (IdentifierExpression (tk_lexeme tok)))
      else if tk_type tok = TK_Parameter then p_return (ParameterExpression (tk_lexeme tok))
      else if tk_type tok = TK_Minus \<or> tk_type tok = TK_Not then
        p_bind (parse_expression n Prec_Unary) (\<lambda>right. p_return (UnaryExpression (tk_type tok) right))
      else syntax_error (tk_location tok) ''Unexpected prefix token'')"
| "parse_arguments 0 = (\<lambda>p. None)"
| "parse_arguments (Suc n) =
     p_bind (p_match TK_Star) (\<lambda>star.
       if star then p_return []
       else p_bind (parse_expression n Prec_Assignment) (\<lambda>e.
         p_bind (p_match TK_Comma) (\<lambda>more.
           if more then p_bind (parse_arguments n) (\<lambda>es. p_return (e # es)) else p_return [e])))"

section \<open>Statements\<close>

definition parse_result_column :: "nat \<Rightarrow> result_column step" where
  "parse_result_column n =
     p_bind (p_match TK_Star) (\<lambda>star.
       if star then p_return \<lparr>rc_expr = IdentifierExpression ''*'', rc_alias = []\<rparr>
       else p_bind (parse_expression n Prec_Assignment) (\<lambda>e.
         p_bind (p_match TK_As) (\<lambda>as.
           if as then p_bind (p_consume TK_Identifier ''Expected alias after AS'') (\<lambda>t. p_return \<lparr>rc_expr = e, rc_alias = tk_lexeme t\<rparr>)
           else p_return \<lparr>rc_expr = e, rc_alias = []\<rparr>)))"

fun parse_projection :: "nat \<Rightarrow> result_column list step" where
  "parse_projection 0 = (\<lambda>p. None)"
| "parse_projection (Suc n) =
     p_bind (parse_result_column n) (\<lambda>col.
     p_bind (p_match TK_Comma) (\<lambda>more.
       if more then p_bind (parse_projection n) (\<lambda>cols. p_return (col # cols)) else p_return [col]))"

definition parse_table_reference :: "table_reference step" where
  "parse_table_reference =
     p_bind (p_consume TK_Identifier ''Expected table name in FROM clause'') (\<lambda>name.
     p_bind (p_match TK_As) (\<lambda>as.
       if as then p_bind (p_consume TK_Identifier ''Expected alias after AS'') (\<lambda>t. p_return \<lparr>tr_table_name = tk_lexeme name, tr_alias = tk_lexeme t\<rparr>)
       else p_bind (p_check TK_Identifier) (\<lambda>b.
         if b then p_bind p_advance (\<lambda>t. p_return \<lparr>tr_table_name = tk_lexeme name, tr_alias = tk_lexeme t\<rparr>)
         else p_return \<lparr>tr_table_name = tk_lexeme name, tr_alias = []\<rparr>)))"

fun parse_from :: "nat \<Rightarrow> table_reference list step" where
  "parse_from 0 = (\<lambda>p. None)"
| "parse_from (Suc n) =
     p_bind parse_table_reference (\<lambda>ref.
     p_bind (p_match TK_Comma) (\<lambda>more.
       if more then p_bind (parse_from n) (\<lambda>refs. p_return (ref # refs)) else p_return [ref]))"

definition parse_select :: "nat \<Rightarrow> statement step" where
  "parse_select n =
     p_bind (p_check TK_From) (\<lambda>none.
     p_bind (if none then p_return [] else parse_projection n) (\<lambda>projection.
     p_bind (p_match TK_From) (\<lambda>from.
     p_bind (if from then parse_from n else p_return []) (\<lambda>tables.
     p_bind (p_match TK_Where) (\<lambda>has_where.
     p_bind (if has_where then p_bind (parse_expression n Prec_Assignment) (\<lambda>e. p_return (Some e)) else p_return None) (\<lambda>where_clause.
       p_return (SelectStatement projection tables where_clause)))))))"

text \<open>The location of the error \<open>No tokens\<close> is read from the empty vector.\<close>

definition parse_statement :: "statement step" where
  "parse_statement p =
     (if ps_tokens p = [] then p_bind (token_at 0) (\<lambda>t. syntax_error (tk_location t) ''No tokens'') p
      else p_bind (p_match TK_Select) (\<lambda>sel.
        if sel then parse_select (3 * length (ps_tokens p) + 3)
        else p_bind p_peek (\<lambda>t. syntax_error (tk_location t) ''Unsupported statement type'')) p)"

section \<open>Reading tokens\<close>

text \<open>The vector ends with the only end of file token and the index is inside it.\<close>

definition parser_ok :: "parser \<Rightarrow> bool" where
  "parser_ok p \<longleftrightarrow> ps_current p < length (ps_tokens p) \<and> tk_type (last (ps_tokens p)) = TK_Eof \<and>
     (\<forall>t\<in>set (butlast (ps_tokens p)). tk_type t \<noteq> TK_Eof)"

definition p_rest :: "parser \<Rightarrow> token list" where
  "p_rest p = drop (ps_current p) (ps_tokens p)"

abbreviation next_token :: "parser \<Rightarrow> token" where
  "next_token p \<equiv> hd (p_rest p)"

definition p_skip :: "nat \<Rightarrow> parser \<Rightarrow> parser" where
  "p_skip k p = p\<lparr>ps_current := ps_current p + k\<rparr>"

lemma p_skip_simps [simp]:
  "p_skip 0 p = p" "p_skip j (p_skip k p) = p_skip (k + j) p" "p_rest (p_skip k p) = drop k (p_rest p)" "ps_tokens (p_skip k p) = ps_tokens p"
  by (simp_all add: p_skip_def p_rest_def add.commute add.assoc)

lemma parser_rest:
  assumes "parser_ok p"
  obtains t where "p_rest p = [t]" "tk_type t = TK_Eof" | t t' rs where "p_rest p = t # t' # rs" "tk_type t \<noteq> TK_Eof"
proof (cases "Suc (ps_current p) = length (ps_tokens p)")
  case True
  then have "p_rest p = [last (ps_tokens p)]"
    by (metis Cons_nth_drop_Suc assms drop_all last_conv_nth diff_Suc_1 less_irrefl_nat less_zeroE list.size(3) order_refl p_rest_def parser_ok_def)
  then show ?thesis using that(1) assms by (simp add: parser_ok_def)
next
  case False
  let ?i = "ps_current p" and ?ts = "ps_tokens p"
  have lt: "Suc ?i < length ?ts" using False assms by (simp add: parser_ok_def)
  then have "p_rest p = ?ts ! ?i # ?ts ! Suc ?i # drop (Suc (Suc ?i)) ?ts" by (simp add: p_rest_def Cons_nth_drop_Suc)
  moreover have "?ts ! ?i \<in> set (butlast ?ts)" using lt by (metis Suc_less_eq in_set_conv_nth length_butlast less_diff_conv nth_butlast add.commute plus_1_eq_Suc)
  ultimately show ?thesis using that(2) assms by (simp add: parser_ok_def)
qed

lemma parser_ok_skip: "parser_ok p \<Longrightarrow> k < length (p_rest p) \<Longrightarrow> parser_ok (p_skip k p)"
  by (auto simp: parser_ok_def p_skip_def p_rest_def)

lemma parser_ok_Nil: "parser_ok p \<Longrightarrow> p_rest p \<noteq> []"
  by (erule parser_rest) simp_all

lemma rest_token:
  assumes "p_rest p = t # rs"
  shows "ps_current p < length (ps_tokens p)" "ps_tokens p ! ps_current p = t"
proof -
  show "ps_current p < length (ps_tokens p)" using assms by (metis p_rest_def drop_all list.distinct(1) not_le)
  show "ps_tokens p ! ps_current p = t" using assms by (simp add: p_rest_def nth_via_drop)
qed

lemma p_peek_eq: "p_rest p = t # rs \<Longrightarrow> p_peek p = Some (Inr t, p)"
  using rest_token by (simp add: p_peek_def token_at_def p_return_def)

lemma p_is_at_end_eq: "p_rest p = t # rs \<Longrightarrow> p_is_at_end p = Some (Inr (tk_type t = TK_Eof), p)"
  by (simp add: p_is_at_end_def p_bind_def p_peek_eq p_return_def)

lemma p_check_eq: "p_rest p = t # rs \<Longrightarrow> ty \<noteq> TK_Eof \<Longrightarrow> p_check ty p = Some (Inr (tk_type t = ty), p)"
  by (auto simp: p_check_def p_bind_def p_is_at_end_eq p_peek_eq p_return_def)

lemma p_advance_eq: "p_rest p = t # rs \<Longrightarrow> tk_type t \<noteq> TK_Eof \<Longrightarrow> p_advance p = Some (Inr t, p_skip 1 p)"
  using rest_token by (simp add: p_advance_def p_bind_def p_is_at_end_eq p_previous_def token_at_def p_return_def p_skip_def)

lemma p_match_eq:
  "p_rest p = t # rs \<Longrightarrow> ty \<noteq> TK_Eof \<Longrightarrow> p_match ty p = Some (if tk_type t = ty then (Inr True, p_skip 1 p) else (Inr False, p))"
  by (auto simp: p_match_def p_bind_def p_check_eq p_advance_eq p_return_def)

lemma p_consume_eq:
  "p_rest p = t # rs \<Longrightarrow> ty \<noteq> TK_Eof \<Longrightarrow>
     p_consume ty msg p = Some (if tk_type t = ty then (Inr t, p_skip 1 p) else (Inl (Failed InvalidArgument), p))"
  by (auto simp: p_consume_def p_bind_def p_check_eq p_advance_eq p_peek_eq syntax_error_def p_fail_def make_error_def)

lemmas p_steps = p_peek_eq p_is_at_end_eq p_check_eq p_advance_eq p_match_eq p_consume_eq

section \<open>The grammar\<close>

text \<open>How tight the outermost operator of an expression binds; anything but a binary expression binds tightest.\<close>

fun root_prec :: "expression \<Rightarrow> precedence" where
  "root_prec (BinaryExpression l op r) = get_precedence op"
| "root_prec _ = Prec_Primary"

definition distinct_toks :: "bool \<Rightarrow> token list \<Rightarrow> bool" where
  "distinct_toks d ts \<longleftrightarrow> (if d then \<exists>t. ts = [t] \<and> tk_type t = TK_Distinct else ts = [])"

text \<open>The tokens an expression is written with. Operators of equal precedence associate to the left, an operand
  on the right binds tighter than its operator, and the operand of a sign or of \<open>NOT\<close> is no binary expression.\<close>

inductive expr_toks :: "expression \<Rightarrow> token list \<Rightarrow> bool" and args_toks :: "expression list \<Rightarrow> token list \<Rightarrow> bool" where
  int: "tk_type t = TK_IntegerLiteral \<Longrightarrow> integer_literal (tk_lexeme t) = Inr v \<Longrightarrow> expr_toks (LiteralExpression v) [t]"
| str: "tk_type t = TK_StringLiteral \<Longrightarrow> expr_toks (LiteralExpression (string_value (tk_lexeme t) Text_t)) [t]"
| true: "tk_type t = TK_True \<Longrightarrow> expr_toks (LiteralExpression (bool_value True)) [t]"
| false: "tk_type t = TK_False \<Longrightarrow> expr_toks (LiteralExpression (bool_value False)) [t]"
| ident: "tk_type t = TK_Identifier \<Longrightarrow> expr_toks (IdentifierExpression (tk_lexeme t)) [t]"
| param: "tk_type t = TK_Parameter \<Longrightarrow> expr_toks (ParameterExpression (tk_lexeme t)) [t]"
| call_empty: "tk_type t = TK_Identifier \<Longrightarrow> tk_type lp = TK_LeftParen \<Longrightarrow> distinct_toks d ds \<Longrightarrow> tk_type rp = TK_RightParen \<Longrightarrow>
    expr_toks (FunctionCallExpression (tk_lexeme t) [] d) (t # lp # ds @ [rp])"
| call: "tk_type t = TK_Identifier \<Longrightarrow> tk_type lp = TK_LeftParen \<Longrightarrow> distinct_toks d ds \<Longrightarrow> args_toks es ts \<Longrightarrow> tk_type rp = TK_RightParen \<Longrightarrow>
    expr_toks (FunctionCallExpression (tk_lexeme t) es d) (t # lp # ds @ ts @ [rp])"
| unary: "tk_type t = TK_Minus \<or> tk_type t = TK_Not \<Longrightarrow> expr_toks e ts \<Longrightarrow> Prec_Unary < root_prec e \<Longrightarrow>
    expr_toks (UnaryExpression (tk_type t) e) (t # ts)"
| binary: "expr_toks l ts \<Longrightarrow> expr_toks r us \<Longrightarrow> get_precedence (tk_type t) \<noteq> Prec_None \<Longrightarrow> get_precedence (tk_type t) \<le> root_prec l \<Longrightarrow>
    get_precedence (tk_type t) < root_prec r \<Longrightarrow> expr_toks (BinaryExpression l (tk_type t) r) (ts @ t # us)"
| star: "tk_type t = TK_Star \<Longrightarrow> args_toks [] [t]"
| one: "expr_toks e ts \<Longrightarrow> args_toks [e] ts"
| more: "expr_toks e ts \<Longrightarrow> tk_type t = TK_Comma \<Longrightarrow> args_toks es us \<Longrightarrow> args_toks (e # es) (ts @ t # us)"

text \<open>A token that may stand behind the tokens of an expression of some level.\<close>

definition may_follow :: "precedence \<Rightarrow> token list \<Rightarrow> token \<Rightarrow> bool" where
  "may_follow q ts t \<longleftrightarrow> get_precedence (tk_type t) \<le> q \<and> (tk_type (last ts) = TK_Identifier \<longrightarrow> tk_type t \<noteq> TK_LeftParen)"

lemma precedence_facts:
  "get_precedence t \<le> Prec_Factor" "get_precedence t < Prec_Primary" "get_precedence t < Prec_Unary"
  by (auto simp: get_precedence_def less_eq_precedence_def less_precedence_def)

lemma precedence_levels [simp]: "Prec_Assignment < Prec_Primary" "Prec_Unary < Prec_Primary"
  by (simp_all add: less_precedence_def)

lemma precedence_operator: "get_precedence t \<noteq> Prec_None \<Longrightarrow> Prec_Assignment < get_precedence t"
  by (auto simp: get_precedence_def less_precedence_def split: if_splits)

lemma expr_toks_facts:
  "expr_toks e ts \<Longrightarrow> ts \<noteq> [] \<and> Prec_Assignment < root_prec e" "args_toks es us \<Longrightarrow> us \<noteq> []"
  by (induction rule: expr_toks_args_toks.inducts) (auto simp: precedence_operator)

section \<open>Every step returns, in bounds, with what it read\<close>

text \<open>Total correctness: the step returns an outcome other than an access out of bounds, moves the index forward inside the
  vector, and on success the value and the parser satisfy \<open>Q\<close>.\<close>

definition sound_fault :: "fault \<Rightarrow> bool" where
  "sound_fault f \<longleftrightarrow> f = Failed InvalidArgument \<or> (\<exists>e. f = Thrown e)"

definition runs :: "'a step \<Rightarrow> parser \<Rightarrow> ('a \<Rightarrow> parser \<Rightarrow> bool) \<Rightarrow> bool" where
  "runs m p Q \<longleftrightarrow> (\<exists>x p'. m p = Some (x, p') \<and> parser_ok p' \<and> ps_tokens p' = ps_tokens p \<and> (case x of Inl f \<Rightarrow> sound_fault f | Inr v \<Rightarrow> Q v p'))"

lemma runs_return: "parser_ok p \<Longrightarrow> Q x p \<Longrightarrow> runs (p_return x) p Q"
  by (simp add: runs_def p_return_def)

lemma runs_fail: "parser_ok p \<Longrightarrow> sound_fault f \<Longrightarrow> runs (p_fail f) p Q"
  by (simp add: runs_def p_fail_def)

lemma runs_error: "parser_ok p \<Longrightarrow> runs (syntax_error loc msg) p Q"
  by (simp add: syntax_error_def runs_fail sound_fault_def make_error_def)

lemma runs_if: "(b \<Longrightarrow> runs m p Q) \<Longrightarrow> (\<not> b \<Longrightarrow> runs m' p Q) \<Longrightarrow> runs (if b then m else m') p Q"
  by simp

lemma runs_bind:
  assumes "runs m p R" "\<And>x p'. R x p' \<Longrightarrow> parser_ok p' \<Longrightarrow> ps_tokens p' = ps_tokens p \<Longrightarrow> runs (f x) p' Q"
  shows "runs (p_bind m f) p Q"
  using assms(1) unfolding runs_def
proof (elim exE conjE)
  fix x p' assume m: "m p = Some (x, p')" "parser_ok p'" "ps_tokens p' = ps_tokens p" "case x of Inl f \<Rightarrow> sound_fault f | Inr v \<Rightarrow> R v p'"
  show "\<exists>x p'. p_bind m f p = Some (x, p') \<and> parser_ok p' \<and> ps_tokens p' = ps_tokens p \<and> (case x of Inl f \<Rightarrow> sound_fault f | Inr v \<Rightarrow> Q v p')"
    using m assms(2) [of _ p'] by (cases x) (auto simp: p_bind_def runs_def)
qed

lemma runs_mono: "runs m p R \<Longrightarrow> (\<And>x p'. R x p' \<Longrightarrow> parser_ok p' \<Longrightarrow> ps_tokens p' = ps_tokens p \<Longrightarrow> Q x p') \<Longrightarrow> runs m p Q"
  by (auto simp: runs_def split: sum.splits) (metis Inl_Inr_False sum.inject(2))

text \<open>The tokens between two positions.\<close>

definition reads :: "parser \<Rightarrow> parser \<Rightarrow> token list \<Rightarrow> bool" where
  "reads p p' ts \<longleftrightarrow> p' = p_skip (length ts) p \<and> take (length ts) (p_rest p) = ts"

lemma reads_Nil [simp]: "reads p p []"
  by (simp add: reads_def)

lemma reads_rest: "reads p p' ts \<Longrightarrow> p_rest p = ts @ p_rest p'"
  using append_take_drop_id [of "length ts" "p_rest p"] by (simp add: reads_def)

lemma reads_trans: "reads p p1 ts \<Longrightarrow> reads p1 p2 us \<Longrightarrow> reads p p2 (ts @ us)"
  by (simp add: reads_def take_add)

lemma reads_one: "p_rest p = t # rs \<Longrightarrow> reads p (p_skip 1 p) [t]"
  by (simp add: reads_def)

lemma reads_Cons: "p_rest p = t # rs \<Longrightarrow> reads (p_skip 1 p) p2 us \<Longrightarrow> reads p p2 (t # us)"
  using reads_trans [OF reads_one] by fastforce

definition remaining :: "parser \<Rightarrow> nat" where
  "remaining p = length (p_rest p) - 1"

lemma reads_remaining:
  assumes "parser_ok p'" "reads p p' ts"
  shows "remaining p = remaining p' + length ts"
proof -
  have "p_rest p' \<noteq> []" using parser_ok_Nil [OF assms(1)] by simp
  then show ?thesis using arg_cong [OF reads_rest [OF assms(2)], of length] by (cases "p_rest p'") (simp_all add: remaining_def)
qed

text \<open>The single steps.\<close>

lemma ok_next: "parser_ok p \<Longrightarrow> p_rest p = next_token p # tl (p_rest p)"
  using parser_ok_Nil by simp

lemma ok_skip_next:
  assumes "parser_ok p" "tk_type (next_token p) \<noteq> TK_Eof"
  shows "parser_ok (p_skip 1 p)"
proof -
  have "1 < length (p_rest p)" using assms(2) by (cases rule: parser_rest [OF assms(1)]) simp_all
  then show ?thesis by (rule parser_ok_skip [OF assms(1)])
qed

lemma runs_peek: "parser_ok p \<Longrightarrow> runs p_peek p (\<lambda>t p'. p' = p \<and> t = next_token p)"
  using p_peek_eq [OF ok_next] by (simp add: runs_def)

lemma runs_at_end: "parser_ok p \<Longrightarrow> runs p_is_at_end p (\<lambda>b p'. p' = p \<and> b = (tk_type (next_token p) = TK_Eof))"
  using p_is_at_end_eq [OF ok_next] by (simp add: runs_def)

lemma runs_check: "parser_ok p \<Longrightarrow> ty \<noteq> TK_Eof \<Longrightarrow> runs (p_check ty) p (\<lambda>b p'. p' = p \<and> b = (tk_type (next_token p) = ty))"
  using p_check_eq [OF ok_next] by (simp add: runs_def)

lemma runs_advance: "parser_ok p \<Longrightarrow> tk_type (next_token p) \<noteq> TK_Eof \<Longrightarrow> runs p_advance p (\<lambda>t p'. t = next_token p \<and> p' = p_skip 1 p \<and> reads p p' [t])"
  using p_advance_eq [OF ok_next] ok_skip_next reads_one [OF ok_next] by (simp add: runs_def)

lemma runs_match:
  assumes "parser_ok p" "ty \<noteq> TK_Eof"
  shows "runs (p_match ty) p (\<lambda>b p'. if b then tk_type (next_token p) = ty \<and> reads p p' [next_token p] else p' = p \<and> tk_type (next_token p) \<noteq> ty)"
  using p_match_eq [OF ok_next [OF assms(1)] assms(2)] ok_skip_next [OF assms(1)] assms reads_one [OF ok_next] by (auto simp: runs_def)

lemma runs_consume:
  assumes "parser_ok p" "ty \<noteq> TK_Eof"
  shows "runs (p_consume ty msg) p (\<lambda>t p'. t = next_token p \<and> tk_type t = ty \<and> reads p p' [t])"
  using p_consume_eq [OF ok_next [OF assms(1)] assms(2)] ok_skip_next [OF assms(1)] assms reads_one [OF ok_next] by (auto simp: runs_def sound_fault_def)

section \<open>Expressions\<close>

definition expr_read :: "precedence \<Rightarrow> parser \<Rightarrow> expression \<Rightarrow> parser \<Rightarrow> bool" where
  "expr_read q p e p' \<longleftrightarrow> (\<exists>ts. reads p p' ts \<and> expr_toks e ts \<and> q < root_prec e \<and> may_follow q ts (next_token p'))"

definition loop_read :: "precedence \<Rightarrow> token list \<Rightarrow> parser \<Rightarrow> expression \<Rightarrow> parser \<Rightarrow> bool" where
  "loop_read q us p e p' \<longleftrightarrow> (\<exists>ts. reads p p' ts \<and> expr_toks e (us @ ts) \<and> q < root_prec e \<and> may_follow q (us @ ts) (next_token p'))"

definition prefix_read :: "token \<Rightarrow> parser \<Rightarrow> expression \<Rightarrow> parser \<Rightarrow> bool" where
  "prefix_read t p e p' \<longleftrightarrow> (\<exists>ts. reads p p' ts \<and> expr_toks e (t # ts) \<and> root_prec e = Prec_Primary \<and>
     (tk_type (last (t # ts)) = TK_Identifier \<longrightarrow> tk_type (next_token p') \<noteq> TK_LeftParen))"

definition args_read :: "parser \<Rightarrow> expression list \<Rightarrow> parser \<Rightarrow> bool" where
  "args_read p es p' \<longleftrightarrow> (\<exists>ts. reads p p' ts \<and> args_toks es ts)"

text \<open>Each function meets its reading with fuel for the tokens that remain.\<close>

definition expression_runs :: "nat \<Rightarrow> bool" where
  "expression_runs n \<longleftrightarrow> (\<forall>q p. parser_ok p \<longrightarrow> 3 * remaining p + 1 \<le> n \<longrightarrow> q < Prec_Primary \<longrightarrow> runs (parse_expression n q) p (expr_read q p))"

definition loop_runs :: "nat \<Rightarrow> bool" where
  "loop_runs n \<longleftrightarrow> (\<forall>q p l us. parser_ok p \<longrightarrow> 3 * remaining p + 1 \<le> n \<longrightarrow> expr_toks l us \<longrightarrow> q < root_prec l \<longrightarrow> may_follow (root_prec l) us (next_token p) \<longrightarrow>
     runs (infix_loop n q l) p (loop_read q us p))"

definition infix_runs :: "nat \<Rightarrow> bool" where
  "infix_runs n \<longleftrightarrow> (\<forall>t p l. parser_ok p \<longrightarrow> 3 * remaining p + 2 \<le> n \<longrightarrow>
     runs (parse_infix n t l) p (\<lambda>e p'. \<exists>r. e = BinaryExpression l (tk_type t) r \<and> expr_read (get_precedence (tk_type t)) p r p'))"

definition prefix_runs :: "nat \<Rightarrow> bool" where
  "prefix_runs n \<longleftrightarrow> (\<forall>t p. parser_ok p \<longrightarrow> 3 * remaining p + 3 \<le> n \<longrightarrow> runs (parse_prefix n t) p (prefix_read t p))"

definition arguments_runs :: "nat \<Rightarrow> bool" where
  "arguments_runs n \<longleftrightarrow> (\<forall>p. parser_ok p \<longrightarrow> 3 * remaining p + 3 \<le> n \<longrightarrow> runs (parse_arguments n) p (args_read p))"

lemma expression_runsD: "expression_runs n \<Longrightarrow> parser_ok p \<Longrightarrow> 3 * remaining p + 1 \<le> n \<Longrightarrow> q < Prec_Primary \<Longrightarrow> runs (parse_expression n q) p (expr_read q p)"
  by (simp add: expression_runs_def)

lemma expr_read_remaining: "parser_ok p' \<Longrightarrow> expr_read q p e p' \<Longrightarrow> remaining p' < remaining p"
  using reads_remaining expr_toks_facts(1) by (fastforce simp: expr_read_def)

lemma loop_read_extend:
  assumes "reads p p1 vs" "loop_read q (us @ vs) p1 e p'"
  shows "loop_read q us p e p'"
proof -
  obtain ts where "reads p1 p' ts" "expr_toks e ((us @ vs) @ ts)" "q < root_prec e" "may_follow q ((us @ vs) @ ts) (next_token p')"
    using assms(2) unfolding loop_read_def by blast
  then show ?thesis using reads_trans [OF assms(1)] unfolding loop_read_def append_assoc by blast
qed

lemma infix_step: "expression_runs n \<Longrightarrow> infix_runs (Suc n)"
  unfolding infix_runs_def
proof (intro allI impI)
  fix t p l assume n: "expression_runs n" "parser_ok p" "3 * remaining p + 2 \<le> Suc n"
  show "runs (parse_infix (Suc n) t l) p (\<lambda>e p'. \<exists>r. e = BinaryExpression l (tk_type t) r \<and> expr_read (get_precedence (tk_type t)) p r p')"
    unfolding parse_infix.simps
  proof (rule runs_bind)
    show "runs (parse_expression n (get_precedence (tk_type t))) p (expr_read (get_precedence (tk_type t)) p)"
      using n precedence_facts(2) by (simp add: expression_runs_def)
  qed (auto intro: runs_return)
qed

lemma loop_step:
  assumes "infix_runs n" "loop_runs n"
  shows "loop_runs (Suc n)"
  unfolding loop_runs_def
proof (intro allI impI)
  fix q p l us assume p: "parser_ok p" "3 * remaining p + 1 \<le> Suc n" and l: "expr_toks l us" "q < root_prec l" "may_follow (root_prec l) us (next_token p)"
  let ?t = "next_token p" and ?g = "get_precedence (tk_type (next_token p))"
  show "runs (infix_loop (Suc n) q l) p (loop_read q us p)"
    unfolding infix_loop.simps
  proof (rule runs_bind [OF runs_peek [OF p(1)]], elim conjE, hypsubst)
    show "runs (if q < ?g then p_bind p_advance (\<lambda>t. p_bind (parse_infix n t l) (\<lambda>left. infix_loop n q left)) else p_return l) p (loop_read q us p)"
    proof (cases "q < ?g")
      case False
      then have "loop_read q us p l p" using l by (auto simp: loop_read_def may_follow_def intro: exI [of _ "[]"])
      then show ?thesis using False p(1) by (simp add: runs_return)
    next
      case True
      have ne: "tk_type ?t \<noteq> TK_Eof" using True by (auto simp: get_precedence_def less_precedence_def)
      have "runs (p_bind p_advance (\<lambda>t. p_bind (parse_infix n t l) (\<lambda>left. infix_loop n q left))) p (loop_read q us p)"
      proof (rule runs_bind [OF runs_advance [OF p(1) ne]], elim conjE, hypsubst)
        let ?p = "p_skip 1 p"
        assume p1: "parser_ok ?p" "reads p ?p [?t]"
        have r1: "remaining p = remaining ?p + 1" using reads_remaining [OF p1] by simp
        show "runs (p_bind (parse_infix n ?t l) (\<lambda>left. infix_loop n q left)) ?p (loop_read q us p)"
        proof (rule runs_bind)
          show "runs (parse_infix n ?t l) ?p (\<lambda>e p'. \<exists>r. e = BinaryExpression l (tk_type ?t) r \<and> expr_read ?g ?p r p')"
            using assms(1) p1(1) p(2) r1 by (simp add: infix_runs_def)
        next
          fix e p2 assume e: "\<exists>r. e = BinaryExpression l (tk_type ?t) r \<and> expr_read ?g ?p r p2" and p2: "parser_ok p2"
          then obtain r ts where r: "e = BinaryExpression l (tk_type ?t) r" "reads ?p p2 ts" "expr_toks r ts" "?g < root_prec r" "may_follow ?g ts (next_token p2)"
            by (auto simp: expr_read_def)
          have g: "?g \<noteq> Prec_None" using True by (auto simp: less_precedence_def)
          have toks: "expr_toks e (us @ ?t # ts)" unfolding r(1)
            by (rule expr_toks_args_toks.binary [OF l(1) r(3) g _ r(4)]) (use l(3) in \<open>simp add: may_follow_def\<close>)
          have ts: "ts \<noteq> []" using expr_toks_facts(1) [OF r(3)] by simp
          have f: "may_follow (root_prec e) (us @ ?t # ts) (next_token p2)" using r(5) ts by (simp add: r(1) may_follow_def)
          have rm: "remaining ?p = remaining p2 + length ts" by (rule reads_remaining [OF p2 r(2)])
          have lp: "runs (infix_loop n q e) p2 (loop_read q (us @ ?t # ts) p2)"
            using assms(2) p2 p(2) r1 rm toks f True by (simp add: loop_runs_def r(1))
          have rd: "reads p p2 (?t # ts)" using reads_trans [OF p1(2) r(2)] by simp
          show "runs (infix_loop n q e) p2 (loop_read q us p)"
            by (rule runs_mono [OF lp]) (rule loop_read_extend [OF rd])
        qed
      qed
      then show ?thesis using True by simp
    qed
  qed
qed

lemma expression_step:
  assumes "prefix_runs n" "loop_runs n"
  shows "expression_runs (Suc n)"
  unfolding expression_runs_def
proof (intro allI impI)
  fix q p assume p: "parser_ok p" "3 * remaining p + 1 \<le> Suc n" and q: "q < Prec_Primary"
  let ?t = "next_token p"
  show "runs (parse_expression (Suc n) q) p (expr_read q p)"
    unfolding parse_expression.simps
  proof (rule runs_bind [OF runs_at_end [OF p(1)]], elim conjE, hypsubst)
    show "runs (if tk_type ?t = TK_Eof then p_bind p_peek (\<lambda>t. syntax_error (tk_location t) ''Unexpected EOF in expression'')
      else p_bind p_advance (\<lambda>current. p_bind (parse_prefix n current) (\<lambda>left. infix_loop n q left))) p (expr_read q p)"
    proof (cases "tk_type ?t = TK_Eof")
      case True
      have "runs (p_bind p_peek (\<lambda>t. syntax_error (tk_location t) ''Unexpected EOF in expression'')) p (expr_read q p)"
        by (rule runs_bind [OF runs_peek [OF p(1)]]) (rule runs_error)
      then show ?thesis using True by simp
    next
      case False
      have "runs (p_bind p_advance (\<lambda>current. p_bind (parse_prefix n current) (\<lambda>left. infix_loop n q left))) p (expr_read q p)"
      proof (rule runs_bind [OF runs_advance [OF p(1) False]], elim conjE, hypsubst)
        let ?p = "p_skip 1 p"
        assume p1: "parser_ok ?p" "reads p ?p [?t]"
        have r1: "remaining p = remaining ?p + 1" using reads_remaining [OF p1] by simp
        show "runs (p_bind (parse_prefix n ?t) (\<lambda>left. infix_loop n q left)) ?p (expr_read q p)"
        proof (rule runs_bind)
          show "runs (parse_prefix n ?t) ?p (prefix_read ?t ?p)" using assms(1) p1(1) p(2) r1 by (simp add: prefix_runs_def)
        next
          fix l p2 assume l: "prefix_read ?t ?p l p2" and p2: "parser_ok p2"
          then obtain ts where ts: "reads ?p p2 ts" "expr_toks l (?t # ts)" "root_prec l = Prec_Primary"
            "tk_type (last (?t # ts)) = TK_Identifier \<longrightarrow> tk_type (next_token p2) \<noteq> TK_LeftParen" unfolding prefix_read_def by blast
          have f: "may_follow (root_prec l) (?t # ts) (next_token p2)" using ts(3,4) precedence_facts(2) by (simp add: may_follow_def less_imp_le)
          have "remaining ?p = remaining p2 + length ts" by (rule reads_remaining [OF p2 ts(1)])
          then have lp: "runs (infix_loop n q l) p2 (loop_read q (?t # ts) p2)"
            using assms(2) p2 p(2) r1 ts(2,3) q f by (simp add: loop_runs_def)
          have rd: "reads p p2 (?t # ts)" using reads_trans [OF p1(2) ts(1)] by simp
          have "expr_read q p e p'" if "loop_read q (?t # ts) p2 e p'" for e p'
            using loop_read_extend [OF rd, of q "[]"] that by (simp add: loop_read_def expr_read_def)
          then show "runs (infix_loop n q l) p2 (expr_read q p)" by (rule runs_mono [OF lp])
        qed
      qed
      then show ?thesis using False by simp
    qed
  qed
qed

lemma arguments_step:
  assumes "expression_runs n" "arguments_runs n"
  shows "arguments_runs (Suc n)"
  unfolding arguments_runs_def
proof (intro allI impI)
  fix p assume p: "parser_ok p" "3 * remaining p + 3 \<le> Suc n"
  have more: "runs (p_bind (p_match TK_Comma) (\<lambda>more. if more then p_bind (parse_arguments n) (\<lambda>es. p_return (e # es)) else p_return [e])) p1 (args_read p)"
    if e: "expr_read Prec_Assignment p e p1" and p1: "parser_ok p1" for e p1
  proof (rule runs_bind [OF runs_match [OF p1]])
    obtain ts where ts: "reads p p1 ts" "expr_toks e ts" using e by (auto simp: expr_read_def)
    have r1: "remaining p1 < remaining p" by (rule expr_read_remaining [OF p1 e])
    fix b p2 assume b: "if b then tk_type (next_token p1) = TK_Comma \<and> reads p1 p2 [next_token p1] else p2 = p1 \<and> tk_type (next_token p1) \<noteq> TK_Comma"
      and p2: "parser_ok p2"
    show "runs (if b then p_bind (parse_arguments n) (\<lambda>es. p_return (e # es)) else p_return [e]) p2 (args_read p)"
    proof (cases b)
      case False
      then have "args_read p [e] p2" using b ts expr_toks_args_toks.one by (auto simp: args_read_def)
      then show ?thesis using False p2 by (simp add: runs_return)
    next
      case True
      then have c: "tk_type (next_token p1) = TK_Comma" "reads p1 p2 [next_token p1]" using b by simp_all
      have "runs (p_bind (parse_arguments n) (\<lambda>es. p_return (e # es))) p2 (args_read p)"
      proof (rule runs_bind)
        show "runs (parse_arguments n) p2 (args_read p2)"
          using assms(2) p2 p(2) r1 reads_remaining [OF p2 c(2)] by (simp add: arguments_runs_def)
      next
        fix es p3 assume es: "args_read p2 es p3" and p3: "parser_ok p3"
        then obtain us where us: "reads p2 p3 us" "args_toks es us" by (auto simp: args_read_def)
        have "reads p p3 (ts @ next_token p1 # us)" using reads_trans [OF ts(1) reads_trans [OF c(2) us(1)]] by simp
        then have "args_read p (e # es) p3" using expr_toks_args_toks.more [OF ts(2) c(1) us(2)] unfolding args_read_def by blast
        then show "runs (p_return (e # es)) p3 (args_read p)" using p3 by (simp add: runs_return)
      qed
      then show ?thesis using True by simp
    qed
  qed simp
  show "runs (parse_arguments (Suc n)) p (args_read p)"
    unfolding parse_arguments.simps
  proof (rule runs_bind [OF runs_match [OF p(1)]])
    fix b p1 assume b: "if b then tk_type (next_token p) = TK_Star \<and> reads p p1 [next_token p] else p1 = p \<and> tk_type (next_token p) \<noteq> TK_Star"
      and p1: "parser_ok p1"
    have "runs (p_bind (parse_expression n Prec_Assignment) (\<lambda>e. p_bind (p_match TK_Comma) (\<lambda>more.
        if more then p_bind (parse_arguments n) (\<lambda>es. p_return (e # es)) else p_return [e]))) p (args_read p)"
      by (rule runs_bind [OF _ more]) (use p in \<open>simp_all add: expression_runsD [OF assms(1)]\<close>)
    moreover have "args_read p [] p1" if b using b that expr_toks_args_toks.star by (auto simp: args_read_def)
    ultimately show "runs (if b then p_return [] else p_bind (parse_expression n Prec_Assignment) (\<lambda>e. p_bind (p_match TK_Comma) (\<lambda>more.
        if more then p_bind (parse_arguments n) (\<lambda>es. p_return (e # es)) else p_return [e]))) p1 (args_read p)"
      using b p1 by (cases b) (simp_all add: runs_return)
  qed simp
qed

lemma no_eof: "TK_RightParen \<noteq> TK_Eof" "TK_Distinct \<noteq> TK_Eof" "TK_LeftParen \<noteq> TK_Eof" "TK_Comma \<noteq> TK_Eof" "TK_Star \<noteq> TK_Eof"
    "TK_Identifier \<noteq> TK_Eof" "TK_As \<noteq> TK_Eof" "TK_From \<noteq> TK_Eof" "TK_Where \<noteq> TK_Eof" "TK_Select \<noteq> TK_Eof"
  by simp_all

lemma call_step:
  assumes n: "arguments_runs n" and p: "parser_ok p" "3 * remaining p \<le> n" "tk_type (next_token p) = TK_LeftParen" and t: "tk_type t = TK_Identifier"
  shows "runs (p_bind p_advance (\<lambda>_. p_bind (p_match TK_Distinct) (\<lambda>is_distinct. p_bind (p_check TK_RightParen) (\<lambda>empty.
    p_bind (if empty then p_return [] else parse_arguments n) (\<lambda>args. p_bind (p_consume TK_RightParen msg) (\<lambda>_.
      p_return (FunctionCallExpression (tk_lexeme t) args is_distinct))))))) p (prefix_read t p)"
proof (rule runs_bind [OF runs_advance [OF p(1)]])
  fix lp p1 assume lp: "lp = next_token p \<and> p1 = p_skip 1 p \<and> reads p p1 [lp]" and p1: "parser_ok p1"
  have r1: "remaining p = remaining p1 + 1" using reads_remaining [OF p1] lp by fastforce
  show "runs (p_bind (p_match TK_Distinct) (\<lambda>is_distinct. p_bind (p_check TK_RightParen) (\<lambda>empty.
    p_bind (if empty then p_return [] else parse_arguments n) (\<lambda>args. p_bind (p_consume TK_RightParen msg) (\<lambda>_.
      p_return (FunctionCallExpression (tk_lexeme t) args is_distinct)))))) p1 (prefix_read t p)"
  proof (rule runs_bind [OF runs_match [OF p1 no_eof(2)]])
    fix d p2 assume d: "if d then tk_type (next_token p1) = TK_Distinct \<and> reads p1 p2 [next_token p1] else p2 = p1 \<and> tk_type (next_token p1) \<noteq> TK_Distinct"
      and p2: "parser_ok p2"
    obtain ds where ds: "reads p1 p2 ds" "distinct_toks d ds" using d by (cases d) (auto simp: distinct_toks_def)
    have r2: "remaining p2 \<le> remaining p1" using reads_remaining [OF p2 ds(1)] by simp
    show "runs (p_bind (p_check TK_RightParen) (\<lambda>empty. p_bind (if empty then p_return [] else parse_arguments n) (\<lambda>args.
      p_bind (p_consume TK_RightParen msg) (\<lambda>_. p_return (FunctionCallExpression (tk_lexeme t) args d))))) p2 (prefix_read t p)"
    proof (rule runs_bind [OF runs_check [OF p2 no_eof(1)]], elim conjE, hypsubst, rule runs_bind)
      show "runs (if tk_type (next_token p2) = TK_RightParen then p_return [] else parse_arguments n) p2
        (\<lambda>es p3. \<exists>us. reads p2 p3 us \<and> (args_toks es us \<or> es = [] \<and> us = []))"
      proof (cases "tk_type (next_token p2) = TK_RightParen")
        case True
        have "runs (p_return []) p2 (\<lambda>es p3. \<exists>us. reads p2 p3 us \<and> (args_toks es us \<or> es = [] \<and> us = []))"
          by (rule runs_return [OF p2]) (auto intro: exI [of _ "[]"])
        then show ?thesis using True by simp
      next
        case False
        have "runs (parse_arguments n) p2 (args_read p2)" using n p2 p(2) r1 r2 by (simp add: arguments_runs_def)
        then have "runs (parse_arguments n) p2 (\<lambda>es p3. \<exists>us. reads p2 p3 us \<and> (args_toks es us \<or> es = [] \<and> us = []))"
          by (rule runs_mono) (auto simp: args_read_def)
        then show ?thesis using False by simp
      qed
      fix es p3 assume es: "\<exists>us. reads p2 p3 us \<and> (args_toks es us \<or> es = [] \<and> us = [])" and p3: "parser_ok p3"
      then obtain us where us: "reads p2 p3 us" "args_toks es us \<or> es = [] \<and> us = []" by blast
      show "runs (p_bind (p_consume TK_RightParen msg) (\<lambda>_. p_return (FunctionCallExpression (tk_lexeme t) es d))) p3 (prefix_read t p)"
      proof (rule runs_bind [OF runs_consume [OF p3 no_eof(1)]])
        fix rp p4 assume rp: "rp = next_token p3 \<and> tk_type rp = TK_RightParen \<and> reads p3 p4 [rp]" and p4: "parser_ok p4"
        have rd: "reads p p1 [lp]" "reads p3 p4 [rp]" and rt: "tk_type rp = TK_RightParen" "tk_type lp = TK_LeftParen" using lp rp p(3) by auto
        have "reads p p4 (lp # ds @ us @ [rp])"
          using reads_trans [OF rd(1) reads_trans [OF ds(1) reads_trans [OF us(1) rd(2)]]] by simp
        moreover have "expr_toks (FunctionCallExpression (tk_lexeme t) es d) (t # lp # ds @ us @ [rp])"
          using us(2) expr_toks_args_toks.call [OF t _ ds(2), of lp es us rp] expr_toks_args_toks.call_empty [OF t _ ds(2), of lp rp] rt by auto
        ultimately have "prefix_read t p (FunctionCallExpression (tk_lexeme t) es d) p4"
          unfolding prefix_read_def using rt by (intro exI [of _ "lp # ds @ us @ [rp]"]) simp
        then show "runs (p_return (FunctionCallExpression (tk_lexeme t) es d)) p4 (prefix_read t p)" using p4 by (simp add: runs_return)
      qed
    qed
  qed
qed (use p(3) in simp)

lemma prefix_leaf: "expr_toks e [t] \<Longrightarrow> root_prec e = Prec_Primary \<Longrightarrow> (tk_type t = TK_Identifier \<longrightarrow> tk_type (next_token p) \<noteq> TK_LeftParen) \<Longrightarrow> prefix_read t p e p"
  unfolding prefix_read_def by (rule exI [of _ "[]"]) simp

lemma prefix_step:
  assumes "expression_runs n" "arguments_runs n"
  shows "prefix_runs (Suc n)"
  unfolding prefix_runs_def
proof (intro allI impI)
  fix t p assume p: "parser_ok p" "3 * remaining p + 3 \<le> Suc n"
  have sgn: "runs (p_bind (parse_expression n Prec_Unary) (\<lambda>right. p_return (UnaryExpression (tk_type t) right))) p (prefix_read t p)"
    if "tk_type t = TK_Minus \<or> tk_type t = TK_Not"
  proof (rule runs_bind)
    show "runs (parse_expression n Prec_Unary) p (expr_read Prec_Unary p)" using assms(1) p by (simp add: expression_runs_def)
    fix e p1 assume e: "expr_read Prec_Unary p e p1" and p1: "parser_ok p1"
    then obtain ts where ts: "reads p p1 ts" "expr_toks e ts" "Prec_Unary < root_prec e" "may_follow Prec_Unary ts (next_token p1)" unfolding expr_read_def by blast
    have "prefix_read t p (UnaryExpression (tk_type t) e) p1"
      unfolding prefix_read_def using ts expr_toks_args_toks.unary [OF that ts(2,3)] expr_toks_facts(1) [OF ts(2)]
      by (intro exI [of _ ts]) (simp add: may_follow_def)
    then show "runs (p_return (UnaryExpression (tk_type t) e)) p1 (prefix_read t p)" using p1 by (simp add: runs_return)
  qed
  have nm: "runs (p_bind (p_check TK_LeftParen) (\<lambda>call. if call then
      p_bind p_advance (\<lambda>_. p_bind (p_match TK_Distinct) (\<lambda>is_distinct. p_bind (p_check TK_RightParen) (\<lambda>empty.
      p_bind (if empty then p_return [] else parse_arguments n) (\<lambda>args. p_bind (p_consume TK_RightParen msg) (\<lambda>_.
        p_return (FunctionCallExpression (tk_lexeme t) args is_distinct))))))
      else p_return (IdentifierExpression (tk_lexeme t)))) p (prefix_read t p)" if "tk_type t = TK_Identifier" for msg
  proof (rule runs_bind [OF runs_check [OF p(1) no_eof(3)]], elim conjE, hypsubst)
    show "runs (if tk_type (next_token p) = TK_LeftParen then
      p_bind p_advance (\<lambda>_. p_bind (p_match TK_Distinct) (\<lambda>is_distinct. p_bind (p_check TK_RightParen) (\<lambda>empty.
      p_bind (if empty then p_return [] else parse_arguments n) (\<lambda>args. p_bind (p_consume TK_RightParen msg) (\<lambda>_.
        p_return (FunctionCallExpression (tk_lexeme t) args is_distinct))))))
      else p_return (IdentifierExpression (tk_lexeme t))) p (prefix_read t p)"
    proof (cases "tk_type (next_token p) = TK_LeftParen")
      case True
      then show ?thesis using call_step [OF assms(2) p(1) _ True that, of msg] p(2) by simp
    next
      case False
      then show ?thesis using prefix_leaf [OF expr_toks_args_toks.ident [OF that]] p(1) by (simp add: runs_return)
    qed
  qed
  have leaf: "runs (p_return e) p (prefix_read t p)" if "expr_toks e [t]" "root_prec e = Prec_Primary" "tk_type t \<noteq> TK_Identifier" for e
    using prefix_leaf [OF that(1,2), of p] that(3) p(1) by (simp add: runs_return)
  have lit: "runs (case integer_literal (tk_lexeme t) of Inl e \<Rightarrow> p_fail (Thrown e) | Inr v \<Rightarrow> p_return (LiteralExpression v)) p (prefix_read t p)"
    if "tk_type t = TK_IntegerLiteral"
    using leaf [OF expr_toks_args_toks.int [OF that]] runs_fail [OF p(1)] that
    by (cases "integer_literal (tk_lexeme t)") (auto simp: sound_fault_def)
  show "runs (parse_prefix (Suc n) t) p (prefix_read t p)"
    unfolding parse_prefix.simps
  proof (intro runs_if)
    show "runs (p_return (LiteralExpression (string_value (tk_lexeme t) Text_t))) p (prefix_read t p)" if "tk_type t = TK_StringLiteral"
      by (rule leaf [OF expr_toks_args_toks.str [OF that]]) (simp_all add: that)
    show "runs (p_return (LiteralExpression (bool_value True))) p (prefix_read t p)" if "tk_type t = TK_True"
      by (rule leaf [OF expr_toks_args_toks.true [OF that]]) (simp_all add: that)
    show "runs (p_return (LiteralExpression (bool_value False))) p (prefix_read t p)" if "tk_type t = TK_False"
      by (rule leaf [OF expr_toks_args_toks.false [OF that]]) (simp_all add: that)
    show "runs (p_return (ParameterExpression (tk_lexeme t))) p (prefix_read t p)" if "tk_type t = TK_Parameter"
      by (rule leaf [OF expr_toks_args_toks.param [OF that]]) (simp_all add: that)
  qed (erule lit nm sgn | rule runs_error [OF p(1)])+
qed

lemma all_run: "expression_runs n \<and> loop_runs n \<and> infix_runs n \<and> prefix_runs n \<and> arguments_runs n"
proof (induction n)
  case 0
  then show ?case by (simp add: expression_runs_def loop_runs_def infix_runs_def prefix_runs_def arguments_runs_def)
next
  case (Suc n)
  then show ?case using expression_step loop_step infix_step prefix_step arguments_step by blast
qed

lemma parse_expression_runs:
  assumes "parser_ok p" "3 * remaining p + 1 \<le> n" "q < Prec_Primary"
  shows "runs (parse_expression n q) p (expr_read q p)"
  using expression_runsD [OF _ assms] all_run by blast

section \<open>More fuel, same result\<close>

definition step_le :: "'a step \<Rightarrow> 'a step \<Rightarrow> bool" where
  "step_le m m' \<longleftrightarrow> (\<forall>p r. m p = Some r \<longrightarrow> m' p = Some r)"

lemma step_le_refl [simp]: "step_le m m"
  by (simp add: step_le_def)

lemma step_le_None [simp]: "step_le (\<lambda>p. None) m"
  by (simp add: step_le_def)

lemma step_le_bind: "step_le m m' \<Longrightarrow> (\<And>x. step_le (f x) (f' x)) \<Longrightarrow> step_le (p_bind m f) (p_bind m' f')"
  by (fastforce simp: step_le_def p_bind_def split: option.splits sum.splits)

lemma step_le_if: "step_le m m' \<Longrightarrow> step_le k k' \<Longrightarrow> step_le (if b then m else k) (if b then m' else k')"
  by simp

lemmas step_le_intros = step_le_refl step_le_bind step_le_if

lemma fuel_Suc:
  "step_le (parse_expression n q) (parse_expression (Suc n) q)" "step_le (infix_loop n q l) (infix_loop (Suc n) q l)"
  "step_le (parse_infix n t l) (parse_infix (Suc n) t l)" "step_le (parse_prefix n t) (parse_prefix (Suc n) t)"
  "step_le (parse_arguments n) (parse_arguments (Suc n))"
proof (induction n arbitrary: q l t)
  case 0
  { case 1 show ?case by simp next case 2 show ?case by simp next case 3 show ?case by simp next case 4 show ?case by simp next case 5 show ?case by simp }
next
  case (Suc n)
  { case 1 show ?case unfolding parse_expression.simps(2) [of "Suc n"] parse_expression.simps(2) [of n] by (intro step_le_intros Suc.IH)
  next case 2 show ?case unfolding infix_loop.simps(2) [of "Suc n"] infix_loop.simps(2) [of n q l] by (intro step_le_intros Suc.IH)
  next case 3 show ?case unfolding parse_infix.simps(2) [of "Suc n"] parse_infix.simps(2) [of n] by (intro step_le_intros Suc.IH)
  next case 4 show ?case unfolding parse_prefix.simps(2) [of "Suc n"] parse_prefix.simps(2) [of n] by (intro step_le_intros Suc.IH)
  next case 5 show ?case unfolding parse_arguments.simps(2) [of "Suc n"] by (subst parse_arguments.simps(2)) (intro step_le_intros Suc.IH) }
qed

lemma fuel_up:
  assumes "\<And>n. step_le (f n) (f (Suc n))" "f n p = Some r" "n \<le> m"
  shows "f m p = Some r"
  using assms(3,2) by (induction m rule: dec_induct) (use assms(1) in \<open>unfold step_le_def, blast+\<close>)

text \<open>What the functions return for some fuel.\<close>

definition parses :: "precedence \<Rightarrow> parser \<Rightarrow> (fault + expression) \<times> parser \<Rightarrow> bool" where
  "parses q p r \<longleftrightarrow> (\<exists>n. parse_expression n q p = Some r)"

definition loops :: "precedence \<Rightarrow> expression \<Rightarrow> parser \<Rightarrow> (fault + expression) \<times> parser \<Rightarrow> bool" where
  "loops q l p r \<longleftrightarrow> (\<exists>n. infix_loop n q l p = Some r)"

definition prefixes :: "token \<Rightarrow> parser \<Rightarrow> (fault + expression) \<times> parser \<Rightarrow> bool" where
  "prefixes t p r \<longleftrightarrow> (\<exists>n. parse_prefix n t p = Some r)"

definition arguments :: "parser \<Rightarrow> (fault + expression list) \<times> parser \<Rightarrow> bool" where
  "arguments p r \<longleftrightarrow> (\<exists>n. parse_arguments n p = Some r)"

lemma fuel_enough:
  assumes "parses q p r" "parser_ok p" "3 * remaining p + 1 \<le> n" "q < Prec_Primary"
  shows "parse_expression n q p = Some r"
proof -
  obtain k where k: "parse_expression k q p = Some r" using assms(1) by (auto simp: parses_def)
  obtain r' where r': "parse_expression n q p = Some r'" using parse_expression_runs [OF assms(2-4)] by (auto simp: runs_def)
  have "parse_expression (max k n) q p = Some r" "parse_expression (max k n) q p = Some r'"
    using fuel_up [of "\<lambda>n. parse_expression n q", OF fuel_Suc(1)] k r' by (meson max.cobounded1 max.cobounded2)+
  then show ?thesis using r' by simp
qed

lemma parses_intro:
  assumes "p_rest p = t # rs" "tk_type t \<noteq> TK_Eof" "prefixes t (p_skip 1 p) (Inr l, p1)" "loops q l p1 r"
  shows "parses q p r"
proof -
  obtain k m where "parse_prefix k t (p_skip 1 p) = Some (Inr l, p1)" "infix_loop m q l p1 = Some r" using assms(3,4) by (auto simp: prefixes_def loops_def)
  then have "parse_prefix (max k m) t (p_skip 1 p) = Some (Inr l, p1)" "infix_loop (max k m) q l p1 = Some r"
    using fuel_up [of "\<lambda>n. parse_prefix n t", OF fuel_Suc(4)] fuel_up [of "\<lambda>n. infix_loop n q l", OF fuel_Suc(2)] by (meson max.cobounded1 max.cobounded2)+
  then have "parse_expression (Suc (max k m)) q p = Some r"
    using p_is_at_end_eq [OF assms(1)] p_advance_eq [OF assms(1,2)] assms(2) by (simp add: p_bind_def)
  then show ?thesis unfolding parses_def by blast
qed

lemma loops_stop: "p_rest p = t # rs \<Longrightarrow> get_precedence (tk_type t) \<le> q \<Longrightarrow> loops q l p (Inr l, p)"
  unfolding loops_def by (intro exI [of _ "Suc 0"]) (simp add: p_bind_def p_peek_eq p_return_def leD)

lemma loops_operator:
  assumes "p_rest p = t # rs" "q < get_precedence (tk_type t)" "parses (get_precedence (tk_type t)) (p_skip 1 p) (Inr r, p1)"
    and "loops q (BinaryExpression l (tk_type t) r) p1 x"
  shows "loops q l p x"
proof -
  have ne: "tk_type t \<noteq> TK_Eof" using assms(2) by (auto simp: get_precedence_def less_precedence_def)
  obtain k m where "parse_expression k (get_precedence (tk_type t)) (p_skip 1 p) = Some (Inr r, p1)" "infix_loop m q (BinaryExpression l (tk_type t) r) p1 = Some x"
    using assms(3,4) by (auto simp: parses_def loops_def)
  then have "parse_expression (max k m) (get_precedence (tk_type t)) (p_skip 1 p) = Some (Inr r, p1)"
    "infix_loop (Suc (max k m)) q (BinaryExpression l (tk_type t) r) p1 = Some x"
    using fuel_up [of "\<lambda>n. parse_expression n (get_precedence (tk_type t))", OF fuel_Suc(1)]
      fuel_up [of "\<lambda>n. infix_loop n q (BinaryExpression l (tk_type t) r)", OF fuel_Suc(2)] by (meson max.cobounded1 max.cobounded2 le_SucI)+
  then have "infix_loop (Suc (Suc (max k m))) q l p = Some x"
    using p_peek_eq [OF assms(1)] p_advance_eq [OF assms(1) ne] assms(2)
    by (subst infix_loop.simps) (simp add: p_bind_def p_return_def del: infix_loop.simps)
  then show ?thesis unfolding loops_def by blast
qed

text \<open>Prefix expressions, when the tokens behind them are known.\<close>

lemma prefixes_leaf:
  assumes "p_rest p = n # rs" "expr_toks e [t]" "tk_type t = TK_Identifier \<longrightarrow> tk_type n \<noteq> TK_LeftParen"
  shows "prefixes t p (Inr e, p)"
proof -
  have "parse_prefix (Suc 0) t p = Some (Inr e, p)"
    using assms(2)
  proof cases
    case ident
    then show ?thesis using assms by (simp add: p_bind_def p_check_eq p_return_def)
  next
    case (unary e')
    then show ?thesis using expr_toks_facts(1) by blast
  next
    case (binary l ts r us t')
    then show ?thesis using expr_toks_facts(1) [of l ts] expr_toks_facts(1) [of r us] by (cases ts) auto
  qed (simp_all add: p_return_def)
  then show ?thesis unfolding prefixes_def by blast
qed

lemma prefixes_unary:
  assumes "tk_type t = TK_Minus \<or> tk_type t = TK_Not" "parses Prec_Unary p (Inr e, p1)"
  shows "prefixes t p (Inr (UnaryExpression (tk_type t) e), p1)"
proof -
  obtain k where "parse_expression k Prec_Unary p = Some (Inr e, p1)" using assms(2) by (auto simp: parses_def)
  then have "parse_prefix (Suc k) t p = Some (Inr (UnaryExpression (tk_type t) e), p1)" using assms(1) by (auto simp: p_bind_def p_return_def)
  then show ?thesis unfolding prefixes_def by blast
qed

text \<open>The first token of a list of arguments.\<close>

lemma first_token:
  "expr_toks e ts \<Longrightarrow> tk_type (hd ts) \<notin> {TK_Distinct, TK_RightParen, TK_Star, TK_From}"
  "args_toks es us \<Longrightarrow> tk_type (hd us) \<noteq> TK_Distinct \<and> tk_type (hd us) \<noteq> TK_RightParen"
  by (induction rule: expr_toks_args_toks.inducts) (auto dest: expr_toks_facts simp: hd_append)

lemma prefixes_call:
  assumes p: "p_rest p = lp # ds @ us @ rp # rs" and t: "tk_type t = TK_Identifier" "tk_type lp = TK_LeftParen" "distinct_toks d ds" "tk_type rp = TK_RightParen"
    and a: "us = [] \<and> es = [] \<or> args_toks es us \<and> arguments (p_skip (Suc (length ds)) p) (Inr es, p_skip (Suc (length ds) + length us) p)"
  shows "prefixes t p (Inr (FunctionCallExpression (tk_lexeme t) es d), p_skip (length (lp # ds @ us @ [rp])) p)"
proof -
  let ?p1 = "p_skip 1 p" and ?p2 = "p_skip (Suc (length ds)) p" and ?p3 = "p_skip (Suc (length ds) + length us) p"
  have r: "p_rest ?p1 = ds @ us @ rp # rs" "p_rest ?p2 = us @ rp # rs" "p_rest ?p3 = rp # rs" using p by simp_all
  have nd: "tk_type (hd (us @ rp # rs)) \<noteq> TK_Distinct" "us \<noteq> [] \<Longrightarrow> tk_type (hd (us @ rp # rs)) \<noteq> TK_RightParen"
    using a t(4) first_token(2) [of es us] by (auto simp: hd_append)
  have m: "p_match TK_Distinct ?p1 = Some (Inr d, ?p2)"
    using t(3) r(1) nd(1) p_match_eq [of ?p1 "hd (ds @ us @ rp # rs)" "tl (ds @ us @ rp # rs)" TK_Distinct]
    by (cases d) (auto simp: distinct_toks_def)
  obtain k where k: "(if us = [] then p_return [] else parse_arguments k) ?p2 = Some (Inr es, ?p3)"
    using a expr_toks_facts(2) [of es us] by (auto simp: arguments_def p_return_def)
  have c: "p_check TK_RightParen ?p2 = Some (Inr (us = []), ?p2)"
    using r(2) nd(2) t(4) p_check_eq [of ?p2 "hd (us @ rp # rs)" "tl (us @ rp # rs)" TK_RightParen] by (cases us) auto
  have "parse_prefix (Suc k) t p = Some (Inr (FunctionCallExpression (tk_lexeme t) es d), p_skip (length (lp # ds @ us @ [rp])) p)"
    using p_check_eq [OF p] p_advance_eq [OF p] t m c k p_consume_eq [OF r(3)] by (simp add: p_bind_def p_return_def)
  then show ?thesis unfolding prefixes_def by blast
qed

definition reaches :: "expression \<Rightarrow> token list \<Rightarrow> bool" where
  "reaches e ts \<longleftrightarrow> (\<forall>p n rs q r. parser_ok p \<longrightarrow> p_rest p = ts @ n # rs \<longrightarrow> may_follow (root_prec e) ts n \<longrightarrow> q < root_prec e \<longrightarrow>
     loops q e (p_skip (length ts) p) r \<longrightarrow> parses q p r)"

lemma reachesD:
  "reaches e ts \<Longrightarrow> parser_ok p \<Longrightarrow> p_rest p = ts @ n # rs \<Longrightarrow> may_follow (root_prec e) ts n \<Longrightarrow> q < root_prec e \<Longrightarrow>
     loops q e (p_skip (length ts) p) r \<Longrightarrow> parses q p r"
  unfolding reaches_def by blast

text \<open>Up to the end of the expression, when the next token does not continue it.\<close>

lemma reaches_end:
  assumes "reaches e ts" "parser_ok p" "p_rest p = ts @ n # rs" "may_follow q ts n" "q < root_prec e"
  shows "parses q p (Inr e, p_skip (length ts) p)"
proof (rule reachesD [OF assms(1-3) _ assms(5)])
  show "may_follow (root_prec e) ts n" using assms(4,5) by (auto simp: may_follow_def)
  show "loops q e (p_skip (length ts) p) (Inr e, p_skip (length ts) p)" by (rule loops_stop [of _ n rs]) (use assms(3,4) in \<open>simp_all add: may_follow_def\<close>)
qed

lemma reaches_prefix:
  assumes "root_prec e = Prec_Primary" "tk_type t \<noteq> TK_Eof"
    and "\<And>p n rs. parser_ok p \<Longrightarrow> p_rest p = ts @ n # rs \<Longrightarrow> may_follow Prec_Primary (t # ts) n \<Longrightarrow> prefixes t p (Inr e, p_skip (length ts) p)"
  shows "reaches e (t # ts)"
  unfolding reaches_def
proof (intro allI impI)
  fix p n rs q r assume p: "parser_ok p" "p_rest p = (t # ts) @ n # rs" "may_follow (root_prec e) (t # ts) n" "loops q e (p_skip (length (t # ts)) p) r"
  have "parser_ok (p_skip 1 p)" by (rule ok_skip_next [OF p(1)]) (use p(2) assms(2) in simp)
  then have "prefixes t (p_skip 1 p) (Inr e, p_skip (length ts) (p_skip 1 p))" using assms(3) [of "p_skip 1 p" n rs] assms(1) p(2,3) by simp
  then show "parses q p r" by (rule parses_intro [rotated 2]) (use p(2,4) assms(2) in simp_all)
qed

lemma reaches_leaf: "expr_toks e [t] \<Longrightarrow> root_prec e = Prec_Primary \<Longrightarrow> tk_type t \<noteq> TK_Eof \<Longrightarrow> reaches e [t]"
  by (rule reaches_prefix) (use prefixes_leaf in \<open>auto simp: may_follow_def\<close>)

lemma reaches_call:
  assumes t: "tk_type t = TK_Identifier" "tk_type lp = TK_LeftParen" "distinct_toks d ds" "tk_type rp = TK_RightParen"
    and a: "us = [] \<and> es = [] \<or> args_toks es us \<and>
      (\<forall>p n rs. parser_ok p \<longrightarrow> p_rest p = us @ n # rs \<longrightarrow> tk_type n = TK_RightParen \<longrightarrow> arguments p (Inr es, p_skip (length us) p))"
  shows "reaches (FunctionCallExpression (tk_lexeme t) es d) (t # lp # ds @ us @ [rp])"
proof (rule reaches_prefix)
  fix p n rs assume p: "parser_ok p" "p_rest p = (lp # ds @ us @ [rp]) @ n # rs"
  have "parser_ok (p_skip (Suc (length ds)) p)" by (rule parser_ok_skip [OF p(1)]) (simp add: p(2))
  then have "us = [] \<and> es = [] \<or> args_toks es us \<and> arguments (p_skip (Suc (length ds)) p) (Inr es, p_skip (Suc (length ds) + length us) p)"
    using a p(2) t(4) by fastforce
  then show "prefixes t p (Inr (FunctionCallExpression (tk_lexeme t) es d), p_skip (length (lp # ds @ us @ [rp])) p)"
    by (intro prefixes_call [of _ _ _ _ _ "n # rs"]) (use p(2) t in simp_all)
qed (use t in simp_all)

lemma reaches_binary:
  assumes l: "reaches l ts" "get_precedence (tk_type t) \<le> root_prec l" and r: "reaches r us" "get_precedence (tk_type t) < root_prec r" "us \<noteq> []"
    and t: "get_precedence (tk_type t) \<noteq> Prec_None"
  shows "reaches (BinaryExpression l (tk_type t) r) (ts @ t # us)"
  unfolding reaches_def
proof (intro allI impI)
  let ?e = "BinaryExpression l (tk_type t) r"
  fix p n rs q x assume p: "parser_ok p" "p_rest p = (ts @ t # us) @ n # rs" and f: "may_follow (root_prec ?e) (ts @ t # us) n" and q: "q < root_prec ?e"
    and x: "loops q ?e (p_skip (length (ts @ t # us)) p) x"
  let ?p = "p_skip (length ts) p"
  have p1: "parser_ok ?p" "p_rest ?p = t # us @ n # rs" using parser_ok_skip [OF p(1)] p(2) by simp_all
  have tt: "tk_type t \<noteq> TK_Eof" "tk_type t \<noteq> TK_LeftParen" using t by (auto simp: get_precedence_def)
  have p2: "parser_ok (p_skip 1 ?p)" by (rule ok_skip_next [OF p1(1)]) (use p1(2) tt in simp)
  have r2: "p_rest (p_skip 1 ?p) = us @ n # rs" using p(2) by simp
  have pr: "parses (get_precedence (tk_type t)) (p_skip 1 ?p) (Inr r, p_skip (length us) (p_skip 1 ?p))"
    by (rule reaches_end [OF r(1) p2 r2 _ r(2)]) (use f r(3) in \<open>simp add: may_follow_def\<close>)
  have "loops q l ?p x" by (rule loops_operator [OF p1(2) _ pr]) (use q x in simp_all)
  then show "parses q p x" by (intro reachesD [OF l(1) p(1), of t "us @ n # rs"]) (use p(2) l(2) q tt in \<open>auto simp: may_follow_def\<close>)
qed

lemma arguments_expression:
  assumes "reaches e ts" "Prec_Assignment < root_prec e" "expr_toks e ts" and p: "parser_ok p" "p_rest p = ts @ n # rs" "tk_type n = TK_Comma \<or> tk_type n = TK_RightParen"
    and r: "tk_type n = TK_Comma \<Longrightarrow> arguments (p_skip (Suc (length ts)) p) (Inr es, p1)" "tk_type n = TK_RightParen \<Longrightarrow> es = [] \<and> p1 = p_skip (length ts) p"
  shows "arguments p (Inr (e # es), p1)"
proof -
  have "parses Prec_Assignment p (Inr e, p_skip (length ts) p)"
    by (rule reaches_end [OF assms(1) p(1,2) _ assms(2)]) (use p(3) in \<open>auto simp: may_follow_def get_precedence_def less_eq_precedence_def\<close>)
  then obtain k where k: "parse_expression k Prec_Assignment p = Some (Inr e, p_skip (length ts) p)" by (auto simp: parses_def)
  have h: "p_rest p = hd ts # tl ts @ n # rs" using p(2) expr_toks_facts(1) [OF assms(3)] by simp
  have s: "p_match TK_Star p = Some (Inr False, p)" using p_match_eq [OF h, of TK_Star] first_token(1) [OF assms(3)] by simp
  have c: "p_match TK_Comma (p_skip (length ts) p) = Some (if tk_type n = TK_Comma then (Inr True, p_skip (Suc (length ts)) p) else (Inr False, p_skip (length ts) p))"
    using p_match_eq [of "p_skip (length ts) p" n rs TK_Comma] p(2) by simp
  show ?thesis
  proof (cases "tk_type n = TK_Comma")
    case True
    then obtain m where m: "parse_arguments m (p_skip (Suc (length ts)) p) = Some (Inr es, p1)" using r(1) by (auto simp: arguments_def)
    have "parse_arguments (max k m) (p_skip (Suc (length ts)) p) = Some (Inr es, p1)"
      "parse_expression (max k m) Prec_Assignment p = Some (Inr e, p_skip (length ts) p)"
      using fuel_up [of parse_arguments, OF fuel_Suc(5)] fuel_up [of "\<lambda>n. parse_expression n Prec_Assignment", OF fuel_Suc(1)] k m
      by (meson max.cobounded1 max.cobounded2)+
    then have "parse_arguments (Suc (max k m)) p = Some (Inr (e # es), p1)" using s c True by (simp add: p_bind_def p_return_def)
    then show ?thesis unfolding arguments_def by blast
  next
    case False
    then have "parse_arguments (Suc k) p = Some (Inr (e # es), p1)" using s c k r(2) p(3) by (simp add: p_bind_def p_return_def)
    then show ?thesis unfolding arguments_def by blast
  qed
qed

lemma grammar_complete:
  "expr_toks e ts \<Longrightarrow> reaches e ts"
  "args_toks es us \<Longrightarrow> \<forall>p n rs. parser_ok p \<longrightarrow> p_rest p = us @ n # rs \<longrightarrow> tk_type n = TK_RightParen \<longrightarrow> arguments p (Inr es, p_skip (length us) p)"
proof (induction rule: expr_toks_args_toks.inducts)
  case (int t v)
  then show ?case by (intro reaches_leaf expr_toks_args_toks.int) simp_all
next
  case (str t)
  then show ?case by (intro reaches_leaf expr_toks_args_toks.str) simp_all
next
  case (true t)
  then show ?case by (intro reaches_leaf expr_toks_args_toks.true) simp_all
next
  case (false t)
  then show ?case by (intro reaches_leaf expr_toks_args_toks.false) simp_all
next
  case (ident t)
  then show ?case by (intro reaches_leaf expr_toks_args_toks.ident) simp_all
next
  case (param t)
  then show ?case by (intro reaches_leaf expr_toks_args_toks.param) simp_all
next
  case (call_empty t lp d ds rp)
  then show ?case using reaches_call [of t lp d ds rp "[]" "[]"] by simp
next
  case (call t lp d ds es ts rp)
  then show ?case by (intro reaches_call) blast+
next
  case (unary t e ts)
  show ?case
  proof (rule reaches_prefix)
    fix p n rs assume p: "parser_ok p" "p_rest p = ts @ n # rs" "may_follow Prec_Primary (t # ts) n"
    have "parses Prec_Unary p (Inr e, p_skip (length ts) p)"
      by (rule reaches_end [OF unary.IH p(1,2) _ unary.hyps(3)])
        (use p(3) expr_toks_facts(1) [OF unary.hyps(2)] precedence_facts(3) in \<open>simp add: may_follow_def less_imp_le\<close>)
    then show "prefixes t p (Inr (UnaryExpression (tk_type t) e), p_skip (length ts) p)" by (rule prefixes_unary [OF unary.hyps(1)])
  qed (use unary.hyps(1) in auto)
next
  case (binary l ts r us t)
  then show ?case using expr_toks_facts(1) by (intro reaches_binary) simp_all
next
  case (star t)
  show ?case
  proof (intro allI impI)
    fix p n rs assume p: "p_rest p = [t] @ n # rs"
    have "parse_arguments (Suc 0) p = Some (Inr [], p_skip (length [t]) p)" using p_match_eq [of p t "n # rs" TK_Star] p star by (simp add: p_bind_def p_return_def)
    then show "arguments p (Inr [], p_skip (length [t]) p)" unfolding arguments_def by blast
  qed
next
  case (one e ts)
  show ?case
  proof (intro allI impI)
    fix p n rs assume p: "parser_ok p" "p_rest p = ts @ n # rs" "tk_type n = TK_RightParen"
    show "arguments p (Inr [e], p_skip (length ts) p)"
      by (rule arguments_expression [OF one.IH _ one.hyps p(1,2)]) (use p(3) expr_toks_facts(1) [OF one.hyps] in simp_all)
  qed
next
  case (more e ts t es us)
  show ?case
  proof (intro allI impI)
    fix p n rs assume p: "parser_ok p" "p_rest p = (ts @ t # us) @ n # rs" "tk_type n = TK_RightParen"
    have "parser_ok (p_skip (Suc (length ts)) p)" by (rule parser_ok_skip [OF p(1)]) (simp add: p(2))
    moreover have "p_rest (p_skip (Suc (length ts)) p) = us @ n # rs" by (simp add: p(2))
    ultimately have "arguments (p_skip (Suc (length ts)) p) (Inr es, p_skip (length us) (p_skip (Suc (length ts)) p))" using more.IH(2) p(3) by blast
    then show "arguments p (Inr (e # es), p_skip (length (ts @ t # us)) p)"
      by (intro arguments_expression [OF more.IH(1) _ more.hyps(1) p(1), of t "us @ n # rs"]) (use p(2) expr_toks_facts(1) [OF more.hyps(1)] more.hyps(2) in simp_all)
  qed
qed

section \<open>Select statements\<close>

inductive column_toks :: "result_column \<Rightarrow> token list \<Rightarrow> bool" where
  star: "tk_type t = TK_Star \<Longrightarrow> column_toks \<lparr>rc_expr = IdentifierExpression ''*'', rc_alias = []\<rparr> [t]"
| plain: "expr_toks e ts \<Longrightarrow> column_toks \<lparr>rc_expr = e, rc_alias = []\<rparr> ts"
| aliased: "expr_toks e ts \<Longrightarrow> tk_type t = TK_As \<Longrightarrow> tk_type a = TK_Identifier \<Longrightarrow> column_toks \<lparr>rc_expr = e, rc_alias = tk_lexeme a\<rparr> (ts @ [t, a])"

inductive table_toks :: "table_reference \<Rightarrow> token list \<Rightarrow> bool" where
  plain: "tk_type t = TK_Identifier \<Longrightarrow> table_toks \<lparr>tr_table_name = tk_lexeme t, tr_alias = []\<rparr> [t]"
| named: "tk_type t = TK_Identifier \<Longrightarrow> tk_type a = TK_Identifier \<Longrightarrow> table_toks \<lparr>tr_table_name = tk_lexeme t, tr_alias = tk_lexeme a\<rparr> [t, a]"
| aliased: "tk_type t = TK_Identifier \<Longrightarrow> tk_type k = TK_As \<Longrightarrow> tk_type a = TK_Identifier \<Longrightarrow>
    table_toks \<lparr>tr_table_name = tk_lexeme t, tr_alias = tk_lexeme a\<rparr> [t, k, a]"

text \<open>A list of items with commas between them.\<close>

inductive list_toks :: "('a \<Rightarrow> token list \<Rightarrow> bool) \<Rightarrow> 'a list \<Rightarrow> token list \<Rightarrow> bool" for item where
  last: "item x ts \<Longrightarrow> list_toks item [x] ts"
| more: "item x ts \<Longrightarrow> tk_type t = TK_Comma \<Longrightarrow> list_toks item xs us \<Longrightarrow> list_toks item (x # xs) (ts @ t # us)"

definition from_toks :: "table_reference list \<Rightarrow> token list \<Rightarrow> bool" where
  "from_toks tables ts \<longleftrightarrow> tables = [] \<and> ts = [] \<or> (\<exists>t us. ts = t # us \<and> tk_type t = TK_From \<and> list_toks table_toks tables us)"

definition where_toks :: "expression option \<Rightarrow> token list \<Rightarrow> bool" where
  "where_toks c ts \<longleftrightarrow> c = None \<and> ts = [] \<or> (\<exists>t us e. ts = t # us \<and> tk_type t = TK_Where \<and> expr_toks e us \<and> c = Some e)"

inductive select_toks :: "statement \<Rightarrow> token list \<Rightarrow> bool" where
  select: "tk_type t = TK_Select \<Longrightarrow> cols = [] \<and> cs = [] \<and> fs \<noteq> [] \<or> list_toks column_toks cols cs \<Longrightarrow> from_toks tables fs \<Longrightarrow> where_toks c ws \<Longrightarrow>
    select_toks (SelectStatement cols tables c) (t # cs @ fs @ ws)"

definition item_read :: "('a \<Rightarrow> token list \<Rightarrow> bool) \<Rightarrow> parser \<Rightarrow> 'a \<Rightarrow> parser \<Rightarrow> bool" where
  "item_read item p x p' \<longleftrightarrow> (\<exists>ts. reads p p' ts \<and> ts \<noteq> [] \<and> item x ts)"

lemma item_readI: "reads p p' ts \<Longrightarrow> ts \<noteq> [] \<Longrightarrow> item x ts \<Longrightarrow> item_read item p x p'"
  unfolding item_read_def by blast

lemma item_read_remaining: "parser_ok p' \<Longrightarrow> item_read item p x p' \<Longrightarrow> remaining p' < remaining p"
  using reads_remaining by (fastforce simp: item_read_def)

lemma list_toks_Nil: "list_toks item xs ts \<Longrightarrow> (\<And>x us. item x us \<Longrightarrow> us \<noteq> []) \<Longrightarrow> ts \<noteq> []"
  by (induction rule: list_toks.induct) simp_all

text \<open>A loop that reads an item and goes on behind a comma, for both lists.\<close>

lemma runs_list:
  assumes x: "item_read item p x p1" "parser_ok p1"
    and more: "\<And>p2. parser_ok p2 \<Longrightarrow> remaining p2 < remaining p \<Longrightarrow> runs m p2 (item_read (list_toks item) p2)"
  shows "runs (p_bind (p_match TK_Comma) (\<lambda>b. if b then p_bind m (\<lambda>xs. p_return (x # xs)) else p_return [x])) p1 (item_read (list_toks item) p)"
proof (rule runs_bind [OF runs_match [OF x(2) no_eof(4)]])
  obtain ts where ts: "reads p p1 ts" "ts \<noteq> []" "item x ts" using x(1) by (auto simp: item_read_def)
  have r1: "remaining p1 < remaining p" by (rule item_read_remaining [OF x(2,1)])
  fix b p2 assume b: "if b then tk_type (next_token p1) = TK_Comma \<and> reads p1 p2 [next_token p1] else p2 = p1 \<and> tk_type (next_token p1) \<noteq> TK_Comma"
    and p2: "parser_ok p2"
  show "runs (if b then p_bind m (\<lambda>xs. p_return (x # xs)) else p_return [x]) p2 (item_read (list_toks item) p)"
  proof (cases b)
    case False
    then have "item_read (list_toks item) p [x] p2" using b ts list_toks.last [of item x ts] by (auto intro: item_readI)
    then show ?thesis using False p2 by (simp add: runs_return)
  next
    case True
    then have c: "tk_type (next_token p1) = TK_Comma" "reads p1 p2 [next_token p1]" using b by simp_all
    have "remaining p2 < remaining p" using r1 reads_remaining [OF p2 c(2)] by simp
    then have "runs (p_bind m (\<lambda>xs. p_return (x # xs))) p2 (item_read (list_toks item) p)"
    proof (rule runs_bind [OF more [OF p2]])
      fix xs p3 assume xs: "item_read (list_toks item) p2 xs p3" and p3: "parser_ok p3"
      then obtain us where us: "reads p2 p3 us" "list_toks item xs us" by (auto simp: item_read_def)
      have "reads p p3 (ts @ next_token p1 # us)" using reads_trans [OF ts(1) reads_trans [OF c(2) us(1)]] by simp
      then show "runs (p_return (x # xs)) p3 (item_read (list_toks item) p)"
        using list_toks.more [of item, OF ts(3) c(1) us(2)] p3 by (intro runs_return) (auto intro: item_readI)
    qed
    then show ?thesis using True by simp
  qed
qed

lemma reads_two: "reads p p1 [t] \<Longrightarrow> reads p1 p2 [u] \<Longrightarrow> reads p p2 [t, u]"
  using reads_trans by fastforce

lemma runs_result_column:
  assumes p: "parser_ok p" "3 * remaining p + 1 \<le> n"
  shows "runs (parse_result_column n) p (item_read column_toks p)"
  unfolding parse_result_column_def
proof (rule runs_bind [OF runs_match [OF p(1) no_eof(5)]])
  have al: "runs (p_bind (p_match TK_As) (\<lambda>as. if as then p_bind (p_consume TK_Identifier msg) (\<lambda>t. p_return \<lparr>rc_expr = e, rc_alias = tk_lexeme t\<rparr>)
    else p_return \<lparr>rc_expr = e, rc_alias = []\<rparr>)) p1 (item_read column_toks p)" if e: "expr_read Prec_Assignment p e p1" and p1: "parser_ok p1" for e p1 msg
  proof (rule runs_bind [OF runs_match [OF p1 no_eof(7)]])
    obtain ts where ts: "reads p p1 ts" "expr_toks e ts" using e by (auto simp: expr_read_def)
    fix b p2 assume b: "if b then tk_type (next_token p1) = TK_As \<and> reads p1 p2 [next_token p1] else p2 = p1 \<and> tk_type (next_token p1) \<noteq> TK_As" and p2: "parser_ok p2"
    show "runs (if b then p_bind (p_consume TK_Identifier msg) (\<lambda>t. p_return \<lparr>rc_expr = e, rc_alias = tk_lexeme t\<rparr>) else p_return \<lparr>rc_expr = e, rc_alias = []\<rparr>) p2
      (item_read column_toks p)"
    proof (rule runs_if)
      assume nb: "\<not> b"
      show "runs (p_return \<lparr>rc_expr = e, rc_alias = []\<rparr>) p2 (item_read column_toks p)"
        using nb b ts expr_toks_facts(1) [OF ts(2)] column_toks.plain [OF ts(2)] p2 by (intro runs_return item_readI [of p p2 ts]) simp_all
    next
      assume b
      then have k: "tk_type (next_token p1) = TK_As" "reads p1 p2 [next_token p1]" using b by simp_all
      show "runs (p_bind (p_consume TK_Identifier msg) (\<lambda>t. p_return \<lparr>rc_expr = e, rc_alias = tk_lexeme t\<rparr>)) p2 (item_read column_toks p)"
      proof (rule runs_bind [OF runs_consume [OF p2 no_eof(6)]], elim conjE)
        fix t p3 assume t: "tk_type t = TK_Identifier" "reads p2 p3 [t]" and p3: "parser_ok p3"
        show "runs (p_return \<lparr>rc_expr = e, rc_alias = tk_lexeme t\<rparr>) p3 (item_read column_toks p)"
          using reads_trans [OF ts(1) reads_two [OF k(2) t(2)]] column_toks.aliased [OF ts(2) k(1) t(1)]
          by (intro runs_return [OF p3] item_readI) simp_all
      qed
    qed
  qed
  fix b p1 assume b: "if b then tk_type (next_token p) = TK_Star \<and> reads p p1 [next_token p] else p1 = p \<and> tk_type (next_token p) \<noteq> TK_Star" and p1: "parser_ok p1"
  show "runs (if b then p_return \<lparr>rc_expr = IdentifierExpression ''*'', rc_alias = []\<rparr> else p_bind (parse_expression n Prec_Assignment) (\<lambda>e. p_bind (p_match TK_As) (\<lambda>as.
      if as then p_bind (p_consume TK_Identifier ''Expected alias after AS'') (\<lambda>t. p_return \<lparr>rc_expr = e, rc_alias = tk_lexeme t\<rparr>)
      else p_return \<lparr>rc_expr = e, rc_alias = []\<rparr>))) p1 (item_read column_toks p)"
  proof (rule runs_if)
    assume b
    then show "runs (p_return \<lparr>rc_expr = IdentifierExpression ''*'', rc_alias = []\<rparr>) p1 (item_read column_toks p)"
      using b column_toks.star [of "next_token p"] by (intro runs_return [OF p1] item_readI [of p p1 "[next_token p]"]) simp_all
  next
    assume "\<not> b"
    then have "p1 = p" using b by simp
    then show "runs (p_bind (parse_expression n Prec_Assignment) (\<lambda>e. p_bind (p_match TK_As) (\<lambda>as.
      if as then p_bind (p_consume TK_Identifier ''Expected alias after AS'') (\<lambda>t. p_return \<lparr>rc_expr = e, rc_alias = tk_lexeme t\<rparr>)
      else p_return \<lparr>rc_expr = e, rc_alias = []\<rparr>))) p1 (item_read column_toks p)"
      using runs_bind [OF parse_expression_runs [OF p precedence_levels(1)] al] by simp
  qed
qed

lemma runs_table_reference:
  assumes p: "parser_ok p"
  shows "runs parse_table_reference p (item_read table_toks p)"
  unfolding parse_table_reference_def
proof (rule runs_bind [OF runs_consume [OF p no_eof(6)]], elim conjE)
  fix t p1 assume t: "tk_type t = TK_Identifier" "reads p p1 [t]" and p1: "parser_ok p1"
  let ?ret = "\<lambda>a. p_return \<lparr>tr_table_name = tk_lexeme t, tr_alias = a\<rparr> :: table_reference step"
  show "runs (p_bind (p_match TK_As) (\<lambda>as. if as then p_bind (p_consume TK_Identifier ''Expected alias after AS'') (\<lambda>a. ?ret (tk_lexeme a))
    else p_bind (p_check TK_Identifier) (\<lambda>b. if b then p_bind p_advance (\<lambda>a. ?ret (tk_lexeme a)) else ?ret []))) p1 (item_read table_toks p)"
  proof (rule runs_bind [OF runs_match [OF p1 no_eof(7)]], rule runs_if)
    fix b p2 assume b: "if b then tk_type (next_token p1) = TK_As \<and> reads p1 p2 [next_token p1] else p2 = p1 \<and> tk_type (next_token p1) \<noteq> TK_As" and p2: "parser_ok p2"
    { assume b
      then have k: "tk_type (next_token p1) = TK_As" "reads p1 p2 [next_token p1]" using b by simp_all
      show "runs (p_bind (p_consume TK_Identifier ''Expected alias after AS'') (\<lambda>a. ?ret (tk_lexeme a))) p2 (item_read table_toks p)"
      proof (rule runs_bind [OF runs_consume [OF p2 no_eof(6)]], elim conjE)
        fix a p3 assume a: "tk_type a = TK_Identifier" "reads p2 p3 [a]" and p3: "parser_ok p3"
        show "runs (?ret (tk_lexeme a)) p3 (item_read table_toks p)"
          using reads_trans [OF t(2) reads_two [OF k(2) a(2)]] table_toks.aliased [OF t(1) k(1) a(1)] by (intro runs_return [OF p3] item_readI) simp_all
      qed
    }
    assume "\<not> b"
    then have e: "p2 = p1" using b by simp
    show "runs (p_bind (p_check TK_Identifier) (\<lambda>b. if b then p_bind p_advance (\<lambda>a. ?ret (tk_lexeme a)) else ?ret [])) p2 (item_read table_toks p)"
      unfolding e
    proof (rule runs_bind [OF runs_check [OF p1 no_eof(6)]], elim conjE, hypsubst, rule runs_if)
      show "runs (?ret []) p1 (item_read table_toks p)"
        using table_toks.plain [OF t(1)] t(2) by (intro runs_return [OF p1] item_readI [of p p1 "[t]"]) simp_all
      assume i: "tk_type (next_token p1) = TK_Identifier"
      then have "tk_type (next_token p1) \<noteq> TK_Eof" by simp
      from runs_advance [OF p1 this]
      show "runs (p_bind p_advance (\<lambda>a. ?ret (tk_lexeme a))) p1 (item_read table_toks p)"
      proof (rule runs_bind, elim conjE)
        fix a p3 assume a: "a = next_token p1" "reads p1 p3 [a]" and p3: "parser_ok p3"
        then have ai: "tk_type a = TK_Identifier" using i by simp
        show "runs (?ret (tk_lexeme a)) p3 (item_read table_toks p)"
          by (intro runs_return [OF p3] item_readI [OF reads_two [OF t(2) a(2)]] table_toks.named [OF t(1) ai]) simp
      qed
    qed
  qed
qed

lemma runs_projection: "parser_ok p \<Longrightarrow> 3 * remaining p + 2 \<le> n \<Longrightarrow> runs (parse_projection n) p (item_read (list_toks column_toks) p)"
proof (induction n arbitrary: p)
  case (Suc n)
  have "runs (parse_result_column n) p (item_read column_toks p)" by (rule runs_result_column) (use Suc.prems in simp_all)
  then show ?case
    unfolding parse_projection.simps
  proof (rule runs_bind)
    fix x p1 assume x: "item_read column_toks p x p1" "parser_ok p1"
    show "runs (p_bind (p_match TK_Comma) (\<lambda>more. if more then p_bind (parse_projection n) (\<lambda>cols. p_return (x # cols)) else p_return [x])) p1
      (item_read (list_toks column_toks) p)"
      by (rule runs_list [OF x]) (use Suc in simp)
  qed
qed simp

lemma runs_from: "parser_ok p \<Longrightarrow> 3 * remaining p + 2 \<le> n \<Longrightarrow> runs (parse_from n) p (item_read (list_toks table_toks) p)"
proof (induction n arbitrary: p)
  case (Suc n)
  from runs_table_reference [OF Suc.prems(1)] show ?case
    unfolding parse_from.simps
  proof (rule runs_bind)
    fix x p1 assume x: "item_read table_toks p x p1" "parser_ok p1"
    show "runs (p_bind (p_match TK_Comma) (\<lambda>more. if more then p_bind (parse_from n) (\<lambda>refs. p_return (x # refs)) else p_return [x])) p1
      (item_read (list_toks table_toks) p)"
      by (rule runs_list [OF x]) (use Suc in simp)
  qed
qed simp

text \<open>The three clauses, each of which may be missing.\<close>

lemma runs_columns_clause:
  assumes "parser_ok p" "3 * remaining p + 2 \<le> n"
  shows "runs (p_bind (p_check TK_From) (\<lambda>none. if none then p_return [] else parse_projection n)) p
    (\<lambda>cols p'. \<exists>cs. reads p p' cs \<and> (cols = [] \<and> cs = [] \<and> tk_type (next_token p') = TK_From \<or> list_toks column_toks cols cs))"
proof (rule runs_bind [OF runs_check [OF assms(1) no_eof(8)]], elim conjE, hypsubst, rule runs_if)
  let ?Q = "\<lambda>cols p'. \<exists>cs. reads p p' cs \<and> (cols = [] \<and> cs = [] \<and> tk_type (next_token p') = TK_From \<or> list_toks column_toks cols cs)"
  show "runs (p_return []) p ?Q" if "tk_type (next_token p) = TK_From"
    using that by (intro runs_return [OF assms(1)] exI [of _ "[]"]) simp
  show "runs (parse_projection n) p ?Q"
    by (rule runs_mono [OF runs_projection [OF assms]]) (auto simp: item_read_def)
qed

lemma runs_from_clause:
  assumes "parser_ok p" "3 * remaining p + 2 \<le> n"
  shows "runs (p_bind (p_match TK_From) (\<lambda>from. if from then parse_from n else p_return [])) p
    (\<lambda>tables p'. \<exists>fs. reads p p' fs \<and> from_toks tables fs \<and> (tk_type (next_token p) = TK_From \<longrightarrow> fs \<noteq> []))"
proof (rule runs_bind [OF runs_match [OF assms(1) no_eof(8)]], rule runs_if)
  let ?Q = "\<lambda>tables p'. \<exists>fs. reads p p' fs \<and> from_toks tables fs \<and> (tk_type (next_token p) = TK_From \<longrightarrow> fs \<noteq> [])"
  fix b p1 assume b: "if b then tk_type (next_token p) = TK_From \<and> reads p p1 [next_token p] else p1 = p \<and> tk_type (next_token p) \<noteq> TK_From" and p1: "parser_ok p1"
  show "runs (p_return []) p1 ?Q" if "\<not> b"
    using that b by (intro runs_return [OF p1] exI [of _ "[]"]) (simp add: from_toks_def)
  assume b
  then have f: "tk_type (next_token p) = TK_From" "reads p p1 [next_token p]" using b by simp_all
  have r: "runs (parse_from n) p1 (item_read (list_toks table_toks) p1)" by (rule runs_from) (use p1 assms(2) reads_remaining [OF p1 f(2)] in simp_all)
  show "runs (parse_from n) p1 ?Q"
  proof (rule runs_mono [OF r])
    fix tables p2 assume "item_read (list_toks table_toks) p1 tables p2"
    then obtain us where us: "reads p1 p2 us" "list_toks table_toks tables us" by (auto simp: item_read_def)
    show "?Q tables p2" using reads_trans [OF f(2) us(1)] us(2) f(1) by (intro exI [of _ "next_token p # us"]) (simp add: from_toks_def)
  qed
qed

lemma runs_where_clause:
  assumes "parser_ok p" "3 * remaining p + 1 \<le> n"
  shows "runs (p_bind (p_match TK_Where) (\<lambda>b. if b then p_bind (parse_expression n Prec_Assignment) (\<lambda>e. p_return (Some e)) else p_return None)) p
    (\<lambda>c p'. \<exists>ws. reads p p' ws \<and> where_toks c ws)"
proof (rule runs_bind [OF runs_match [OF assms(1) no_eof(9)]], rule runs_if)
  let ?Q = "\<lambda>c p'. \<exists>ws. reads p p' ws \<and> where_toks c ws"
  fix b p1 assume b: "if b then tk_type (next_token p) = TK_Where \<and> reads p p1 [next_token p] else p1 = p \<and> tk_type (next_token p) \<noteq> TK_Where" and p1: "parser_ok p1"
  show "runs (p_return None) p1 ?Q" if "\<not> b"
    using that b by (intro runs_return [OF p1] exI [of _ "[]"]) (simp add: where_toks_def)
  assume b
  then have f: "tk_type (next_token p) = TK_Where" "reads p p1 [next_token p]" using b by simp_all
  have r: "runs (parse_expression n Prec_Assignment) p1 (expr_read Prec_Assignment p1)"
    by (rule parse_expression_runs) (use p1 assms(2) reads_remaining [OF p1 f(2)] in simp_all)
  show "runs (p_bind (parse_expression n Prec_Assignment) (\<lambda>e. p_return (Some e))) p1 ?Q"
  proof (rule runs_bind [OF r])
    fix e p2 assume "expr_read Prec_Assignment p1 e p2" and p2: "parser_ok p2"
    then obtain us where us: "reads p1 p2 us" "expr_toks e us" by (auto simp: expr_read_def)
    show "runs (p_return (Some e)) p2 ?Q"
      using reads_trans [OF f(2) us(1)] us(2) f(1) by (intro runs_return [OF p2] exI [of _ "next_token p # us"]) (simp add: where_toks_def)
  qed
qed

lemma p_bind_assoc: "p_bind (p_bind m f) g = p_bind m (\<lambda>x. p_bind (f x) g)"
  by (auto simp: p_bind_def fun_eq_iff split: option.splits sum.splits)

lemma parse_select_clauses:
  "parse_select n =
     p_bind (p_bind (p_check TK_From) (\<lambda>none. if none then p_return [] else parse_projection n)) (\<lambda>cols.
     p_bind (p_bind (p_match TK_From) (\<lambda>from. if from then parse_from n else p_return [])) (\<lambda>tables.
     p_bind (p_bind (p_match TK_Where) (\<lambda>b. if b then p_bind (parse_expression n Prec_Assignment) (\<lambda>e. p_return (Some e)) else p_return None)) (\<lambda>c.
       p_return (SelectStatement cols tables c))))"
  by (simp only: parse_select_def p_bind_assoc)

lemma runs_statement:
  assumes p: "parser_ok p" "ps_current p = 0"
  shows "runs parse_statement p (item_read select_toks p)"
proof -
  let ?n = "3 * length (ps_tokens p) + 3"
  have ne: "ps_tokens p \<noteq> []" using p by (auto simp: parser_ok_def)
  have "runs (p_bind (p_match TK_Select) (\<lambda>sel. if sel then parse_select ?n
      else p_bind p_peek (\<lambda>t. syntax_error (tk_location t) ''Unsupported statement type''))) p (item_read select_toks p)"
  proof (rule runs_bind [OF runs_match [OF p(1) no_eof(10)]], rule runs_if)
    fix b p1 assume b: "if b then tk_type (next_token p) = TK_Select \<and> reads p p1 [next_token p] else p1 = p \<and> tk_type (next_token p) \<noteq> TK_Select" and p1: "parser_ok p1"
    show "runs (p_bind p_peek (\<lambda>t. syntax_error (tk_location t) ''Unsupported statement type'')) p1 (item_read select_toks p)"
      by (rule runs_bind [OF runs_peek [OF p1]]) (rule runs_error)
    assume b
    then have s: "tk_type (next_token p) = TK_Select" "reads p p1 [next_token p]" using b by simp_all
    have n: "3 * remaining p + 2 \<le> ?n" by (simp add: remaining_def p_rest_def)
    then have n1: "3 * remaining p1 + 2 \<le> ?n" using reads_remaining [OF p1 s(2)] by simp
    show "runs (parse_select ?n) p1 (item_read select_toks p)"
      unfolding parse_select_clauses
    proof (rule runs_bind [OF runs_columns_clause [OF p1 n1]], elim exE conjE)
      fix cols p2 cs assume cs: "reads p1 p2 cs" "cols = [] \<and> cs = [] \<and> tk_type (next_token p2) = TK_From \<or> list_toks column_toks cols cs" and p2: "parser_ok p2"
      have n2: "3 * remaining p2 + 2 \<le> ?n" using n1 reads_remaining [OF p2 cs(1)] by simp
      show "runs (p_bind (p_bind (p_match TK_From) (\<lambda>from. if from then parse_from ?n else p_return [])) (\<lambda>tables.
        p_bind (p_bind (p_match TK_Where) (\<lambda>b. if b then p_bind (parse_expression ?n Prec_Assignment) (\<lambda>e. p_return (Some e)) else p_return None)) (\<lambda>c.
          p_return (SelectStatement cols tables c)))) p2 (item_read select_toks p)"
      proof (rule runs_bind [OF runs_from_clause [OF p2 n2]], elim exE conjE)
        fix tables p3 fs assume fs: "reads p2 p3 fs" "from_toks tables fs" "tk_type (next_token p2) = TK_From \<longrightarrow> fs \<noteq> []" and p3: "parser_ok p3"
        have n3: "3 * remaining p3 + 1 \<le> ?n" using n2 reads_remaining [OF p3 fs(1)] by simp
        show "runs (p_bind (p_bind (p_match TK_Where) (\<lambda>b. if b then p_bind (parse_expression ?n Prec_Assignment) (\<lambda>e. p_return (Some e)) else p_return None)) (\<lambda>c.
          p_return (SelectStatement cols tables c))) p3 (item_read select_toks p)"
        proof (rule runs_bind [OF runs_where_clause [OF p3 n3]], elim exE conjE)
          fix c p4 ws assume ws: "reads p3 p4 ws" "where_toks c ws" and p4: "parser_ok p4"
          have "cols = [] \<and> cs = [] \<and> fs \<noteq> [] \<or> list_toks column_toks cols cs" using cs(2) fs(3) by blast
          from select_toks.select [OF s(1) this fs(2) ws(2)] show "runs (p_return (SelectStatement cols tables c)) p4 (item_read select_toks p)"
            using reads_trans [OF s(2) reads_trans [OF cs(1) reads_trans [OF fs(1) ws(1)]]] by (intro runs_return [OF p4] item_readI) simp_all
        qed
      qed
    qed
  qed
  then show ?thesis using ne by (simp add: runs_def parse_statement_def)
qed

section \<open>Every select statement is accepted\<close>

text \<open>The tokens that may stand behind a clause or an item.\<close>

definition stops :: "token \<Rightarrow> bool" where
  "stops t \<longleftrightarrow> tk_type t \<in> {TK_Comma, TK_From, TK_Where, TK_Semicolon, TK_Eof}"

lemma stops_facts:
  "stops t \<Longrightarrow> may_follow Prec_Assignment ts t" "stops t \<Longrightarrow> tk_type t \<noteq> TK_As" "stops t \<Longrightarrow> tk_type t \<noteq> TK_Identifier"
  by (auto simp: stops_def may_follow_def get_precedence_def less_eq_precedence_def)

lemma expression_accepted:
  assumes "expr_toks e ts" "parser_ok p" "p_rest p = ts @ t # rs" "may_follow Prec_Assignment ts t" "3 * remaining p + 1 \<le> n"
  shows "parse_expression n Prec_Assignment p = Some (Inr e, p_skip (length ts) p)"
proof (rule fuel_enough [OF _ assms(2,5) precedence_levels(1)])
  show "parses Prec_Assignment p (Inr e, p_skip (length ts) p)"
    by (rule reaches_end [OF grammar_complete(1) [OF assms(1)] assms(2-4)]) (use expr_toks_facts(1) [OF assms(1)] in simp)
qed

lemma column_accepted:
  assumes "column_toks x ts" "parser_ok p" "p_rest p = ts @ t # rs" "stops t" "3 * remaining p + 1 \<le> n"
  shows "parse_result_column n p = Some (Inr x, p_skip (length ts) p)"
  using assms(1)
proof cases
  case (star u)
  then show ?thesis using p_match_eq [of p u "t # rs" TK_Star] assms(3) by (simp add: parse_result_column_def p_bind_def p_return_def)
next
  case (plain e)
  have h: "p_rest p = hd ts # tl ts @ t # rs" using assms(3) expr_toks_facts(1) [OF plain(2)] by simp
  have "p_match TK_Star p = Some (Inr False, p)" using p_match_eq [OF h, of TK_Star] first_token(1) [OF plain(2)] by simp
  moreover have "p_match TK_As (p_skip (length ts) p) = Some (Inr False, p_skip (length ts) p)"
    using p_match_eq [of "p_skip (length ts) p" t rs TK_As] assms(3) stops_facts(2) [OF assms(4)] by simp
  ultimately show ?thesis using expression_accepted [OF plain(2) assms(2,3) stops_facts(1) [OF assms(4)] assms(5)]
    by (simp add: parse_result_column_def p_bind_def p_return_def plain(1))
next
  case (aliased e us k a)
  have r: "p_rest p = us @ k # a # t # rs" using assms(3) aliased(2) by simp
  have h: "p_rest p = hd us # tl us @ k # a # t # rs" using r expr_toks_facts(1) [OF aliased(3)] by simp
  have "may_follow Prec_Assignment us k" using aliased(4) by (simp add: may_follow_def get_precedence_def less_eq_precedence_def)
  then have "parse_expression n Prec_Assignment p = Some (Inr e, p_skip (length us) p)" by (rule expression_accepted [OF aliased(3) assms(2) r _ assms(5)])
  moreover have "p_match TK_Star p = Some (Inr False, p)" using p_match_eq [OF h, of TK_Star] first_token(1) [OF aliased(3)] by simp
  moreover have "p_match TK_As (p_skip (length us) p) = Some (Inr True, p_skip (Suc (length us)) p)"
    using p_match_eq [of "p_skip (length us) p" k "a # t # rs" TK_As] r aliased(4) by simp
  moreover have "p_consume TK_Identifier m (p_skip (Suc (length us)) p) = Some (Inr a, p_skip (Suc (Suc (length us))) p)" for m
    using p_consume_eq [of "p_skip (Suc (length us)) p" a "t # rs" TK_Identifier m] r aliased(5) by simp
  ultimately show ?thesis by (simp add: parse_result_column_def p_bind_def p_return_def aliased(1,2))
qed

lemma table_accepted:
  assumes "table_toks x ts" "p_rest p = ts @ t # rs" "stops t"
  shows "parse_table_reference p = Some (Inr x, p_skip (length ts) p)"
  using assms(1)
proof cases
  case (plain u)
  then show ?thesis using p_consume_eq [of p u "t # rs" TK_Identifier] p_match_eq [of "p_skip 1 p" t rs TK_As] p_check_eq [of "p_skip 1 p" t rs TK_Identifier]
      assms(2) stops_facts(2,3) [OF assms(3)]
    by (simp add: parse_table_reference_def p_bind_def p_return_def)
next
  case (named u a)
  then show ?thesis using p_consume_eq [of p u "a # t # rs" TK_Identifier] p_match_eq [of "p_skip 1 p" a "t # rs" TK_As]
      p_check_eq [of "p_skip 1 p" a "t # rs" TK_Identifier] p_advance_eq [of "p_skip 1 p" a "t # rs"] assms(2)
    by (simp add: parse_table_reference_def p_bind_def p_return_def)
next
  case (aliased u k a)
  then show ?thesis using p_consume_eq [of p u "k # a # t # rs" TK_Identifier] p_match_eq [of "p_skip 1 p" k "a # t # rs" TK_As]
      p_consume_eq [of "p_skip 2 p" a "t # rs" TK_Identifier] assms(2)
    by (simp add: parse_table_reference_def p_bind_def p_return_def numeral_2_eq_2)
qed

text \<open>Both lists: an item is accepted in front of a token that stops it, hence the list in front of a token that is no comma.\<close>

lemma list_accepted:
  assumes f: "\<And>n. f (Suc n) = p_bind (g n) (\<lambda>x. p_bind (p_match TK_Comma) (\<lambda>more. if more then p_bind (f n) (\<lambda>xs. p_return (x # xs)) else p_return [x]))"
    and g: "\<And>x ts p t rs n. item x ts \<Longrightarrow> parser_ok p \<Longrightarrow> p_rest p = ts @ t # rs \<Longrightarrow> stops t \<Longrightarrow> 3 * remaining p + 1 \<le> n \<Longrightarrow> g n p = Some (Inr x, p_skip (length ts) p)"
    and l: "list_toks item xs ts" "parser_ok p" "p_rest p = ts @ t # rs" "stops t" "tk_type t \<noteq> TK_Comma" "3 * remaining p + 2 \<le> n"
  shows "f n p = Some (Inr xs, p_skip (length ts) p)"
  using l
proof (induction arbitrary: p n rule: list_toks.induct)
  case (last x ts)
  then obtain m where n: "n = Suc m" by (cases n) auto
  have "g m p = Some (Inr x, p_skip (length ts) p)" by (rule g [OF last.hyps last.prems(1,2,3)]) (use last.prems(5) n in simp)
  then show ?case using p_match_eq [of "p_skip (length ts) p" t rs TK_Comma] last.prems(2,4) by (simp add: n f p_bind_def p_return_def)
next
  case (more x ts c xs us)
  then obtain m where n: "n = Suc m" by (cases n) auto
  have r: "p_rest p = ts @ c # us @ t # rs" using more.prems(2) by simp
  have c: "stops c" using more.hyps(2) by (simp add: stops_def)
  have "g m p = Some (Inr x, p_skip (length ts) p)" by (rule g [OF more.hyps(1) more.prems(1) r c]) (use more.prems(5) n in simp)
  moreover have "p_match TK_Comma (p_skip (length ts) p) = Some (Inr True, p_skip (Suc (length ts)) p)"
    using p_match_eq [of "p_skip (length ts) p" c "us @ t # rs" TK_Comma] r more.hyps(2) by simp
  moreover have "f m (p_skip (Suc (length ts)) p) = Some (Inr xs, p_skip (length us) (p_skip (Suc (length ts)) p))"
  proof (rule more.IH [OF _ _ more.prems(3,4)])
    show "parser_ok (p_skip (Suc (length ts)) p)" by (rule parser_ok_skip [OF more.prems(1)]) (simp add: r)
    show "p_rest (p_skip (Suc (length ts)) p) = us @ t # rs" using r by simp
    show "3 * remaining (p_skip (Suc (length ts)) p) + 2 \<le> m" using more.prems(5) n r by (simp add: remaining_def)
  qed
  ultimately show ?case by (simp add: n f p_bind_def p_return_def)
qed

lemma projection_accepted:
  assumes "list_toks column_toks xs ts" "parser_ok p" "p_rest p = ts @ t # rs" "stops t" "tk_type t \<noteq> TK_Comma" "3 * remaining p + 2 \<le> n"
  shows "parse_projection n p = Some (Inr xs, p_skip (length ts) p)"
  by (rule list_accepted [of parse_projection parse_result_column column_toks, OF parse_projection.simps(2) column_accepted assms])

lemma from_accepted:
  assumes "list_toks table_toks xs ts" "parser_ok p" "p_rest p = ts @ t # rs" "stops t" "tk_type t \<noteq> TK_Comma" "3 * remaining p + 2 \<le> n"
  shows "parse_from n p = Some (Inr xs, p_skip (length ts) p)"
  by (rule list_accepted [of parse_from "\<lambda>_. parse_table_reference" table_toks, OF parse_from.simps(2) _ assms]) (rule table_accepted)

lemma column_first: "column_toks x ts \<Longrightarrow> ts \<noteq> [] \<and> tk_type (hd ts) \<noteq> TK_From"
  by (induction rule: column_toks.induct) (auto dest: expr_toks_facts(1) first_token(1) simp: hd_append)

lemma columns_first: "list_toks column_toks xs ts \<Longrightarrow> ts \<noteq> [] \<and> tk_type (hd ts) \<noteq> TK_From"
  by (induction rule: list_toks.induct) (auto dest: column_first simp: hd_append)

lemma columns_clause_accepted:
  assumes c: "cols = [] \<and> cs = [] \<and> tk_type t = TK_From \<or> list_toks column_toks cols cs" and p: "parser_ok p" "p_rest p = cs @ t # rs" "stops t" "tk_type t \<noteq> TK_Comma" "3 * remaining p + 2 \<le> n"
  shows "p_bind (p_check TK_From) (\<lambda>none. if none then p_return [] else parse_projection n) p = Some (Inr cols, p_skip (length cs) p)"
proof (cases "cs = []")
  case True
  then have "cols = []" "tk_type t = TK_From" using c columns_first by auto
  then show ?thesis using True p_check_eq [of p t rs TK_From] p(2) by (simp add: p_bind_def p_return_def)
next
  case False
  then have l: "list_toks column_toks cols cs" using c by simp
  have h: "p_rest p = hd cs # tl cs @ t # rs" using p(2) False by simp
  show ?thesis using p_check_eq [OF h, of TK_From] columns_first [OF l] projection_accepted [OF l p] by (simp add: p_bind_def)
qed

lemma from_clause_accepted:
  assumes f: "from_toks tables fs" and p: "parser_ok p" "p_rest p = fs @ t # rs" "stops t" "tk_type t \<notin> {TK_Comma, TK_From}" "3 * remaining p + 2 \<le> n"
  shows "p_bind (p_match TK_From) (\<lambda>from. if from then parse_from n else p_return []) p = Some (Inr tables, p_skip (length fs) p)"
proof (cases fs)
  case Nil
  then have "tables = []" using f by (simp add: from_toks_def)
  then show ?thesis using Nil p_match_eq [of p t rs TK_From] p(2,4) by (simp add: p_bind_def p_return_def)
next
  case (Cons u us)
  then have l: "tk_type u = TK_From" "list_toks table_toks tables us" using f by (auto simp: from_toks_def)
  have r: "p_rest p = u # us @ t # rs" using p(2) Cons by simp
  have ok: "parser_ok (p_skip 1 p)" by (rule parser_ok_skip [OF p(1)]) (simp add: r)
  have "parse_from n (p_skip 1 p) = Some (Inr tables, p_skip (length us) (p_skip 1 p))"
    by (rule from_accepted [OF l(2) ok _ p(3)]) (use r p(4,5) in \<open>simp_all add: remaining_def\<close>)
  then show ?thesis using p_match_eq [OF r, of TK_From] l(1) Cons by (simp add: p_bind_def)
qed

lemma where_clause_accepted:
  assumes w: "where_toks c ws" and p: "parser_ok p" "p_rest p = ws @ t # rs" "stops t" "tk_type t \<noteq> TK_Where" "3 * remaining p + 1 \<le> n"
  shows "p_bind (p_match TK_Where) (\<lambda>b. if b then p_bind (parse_expression n Prec_Assignment) (\<lambda>e. p_return (Some e)) else p_return None) p =
    Some (Inr c, p_skip (length ws) p)"
proof (cases ws)
  case Nil
  then have "c = None" using w by (simp add: where_toks_def)
  then show ?thesis using Nil p_match_eq [of p t rs TK_Where] p(2,4) by (simp add: p_bind_def p_return_def)
next
  case (Cons u us)
  then obtain e where l: "tk_type u = TK_Where" "expr_toks e us" "c = Some e" using w by (auto simp: where_toks_def)
  have r: "p_rest p = u # us @ t # rs" using p(2) Cons by simp
  have ok: "parser_ok (p_skip 1 p)" by (rule parser_ok_skip [OF p(1)]) (simp add: r)
  have "parse_expression n Prec_Assignment (p_skip 1 p) = Some (Inr e, p_skip (length us) (p_skip 1 p))"
    by (rule expression_accepted [OF l(2) ok _ stops_facts(1) [OF p(3)]]) (use r p(5) in \<open>simp_all add: remaining_def\<close>)
  then show ?thesis using p_match_eq [OF r, of TK_Where] l Cons by (simp add: p_bind_def p_return_def)
qed

text \<open>The first token behind a clause that may be missing.\<close>

lemma clause_first:
  assumes "tk_type t \<in> {TK_Semicolon, TK_Eof}"
  shows "where_toks c ws \<Longrightarrow> stops (hd (ws @ [t])) \<and> tk_type (hd (ws @ [t])) \<in> {TK_Where, TK_Semicolon, TK_Eof}"
    "from_toks tables fs \<Longrightarrow> where_toks c ws \<Longrightarrow> stops (hd (fs @ ws @ [t])) \<and> tk_type (hd (fs @ ws @ [t])) \<noteq> TK_Comma \<and> (fs \<noteq> [] \<longrightarrow> tk_type (hd (fs @ ws @ [t])) = TK_From)"
  using assms by (auto simp: where_toks_def from_toks_def stops_def)

lemma hd_snoc: "\<exists>rs'. xs @ t # rs = hd (xs @ [t]) # rs'"
  by (cases xs) simp_all

lemma statement_accepted:
  assumes st: "select_toks st ts" and p: "parser_ok p" "ps_current p = 0" "p_rest p = ts @ t # rs" and t: "tk_type t \<in> {TK_Semicolon, TK_Eof}"
  shows "parse_statement p = Some (Inr st, p_skip (length ts) p)"
  using st
proof cases
  case (select s cols cs fs tables c ws)
  let ?n = "3 * length (ps_tokens p) + 3"
  have r: "p_rest p = s # cs @ fs @ ws @ t # rs" using p(3) select(2) by simp
  have big: "3 * remaining (p_skip k p) + 2 \<le> ?n" for k by (simp add: remaining_def p_rest_def)
  have ok: "parser_ok (p_skip 1 p)" "parser_ok (p_skip (1 + length cs) p)" "parser_ok (p_skip (1 + length cs + length fs) p)"
    by (rule parser_ok_skip [OF p(1)]; simp add: r)+
  note F = clause_first(2) [OF t select(5,6)] and W = clause_first(1) [OF t select(6)]
  obtain r1 where r1: "fs @ ws @ t # rs = hd (fs @ ws @ [t]) # r1" using hd_snoc [of "fs @ ws" t rs] by auto
  obtain r2 where r2: "ws @ t # rs = hd (ws @ [t]) # r2" using hd_snoc [of ws t rs] by auto
  have "p_bind (p_check TK_From) (\<lambda>none. if none then p_return [] else parse_projection ?n) (p_skip 1 p) = Some (Inr cols, p_skip (length cs) (p_skip 1 p))"
    by (rule columns_clause_accepted [of _ _ "hd (fs @ ws @ [t])" _ r1]) (use select(4) F ok(1) big r r1 in auto)
  moreover have "p_bind (p_match TK_From) (\<lambda>from. if from then parse_from ?n else p_return []) (p_skip (1 + length cs) p) =
      Some (Inr tables, p_skip (length fs) (p_skip (1 + length cs) p))"
    by (rule from_clause_accepted [of _ _ _ "hd (ws @ [t])" r2]) (use select(5) W ok(2) big r r2 in auto)
  moreover have "p_bind (p_match TK_Where) (\<lambda>b. if b then p_bind (parse_expression ?n Prec_Assignment) (\<lambda>e. p_return (Some e)) else p_return None)
      (p_skip (1 + length cs + length fs) p) = Some (Inr c, p_skip (length ws) (p_skip (1 + length cs + length fs) p))"
    by (rule where_clause_accepted [OF select(6) ok(3)]) (use t big [of "1 + length cs + length fs"] r in \<open>auto simp: stops_def\<close>)
  moreover have "p_match TK_Select p = Some (Inr True, p_skip 1 p)" using p_match_eq [OF r, of TK_Select] select(3) by simp
  moreover have "ps_tokens p \<noteq> []" using p(1) by (auto simp: parser_ok_def)
  ultimately show ?thesis
    by (simp add: parse_statement_def parse_select_clauses p_bind_def [of "p_match TK_Select"] p_bind_def [of "p_bind m f" for m f] p_return_def select(1,2) add.assoc)
qed

text \<open>The location of a token does not matter.\<close>

abbreviation same_words :: "token list \<Rightarrow> token list \<Rightarrow> bool" where
  "same_words ts' ts \<equiv> map token_view ts' = map token_view ts"

lemma same_words_split:
  "same_words vs [t] \<Longrightarrow> \<exists>t'. vs = [t'] \<and> tk_type t' = tk_type t \<and> tk_lexeme t' = tk_lexeme t"
  "same_words vs (t # us) \<Longrightarrow> \<exists>t' us'. vs = t' # us' \<and> tk_type t' = tk_type t \<and> tk_lexeme t' = tk_lexeme t \<and> same_words us' us"
  "same_words vs (ts @ us) \<Longrightarrow> \<exists>ts' us'. vs = ts' @ us' \<and> same_words ts' ts \<and> same_words us' us"
proof -
  assume "same_words vs (ts @ us)"
  then have "map token_view vs = map token_view ts @ map token_view us" by simp
  then show "\<exists>ts' us'. vs = ts' @ us' \<and> same_words ts' ts \<and> same_words us' us" unfolding map_eq_append_conv by metis
qed (auto simp: token_view_def map_eq_Cons_conv)

lemma distinct_toks_words: "distinct_toks d ds \<Longrightarrow> same_words ds' ds \<Longrightarrow> distinct_toks d ds'"
  by (auto simp: distinct_toks_def token_view_def split: if_splits)

lemma expr_toks_words:
  "expr_toks e ts \<Longrightarrow> (\<And>ts'. same_words ts' ts \<Longrightarrow> expr_toks e ts')" "args_toks es us \<Longrightarrow> (\<And>us'. same_words us' us \<Longrightarrow> args_toks es us')"
proof (induction rule: expr_toks_args_toks.inducts)
  case (int t v)
  then show ?case using same_words_split(1) expr_toks_args_toks.int by metis
next
  case (str t)
  then show ?case using same_words_split(1) expr_toks_args_toks.str by metis
next
  case (true t)
  then show ?case using same_words_split(1) expr_toks_args_toks.true by metis
next
  case (false t)
  then show ?case using same_words_split(1) expr_toks_args_toks.false by metis
next
  case (ident t)
  then show ?case using same_words_split(1) expr_toks_args_toks.ident by metis
next
  case (param t)
  then show ?case using same_words_split(1) expr_toks_args_toks.param by metis
next
  case (call_empty t lp d ds rp)
  obtain t' vs where t: "ts' = t' # vs" "tk_type t' = tk_type t" "tk_lexeme t' = tk_lexeme t" "same_words vs (lp # ds @ [rp])"
    using same_words_split(2) [OF call_empty.prems] by blast
  obtain lp' xs where l: "vs = lp' # xs" "tk_type lp' = tk_type lp" "same_words xs (ds @ [rp])" using same_words_split(2) [OF t(4)] by blast
  obtain ds' ys where d: "xs = ds' @ ys" "same_words ds' ds" "same_words ys [rp]" using same_words_split(3) [OF l(3)] by blast
  obtain rp' where "ys = [rp']" "tk_type rp' = tk_type rp" using same_words_split(1) [OF d(3)] by blast
  then show ?case using expr_toks_args_toks.call_empty [of t' lp' d ds' rp'] call_empty.hyps distinct_toks_words [OF _ d(2)] t l d by simp
next
  case (call t lp d ds es ts rp)
  obtain t' vs where t: "ts' = t' # vs" "tk_type t' = tk_type t" "tk_lexeme t' = tk_lexeme t" "same_words vs (lp # ds @ ts @ [rp])"
    using same_words_split(2) [OF call.prems] by blast
  obtain lp' xs where l: "vs = lp' # xs" "tk_type lp' = tk_type lp" "same_words xs (ds @ ts @ [rp])" using same_words_split(2) [OF t(4)] by blast
  obtain ds' ys where d: "xs = ds' @ ys" "same_words ds' ds" "same_words ys (ts @ [rp])" using same_words_split(3) [OF l(3)] by blast
  obtain as zs where a: "ys = as @ zs" "same_words as ts" "same_words zs [rp]" using same_words_split(3) [OF d(3)] by blast
  obtain rp' where "zs = [rp']" "tk_type rp' = tk_type rp" using same_words_split(1) [OF a(3)] by blast
  then show ?case using expr_toks_args_toks.call [of t' lp' d ds' es as rp'] call.hyps call.IH [OF a(2)] distinct_toks_words [OF _ d(2)] t l d a by simp
next
  case (unary t e ts)
  obtain t' vs where t: "ts' = t' # vs" "tk_type t' = tk_type t" "same_words vs ts" using same_words_split(2) [OF unary.prems] by blast
  then show ?case using expr_toks_args_toks.unary [of t' e vs] unary.hyps unary.IH [OF t(3)] by simp
next
  case (binary l ts r us t)
  obtain ls vs where l: "ts' = ls @ vs" "same_words ls ts" "same_words vs (t # us)" using same_words_split(3) [OF binary.prems] by blast
  obtain t' rs where t: "vs = t' # rs" "tk_type t' = tk_type t" "same_words rs us" using same_words_split(2) [OF l(3)] by blast
  then show ?case using expr_toks_args_toks.binary [of l ls r rs t'] binary.hyps binary.IH(1) [OF l(2)] binary.IH(2) [OF t(3)] l(1) by simp
next
  case (star t)
  then show ?case using same_words_split(1) expr_toks_args_toks.star by metis
next
  case (one e ts)
  then show ?case using expr_toks_args_toks.one by blast
next
  case (more e ts t es us)
  obtain ls vs where l: "us' = ls @ vs" "same_words ls ts" "same_words vs (t # us)" using same_words_split(3) [OF more.prems] by blast
  obtain t' rs where t: "vs = t' # rs" "tk_type t' = tk_type t" "same_words rs us" using same_words_split(2) [OF l(3)] by blast
  then show ?case using expr_toks_args_toks.more [of e ls t' es rs] more.hyps more.IH(1) [OF l(2)] more.IH(2) [OF t(3)] l(1) by simp
qed

lemma column_toks_words:
  assumes "column_toks x ts" "same_words ts' ts"
  shows "column_toks x ts'"
  using assms(1)
proof cases
  case (star t)
  then show ?thesis using assms(2) same_words_split(1) column_toks.star by metis
next
  case (plain e)
  then show ?thesis using assms(2) expr_toks_words(1) column_toks.plain by metis
next
  case (aliased e us k a)
  obtain vs ws where v: "ts' = vs @ ws" "same_words vs us" "same_words ws [k, a]" using same_words_split(3) assms(2) aliased(2) by blast
  obtain k' ys where k: "ws = k' # ys" "tk_type k' = tk_type k" "same_words ys [a]" using same_words_split(2) [OF v(3)] by blast
  obtain a' where a: "ys = [a']" "tk_type a' = tk_type a" "tk_lexeme a' = tk_lexeme a" using same_words_split(1) [OF k(3)] by blast
  show ?thesis using column_toks.aliased [of e vs k' a'] expr_toks_words(1) [OF aliased(3) v(2)] aliased v k a by simp
qed

lemma table_toks_words: "table_toks x ts \<Longrightarrow> same_words ts' ts \<Longrightarrow> table_toks x ts'"
proof (induction rule: table_toks.induct)
  case (plain t)
  then show ?case using same_words_split(1) table_toks.plain by metis
next
  case (named t a)
  then obtain t' a' where "ts' = [t', a']" "token_view t' = token_view t" "token_view a' = token_view a" by (auto simp: map_eq_Cons_conv)
  then show ?case using table_toks.named [of t' a'] named.hyps by (simp add: token_view_def)
next
  case (aliased t k a)
  then obtain t' k' a' where "ts' = [t', k', a']" "token_view t' = token_view t" "token_view k' = token_view k" "token_view a' = token_view a" by (auto simp: map_eq_Cons_conv)
  then show ?case using table_toks.aliased [of t' k' a'] aliased.hyps by (simp add: token_view_def)
qed

lemma list_toks_words:
  assumes "list_toks item xs ts" "\<And>x ts ts'. item x ts \<Longrightarrow> same_words ts' ts \<Longrightarrow> item x ts'" "same_words ts' ts"
  shows "list_toks item xs ts'"
  using assms(1,3)
proof (induction arbitrary: ts' rule: list_toks.induct)
  case (last x ts)
  then show ?case using assms(2) list_toks.last by metis
next
  case (more x ts t xs us)
  obtain ls vs where l: "ts' = ls @ vs" "same_words ls ts" "same_words vs (t # us)" using same_words_split(3) [OF more.prems] by blast
  obtain t' rs where t: "vs = t' # rs" "tk_type t' = tk_type t" "same_words rs us" using same_words_split(2) [OF l(3)] by blast
  show ?case using list_toks.more [of item x ls t' xs rs] assms(2) [OF more.hyps(1) l(2)] more.hyps(2) more.IH [OF t(3)] l(1) t(1,2) by simp
qed

lemma from_toks_words: "from_toks tables ts \<Longrightarrow> same_words ts' ts \<Longrightarrow> from_toks tables ts'"
proof (cases ts)
  case Nil
  then show "from_toks tables ts \<Longrightarrow> same_words ts' ts \<Longrightarrow> from_toks tables ts'" by simp
next
  case (Cons t us)
  assume f: "from_toks tables ts" and w: "same_words ts' ts"
  obtain t' us' where t: "ts' = t' # us'" "tk_type t' = tk_type t" "same_words us' us" using same_words_split(2) w Cons by blast
  have l: "tk_type t = TK_From" "list_toks table_toks tables us" using f Cons by (simp_all add: from_toks_def)
  show "from_toks tables ts'" using t l(1) list_toks_words [OF l(2) table_toks_words t(3)] by (simp add: from_toks_def)
qed

lemma where_toks_words: "where_toks c ts \<Longrightarrow> same_words ts' ts \<Longrightarrow> where_toks c ts'"
proof (cases ts)
  case Nil
  then show "where_toks c ts \<Longrightarrow> same_words ts' ts \<Longrightarrow> where_toks c ts'" by simp
next
  case (Cons t us)
  assume f: "where_toks c ts" and w: "same_words ts' ts"
  obtain t' us' where t: "ts' = t' # us'" "tk_type t' = tk_type t" "same_words us' us" using same_words_split(2) w Cons by blast
  obtain e where l: "tk_type t = TK_Where" "expr_toks e us" "c = Some e" using f Cons by (auto simp: where_toks_def)
  show "where_toks c ts'" using t l(1,3) expr_toks_words(1) [OF l(2) t(3)] by (simp add: where_toks_def)
qed

lemma select_toks_words:
  assumes "select_toks st ts" "same_words ts' ts"
  shows "select_toks st ts'"
  using assms(1)
proof cases
  case (select t cols cs fs tables c ws)
  obtain t' vs where t: "ts' = t' # vs" "tk_type t' = tk_type t" "same_words vs (cs @ fs @ ws)" using same_words_split(2) assms(2) select(2) by blast
  obtain cs' xs where cs: "vs = cs' @ xs" "same_words cs' cs" "same_words xs (fs @ ws)" using same_words_split(3) [OF t(3)] by blast
  obtain fs' ws' where fs: "xs = fs' @ ws'" "same_words fs' fs" "same_words ws' ws" using same_words_split(3) [OF cs(3)] by blast
  have "cols = [] \<and> cs' = [] \<and> fs' \<noteq> [] \<or> list_toks column_toks cols cs'"
    using select(4) cs(2) fs(2) list_toks_words [of column_toks cols cs cs'] column_toks_words by auto
  moreover note from_toks_words [OF select(5) fs(2)] where_toks_words [OF select(6) fs(3)]
  ultimately show ?thesis using select_toks.select [of t' cols cs' fs' tables c ws'] select(1,3) t(1,2) cs(1) fs(1) by simp
qed

section \<open>Properties\<close>

text \<open>C6. An expression is parsed exactly by precedence. From a position in the tokens, parsing at the level \<open>q\<close> yields the expression \<open>e\<close> and
  stops at \<open>p'\<close> if and only if the tokens between the two positions are the ones \<open>e\<close> is written with, where operators bind by
  their precedence and associate to the left, the outermost operator of \<open>e\<close> binds tighter than \<open>q\<close>, and the token at \<open>p'\<close> does not
  continue the expression.\<close>
theorem parse_expression_iff:
  assumes "parser_ok p" "3 * remaining p + 1 \<le> n" "q < Prec_Primary"
  shows "parse_expression n q p = Some (Inr e, p') \<longleftrightarrow>
    parser_ok p' \<and> (\<exists>ts. reads p p' ts \<and> expr_toks e ts \<and> q < root_prec e \<and> may_follow q ts (next_token p'))"
proof
  assume "parse_expression n q p = Some (Inr e, p')"
  then show "parser_ok p' \<and> (\<exists>ts. reads p p' ts \<and> expr_toks e ts \<and> q < root_prec e \<and> may_follow q ts (next_token p'))"
    using parse_expression_runs [OF assms] by (simp add: runs_def expr_read_def)
next
  assume "parser_ok p' \<and> (\<exists>ts. reads p p' ts \<and> expr_toks e ts \<and> q < root_prec e \<and> may_follow q ts (next_token p'))"
  then obtain ts where p': "parser_ok p'" and ts: "reads p p' ts" "expr_toks e ts" "q < root_prec e" "may_follow q ts (next_token p')" by blast
  have "p_rest p = ts @ next_token p' # tl (p_rest p')" using reads_rest [OF ts(1)] ok_next [OF p'] by simp
  from reaches_end [OF grammar_complete(1) [OF ts(2)] assms(1) this ts(4,3)] have "parses q p (Inr e, p')" using ts(1) by (simp add: reads_def)
  then show "parse_expression n q p = Some (Inr e, p')" by (rule fuel_enough [OF _ assms])
qed

theorem parse_expression_iff_witness:
  "let w = (\<lambda>t s. Token_init t s SourceLocation_init);
       p = \<lparr>ps_tokens = [w TK_Identifier ''a'', w TK_Plus ''+'', w TK_Identifier ''b'', w TK_Star ''*'', w TK_Identifier ''c'', w TK_Eof []], ps_current = 0\<rparr> in
     parse_expression 16 Prec_None p = Some (Inr (BinaryExpression (IdentifierExpression ''a'') TK_Plus
       (BinaryExpression (IdentifierExpression ''b'') TK_Star (IdentifierExpression ''c''))), p\<lparr>ps_current := 5\<rparr>)"
proof -
  let ?w = "\<lambda>t s. Token_init t s SourceLocation_init"
  let ?ts = "[?w TK_Identifier ''a''] @ ?w TK_Plus ''+'' # [?w TK_Identifier ''b''] @ ?w TK_Star ''*'' # [?w TK_Identifier ''c'']"
  let ?p = "\<lparr>ps_tokens = ?ts @ [?w TK_Eof []], ps_current = 0\<rparr>"
  let ?bc = "BinaryExpression (IdentifierExpression ''b'') TK_Star (IdentifierExpression ''c'')"
  have i: "expr_toks (IdentifierExpression s) [?w TK_Identifier s]" for s using expr_toks_args_toks.ident [of "?w TK_Identifier s"] by (simp add: Token_init_def)
  have "expr_toks ?bc ([?w TK_Identifier ''b''] @ ?w TK_Star ''*'' # [?w TK_Identifier ''c''])"
    using expr_toks_args_toks.binary [OF i i, of "?w TK_Star ''*''" "''b''" "''c''"] by (simp add: Token_init_def get_precedence_def less_eq_precedence_def less_precedence_def)
  from expr_toks_args_toks.binary [OF i this, of "?w TK_Plus ''+''" "''a''"]
  have "expr_toks (BinaryExpression (IdentifierExpression ''a'') TK_Plus ?bc) ?ts" by (simp add: Token_init_def get_precedence_def less_eq_precedence_def less_precedence_def)
  moreover have "parser_ok ?p" "parser_ok (?p\<lparr>ps_current := 5\<rparr>)" by (simp_all add: parser_ok_def Token_init_def)
  moreover have "reads ?p (?p\<lparr>ps_current := 5\<rparr>) ?ts" by (simp add: reads_def p_skip_def p_rest_def)
  moreover have "may_follow Prec_None ?ts (next_token (?p\<lparr>ps_current := 5\<rparr>))" by (simp add: may_follow_def p_rest_def Token_init_def get_precedence_def less_eq_precedence_def)
  ultimately have "parse_expression 16 Prec_None ?p = Some (Inr (BinaryExpression (IdentifierExpression ''a'') TK_Plus ?bc), ?p\<lparr>ps_current := 5\<rparr>)"
    using parse_expression_iff [of ?p 16 Prec_None "BinaryExpression (IdentifierExpression ''a'') TK_Plus ?bc" "?p\<lparr>ps_current := 5\<rparr>"]
    by (simp add: remaining_def p_rest_def get_precedence_def less_precedence_def) blast
  then show ?thesis by (simp add: Let_def)
qed

lemma Parser_init_ok:
  assumes "tokenize sql = Inr toks"
  shows "parser_ok (Parser_init sql)" "ps_current (Parser_init sql) = 0" "p_rest (Parser_init sql) = toks" "ps_tokens (Parser_init sql) = toks"
proof -
  obtain new eof where t: "toks = new @ [eof]" "tokens_from (Lexer_init sql) new eof"
    using tokenize_loop_tokens [of "Lexer_init sql" "[]" toks] assms by (auto simp: tokenize_def Lexer_init_def SourceLocation_init_def)
  have "TK_Eof \<notin> token_types" by (simp add: token_types_def k_keywords_def)
  then have "\<forall>t\<in>set new. tk_type t \<noteq> TK_Eof" using t(2) by (auto simp: tokens_from_def list_all_iff)
  then show "parser_ok (Parser_init sql)" using t assms by (simp add: parser_ok_def Parser_init_def tokens_from_def)
qed (simp_all add: assms Parser_init_def p_rest_def)

lemma text_tokens:
  assumes "list_all2 (\<lambda>(w, bs) t. spells w t \<and> bs \<noteq> [] \<and> list_all is_blank bs) ws vs"
  shows "\<exists>toks. tokenize (spaced ws) = Inr toks \<and> map token_view toks = vs @ [(TK_Eof, [])]"
  using tokenize_loop_spells [OF assms, of "Lexer_init (spaced ws)" "[]" "[]"] by (simp add: tokenize_def Lexer_init_def lx_rest_def)

lemma statement_of_text:
  assumes "list_all2 (\<lambda>(w, bs) t. spells w t \<and> bs \<noteq> [] \<and> list_all is_blank bs) ws (map token_view ts @ [(TK_Semicolon, '';'')] @ rest)"
    and "select_toks st ts"
  shows "\<exists>p. parse_statement (Parser_init (spaced ws)) = Some (Inr st, p)"
proof -
  obtain toks where toks: "tokenize (spaced ws) = Inr toks" "map token_view toks = (map token_view ts @ [(TK_Semicolon, '';'')] @ rest) @ [(TK_Eof, [])]"
    using text_tokens [OF assms(1)] by blast
  note P = Parser_init_ok [OF toks(1)]
  obtain us t rs where u: "toks = us @ t # rs" "same_words us ts" "tk_type t = TK_Semicolon"
    using toks(2) by (auto simp: map_eq_append_conv map_eq_Cons_conv token_view_def [of t for t])
  have "select_toks st us" by (rule select_toks_words [OF assms(2) u(2)])
  from statement_accepted [OF this P(1,2), of t rs] show ?thesis using P(3) u by simp
qed

text \<open>The text \<open>select x ; \<close>, for the examples.\<close>

lemma select_x_text:
  "list_all2 (\<lambda>(w, bs) t. spells w t \<and> bs \<noteq> [] \<and> list_all is_blank bs) [(''select'', '' ''), (''x'', '' ''), ('';'', '' '')]
     (map token_view [Token_init TK_Select ''SELECT'' SourceLocation_init, Token_init TK_Identifier ''x'' SourceLocation_init] @ [(TK_Semicolon, '';'')] @ [])"
proof -
  have u: "keyword_to_upper ''select'' = ''SELECT''" "keyword_to_upper ''x'' = ''X''" by code_simp+
  have i: "ident_text ''select''" "ident_text ''x''" by (simp_all add: ident_text_def ident_char_def is_alnum_def is_alpha_def is_digit_def)
  have "spells ''select'' (TK_Select, ''SELECT'')" using spells.kw [OF i(1), of TK_Select] u by (simp add: k_keywords_def)
  moreover have "spells ''x'' (TK_Identifier, ''x'')" using spells.ident [OF i(2)] u by (simp add: k_keywords_def)
  moreover have "spells '';'' (TK_Semicolon, '';'')" by (rule spells.symbol) (simp add: symbols_def)
  ultimately show ?thesis by (simp add: is_blank_def)
qed

lemma select_x_toks:
  "select_toks (SelectStatement [\<lparr>rc_expr = IdentifierExpression ''x'', rc_alias = []\<rparr>] [] None)
     [Token_init TK_Select ''SELECT'' SourceLocation_init, Token_init TK_Identifier ''x'' SourceLocation_init]"
proof -
  let ?x = "Token_init TK_Identifier ''x'' SourceLocation_init"
  have "expr_toks (IdentifierExpression ''x'') [?x]" using expr_toks_args_toks.ident [of ?x] by (simp add: Token_init_def)
  then have "list_toks column_toks [\<lparr>rc_expr = IdentifierExpression ''x'', rc_alias = []\<rparr>] [?x]" by (intro list_toks.last column_toks.plain)
  from select_toks.select [of "Token_init TK_Select ''SELECT'' SourceLocation_init" _ "[?x]" "[]" "[]" None "[]", OF _ disjI2 [OF this]]
  show ?thesis by (simp add: Token_init_def from_toks_def where_toks_def)
qed

text \<open>C7. Parsing ends and stays in bounds. For every text the parser returns; if the text could be split into tokens, it never reads
  outside the vector of tokens, its outcome is a select statement written with the tokens it has read, the status
  \<open>InvalidArgument\<close>, or an exception of the integer conversion; and if the text could not be split, the error
  report itself reads outside the empty vector.\<close>
theorem parse_statement_total:
  "\<exists>r p'. parse_statement (Parser_init sql) = Some (r, p') \<and>
     (case tokenize sql of
        Inl _ \<Rightarrow> r = Inl Out_of_bounds
      | Inr toks \<Rightarrow>
          ps_current p' < length toks \<and> r \<noteq> Inl Out_of_bounds \<and> (\<forall>s. r = Inl (Failed s) \<longrightarrow> s = InvalidArgument) \<and>
          (\<forall>st. r = Inr st \<longrightarrow> select_toks st (take (ps_current p') toks)))"
proof (cases "tokenize sql")
  case (Inl s)
  then show ?thesis by (simp add: parse_statement_def Parser_init_def p_bind_def token_at_def p_fail_def)
next
  case (Inr toks)
  note P = Parser_init_ok [OF Inr]
  obtain r p' where r: "parse_statement (Parser_init sql) = Some (r, p')" "parser_ok p'" "ps_tokens p' = toks"
    "case r of Inl f \<Rightarrow> sound_fault f | Inr st \<Rightarrow> item_read select_toks (Parser_init sql) st p'"
    using runs_statement [OF P(1,2)] P(4) by (auto simp: runs_def)
  have "select_toks st (take (ps_current p') toks)" if i: "r = Inr st" for st
  proof -
    obtain ts where ts: "reads (Parser_init sql) p' ts" "select_toks st ts" using r(4) by (auto simp: item_read_def i)
    then show ?thesis using P(2,3) by (simp add: reads_def p_skip_def)
  qed
  moreover have "ps_current p' < length toks" using r(2,3) by (simp add: parser_ok_def)
  moreover have "r \<noteq> Inl Out_of_bounds" "\<forall>s. r = Inl (Failed s) \<longrightarrow> s = InvalidArgument" using r(4) by (auto simp: sound_fault_def)
  ultimately show ?thesis using r(1) Inr by simp
qed

theorem parse_statement_total_witness:
  "\<exists>st p' toks. tokenize ''select x ; '' = Inr toks \<and> parse_statement (Parser_init ''select x ; '') = Some (Inr st, p') \<and> select_toks st (take (ps_current p') toks)"
proof -
  from statement_of_text [OF select_x_text select_x_toks] obtain st p' where s: "parse_statement (Parser_init ''select x ; '') = Some (Inr st, p')"
    by (auto simp: spaced_def)
  obtain toks where t: "tokenize ''select x ; '' = Inr toks" using text_tokens [OF select_x_text] by (auto simp: spaced_def)
  from parse_statement_total [of "''select x ; ''"] show ?thesis using s t by auto
qed

text \<open>C8. From text to statement. Write the tokens of a select statement, in any spelling of each and with blanks behind it, then a
  semicolon: whatever words follow, parsing the text yields that statement.\<close>
theorem parse_text_roundtrip:
  assumes "list_all2 (\<lambda>(w, bs) t. spells w t \<and> bs \<noteq> [] \<and> list_all is_blank bs) ws (map token_view ts @ [(TK_Semicolon, '';'')] @ rest)"
    and "select_toks st ts"
  shows "\<exists>p. parse_statement (Parser_init (spaced ws)) = Some (Inr st, p)"
  using statement_of_text [OF assms] by blast

theorem parse_text_roundtrip_witness:
  "\<exists>p. parse_statement (Parser_init ''select x ; '') = Some (Inr (SelectStatement [\<lparr>rc_expr = IdentifierExpression ''x'', rc_alias = []\<rparr>] [] None), p)"
  using parse_text_roundtrip [OF select_x_text select_x_toks] by (simp add: spaced_def)

end
