(* ===== verification/Query_Binder.thy ===== *)
theory Query_Binder
  imports Sql_Parser
begin

text \<open>
  \<open>execution/binder\<close> and \<open>execution/planner\<close>: names to catalog entries, bound statements to logical operators. A binder
  is its list of active tables; \<open>bind_statement\<close> appends to it and nothing ever removes a table. A lookup in the catalog may
  throw. The classes of bound expressions, statements and operators are datatypes, and a null pointer is \<open>None\<close>.
\<close>

section \<open>Bound expressions\<close>

datatype binary_operator_type =
    Op_Add | Op_Sub | Op_Mul | Op_Div | Op_Mod | Op_Eq | Op_Neq | Op_Lt | Op_Lte | Op_Gt | Op_Gte | Op_And | Op_Or | Op_Like | Op_Concat

datatype bound_expression =
    BoundLiteral sql_value
  | BoundColumnRef table_id column_id type_id u32
  | BoundBinaryOp binary_operator_type bound_expression bound_expression type_id
  | BoundFunction string "bound_expression list" type_id

fun result_type :: "bound_expression \<Rightarrow> type_id" where
  "result_type (BoundLiteral v) = v_type v"
| "result_type (BoundColumnRef _ _ t _) = t"
| "result_type (BoundBinaryOp _ _ _ t) = t"
| "result_type (BoundFunction _ _ t) = t"

fun bound_clone :: "bound_expression \<Rightarrow> bound_expression" where
  "bound_clone (BoundLiteral v) = BoundLiteral v"
| "bound_clone (BoundColumnRef i c t k) = BoundColumnRef i c t k"
| "bound_clone (BoundBinaryOp op l r t) = BoundBinaryOp op (bound_clone l) (bound_clone r) t"
| "bound_clone (BoundFunction n args t) = BoundFunction n (map bound_clone args) t"

section \<open>Bound statements\<close>

datatype table_ref_type = Ref_BaseTable | Ref_Subquery | Ref_Join

datatype bound_table_ref = BoundBaseTableRef table_id string

fun table_ref_type_of :: "bound_table_ref \<Rightarrow> table_ref_type" where
  "table_ref_type_of (BoundBaseTableRef _ _) = Ref_BaseTable"

record bound_select =
  bs_select_list :: "bound_expression list"
  bs_from_table :: "bound_table_ref option"
  bs_where_clause :: "bound_expression option"
  bs_group_by :: "bound_expression list"
  bs_having_clause :: "bound_expression option"

definition BoundSelect_init :: bound_select where
  "BoundSelect_init = \<lparr>bs_select_list = [], bs_from_table = None, bs_where_clause = None, bs_group_by = [], bs_having_clause = None\<rparr>"

record bound_insert =
  bi_table_id :: table_id
  bi_target_columns :: "column_id list"
  bi_values :: "bound_expression list list"
  bi_select_statement :: "bound_select option"

record bound_update =
  bu_table_id :: table_id
  bu_assignments :: "(column_id \<times> bound_expression) list"
  bu_where_clause :: "bound_expression option"

record bound_delete =
  bd_table_id :: table_id
  bd_where_clause :: "bound_expression option"

datatype bound_statement =
    BoundSelect bound_select
  | BoundInsert bound_insert
  | BoundUpdate bound_update
  | BoundDelete bound_delete

section \<open>The name resolver\<close>

record table_context =
  tc_table_id :: table_id
  tc_table_name :: string
  tc_alias :: string
  tc_metadata :: table_metadata

definition add_table :: "catalog \<Rightarrow> string \<Rightarrow> string \<Rightarrow> table_context list \<Rightarrow> table_context list \<times> (exn + status)" where
  "add_table c table_name alias active =
     (case find_table 1 table_name c of
        Inl e \<Rightarrow> (active, Inl e)
      | Inr (Inl s) \<Rightarrow> (active, Inr s)
      | Inr (Inr tm) \<Rightarrow>
          (active @ [\<lparr>tc_table_id = tm_table_id tm, tc_table_name = table_name, tc_alias = (if alias = [] then table_name else alias), tc_metadata = tm\<rparr>],
           Inr OK))"

definition has_column :: "string \<Rightarrow> table_context \<Rightarrow> bool" where
  "has_column col_name ctx \<longleftrightarrow> list_ex (\<lambda>col. cc_name col = col_name) (ts_columns (tm_schema (tc_metadata ctx)))"

fun find_position :: "string \<Rightarrow> cat_column list \<Rightarrow> u32 \<Rightarrow> (cat_column \<times> u32) option" where
  "find_position col_name [] i = None"
| "find_position col_name (col # cols) i = (if cc_name col = col_name then Some (col, i) else find_position col_name cols (i + 1))"

definition resolve_column :: "table_context list \<Rightarrow> string \<Rightarrow> string \<Rightarrow> bound_expression result" where
  "resolve_column active col_name table_alias =
     (case filter (\<lambda>ctx. (table_alias = [] \<or> tc_alias ctx = table_alias) \<and> has_column col_name ctx) active of
        [] \<Rightarrow> Inl NotFound
      | [ctx] \<Rightarrow>
          (case find_position col_name (ts_columns (tm_schema (tc_metadata ctx))) 0 of
             None \<Rightarrow> Inl InternalError
           | Some (col, i) \<Rightarrow> Inr (BoundColumnRef (tc_table_id ctx) (cc_id col) (cc_type col) i))
      | _ \<Rightarrow> Inl InvalidArgument)"

section \<open>The binder\<close>

definition lower_char :: "char \<Rightarrow> char" where
  "lower_char c = (if 65 \<le> (of_char c :: nat) \<and> (of_char c :: nat) \<le> 90 then char_of ((of_char c :: nat) + 32) else c)"

text \<open>The functions with their result types, in the order of the tests.\<close>

definition function_return_type :: "string \<Rightarrow> type_id option" where
  "function_return_type n =
     (if n \<in> {''array_length'', ''dict_size'', ''json_array_length'', ''array_position''} then Some Integer_t
      else if n \<in> {''array_append'', ''array_prepend'', ''array_remove'', ''array_slice'', ''array_concat''} then Some Array_t
      else if n \<in> {''array_pop'', ''dict_get'', ''json_get''} then Some JSON_t
      else if n \<in> {''dict_set'', ''dict_remove''} then Some DICT_t
      else if n \<in> {''json_set'', ''json_remove''} then Some JSON_t
      else if n \<in> {''array_contains'', ''dict_contains'', ''json_contains''} then Some Boolean_t
      else if n \<in> {''dict_keys'', ''dict_values'', ''dict_items'', ''json_keys''} then Some Array_t
      else if n = ''json_type'' then Some Text_t
      else None)"

fun bind_expression :: "expression \<Rightarrow> bound_expression result"
  and bind_arguments :: "expression list \<Rightarrow> bound_expression list result" where
  "bind_expression (FunctionCallExpression n args d) =
     (case bind_arguments args of
        Inl s \<Rightarrow> Inl s
      | Inr bs \<Rightarrow> (case function_return_type (map lower_char n) of None \<Rightarrow> Inl NotFound | Some t \<Rightarrow> Inr (BoundFunction n bs t)))"
| "bind_expression (LiteralExpression v) = Inl Unsupported"
| "bind_expression (IdentifierExpression n) = Inl Unsupported"
| "bind_expression (BinaryExpression l op r) = Inl Unsupported"
| "bind_expression (UnaryExpression op e) = Inl Unsupported"
| "bind_expression (ParameterExpression n) = Inl Unsupported"
| "bind_arguments [] = Inr []"
| "bind_arguments (e # es) =
     (case bind_expression e of
        Inl s \<Rightarrow> Inl s
      | Inr b \<Rightarrow> (case bind_arguments es of Inl s \<Rightarrow> Inl s | Inr bs \<Rightarrow> Inr (b # bs)))"

fun add_tables :: "catalog \<Rightarrow> table_reference list \<Rightarrow> table_context list \<Rightarrow> table_context list \<times> (exn + status)" where
  "add_tables c [] active = (active, Inr OK)"
| "add_tables c (r # rs) active =
     (case add_table c (tr_table_name r) (tr_alias r) active of
        (active, Inl e) \<Rightarrow> (active, Inl e)
      | (active, Inr s) \<Rightarrow> if s \<noteq> OK then (active, Inr s) else add_tables c rs active)"

definition bind_where :: "expression option \<Rightarrow> bound_expression option result" where
  "bind_where w =
     (case w of
        None \<Rightarrow> Inr None
      | Some e \<Rightarrow> (case bind_expression e of Inl s \<Rightarrow> Inl s | Inr b \<Rightarrow> if result_type b \<noteq> Boolean_t then Inl InvalidArgument else Inr (Some b)))"

fun bind_projection :: "result_column list \<Rightarrow> bound_expression list result" where
  "bind_projection [] = Inr []"
| "bind_projection (x # xs) =
     (case bind_expression (rc_expr x) of
        Inl s \<Rightarrow> Inl s
      | Inr b \<Rightarrow> (case bind_projection xs of Inl s \<Rightarrow> Inl s | Inr bs \<Rightarrow> Inr (b # bs)))"

definition bind_select :: "catalog \<Rightarrow> result_column list \<Rightarrow> table_reference list \<Rightarrow> expression option \<Rightarrow> table_context list \<Rightarrow> table_context list \<times> bound_statement outcome" where
  "bind_select c cols tables w active =
     (case add_tables c tables active of
        (active, Inl e) \<Rightarrow> (active, Inl e)
      | (active, Inr s) \<Rightarrow>
          (active,
           if s \<noteq> OK then Inr (Inl s)
           else Inr (case bind_where w of
             Inl s \<Rightarrow> Inl s
           | Inr bw \<Rightarrow>
               (case bind_projection cols of
                  Inl s \<Rightarrow> Inl s
                | Inr bs \<Rightarrow> Inr (BoundSelect (BoundSelect_init\<lparr>bs_where_clause := bw, bs_select_list := bs\<rparr>))))))"

definition bind_insert :: "catalog \<Rightarrow> string \<Rightarrow> bound_statement outcome" where
  "bind_insert c table_name =
     (case find_table 1 table_name c of
        Inl e \<Rightarrow> Inl e
      | Inr (Inl s) \<Rightarrow> Inr (Inl s)
      | Inr (Inr tm) \<Rightarrow>
          Inr (Inr (BoundInsert \<lparr>bi_table_id = tm_table_id tm, bi_target_columns = [], bi_values = [], bi_select_statement = None\<rparr>)))"

fun bind_statement :: "catalog \<Rightarrow> statement \<Rightarrow> table_context list \<Rightarrow> table_context list \<times> bound_statement outcome" where
  "bind_statement c (SelectStatement cols tables w) active = bind_select c cols tables w active"
| "bind_statement c (InsertStatement table_name cols rows) active = (active, bind_insert c table_name)"
| "bind_statement c (CreateTableStatement table_name cols) active = (active, Inr (Inl Unsupported))"

section \<open>The planner\<close>

datatype logical_operator =
    LogicalScan (lo_children: "logical_operator list") table_id "column_id list"
  | LogicalFilter (lo_children: "logical_operator list") bound_expression
  | LogicalProjection (lo_children: "logical_operator list") "bound_expression list"
  | LogicalInsert (lo_children: "logical_operator list") table_id "bound_expression list list"

fun add_child :: "logical_operator \<Rightarrow> logical_operator \<Rightarrow> logical_operator" where
  "add_child ch (LogicalScan xs t cols) = LogicalScan (xs @ [ch]) t cols"
| "add_child ch (LogicalFilter xs b) = LogicalFilter (xs @ [ch]) b"
| "add_child ch (LogicalProjection xs bs) = LogicalProjection (xs @ [ch]) bs"
| "add_child ch (LogicalInsert xs t rows) = LogicalInsert (xs @ [ch]) t rows"

text \<open>The branches for the where clause and the select list are empty.\<close>

definition plan_select :: "bound_select \<Rightarrow> logical_operator option result" where
  "plan_select s =
     (case bs_from_table s of
        None \<Rightarrow> Inr None
      | Some r \<Rightarrow>
          if table_ref_type_of r = Ref_BaseTable
          then (case r of BoundBaseTableRef t _ \<Rightarrow> Inr (Some (LogicalScan [] t [])))
          else Inl Unsupported)"

definition plan_insert :: "bound_insert \<Rightarrow> logical_operator option result" where
  "plan_insert i = Inl Unsupported"

fun plan_statement :: "bound_statement option \<Rightarrow> logical_operator option result" where
  "plan_statement None = Inl InvalidArgument"
| "plan_statement (Some (BoundSelect s)) = plan_select s"
| "plan_statement (Some (BoundInsert i)) = plan_insert i"
| "plan_statement (Some _) = Inl Unsupported"

section \<open>Resolving columns\<close>

lemma find_position_iff:
  "find_position n cols i = Some (col, j) \<longleftrightarrow>
     (\<exists>k<length cols. cols ! k = col \<and> cc_name col = n \<and> j = i + of_nat k \<and> (\<forall>m<k. cc_name (cols ! m) \<noteq> n))"
proof (induction cols arbitrary: i)
  case (Cons c cols)
  show ?case
  proof (cases "cc_name c = n")
    case True
    then show ?thesis by (auto simp: less_Suc_eq_0_disj intro: exI [of _ 0])
  next
    case False
    then have "(\<exists>k<length (c # cols). (c # cols) ! k = col \<and> cc_name col = n \<and> j = i + of_nat k \<and> (\<forall>m<k. cc_name ((c # cols) ! m) \<noteq> n)) \<longleftrightarrow>
      (\<exists>k<length cols. cols ! k = col \<and> cc_name col = n \<and> j = i + 1 + of_nat k \<and> (\<forall>m<k. cc_name (cols ! m) \<noteq> n))"
      unfolding length_Cons Ex_less_Suc2 All_less_Suc2 by (auto simp: add.assoc)
    then show ?thesis using False Cons.IH [of "i + 1"] by simp
  qed
qed simp

lemma find_position_has: "find_position n (ts_columns (tm_schema (tc_metadata ctx))) i = None \<longleftrightarrow> \<not> has_column n ctx"
proof -
  have "find_position n cols i = None \<longleftrightarrow> \<not> list_ex (\<lambda>col. cc_name col = n) cols" for cols
    by (induction cols arbitrary: i) simp_all
  then show ?thesis by (simp add: has_column_def)
qed

section \<open>What can be bound\<close>

fun known_calls :: "expression \<Rightarrow> bool" where
  "known_calls (FunctionCallExpression n args d) \<longleftrightarrow> function_return_type (map lower_char n) \<noteq> None \<and> list_all known_calls args"
| "known_calls _ \<longleftrightarrow> False"

fun call_type :: "expression \<Rightarrow> type_id option" where
  "call_type (FunctionCallExpression n args d) = function_return_type (map lower_char n)"
| "call_type _ = None"

text \<open>A bound expression whose types are those of the functions it applies.\<close>

fun typed :: "bound_expression \<Rightarrow> bool" where
  "typed (BoundFunction n args t) \<longleftrightarrow> function_return_type (map lower_char n) = Some t \<and> list_all typed args"
| "typed _ \<longleftrightarrow> False"

text \<open>The expression a bound expression stands for, up to \<open>DISTINCT\<close>.\<close>

fun stands_for :: "bound_expression \<Rightarrow> expression \<Rightarrow> bool" where
  "stands_for (BoundFunction n args t) (FunctionCallExpression n' args' d) \<longleftrightarrow> n' = n \<and> list_all2 stands_for args args'"
| "stands_for _ _ \<longleftrightarrow> False"

lemma function_types: "function_return_type n = Some t \<Longrightarrow> t \<in> {Integer_t, Array_t, JSON_t, DICT_t, Boolean_t, Text_t}"
  by (simp add: function_return_type_def split: if_splits)

lemma bind_expression_sound:
  "bind_expression e = Inr b \<Longrightarrow> typed b \<and> stands_for b e \<and> known_calls e \<and> call_type e = Some (result_type b)"
  "bind_arguments es = Inr bs \<Longrightarrow> list_all typed bs \<and> list_all2 stands_for bs es \<and> list_all known_calls es"
  by (induction e and es arbitrary: b and bs rule: bind_expression_bind_arguments.induct) (auto split: sum.splits option.splits)

lemma bind_expression_complete:
  "known_calls e \<Longrightarrow> \<exists>b. bind_expression e = Inr b"
  "list_all known_calls es \<Longrightarrow> \<exists>bs. bind_arguments es = Inr bs"
  by (induction e and es rule: bind_expression_bind_arguments.induct) (auto split: sum.splits option.splits)

lemma bind_expression_status:
  "bind_expression e = Inl s \<Longrightarrow> s = Unsupported \<or> s = NotFound"
  "bind_arguments es = Inl s \<Longrightarrow> s = Unsupported \<or> s = NotFound"
  by (induction e and es rule: bind_expression_bind_arguments.induct) (auto split: sum.splits option.splits)

lemma bind_projection_sound:
  "bind_projection cols = Inr bs \<Longrightarrow> list_all typed bs \<and> list_all2 (\<lambda>b x. stands_for b (rc_expr x)) bs cols \<and> list_all (known_calls \<circ> rc_expr) cols"
  by (induction cols arbitrary: bs) (auto split: sum.splits dest: bind_expression_sound)

lemma bind_projection_complete: "list_all (known_calls \<circ> rc_expr) cols \<Longrightarrow> \<exists>bs. bind_projection cols = Inr bs"
  by (induction cols) (auto split: sum.splits dest: bind_expression_complete(1))

text \<open>The contexts of the tables of a select statement.\<close>

definition context_of :: "catalog \<Rightarrow> table_reference \<Rightarrow> table_context \<Rightarrow> bool" where
  "context_of c r ctx \<longleftrightarrow> find_table 1 (tr_table_name r) c = Inr (Inr (tc_metadata ctx)) \<and> tc_table_id ctx = tm_table_id (tc_metadata ctx) \<and>
     tc_table_name ctx = tr_table_name r \<and> tc_alias ctx = (if tr_alias r = [] then tr_table_name r else tr_alias r)"

lemma add_table_cases:
  "(\<exists>e. find_table 1 n c = Inl e \<and> add_table c n a active = (active, Inl e)) \<or>
   (\<exists>s. find_table 1 n c = Inr (Inl s) \<and> s = NotFound \<and> add_table c n a active = (active, Inr s)) \<or>
   (\<exists>ctx. context_of c \<lparr>tr_table_name = n, tr_alias = a\<rparr> ctx \<and> add_table c n a active = (active @ [ctx], Inr OK))"
  by (auto simp: add_table_def context_of_def find_table_def split: option.splits)

lemma context_of_cong: "context_of c \<lparr>tr_table_name = tr_table_name r, tr_alias = tr_alias r\<rparr> ctx \<longleftrightarrow> context_of c r ctx"
  by (simp add: context_of_def)

lemma context_of_unique: "context_of c r x \<Longrightarrow> context_of c r y \<Longrightarrow> x = y"
  by (simp add: context_of_def)

lemma contexts_exist:
  "(\<exists>ctxs. list_all2 (context_of c) rs ctxs) \<longleftrightarrow> list_all (\<lambda>r. \<exists>t. find_table 1 (tr_table_name r) c = Inr (Inr t)) rs"
proof (induction rs)
  case (Cons r rs)
  have "(\<exists>ctx. context_of c r ctx) \<longleftrightarrow> (\<exists>t. find_table 1 (tr_table_name r) c = Inr (Inr t))"
  proof
    assume "\<exists>t. find_table 1 (tr_table_name r) c = Inr (Inr t)"
    then obtain t where "find_table 1 (tr_table_name r) c = Inr (Inr t)" by blast
    then have "context_of c r \<lparr>tc_table_id = tm_table_id t, tc_table_name = tr_table_name r,
      tc_alias = (if tr_alias r = [] then tr_table_name r else tr_alias r), tc_metadata = t\<rparr>" by (simp add: context_of_def)
    then show "\<exists>ctx. context_of c r ctx" by blast
  qed (auto simp: context_of_def)
  then show ?case using Cons.IH by (auto simp: list_all2_Cons1)
qed simp

lemma add_tables_ok:
  "add_tables c rs active = (active', Inr OK) \<longleftrightarrow> (\<exists>ctxs. active' = active @ ctxs \<and> list_all2 (context_of c) rs ctxs)"
proof (induction rs arbitrary: active)
  case (Cons r rs)
  consider e where "find_table 1 (tr_table_name r) c = Inl e" "add_table c (tr_table_name r) (tr_alias r) active = (active, Inl e)"
    | "find_table 1 (tr_table_name r) c = Inr (Inl NotFound)" "add_table c (tr_table_name r) (tr_alias r) active = (active, Inr NotFound)"
    | ctx where "context_of c r ctx" "add_table c (tr_table_name r) (tr_alias r) active = (active @ [ctx], Inr OK)"
    using add_table_cases [of "tr_table_name r" c "tr_alias r" active] context_of_cong by auto
  then show ?case
  proof cases
    case (3 ctx)
    then have "add_tables c (r # rs) active = add_tables c rs (active @ [ctx])" by simp
    also have "\<dots> = (active', Inr OK) \<longleftrightarrow> (\<exists>ctxs. active' = active @ ctx # ctxs \<and> list_all2 (context_of c) rs ctxs)"
      using Cons.IH [of "active @ [ctx]"] by simp
    also have "\<dots> \<longleftrightarrow> (\<exists>ctxs. active' = active @ ctxs \<and> list_all2 (context_of c) (r # rs) ctxs)"
      unfolding list_all2_Cons1 using 3(1) context_of_unique [OF 3(1)] by blast
    finally show ?thesis .
  qed (auto simp: list_all2_Cons1 context_of_def)
qed auto

lemma bind_where_ok:
  "(\<exists>w. bind_where e = Inr w) \<longleftrightarrow> (case e of None \<Rightarrow> True | Some e \<Rightarrow> known_calls e \<and> call_type e = Some Boolean_t)"
proof (cases e)
  case (Some x)
  show ?thesis
  proof (cases "bind_expression x")
    case (Inl s)
    then have "\<not> known_calls x" using bind_expression_complete(1) [of x] by auto
    then show ?thesis using Inl Some by (simp add: bind_where_def)
  next
    case (Inr b)
    then show ?thesis using bind_expression_sound(1) [OF Inr] Some by (simp add: bind_where_def)
  qed
qed (simp add: bind_where_def)

lemma add_tables_status:
  assumes "cat_ok c"
  shows "\<exists>active' s. add_tables c rs active = (active', Inr s) \<and> s \<in> {OK, NotFound}"
proof (induction rs arbitrary: active)
  case (Cons r rs)
  then show ?case using add_table_cases [of "tr_table_name r" c "tr_alias r" active] cat_ok_find(2) [OF assms] by auto
qed simp

lemma bind_where_status:
  "bind_where e = Inl s \<Longrightarrow> s \<in> {NotFound, Unsupported, InvalidArgument}"
  "bind_where e = Inr (Some w) \<Longrightarrow> typed w \<and> result_type w = Boolean_t"
  using bind_expression_status(1) bind_expression_sound(1) by (fastforce simp: bind_where_def split: option.splits sum.splits if_splits)+

lemma bind_projection_status: "bind_projection cols = Inl s \<Longrightarrow> s \<in> {NotFound, Unsupported}"
  by (induction cols) (auto split: sum.splits dest: bind_expression_status)

lemma typed_valid: "typed b \<Longrightarrow> result_type b \<noteq> Invalid_t"
  using function_types by (cases b) fastforce+

lemma bind_select_ok:
  "(\<exists>b. bind_select c cols tables w active = (active', Inr (Inr b))) \<longleftrightarrow>
     (\<exists>ctxs. active' = active @ ctxs \<and> list_all2 (context_of c) tables ctxs) \<and>
     (case w of None \<Rightarrow> True | Some e \<Rightarrow> known_calls e \<and> call_type e = Some Boolean_t) \<and> list_all (known_calls \<circ> rc_expr) cols"
proof -
  have "(\<exists>b. bind_select c cols tables w active = (active', Inr (Inr b))) \<longleftrightarrow>
    add_tables c tables active = (active', Inr OK) \<and> (\<exists>v. bind_where w = Inr v) \<and> (\<exists>bs. bind_projection cols = Inr bs)"
    by (auto simp: bind_select_def split: prod.splits sum.splits)
  then show ?thesis using add_tables_ok [of c tables active active'] bind_where_ok [of w] bind_projection_sound bind_projection_complete by blast
qed

lemma context_schema_ok:
  assumes "cat_ok c" "context_of c r ctx"
  shows "ts_ok (tm_schema (tc_metadata ctx))"
proof -
  have "find_table_by_id (tm_table_id (tc_metadata ctx)) c = Inr (tc_metadata ctx)"
    using assms by (simp add: context_of_def cat_ok_find(1) [OF assms(1)])
  then have "map_of (cg_tables c) (ucast (tm_table_id (tc_metadata ctx))) = Some (tc_metadata ctx)" by (simp add: find_table_by_id_def split: option.splits)
  moreover have "tables_ok c" using assms(1) by (simp add: cat_ok_def)
  ultimately show ?thesis using tables_okD(1) by blast
qed

lemma column_of_position:
  assumes "ts_ok s" "find_position n (ts_columns s) 0 = Some (col, k)"
  shows "column_by_name s n = Inr col" "unat k < length (ts_columns s)" "ts_columns s ! unat k = col"
proof -
  obtain m where m: "m < length (ts_columns s)" "ts_columns s ! m = col" "cc_name col = n" "k = of_nat m"
    using assms(2) by (auto simp: find_position_iff)
  have "m < 2 ^ 32" using assms(1) m(1) by (simp add: ts_ok_def)
  then have u: "unat k = m" using m(4) by (simp add: unat_of_nat_fits)
  then show "unat k < length (ts_columns s)" "ts_columns s ! unat k = col" using m by simp_all
  have "map_of (ts_name_to_index s) n = Some k" using assms(1) m by (auto simp: ts_ok_def)
  then show "column_by_name s n = Inr col" using u m by (simp add: column_by_name_def)
qed

lemma has_column_iff:
  assumes "ts_ok (tm_schema (tc_metadata ctx))"
  shows "has_column n ctx \<longleftrightarrow> (\<exists>col. column_by_name (tm_schema (tc_metadata ctx)) n = Inr col)"
proof
  assume "has_column n ctx"
  then obtain col k where "find_position n (ts_columns (tm_schema (tc_metadata ctx))) 0 = Some (col, k)"
    using find_position_has [of n ctx 0] by fastforce
  then show "\<exists>col. column_by_name (tm_schema (tc_metadata ctx)) n = Inr col" using column_of_position(1) [OF assms] by blast
next
  assume "\<exists>col. column_by_name (tm_schema (tc_metadata ctx)) n = Inr col"
  then obtain k where "map_of (ts_name_to_index (tm_schema (tc_metadata ctx))) n = Some k" by (auto simp: column_by_name_def split: option.splits)
  then show "has_column n ctx" using assms by (force simp: ts_ok_def has_column_def list_ex_iff)
qed

lemma parsed_select:
  assumes "parse_statement (Parser_init sql) = Some (Inr st, p)"
  obtains cols tables w where "st = SelectStatement cols tables w"
proof (cases "tokenize sql")
  case (Inl s)
  then show ?thesis using assms by (simp add: parse_statement_def Parser_init_def p_bind_def token_at_def p_fail_def)
next
  case (Inr toks)
  have "\<exists>ts. select_toks st ts" using runs_statement [OF Parser_init_ok(1,2) [OF Inr]] assms by (auto simp: runs_def item_read_def)
  then show ?thesis using that by (auto elim: select_toks.cases)
qed

text \<open>The active tables that have a column and whose alias fits.\<close>

definition column_owners :: "table_context list \<Rightarrow> string \<Rightarrow> string \<Rightarrow> nat set" where
  "column_owners active col_name table_alias =
     {i. i < length active \<and> (table_alias = [] \<or> tc_alias (active ! i) = table_alias) \<and>
       (\<exists>col. column_by_name (tm_schema (tc_metadata (active ! i))) col_name = Inr col)}"

section \<open>Properties\<close>

text \<open>C11. Column names resolve as the catalog says. Let the active tables be tables of a coherent catalog, and take those whose alias fits and whose
  schema has the column. With none of them the answer is \<open>NotFound\<close>, with two or more \<open>InvalidArgument\<close>; with exactly one it is
  the column \<open>column_by_name\<close> finds in its schema, with its id, its type and its position.\<close>
theorem resolve_column_catalog:
  assumes "cat_ok c" "list_all2 (context_of c) rs active"
  shows "(column_owners active col_name table_alias = {} \<and> resolve_column active col_name table_alias = Inl NotFound) \<or>
    (\<exists>i col k. column_owners active col_name table_alias = {i} \<and> column_by_name (tm_schema (tc_metadata (active ! i))) col_name = Inr col \<and>
       ts_columns (tm_schema (tc_metadata (active ! i))) ! unat k = col \<and>
       resolve_column active col_name table_alias = Inr (BoundColumnRef (tm_table_id (tc_metadata (active ! i))) (cc_id col) (cc_type col) k)) \<or>
    (2 \<le> card (column_owners active col_name table_alias) \<and> resolve_column active col_name table_alias = Inl InvalidArgument)"
proof -
  let ?M = "column_owners active col_name table_alias"
  let ?P = "\<lambda>ctx. (table_alias = [] \<or> tc_alias ctx = table_alias) \<and> has_column col_name ctx"
  have ctx: "ts_ok (tm_schema (tc_metadata (active ! i)))" "tc_table_id (active ! i) = tm_table_id (tc_metadata (active ! i))" if "i < length active" for i
    using that assms(2) context_schema_ok [OF assms(1)] by (auto simp: list_all2_conv_all_nth context_of_def)
  have M: "?M = {i. i < length active \<and> ?P (active ! i)}" using has_column_iff [OF ctx(1)] by (auto simp: column_owners_def)
  then have card: "card ?M = length (filter ?P active)" by (simp add: length_filter_conv_card)
  have fin: "finite ?M" by (simp add: M)
  consider "filter ?P active = []" | x where "filter ?P active = [x]" | x y zs where "filter ?P active = x # y # zs"
    by (metis list.exhaust)
  then show ?thesis
  proof cases
    case 1
    then have "?M = {}" using card fin by simp
    then show ?thesis using 1 by (simp add: resolve_column_def)
  next
    case (2 x)
    then obtain i where i: "?M = {i}" using card card_1_singletonE [of ?M] by auto
    then have a: "i < length active" "?P (active ! i)" using M by auto
    then have "active ! i \<in> set (filter ?P active)" by auto
    then have x: "x = active ! i" using 2 by simp
    obtain col k where f: "find_position col_name (ts_columns (tm_schema (tc_metadata x))) 0 = Some (col, k)"
      using a(2) x find_position_has [of col_name x 0] by fastforce
    show ?thesis using i 2 f x column_of_position [OF ctx(1) [OF a(1)]] ctx(2) [OF a(1)] by (auto simp: resolve_column_def)
  next
    case (3 x y zs)
    then show ?thesis using card by (simp add: resolve_column_def)
  qed
qed


lemma example_table:
  obtains c t where "cat_ok c" "find_table 1 ''t'' c = Inr (Inr t)" "ts_columns (tm_schema t) = fresh_columns 1 (ts_columns example_columns)"
proof -
  obtain c' bp' where r: "create_table 1 ''t'' example_columns example_catalog catalog_pool = (c', bp', Inr (Inr 1))" "cat_ok c'"
    using example_create_table by blast
  obtain k ts bp1 h where "map_of (cg_schemas example_catalog) 1 \<noteq> None" "map_of (at_key (cg_table_names example_catalog) 1) ''t'' = None"
    and C: "assign_columns (ts_columns example_columns) (cg_next_column_id example_catalog) TableSchema_init = (k, Inr ts)"
    and "heap_create catalog_pool = (bp1, Inr (Inr h))" "(1 :: table_id) = ucast (cg_next_table_id example_catalog)"
    and c': "c' = with_table (table_row 1 ''t'' ts example_catalog (th_first_page_id h)) k example_catalog" "catalog_save c' bp1 = (bp', Inr (Inr ()))"
    by (rule create_table_success [OF r(1)])
  let ?t = "table_row 1 ''t'' ts example_catalog (th_first_page_id h)"
  have n: "cg_next_column_id example_catalog = 1" by (simp add: example_catalog_def new_schema_def Catalog_init_def Let_def)
  have "ts_columns ts = fresh_columns 1 (ts_columns example_columns)"
    using assign_columns_ok [OF ts_ok_init _ _ _ C] by (auto simp: TableSchema_init_def example_columns_def n split: if_splits)
  moreover have "find_table 1 ''t'' c' = Inr (Inr ?t)"
    using find_with_table [OF example_catalog_ok(1), of ?t] by (simp add: c'(1) table_row_def)
  ultimately show ?thesis using that [OF r(2), of ?t] by (simp add: table_row_def)
qed

theorem resolve_column_catalog_witness:
  "\<exists>c active t. list_all2 (context_of c) [\<lparr>tr_table_name = ''t'', tr_alias = []\<rparr>] active \<and> cat_ok c \<and>
     resolve_column active ''b'' [] = Inr (BoundColumnRef t 2 VarChar_t 1)"
proof -
  obtain c t where c: "cat_ok c" "find_table 1 ''t'' c = Inr (Inr t)" "ts_columns (tm_schema t) = fresh_columns 1 (ts_columns example_columns)"
    by (rule example_table)
  let ?x = "\<lparr>tc_table_id = tm_table_id t, tc_table_name = ''t'', tc_alias = ''t'', tc_metadata = t\<rparr>"
  have x: "list_all2 (context_of c) [\<lparr>tr_table_name = ''t'', tr_alias = []\<rparr>] [?x]" using c(2) by (simp add: context_of_def)
  have cols: "ts_columns (tm_schema t) = [fresh_column 1 (Column_init 0 ''a'' Integer_t 0 False), fresh_column 2 (Column_init 0 ''b'' VarChar_t 1 True)]"
    by (simp add: c(3) example_columns_def)
  have h: "has_column ''b'' ?x" by (simp add: has_column_def cols fresh_column_def Column_init_def Let_def)
  then have "column_owners [?x] ''b'' [] = {0}"
    using has_column_iff [OF context_schema_ok [OF c(1)], of _ ?x "''b''"] x by (auto simp: column_owners_def)
  then have "\<exists>b. resolve_column [?x] ''b'' [] = Inr b" using resolve_column_catalog [OF c(1) x, of "''b''" "[]"] by auto
  moreover have "resolve_column [?x] ''b'' [] = Inr (BoundColumnRef (tm_table_id t) 2 VarChar_t 1)"
    using h by (simp add: resolve_column_def cols fresh_column_def Column_init_def Let_def)
  ultimately show ?thesis using x c(1) by blast
qed


text \<open>The text \<open>select JSON_type ( ) ; \<close>, for the example of a query.\<close>

lemma json_type_text:
  "list_all2 (\<lambda>(w, bs) t. spells w t \<and> bs \<noteq> [] \<and> list_all is_blank bs)
     [(''select'', '' ''), (''JSON_type'', '' ''), (''('', '' ''), ('')'', '' ''), ('';'', '' '')]
     (map token_view [Token_init TK_Select ''SELECT'' SourceLocation_init, Token_init TK_Identifier ''JSON_type'' SourceLocation_init,
        Token_init TK_LeftParen ''('' SourceLocation_init, Token_init TK_RightParen '')'' SourceLocation_init] @ [(TK_Semicolon, '';'')] @ [])"
proof -
  have u: "keyword_to_upper ''select'' = ''SELECT''" "keyword_to_upper ''JSON_type'' = ''JSON_TYPE''" by code_simp+
  have i: "ident_text ''select''" "ident_text ''JSON_type''" by (simp_all add: ident_text_def ident_char_def is_alnum_def is_alpha_def is_digit_def)
  have "spells ''select'' (TK_Select, ''SELECT'')" using spells.kw [OF i(1), of TK_Select] u by (simp add: k_keywords_def)
  moreover have "spells ''JSON_type'' (TK_Identifier, ''JSON_type'')" using spells.ident [OF i(2)] u by (simp add: k_keywords_def)
  moreover have "spells ''('' (TK_LeftParen, ''('')" "spells '')'' (TK_RightParen, '')'')" "spells '';'' (TK_Semicolon, '';'')"
    by (rule spells.symbol, simp add: symbols_def)+
  ultimately show ?thesis by (simp add: is_blank_def)
qed

lemma json_type_toks:
  "select_toks (SelectStatement [\<lparr>rc_expr = FunctionCallExpression ''JSON_type'' [] False, rc_alias = []\<rparr>] [] None)
     [Token_init TK_Select ''SELECT'' SourceLocation_init, Token_init TK_Identifier ''JSON_type'' SourceLocation_init,
      Token_init TK_LeftParen ''('' SourceLocation_init, Token_init TK_RightParen '')'' SourceLocation_init]"
proof -
  let ?x = "Token_init TK_Identifier ''JSON_type'' SourceLocation_init" and ?l = "Token_init TK_LeftParen ''('' SourceLocation_init"
    and ?r = "Token_init TK_RightParen '')'' SourceLocation_init"
  have "expr_toks (FunctionCallExpression ''JSON_type'' [] False) [?x, ?l, ?r]"
    using expr_toks_args_toks.call_empty [of ?x ?l False "[]" ?r] by (simp add: Token_init_def distinct_toks_def)
  then have "list_toks column_toks [\<lparr>rc_expr = FunctionCallExpression ''JSON_type'' [] False, rc_alias = []\<rparr>] [?x, ?l, ?r]"
    by (intro list_toks.last column_toks.plain)
  from select_toks.select [of "Token_init TK_Select ''SELECT'' SourceLocation_init" _ "[?x, ?l, ?r]" "[]" "[]" None "[]", OF _ disjI2 [OF this]]
  show ?thesis by (simp add: Token_init_def from_toks_def where_toks_def)
qed

end
