(* ===== verification/Spec2Isabelle.thy ===== *)
theory Spec2Isabelle
  imports Recovery Query_Binder
begin

text \<open>
  KlyroDB, an embedded database in C++: paged storage, buffer pool, write-ahead log, transactions,
  tables of typed rows, catalog, and the SQL front end up to the planner.

  \<^bold>\<open>The program and its model.\<close> A database is a file of checksummed pages. Pages are cached in frames
  by the buffer pool, which evicts by the clock policy and flushes the log before a page.
  Records live in slotted pages; a table heap chains such pages and keeps versions of rows, whose
  visibility the transaction layer decides. The catalog names tables and creates their heaps. SQL
  text becomes tokens, a statement, a bound statement and a logical plan. Each theory opens with the
  files it models; definitions carry the names of the code. The theories, from the bottom up:

  \<^item> \<open>Klyro_Prelude\<close>, \<open>Core_Base\<close>, \<open>Std_Text\<close>: buffers, words and their little-endian bytes, status
    codes (\<open>core/status.hpp\<close>), \<open>Result<T>\<close>, strong ids, and the text conversions of the standard library.
  \<^item> \<open>Byte_Codec\<close>, \<open>Page_Format\<close>: \<open>serialization.hpp\<close>, \<open>checksum.cpp\<close>, page and database headers. The
    table-driven CRC is the bit-serial one; encoding and decoding of the headers are inverse.
  \<^item> \<open>File_Manager\<close>, \<open>Disk_Manager\<close>: a file with injected faults, pages with checksums, allocation and
    release of pages. A page is read back as it was written, damage is reported, pages in use are
    never handed out; \<open>create\<close> always fails.
  \<^item> \<open>Clock_Replacer\<close>, \<open>Buffer_Pool\<close>, \<open>Page_Cache\<close>: victims, frames and page handles. The invariant
    \<open>bp_ok\<close> relates frames, page table, free list and replacer; \<open>pool_view\<close> is what users see of a page. A
    changed page survives evictions, fetching succeeds whenever a frame can be had, and the log is
    durable before a page is written.
  \<^item> \<open>Wal_Record\<close>, \<open>Wal_Manager\<close>, \<open>Recovery\<close>: log records with their CRC, segments, buffering and
    flushing, the log reader, checkpoints and the three phases of recovery. Records decode to what was
    encoded, a flush makes records durable; recovery reads nothing, because no segment can be opened.
  \<^item> \<open>Wait_For_Graph\<close>, \<open>Lock_Manager\<close>, \<open>Transactions\<close>: deadlock search, the lock table as an
    interleaving of steps cut where threads wait, snapshots, visibility, begin, commit and abort. Holders
    of a lock are compatible in every run, the search finds exactly the cycles, visibility is
    snapshot isolation, and a commit that fits the log buffer is durable.
  \<^item> \<open>Table_Page\<close>, \<open>Tuple_Record\<close>, \<open>Table_Heap\<close>: slotted pages on bytes, the record format, and heaps with
    versions. Page operations implement updates of a map from slots to records, compaction keeps it,
    rows are read back as stored, inserting into a heap adds one entry to a map from record ids to
    records, and deleting marks one version.
  \<^item> \<open>Sql_Types\<close>, \<open>Decimal_Number\<close>, \<open>Sql_Value\<close>, \<open>Value_Codec\<close>: types, decimals, temporal values, UUIDs,
    JSON, arrays, dictionaries, comparison, hashing, casts and the byte format. Decimal comparison and
    arithmetic are exact on rationals or report overflow; values round-trip.
  \<^item> \<open>Catalog\<close>: \<open>catalog/\<close>. The invariant \<open>cat_ok\<close> makes names, ids and lookup maps agree; every sequence
    of operations keeps it, and creating and dropping tables are exact updates. Reloading loses
    everything but the id counters.
  \<^item> \<open>Sql_Lexer\<close>, \<open>Sql_Parser\<close>, \<open>Query_Binder\<close>: \<open>sql/\<close> and \<open>execution/\<close>. Tokens stay within the text
    and are read as spelled; the expression parser is equivalent to a grammar of token lists with
    precedence; parsing ends for every text; column names resolve as the catalog says; bound statements
    are typed. This theory composes the three.

  \<^bold>\<open>State, errors, effects.\<close> A class is a record and a method a function from the state to the state
  afterwards and a result: \<open>status + 'a\<close> for \<open>Result\<close>, \<open>exn + 'a\<close> where an exception can leave the
  method, and \<open>exn + (status + 'a)\<close> for both. Machine integers are words, and casts and wrap-around are
  those of the code. Sizes bounded by the length of a buffer in memory are natural numbers. Structs that the code overlays
  on a page are offsets into its bytes, laid out as on x86-64.

  \<^bold>\<open>Interfaces.\<close> The locales \<open>replacer\<close>, \<open>page_store\<close>, \<open>page_cache\<close>, \<open>record_page\<close> and \<open>keyed_table\<close> state
  what one component promises the next: the clock, the disk manager, the buffer pool, the table page
  and a shard of the lock table are their instances, and the properties of the clients come from them.

  \<^bold>\<open>Loops and fuel.\<close> Loops over an input position are functions with a measure. Following page
  links, version chains and the log are \<open>partial_function\<close>s with \<open>None\<close> for a loop that does not end.
  Inserting into a heap, reading a row just inserted and recovery are shown to give \<open>Some\<close>; nothing is claimed of the loop
  \<open>place_version\<close> of \<open>TableHeap::update\<close> or of longer version chains. The deadlock search gets one more unit of fuel than the graph has
  nodes, and the parser three per token and three more; both are shown to suffice. The clock search
  makes two turns, which is what the code allows it.

  \<^bold>\<open>Parameters.\<close> The standard hash functions, the listing of a directory, the padding bytes of a
  struct and the faults of the operating system are arguments or parts of the state, and the theorems
  hold for every choice unless they say otherwise.

  \<^bold>\<open>Not modelled.\<close> The B+ tree under \<open>index/\<close>, apart from \<open>BPlusTree::create\<close>, whose effect is part of
  \<open>create_index\<close>; no other modelled operation calls it. A tree of one leaf is well defined and left for
  later. Once the root has split, a search below the separator reads slot 0 of the new root, which was
  never written. The runtime under \<open>runtime/\<close>: threads, condition variables, clocks and
  allocators around opaque tasks. The API under \<open>api/\<close> and the Python package: their query entry points return
  \<open>Unsupported\<close>. Page latches, lock handles and the slot directory, which nothing modelled uses. Logging,
  version and error constants. \<open>drop_schema\<close>, \<open>drop_index\<close>, \<open>find_index\<close>, \<open>find_indexes_for_table\<close> and the
  members of \<open>Binder\<close> without a body. Races between threads inside one operation of the buffer pool,
  the catalog or the transaction manager: each runs as one step, under its mutex.
\<close>

section \<open>Properties across components\<close>



end
